(* ===== verification/Prelude.thy ===== *)
theory Prelude
  imports Main "HOL-Library.Word"
begin

text \<open>
  Shared vocabulary of the development: Go's fixed-width integers, errors and panics as
  values of a sum type, slices and big-endian codecs (package \<^verbatim>\<open>encoding/binary\<close>) on byte
  lists, and the generic lemmas on lists, words and results that the component theories use.
  Nothing in this theory models a file of \<^verbatim>\<open>src/\<close>; it models what the sources use of the
  language and its standard library.
\<close>

unbundle bit_operations_syntax

named_theorems codec_simps \<open>rewrite rules for byte codecs\<close>
named_theorems go_simps \<open>rewrite rules for slices, results and machine integers\<close>

section \<open>Machine integers\<close>

type_synonym byte = "8 word"
type_synonym u16 = "16 word"
type_synonym u32 = "32 word"
type_synonym u64 = "64 word"

text \<open>A Go \<^verbatim>\<open>string\<close> is a sequence of bytes; \<open>bytes_of\<close> reads an Isabelle literal as one.\<close>

type_synonym gostring = "byte list"

definition bytes_of :: "string \<Rightarrow> gostring" where
  "bytes_of s = map of_char s"

text \<open>Two's complement wrap-around at 32 bits, for Go's \<^verbatim>\<open>int32\<close>.\<close>

definition i32 :: "int \<Rightarrow> int" where
  "i32 x = (x + 2147483648) mod 4294967296 - 2147483648"

lemma i32_id [simp, go_simps]: "- 2147483648 \<le> x \<Longrightarrow> x < 2147483648 \<Longrightarrow> i32 x = x"
  by (simp add: i32_def mod_pos_pos_trivial)

lemma i32_range: "- 2147483648 \<le> i32 x" "i32 x < 2147483648"
  by (simp_all add: i32_def)

lemma unat_byte: "unat (w :: byte) < 256"
  using unsigned_less [where ?'a = nat and w = w] by simp

lemma uint_byteE: obtains n where "n \<le> 255" "uint (w :: byte) = int n"
proof
  show "unat w \<le> 255" using unat_byte [of w] by simp
  show "uint w = int (unat w)" by (rule uint_nat)
qed

lemma unat_u16: "unat (w :: u16) < 65536"
  using unsigned_less [where ?'a = nat and w = w] by simp

lemma unat_u32: "unat (w :: u32) < 4294967296"
  using unsigned_less [where ?'a = nat and w = w] by simp

text \<open>
  Sequence numbers: 32-bit counters that wrap around stand for the natural numbers they
  count, as long as the numbers that are compared lie within half-open windows of size \<open>2 ^ 32\<close>.
\<close>

lemma of_nat_u32_eq:
  assumes "(of_nat i :: u32) = of_nat k" "k \<le> i" "i < k + 4294967296"
  shows "i = k"
proof -
  have "i mod 4294967296 = k mod 4294967296"
    using assms(1) by (simp add: word_of_nat_eq_iff take_bit_eq_mod)
  then have "(i - k) mod 4294967296 = 0"
    using assms(2) by (simp add: mod_eq_dvd_iff_nat [OF assms(2)])
  moreover have "(i - k) mod 4294967296 = i - k" using assms(3) by simp
  ultimately show ?thesis using assms(2) by simp
qed

lemma unat_diff_of_nat:
  assumes "k \<le> i" "i < k + 4294967296"
  shows "unat (of_nat i - of_nat k :: u32) = i - k"
proof -
  have "(of_nat i - of_nat k :: u32) = of_nat (i - k)" using assms(1) by (simp add: of_nat_diff)
  then have "unat (of_nat i - of_nat k :: u32) = unat (of_nat (i - k) :: u32)" by (rule arg_cong)
  also have "\<dots> = i - k" using assms by (simp only: unat_of_nat) simp
  finally show ?thesis .
qed

lemma u32_window:
  assumes "(of_nat i - of_nat k :: u32) < ws" "i < k + 4294967296" "k + unat ws \<le> i + 4294967296"
  shows "k \<le> i \<and> i < k + unat ws"
proof (cases "k \<le> i")
  case True
  with assms show ?thesis by (simp add: word_less_nat_alt unat_diff_of_nat)
next
  case False
  then have "(of_nat i - of_nat k :: u32) = of_nat (i + 4294967296) - of_nat k" by simp
  with assms(1,3) False unat_diff_of_nat [of k "i + 4294967296"] show ?thesis
    by (simp add: word_less_nat_alt)
qed

lemma unat_u32_of_nat: "n < 4294967296 \<Longrightarrow> unat (of_nat n :: u32) = n"
  by (simp add: unat_of_nat)

section \<open>Errors, panics and results\<close>

text \<open>
  A Go function that returns an error, or that can panic, is modelled by a function into
  \<open>go_error + 'a\<close>: \<open>Panic\<close> is a run-time panic (index or slice out of range, nil
  dereference, division by zero, an explicit \<^verbatim>\<open>panic\<close>), the \<^verbatim>\<open>io\<close> errors keep their
  identity because the code compares them, and \<open>NewError m\<close> is \<^verbatim>\<open>newError(m, ...)\<close>.
\<close>

datatype go_error =
    Panic | EOF | UnexpectedEOF | ClosedPipe | NewError string
  | BaseError string go_error | ReadError go_error | WriteError go_error

text \<open>
  \<open>BaseError m e\<close> is \<^verbatim>\<open>newError(m).Base(e)\<close>, the other two are the wrappers \<^verbatim>\<open>readError\<close> and
  \<^verbatim>\<open>writeError\<close> of \<^verbatim>\<open>buf.Copy\<close>. \<open>Cause\<close> is \<^verbatim>\<open>errors.Cause\<close>, which follows the wrapped errors. A panic
  is not an error value and is never wrapped.
\<close>

fun Cause :: "go_error \<Rightarrow> go_error" where
  "Cause (BaseError m e) = Cause e"
| "Cause (ReadError e) = Cause e"
| "Cause (WriteError e) = Cause e"
| "Cause e = e"

definition with_base :: "string \<Rightarrow> go_error + 'a \<Rightarrow> go_error + 'a" where
  "with_base m r = (case r of Inl e \<Rightarrow> Inl (if e = Panic then Panic else BaseError m e) | Inr x \<Rightarrow> Inr x)"

lemma with_base_simps [simp]:
  "with_base m (Inr x) = Inr x" "with_base m (Inl Panic) = Inl Panic"
  "with_base m r = Inl Panic \<longleftrightarrow> r = Inl Panic" "with_base m r = Inr x \<longleftrightarrow> r = Inr x"
  by (auto simp: with_base_def split: sum.splits)

type_synonym 'a result = "go_error + 'a"

definition bind_res :: "'a result \<Rightarrow> ('a \<Rightarrow> 'b result) \<Rightarrow> 'b result" where
  "bind_res r f = (case r of Inl e \<Rightarrow> Inl e | Inr x \<Rightarrow> f x)"

lemma bind_res_simps [simp, go_simps]:
  "bind_res (Inl e) f = Inl e"
  "bind_res (Inr x) f = f x"
  by (simp_all add: bind_res_def)

lemma bind_res_Inr [simp, go_simps]: "bind_res r Inr = r"
  by (cases r) simp_all

lemma bind_res_Inr_iff:
  "bind_res r f = Inr y \<longleftrightarrow> (\<exists>x. r = Inr x \<and> f x = Inr y)"
  by (cases r) auto

lemma bind_res_assoc: "bind_res (bind_res r f) g = bind_res r (\<lambda>x. bind_res (f x) g)"
  by (cases r) auto

text \<open>
  \<open>safe r P\<close>: the computation does not panic, and its result, if there is one, satisfies
  \<open>P\<close>. The rule for \<open>bind_res\<close> composes such facts along the source's statements.
\<close>

definition safe :: "'a result \<Rightarrow> ('a \<Rightarrow> bool) \<Rightarrow> bool" where
  "safe r P = (case r of Inl e \<Rightarrow> e \<noteq> Panic | Inr x \<Rightarrow> P x)"

lemma safe_simps [simp]: "safe (Inl e) P \<longleftrightarrow> e \<noteq> Panic" "safe (Inr x) P \<longleftrightarrow> P x"
  by (simp_all add: safe_def)

lemma safe_bind: "safe r P \<Longrightarrow> (\<And>x. P x \<Longrightarrow> safe (f x) Q) \<Longrightarrow> safe (bind_res r f) Q"
  by (cases r) auto

lemma safe_mono: "safe r P \<Longrightarrow> (\<And>x. P x \<Longrightarrow> Q x) \<Longrightarrow> safe r Q"
  by (cases r) auto

lemma safe_with_base [simp]: "safe (with_base m r) P \<longleftrightarrow> safe r P"
  by (cases r) (auto simp: with_base_def)

lemma safe_not_Panic: "safe r P \<Longrightarrow> r \<noteq> Inl Panic"
  by (cases r) auto

section \<open>Slices\<close>

text \<open>
  A byte slice is a list of bytes; its capacity is its length. \<open>slice lo hi v\<close> is
  \<^verbatim>\<open>v[lo:hi]\<close>, \<open>index v i\<close> is \<^verbatim>\<open>v[i]\<close>, \<open>copy_into v i xs\<close> is \<^verbatim>\<open>copy(v[i:], xs)\<close> and
  \<open>put v i xs\<close> stores all of \<open>xs\<close> at offset \<open>i\<close>, as \<^verbatim>\<open>PutUint16\<close> and \<^verbatim>\<open>PutUint32\<close> do.
\<close>

definition slice :: "int \<Rightarrow> int \<Rightarrow> 'a list \<Rightarrow> 'a list result" where
  "slice lo hi xs =
     (if 0 \<le> lo \<and> lo \<le> hi \<and> hi \<le> int (length xs)
      then Inr (take (nat hi - nat lo) (drop (nat lo) xs)) else Inl Panic)"

definition slice_from :: "nat \<Rightarrow> 'a list \<Rightarrow> 'a list result" where
  "slice_from n xs = (if n \<le> length xs then Inr (drop n xs) else Inl Panic)"

definition index :: "'a list \<Rightarrow> int \<Rightarrow> 'a result" where
  "index xs i = (if 0 \<le> i \<and> i < int (length xs) then Inr (xs ! nat i) else Inl Panic)"

definition overwrite :: "nat \<Rightarrow> 'a list \<Rightarrow> 'a list \<Rightarrow> 'a list" where
  "overwrite i ys xs = take i xs @ ys @ drop (i + length ys) xs"

definition put :: "nat \<Rightarrow> 'a list \<Rightarrow> 'a list \<Rightarrow> 'a list result" where
  "put i ys xs = (if i + length ys \<le> length xs then Inr (overwrite i ys xs) else Inl Panic)"

definition copy_into :: "nat \<Rightarrow> 'a list \<Rightarrow> 'a list \<Rightarrow> 'a list result" where
  "copy_into i ys xs =
     (if i \<le> length xs then Inr (overwrite i (take (length xs - i) ys) xs) else Inl Panic)"

lemma length_overwrite [simp]:
  "i + length ys \<le> length xs \<Longrightarrow> length (overwrite i ys xs) = length xs"
  by (simp add: overwrite_def)

lemma take_overwrite_le: "n \<le> i \<Longrightarrow> i \<le> length xs \<Longrightarrow> take n (overwrite i ys xs) = take n xs"
  by (simp add: overwrite_def min_def)

lemma take_overwrite_end:
  "i \<le> length xs \<Longrightarrow> take (i + length ys) (overwrite i ys xs) = take i xs @ ys"
  by (simp add: overwrite_def)

lemma overwrite_append_left:
  "i + length ys \<le> length xs \<Longrightarrow> overwrite i ys (xs @ zs) = overwrite i ys xs @ zs"
  by (simp add: overwrite_def)

lemma put_split:
  "i = length as \<Longrightarrow> length bs = length ys \<Longrightarrow> put i ys (as @ bs @ cs) = Inr (as @ ys @ cs)"
  by (simp add: put_def overwrite_def)

lemma slice_Inr_iff:
  "slice lo hi xs = Inr ys \<longleftrightarrow>
     0 \<le> lo \<and> lo \<le> hi \<and> hi \<le> int (length xs) \<and> ys = take (nat hi - nat lo) (drop (nat lo) xs)"
  by (auto simp: slice_def)

lemma slice_from_append [simp, codec_simps]: "n = length xs \<Longrightarrow> slice_from n (xs @ ys) = Inr ys"
  by (simp add: slice_from_def)

lemma slice_from_ok [simp]: "n \<le> length xs \<Longrightarrow> slice_from n xs = Inr (drop n xs)"
  by (simp add: slice_from_def)

lemma slice_0_unat: "unat w \<le> length xs \<Longrightarrow> slice 0 (uint w) xs = Inr (take (unat w) xs)"
proof -
  assume "unat w \<le> length xs"
  then have "slice 0 (int (unat w)) xs = Inr (take (unat w) xs)"
    unfolding slice_def by (simp del: of_nat_unat)
  then show ?thesis by simp
qed

text \<open>
  \<open>fills f i ys\<close>: on every slice that is long enough, \<open>f\<close> stores \<open>ys\<close> at offset \<open>i\<close> and keeps
  what stands before it. The rules compose such facts along a sequence of stores.
\<close>

definition fills :: "('a list \<Rightarrow> 'a list result) \<Rightarrow> nat \<Rightarrow> 'a list \<Rightarrow> bool" where
  "fills f i ys \<longleftrightarrow> (\<forall>b. i + length ys \<le> length b \<longrightarrow>
     (\<exists>b'. f b = Inr b' \<and> length b' = length b \<and> take (i + length ys) b' = take i b @ ys))"

lemma fills_put: "i = j \<Longrightarrow> fills (put i ys) j ys"
  by (simp add: fills_def put_def take_overwrite_end)

lemma fills_copy_into: "i = j \<Longrightarrow> fills (copy_into i ys) j ys"
  by (simp add: fills_def copy_into_def take_overwrite_end)

lemma fills_Inr: "fills Inr i []"
  by (simp add: fills_def)

lemma fills_bind:
  assumes "fills f i ys" "fills g (i + length ys) zs"
  shows "fills (\<lambda>b. bind_res (f b) g) i (ys @ zs)"
  unfolding fills_def
proof (intro allI impI)
  fix b :: "'a list" assume b: "i + length (ys @ zs) \<le> length b"
  with assms(1) obtain b' where b': "f b = Inr b'" "length b' = length b"
    "take (i + length ys) b' = take i b @ ys" unfolding fills_def by force
  with b assms(2) obtain b'' where "g b' = Inr b''" "length b'' = length b"
    "take (i + length ys + length zs) b'' = take (i + length ys) b' @ zs" unfolding fills_def by force
  with b' show "\<exists>b'. bind_res (f b) g = Inr b' \<and> length b' = length b
      \<and> take (i + length (ys @ zs)) b' = take i b @ ys @ zs" by (simp add: add.assoc)
qed

lemma fills_bind_Cons:
  "fills f i [y] \<Longrightarrow> fills g (Suc i) zs \<Longrightarrow> fills (\<lambda>b. bind_res (f b) g) i (y # zs)"
  using fills_bind [of f i "[y]" g zs] by simp

lemmas fills_intros = fills_bind_Cons fills_bind fills_put fills_copy_into

lemma fills_all: "fills f 0 ys \<Longrightarrow> length b = length ys \<Longrightarrow> f b = Inr ys"
  unfolding fills_def by (elim allE [of _ b]) auto

section \<open>Big-endian codecs\<close>

definition be16 :: "u16 \<Rightarrow> byte list" where
  "be16 w = [ucast (drop_bit 8 w), ucast w]"

definition be32 :: "u32 \<Rightarrow> byte list" where
  "be32 w = [ucast (drop_bit 24 w), ucast (drop_bit 16 w), ucast (drop_bit 8 w), ucast w]"

fun Uint16 :: "byte list \<Rightarrow> u16 result" where
  "Uint16 (a # b # _) = Inr (push_bit 8 (ucast a) OR ucast b)"
| "Uint16 _ = Inl Panic"

fun Uint32 :: "byte list \<Rightarrow> u32 result" where
  "Uint32 (a # b # c # d # _) =
     Inr (push_bit 24 (ucast a) OR push_bit 16 (ucast b) OR push_bit 8 (ucast c) OR ucast d)"
| "Uint32 _ = Inl Panic"

lemma length_be [simp, codec_simps]: "length (be16 w) = 2" "length (be32 x) = 4"
  by (simp_all add: be16_def be32_def)

lemma Uint16_be16 [simp, codec_simps]: "Uint16 (be16 w @ xs) = Inr w"
proof -
  have "push_bit 8 (ucast (ucast (drop_bit 8 w) :: byte)) OR ucast (ucast w :: byte) = w"
    by (rule bit_word_eqI)
      (auto simp: bit_simps)
  then show ?thesis by (simp add: be16_def)
qed

lemma Uint32_be32 [simp, codec_simps]: "Uint32 (be32 w @ xs) = Inr w"
proof -
  have "push_bit 24 (ucast (ucast (drop_bit 24 w) :: byte))
      OR push_bit 16 (ucast (ucast (drop_bit 16 w) :: byte))
      OR push_bit 8 (ucast (ucast (drop_bit 8 w) :: byte)) OR ucast (ucast w :: byte) = w"
    (is "?lhs = w")
  proof (rule bit_word_eqI)
    fix n assume "n < LENGTH(32)"
    then consider "n < 8" | "8 \<le> n \<and> n < 16" | "16 \<le> n \<and> n < 24" | "24 \<le> n \<and> n < 32"
      by fastforce
    then show "bit ?lhs n = bit w n"
      by cases (auto simp: bit_simps)
  qed
  then show ?thesis by (simp add: be32_def)
qed

end
