(* ===== verification/Net.thy ===== *)
theory Net
  imports Prelude
begin

text \<open>
  Package \<^verbatim>\<open>common/net\<close>: addresses (\<^verbatim>\<open>address.go\<close>), ports (\<^verbatim>\<open>port.go\<close>), networks
  (\<^verbatim>\<open>network.go\<close>) and destinations (\<^verbatim>\<open>destination.go\<close>), with the functions of Go's standard
  library they call (\<^verbatim>\<open>net.ParseIP\<close>, \<^verbatim>\<open>net.SplitHostPort\<close>, \<^verbatim>\<open>strings.TrimSpace\<close>,
  \<^verbatim>\<open>strconv.ParseUint\<close>).
\<close>

section \<open>Standard library: trimming and IP literals\<close>

text \<open>The UTF-8 encodings of the code points that \<^verbatim>\<open>unicode.IsSpace\<close> accepts.\<close>

definition space_seqs :: "byte list list" where
  "space_seqs =
     map (\<lambda>b. [b]) [9, 10, 11, 12, 13, 32] @
     [[0xC2, 0x85], [0xC2, 0xA0], [0xE1, 0x9A, 0x80]] @
     map (\<lambda>b. [0xE2, 0x80, b]) [0x80, 0x81, 0x82, 0x83, 0x84, 0x85, 0x86, 0x87, 0x88, 0x89, 0x8A, 0xA8, 0xA9, 0xAF] @
     [[0xE2, 0x81, 0x9F], [0xE3, 0x80, 0x80]]"

function strip_prefixes :: "byte list list \<Rightarrow> byte list \<Rightarrow> byte list" where
  "strip_prefixes ps s =
     (case find (\<lambda>p. p \<noteq> [] \<and> take (length p) s = p) ps of
        None \<Rightarrow> s | Some p \<Rightarrow> strip_prefixes ps (drop (length p) s))"
  by pat_completeness auto
termination
proof (relation "measure (\<lambda>(ps, s). length s)", goal_cases)
  case 1
  show ?case by simp
next
  case (2 ps s p)
  then have "p \<noteq> []" and "take (length p) s = p"
    by (auto simp: find_Some_iff)
  then have "0 < length p" "length p \<le> length s"
    by (auto, metis length_take min.cobounded1)
  then have "length s - length p < length s" by linarith
  then show ?case by simp
qed

declare strip_prefixes.simps [simp del]

definition TrimSpace :: "gostring \<Rightarrow> gostring" where
  "TrimSpace s =
     rev (strip_prefixes (map rev space_seqs) (rev (strip_prefixes space_seqs s)))"

definition is_digit :: "byte \<Rightarrow> bool" where
  "is_digit c = (0x30 \<le> c \<and> c \<le> 0x39)"

text \<open>
  \<^verbatim>\<open>netip.parseIPv4Fields\<close>: the loop over the bytes, with the value and the number of digits
  of the current octet, the octets so far and whether the previous byte was a dot.
\<close>

fun parse_ipv4_loop :: "nat \<Rightarrow> nat \<Rightarrow> byte list \<Rightarrow> bool \<Rightarrow> byte list \<Rightarrow> byte list option" where
  "parse_ipv4_loop val digLen fields prevDot [] =
     (if length fields < 3 then None else Some (fields @ [of_nat val]))"
| "parse_ipv4_loop val digLen fields prevDot (c # cs) =
     (if is_digit c then
        (if digLen = 1 \<and> val = 0 then None
         else let val' = val * 10 + unat (c - 0x30) in
              if val' > 255 then None
              else parse_ipv4_loop val' (Suc digLen) fields False cs)
      else if c = 0x2E then
        (if prevDot \<or> cs = [] then None
         else if length fields = 3 then None
         else parse_ipv4_loop 0 0 (fields @ [of_nat val]) True cs)
      else None)"

definition parse_ipv4 :: "gostring \<Rightarrow> byte list option" where
  "parse_ipv4 s = parse_ipv4_loop 0 0 [] True s"

definition hex_val :: "byte \<Rightarrow> nat option" where
  "hex_val c =
     (if 0x30 \<le> c \<and> c \<le> 0x39 then Some (unat (c - 0x30))
      else if 0x61 \<le> c \<and> c \<le> 0x66 then Some (unat (c - 0x61) + 10)
      else if 0x41 \<le> c \<and> c \<le> 0x46 then Some (unat (c - 0x41) + 10)
      else None)"

text \<open>One group of \<^verbatim>\<open>netip.parseIPv6\<close>: its value, its number of digits and the rest.\<close>

fun parse_hex_group :: "nat \<Rightarrow> nat \<Rightarrow> gostring \<Rightarrow> (nat \<times> nat \<times> gostring) option" where
  "parse_hex_group acc off [] = Some (acc, off, [])"
| "parse_hex_group acc off (c # cs) =
     (case hex_val c of
        None \<Rightarrow> Some (acc, off, c # cs)
      | Some d \<Rightarrow> if off > 3 then None else parse_hex_group (acc * 16 + d) (Suc off) cs)"

text \<open>
  The loop of \<^verbatim>\<open>netip.parseIPv6\<close>: the bytes of \<^verbatim>\<open>ip\<close> written so far, the position of the
  ellipsis and the rest of the string. It runs at most eight times (two bytes per group).
\<close>

fun parse_ipv6_loop :: "nat \<Rightarrow> byte list \<Rightarrow> nat option \<Rightarrow> gostring \<Rightarrow>
    (byte list \<times> nat option \<times> gostring) option" where
  "parse_ipv6_loop 0 ip ell s = Some (ip, ell, s)"
| "parse_ipv6_loop (Suc n) ip ell s =
     (if length ip \<ge> 16 then Some (ip, ell, s)
      else case parse_hex_group 0 0 s of
        None \<Rightarrow> None
      | Some (acc, off, r) \<Rightarrow>
          if off = 0 then None
          else case r of
            [] \<Rightarrow> Some (ip @ [of_nat (acc div 256), of_nat acc], ell, [])
          | c # cs \<Rightarrow>
              if c = 0x2E then
                (if ell = None \<and> length ip \<noteq> 12 then None
                 else if length ip + 4 > 16 then None
                 else case parse_ipv4 s of
                        None \<Rightarrow> None | Some f \<Rightarrow> Some (ip @ f, ell, []))
              else
                (let ip' = ip @ [of_nat (acc div 256), of_nat acc] in
                 if c \<noteq> 0x3A then None
                 else case cs of
                   [] \<Rightarrow> None
                 | d # ds \<Rightarrow>
                     if d = 0x3A then
                       (if ell \<noteq> None then None
                        else if ds = [] then Some (ip', Some (length ip'), [])
                        else parse_ipv6_loop n ip' (Some (length ip')) ds)
                     else parse_ipv6_loop n ip' ell cs))"

definition parse_ipv6 :: "gostring \<Rightarrow> byte list option" where
  "parse_ipv6 s =
     (let (ell, s') = (if take 2 s = [0x3A, 0x3A] then (Some 0, drop 2 s) else (None, s)) in
      if ell = Some 0 \<and> s' = [] then Some (replicate 16 0)
      else case parse_ipv6_loop 8 [] ell s' of
        None \<Rightarrow> None
      | Some (ip, ell', r) \<Rightarrow>
          if r \<noteq> [] then None
          else if length ip < 16 then
            (case ell' of
               None \<Rightarrow> None
             | Some e \<Rightarrow> Some (take e ip @ replicate (16 - length ip) 0 @ drop e ip))
          else if ell' \<noteq> None then None else Some ip)"

text \<open>
  \<^verbatim>\<open>net.ParseIP\<close>: the first of \<^verbatim>\<open>. : %\<close> in the string decides the form; the result always has
  16 bytes (an IPv4 address is mapped), and an address with a zone is refused.
\<close>

definition ParseIP :: "gostring \<Rightarrow> byte list option" where
  "ParseIP s =
     (case find (\<lambda>c. c = 0x2E \<or> c = 0x3A \<or> c = 0x25) s of
        None \<Rightarrow> None
      | Some c \<Rightarrow>
          if c = 0x2E then map_option (\<lambda>f. replicate 10 0 @ [0xFF, 0xFF] @ f) (parse_ipv4 s)
          else if c = 0x3A then (if 0x25 \<in> set s then None else parse_ipv6 s)
          else None)"

section \<open>Addresses\<close>

type_synonym AddressFamily = byte

definition AddressFamilyIPv4 :: AddressFamily where "AddressFamilyIPv4 = 0"
definition AddressFamilyIPv6 :: AddressFamily where "AddressFamilyIPv6 = 1"
definition AddressFamilyDomain :: AddressFamily where "AddressFamilyDomain = 2"

lemmas family_defs = AddressFamilyIPv4_def AddressFamilyIPv6_def AddressFamilyDomain_def

definition IsIPv4 :: "AddressFamily \<Rightarrow> bool" where
  "IsIPv4 af = (af = AddressFamilyIPv4)"

definition IsIPv6 :: "AddressFamily \<Rightarrow> bool" where
  "IsIPv6 af = (af = AddressFamilyIPv6)"

definition IsIP :: "AddressFamily \<Rightarrow> bool" where
  "IsIP af = (af = AddressFamilyIPv4 \<or> af = AddressFamilyIPv6)"

definition IsDomain :: "AddressFamily \<Rightarrow> bool" where
  "IsDomain af = (af = AddressFamilyDomain)"

text \<open>
  The three implementations of the interface \<^verbatim>\<open>Address\<close>; the byte arrays have 4 and 16
  elements (\<open>address_ok\<close>). The nil interface is \<open>None\<close> of \<open>Address option\<close>.
\<close>

datatype Address =
    ipv4Address "byte list"
  | ipv6Address "byte list"
  | domainAddress gostring

fun Address_IP :: "Address \<Rightarrow> byte list result" where
  "Address_IP (ipv4Address a) = Inr a"
| "Address_IP (ipv6Address a) = Inr a"
| "Address_IP (domainAddress d) = Inl Panic"

fun Address_Domain :: "Address \<Rightarrow> gostring result" where
  "Address_Domain (ipv4Address a) = Inl Panic"
| "Address_Domain (ipv6Address a) = Inl Panic"
| "Address_Domain (domainAddress d) = Inr d"

fun Family :: "Address \<Rightarrow> AddressFamily" where
  "Family (ipv4Address a) = AddressFamilyIPv4"
| "Family (ipv6Address a) = AddressFamilyIPv6"
| "Family (domainAddress d) = AddressFamilyDomain"

definition isAlphaNum :: "byte \<Rightarrow> bool" where
  "isAlphaNum c =
     ((0x30 \<le> c \<and> c \<le> 0x39) \<or> (0x61 \<le> c \<and> c \<le> 0x7A) \<or> (0x41 \<le> c \<and> c \<le> 0x5A))"

definition v4mapped :: "byte list \<Rightarrow> bool" where
  "v4mapped ip = (take 10 ip = replicate 10 0 \<and> ip ! 10 = 0xFF \<and> ip ! 11 = 0xFF)"

definition IPAddress :: "byte list \<Rightarrow> Address option" where
  "IPAddress ip =
     (if length ip = 4 then Some (ipv4Address ip)
      else if length ip = 16 then
        (if v4mapped ip then Some (ipv4Address (drop 12 ip)) else Some (ipv6Address ip))
      else None)"

definition DomainAddress :: "gostring \<Rightarrow> Address" where
  "DomainAddress domain = domainAddress domain"

definition LocalHostIP :: "Address option" where "LocalHostIP = IPAddress [127, 0, 0, 1]"
definition AnyIP :: "Address option" where "AnyIP = IPAddress [0, 0, 0, 0]"
definition LocalHostDomain :: Address where "LocalHostDomain = DomainAddress (bytes_of ''localhost'')"
definition LocalHostIPv6 :: "Address option" where "LocalHostIPv6 = IPAddress (replicate 15 0 @ [1])"
definition AnyIPv6 :: "Address option" where "AnyIPv6 = IPAddress (replicate 16 0)"

text \<open>
  The indexing of \<^verbatim>\<open>ParseAddress\<close> is guarded by \<^verbatim>\<open>lenAddr > 0\<close>, so \<open>hd\<close> and \<open>last\<close> are
  applied to non-empty lists only.
\<close>

definition ParseAddress :: "gostring \<Rightarrow> Address option" where
  "ParseAddress addr0 =
     (let addr1 = (if addr0 \<noteq> [] \<and> hd addr0 = 0x5B \<and> last addr0 = 0x5D
                   then butlast (tl addr0) else addr0);
          addr2 = (if addr1 \<noteq> [] \<and> (\<not> isAlphaNum (hd addr1) \<or> \<not> isAlphaNum (last addr1))
                   then TrimSpace addr1 else addr1)
      in case ParseIP addr2 of
           Some ip \<Rightarrow> IPAddress ip
         | None \<Rightarrow> Some (DomainAddress addr2))"

section \<open>Ports\<close>

type_synonym Port = u16

definition PortFromBytes :: "byte list \<Rightarrow> Port result" where
  "PortFromBytes port = Uint16 port"

definition PortFromInt :: "u32 \<Rightarrow> Port result" where
  "PortFromInt val =
     (if val > 65535 then Inl (NewError ''invalid port range'') else Inr (ucast val))"

text \<open>\<^verbatim>\<open>strconv.ParseUint(s, 10, 32)\<close>.\<close>

definition ParseUint32 :: "gostring \<Rightarrow> u32 option" where
  "ParseUint32 s =
     (if s = [] \<or> \<not> list_all is_digit s then None
      else let n = foldl (\<lambda>a c. a * 10 + uint (c - 0x30)) (0::int) s in
           if n < 4294967296 then Some (of_int n) else None)"

definition PortFromString :: "gostring \<Rightarrow> Port result" where
  "PortFromString s =
     (case ParseUint32 s of
        None \<Rightarrow> Inl (NewError ''invalid port range'')
      | Some val \<Rightarrow> PortFromInt val)"

record PortRange =
  pr_From :: u32
  pr_To :: u32

definition FromPort :: "PortRange \<Rightarrow> Port" where
  "FromPort p = ucast (pr_From p)"

definition ToPort :: "PortRange \<Rightarrow> Port" where
  "ToPort p = ucast (pr_To p)"

definition PortRange_Contains :: "PortRange \<Rightarrow> Port \<Rightarrow> bool" where
  "PortRange_Contains p port = (FromPort p \<le> port \<and> port \<le> ToPort p)"

definition SinglePortRange :: "Port \<Rightarrow> PortRange" where
  "SinglePortRange p = \<lparr>pr_From = ucast p, pr_To = ucast p\<rparr>"

record MemoryPortRange =
  mpr_From :: Port
  mpr_To :: Port

definition MemoryPortRange_Contains :: "MemoryPortRange \<Rightarrow> Port \<Rightarrow> bool" where
  "MemoryPortRange_Contains r port = (mpr_From r \<le> port \<and> port \<le> mpr_To r)"

definition PortListFromProto :: "PortRange list \<Rightarrow> MemoryPortRange list" where
  "PortListFromProto l = map (\<lambda>r. \<lparr>mpr_From = ucast (pr_From r), mpr_To = ucast (pr_To r)\<rparr>) l"

fun MemoryPortList_Contains :: "MemoryPortRange list \<Rightarrow> Port \<Rightarrow> bool" where
  "MemoryPortList_Contains [] port = False"
| "MemoryPortList_Contains (pr # mpl) port =
     (if MemoryPortRange_Contains pr port then True else MemoryPortList_Contains mpl port)"

section \<open>Networks and destinations\<close>

datatype Network = Network_Unknown | Network_TCP | Network_UDP | Network_UNIX

fun HasNetwork :: "Network list \<Rightarrow> Network \<Rightarrow> bool" where
  "HasNetwork [] network = False"
| "HasNetwork (value # list) network = (if value = network then True else HasNetwork list network)"

text \<open>\<^verbatim>\<open>strings.ToLower\<close> on the ASCII letters; no other byte can become one of the four names.\<close>

definition ascii_lower :: "byte \<Rightarrow> byte" where
  "ascii_lower c = (if 0x41 \<le> c \<and> c \<le> 0x5A then c + 0x20 else c)"

definition ParseNetwork :: "gostring \<Rightarrow> Network" where
  "ParseNetwork net =
     (let l = map ascii_lower net in
      if l = bytes_of ''tcp'' then Network_TCP
      else if l = bytes_of ''udp'' then Network_UDP
      else if l = bytes_of ''unix'' then Network_UNIX
      else Network_Unknown)"

definition ParseNetworkStringList :: "gostring list \<Rightarrow> Network list" where
  "ParseNetworkStringList strList = map ParseNetwork strList"

fun SystemString :: "Network \<Rightarrow> gostring" where
  "SystemString Network_TCP = bytes_of ''tcp''"
| "SystemString Network_UDP = bytes_of ''udp''"
| "SystemString Network_UNIX = bytes_of ''unix''"
| "SystemString Network_Unknown = bytes_of ''unknown''"

record Destination =
  dest_Address :: "Address option"
  dest_Port :: Port
  dest_Network :: Network

text \<open>The zero value \<^verbatim>\<open>Destination{}\<close>.\<close>

definition Destination_zero :: Destination where
  "Destination_zero = \<lparr>dest_Address = None, dest_Port = 0, dest_Network = Network_Unknown\<rparr>"

definition TCPDestination :: "Address option \<Rightarrow> Port \<Rightarrow> Destination" where
  "TCPDestination address port =
     \<lparr>dest_Address = address, dest_Port = port, dest_Network = Network_TCP\<rparr>"

definition UDPDestination :: "Address option \<Rightarrow> Port \<Rightarrow> Destination" where
  "UDPDestination address port =
     \<lparr>dest_Address = address, dest_Port = port, dest_Network = Network_UDP\<rparr>"

definition UnixDestination :: "Address option \<Rightarrow> Destination" where
  "UnixDestination address =
     \<lparr>dest_Address = address, dest_Port = 0, dest_Network = Network_UNIX\<rparr>"

definition Destination_IsValid :: "Destination \<Rightarrow> bool" where
  "Destination_IsValid d = (dest_Network d \<noteq> Network_Unknown)"

text \<open>\<^verbatim>\<open>net.SplitHostPort\<close>: the two parts, or the error.\<close>

definition last_index :: "'a \<Rightarrow> 'a list \<Rightarrow> nat option" where
  "last_index c s =
     (if c \<in> set s then Some (length s - 1 - length (takeWhile (\<lambda>x. x \<noteq> c) (rev s))) else None)"

definition first_index :: "'a \<Rightarrow> 'a list \<Rightarrow> nat option" where
  "first_index c s = (if c \<in> set s then Some (length (takeWhile (\<lambda>x. x \<noteq> c) s)) else None)"

definition SplitHostPort :: "gostring \<Rightarrow> (gostring \<times> gostring) result" where
  "SplitHostPort s =
     (case last_index 0x3A s of
        None \<Rightarrow> Inl (NewError ''missing port in address'')
      | Some i \<Rightarrow>
          let finish = (\<lambda>host j k.
                if 0x5B \<in> set (drop j s) then Inl (NewError ''unexpected [ in address'')
                else if 0x5D \<in> set (drop k s) then Inl (NewError ''unexpected ] in address'')
                else Inr (host, drop (Suc i) s))
          in if hd s = 0x5B then
               (case first_index 0x5D s of
                  None \<Rightarrow> Inl (NewError ''missing ] in address'')
                | Some e \<Rightarrow>
                    if Suc e = length s then Inl (NewError ''missing port in address'')
                    else if Suc e = i then finish (take (e - 1) (drop 1 s)) 1 (Suc e)
                    else if s ! Suc e = 0x3A then Inl (NewError ''too many colons in address'')
                    else Inl (NewError ''missing port in address''))
             else if 0x3A \<in> set (take i s) then Inl (NewError ''too many colons in address'')
             else finish (take i s) 0 0)"

definition ParseDestination :: "gostring \<Rightarrow> Destination result" where
  "ParseDestination dest =
     (if take 5 dest = bytes_of ''unix:'' then
        Inr (UnixDestination (Some (DomainAddress (drop 5 dest))))
      else
        let (network, rest) =
              (if take 4 dest = bytes_of ''tcp:'' then (Network_TCP, drop 4 dest)
               else if take 4 dest = bytes_of ''udp:'' then (Network_UDP, drop 4 dest)
               else (Network_Unknown, dest))
        in bind_res (SplitHostPort rest) (\<lambda>(hstr, pstr).
             let address = (if hstr \<noteq> [] then ParseAddress hstr else AnyIP) in
             if pstr \<noteq> [] then
               bind_res (PortFromString pstr) (\<lambda>port.
                 Inr \<lparr>dest_Address = address, dest_Port = port, dest_Network = network\<rparr>)
             else Inr \<lparr>dest_Address = address, dest_Port = 0, dest_Network = network\<rparr>))"

section \<open>Addresses are well formed\<close>

text \<open>
  The type invariant of \<open>Address\<close>: four or sixteen bytes, and an IPv4-mapped IPv6 address is
  always represented as an IPv4 address.
\<close>

fun address_ok :: "Address \<Rightarrow> bool" where
  "address_ok (ipv4Address a) = (length a = 4)"
| "address_ok (ipv6Address a) = (length a = 16 \<and> \<not> v4mapped a)"
| "address_ok (domainAddress d) = True"

lemma parse_ipv4_loop_length:
  "parse_ipv4_loop val digLen fs prevDot s = Some r \<Longrightarrow> length fs \<le> 3 \<Longrightarrow> length r = 4"
  by (induction val digLen fs prevDot s rule: parse_ipv4_loop.induct)
    (auto simp: Let_def split: if_splits)

lemma parse_ipv4_length: "parse_ipv4 s = Some r \<Longrightarrow> length r = 4"
  by (simp add: parse_ipv4_def parse_ipv4_loop_length)

lemma parse_ipv6_loop_length:
  "parse_ipv6_loop n ip ell s = Some (ip', ell', r) \<Longrightarrow> even (length ip) \<Longrightarrow> length ip \<le> 16
    \<Longrightarrow> (\<forall>e. ell = Some e \<longrightarrow> e \<le> length ip)
    \<Longrightarrow> length ip' \<le> 16 \<and> (\<forall>e. ell' = Some e \<longrightarrow> e \<le> length ip')"
proof (induction n arbitrary: ip ell s)
  case 0
  then show ?case by simp
next
  case (Suc n)
  show ?case
  proof (cases "length ip \<ge> 16")
    case True
    with Suc.prems show ?thesis by simp
  next
    case False
    then have l2: "length ip + 2 \<le> 16" using Suc.prems(2) by presburger
    from Suc.prems(1) False obtain acc off rs where
      g: "parse_hex_group 0 0 s = Some (acc, off, rs)" "off \<noteq> 0"
      by (auto split: option.splits prod.splits if_splits)
    let ?ip = "ip @ [of_nat (acc div 256), of_nat acc]"
    have ok: "even (length ?ip)" "length ?ip \<le> 16" "\<And>e. ell = Some e \<Longrightarrow> e \<le> length ?ip"
      using l2 Suc.prems(2,4) by auto
    show ?thesis
    proof (cases rs)
      case Nil
      with Suc.prems(1) False g ok show ?thesis by auto
    next
      case (Cons c cs)
      show ?thesis
      proof (cases "c = 0x2E")
        case True
        with Suc.prems(1,4) False g Cons show ?thesis
          by (auto dest: parse_ipv4_length split: if_splits option.splits)
      next
        case nd: False
        with Suc.prems(1) False g Cons obtain d ds where
          cs: "c = 0x3A" "cs = d # ds" by (auto simp: Let_def split: if_splits list.splits)
        with Suc.prems(1) False g Cons nd Suc.IH [OF _ ok(1,2)] ok show ?thesis
          by (auto simp: Let_def split: if_splits)
      qed
    qed
  qed
qed

lemma parse_ipv6_length: "parse_ipv6 s = Some ip \<Longrightarrow> length ip = 16"
  by (auto simp: parse_ipv6_def Let_def split: if_splits option.splits prod.splits
      dest!: parse_ipv6_loop_length)

lemma ParseIP_length: "ParseIP s = Some ip \<Longrightarrow> length ip = 16"
  by (auto simp: ParseIP_def parse_ipv4_length parse_ipv6_length split: option.splits if_splits)

lemma IPAddress_ok: "IPAddress ip = Some a \<Longrightarrow> address_ok a"
  by (auto simp: IPAddress_def split: if_splits)

lemma IPAddress_of_ok:
  "address_ok (ipv4Address ip) \<Longrightarrow> IPAddress ip = Some (ipv4Address ip)"
  "address_ok (ipv6Address ip) \<Longrightarrow> IPAddress ip = Some (ipv6Address ip)"
  by (auto simp: IPAddress_def)

lemma ParseAddress_total: "\<exists>a. ParseAddress s = Some a \<and> address_ok a"
proof -
  have "\<exists>a. (case ParseIP t of Some ip \<Rightarrow> IPAddress ip | None \<Rightarrow> Some (DomainAddress t)) = Some a
      \<and> address_ok a" for t
  proof (cases "ParseIP t")
    case None
    then show ?thesis by (simp add: DomainAddress_def)
  next
    case (Some ip)
    then have "length ip = 16" by (rule ParseIP_length)
    then obtain a where "IPAddress ip = Some a"
      by (cases "v4mapped ip") (auto simp: IPAddress_def)
    with Some show ?thesis by (simp add: IPAddress_ok)
  qed
  then show ?thesis by (simp add: ParseAddress_def Let_def)
qed

end
