(* ===== verification/Interfaces.thy ===== *)
theory Interfaces
  imports Prelude
begin

text \<open>
  Contracts between components, stated as locales: a source of bytes that is read piece by
  piece, and a sink that takes bytes until it is full. The providers (buffers and multi
  buffers, the pipe) interpret them on their own operations; the clients (the address
  serializer, the frame writer) prove their facts once, inside the locale.
\<close>

section \<open>Byte sources\<close>

text \<open>Reading pieces of the given sizes, one after the other.\<close>

fun run_reads :: "('s \<Rightarrow> nat \<Rightarrow> ('s \<times> byte list) result) \<Rightarrow> 's \<Rightarrow> nat list
    \<Rightarrow> ('s \<times> byte list list) result" where
  "run_reads read s [] = Inr (s, [])"
| "run_reads read s (n # ns) =
     bind_res (read s n) (\<lambda>(s', xs).
       bind_res (run_reads read s' ns) (\<lambda>(s'', xss). Inr (s'', xs # xss)))"

locale byte_source =
  fixes ok :: "'s \<Rightarrow> bool"
    and cont :: "'s \<Rightarrow> byte list"
    and read :: "'s \<Rightarrow> nat \<Rightarrow> ('s \<times> byte list) result"
  assumes read_law: "ok s \<Longrightarrow>
    \<exists>s'. read s n = Inr (s', take n (cont s)) \<and> ok s' \<and> cont s' = drop n (cont s)"
begin

lemma run_reads_law:
  "ok s \<Longrightarrow> \<exists>s' xss. run_reads read s ns = Inr (s', xss) \<and> ok s'
     \<and> concat xss = take (sum_list ns) (cont s) \<and> cont s' = drop (sum_list ns) (cont s)
     \<and> length xss = length ns"
proof (induction ns arbitrary: s)
  case Nil
  then show ?case by simp
next
  case (Cons n ns)
  from read_law [OF Cons.prems, of n] obtain s' where
    s': "read s n = Inr (s', take n (cont s))" "ok s'" "cont s' = drop n (cont s)" by blast
  from Cons.IH [OF s'(2)] obtain s'' xss where
    IH: "run_reads read s' ns = Inr (s'', xss)" "ok s''" "concat xss = take (sum_list ns) (cont s')"
    "cont s'' = drop (sum_list ns) (cont s')" "length xss = length ns" by blast
  have "take n (cont s) @ take (sum_list ns) (drop n (cont s)) = take (n + sum_list ns) (cont s)"
    by (simp add: take_add)
  then show ?case using s' IH by (auto simp: add.commute)
qed

end

section \<open>Byte sinks\<close>

fun run_writes :: "('s \<Rightarrow> byte list \<Rightarrow> 's result) \<Rightarrow> 's \<Rightarrow> byte list list \<Rightarrow> 's result" where
  "run_writes wr s [] = Inr s"
| "run_writes wr s (xs # xss) = bind_res (wr s xs) (\<lambda>s'. run_writes wr s' xss)"

text \<open>
  \<open>fits s n\<close>: the sink has room for \<open>n\<close> more bytes. A write that fits appends exactly its
  bytes and uses up exactly their number of the room.
\<close>

locale byte_sink =
  fixes ok :: "'s \<Rightarrow> bool"
    and cont :: "'s \<Rightarrow> byte list"
    and fits :: "'s \<Rightarrow> nat \<Rightarrow> bool"
    and wr :: "'s \<Rightarrow> byte list \<Rightarrow> 's result"
  assumes write_law: "ok s \<Longrightarrow> fits s (length xs) \<Longrightarrow>
      \<exists>s'. wr s xs = Inr s' \<and> ok s' \<and> cont s' = cont s @ xs
        \<and> (\<forall>n. fits s (length xs + n) \<longrightarrow> fits s' n)"
    and fits_mono: "fits s n \<Longrightarrow> m \<le> n \<Longrightarrow> fits s m"
begin

lemma run_writes_law:
  "ok s \<Longrightarrow> fits s (length (concat xss)) \<Longrightarrow>
     \<exists>s'. run_writes wr s xss = Inr s' \<and> ok s' \<and> cont s' = cont s @ concat xss
       \<and> (\<forall>n. fits s (length (concat xss) + n) \<longrightarrow> fits s' n)"
proof (induction xss arbitrary: s)
  case Nil
  then show ?case by simp
next
  case (Cons xs xss)
  have "fits s (length xs)" using Cons.prems(2) fits_mono by fastforce
  from write_law [OF Cons.prems(1) this] obtain s' where
    s': "wr s xs = Inr s'" "ok s'" "cont s' = cont s @ xs"
    "\<And>n. fits s (length xs + n) \<Longrightarrow> fits s' n" by blast
  have "fits s' (length (concat xss))" using s'(4) Cons.prems(2) by simp
  from Cons.IH [OF s'(2) this] s' show ?case by (auto simp: add.assoc)
qed

end

section \<open>Framed codecs\<close>

text \<open>
  The loop of a packet reader: as long as bytes are left, read one frame; stop at the first
  one that is not well-formed. A frame that consumes nothing would loop for ever; the
  parsers below always consume their input.
\<close>

function read_frames :: "(byte list \<Rightarrow> ('s \<times> byte list) option result) \<Rightarrow> byte list \<Rightarrow> 's list result" where
  "read_frames rd b =
     (if b = [] then Inr []
      else case rd b of
             Inl e \<Rightarrow> Inl e
           | Inr None \<Rightarrow> Inr []
           | Inr (Some (seg, x)) \<Rightarrow>
               if length x < length b then bind_res (read_frames rd x) (\<lambda>segs. Inr (seg # segs))
               else Inl Panic)"
  by pat_completeness auto
termination
  by (relation "measure (\<lambda>(rd, b). length b)") auto

declare read_frames.simps [simp del]

locale framed_codec =
  fixes wire :: "'p \<Rightarrow> byte list"
    and ok :: "'p \<Rightarrow> bool"
    and abs :: "'s \<Rightarrow> 'p"
    and rd :: "byte list \<Rightarrow> ('s \<times> byte list) option result"
  assumes wire_nonempty: "wire p \<noteq> []"
    and read_wire: "ok p \<Longrightarrow> \<exists>s. rd (wire p @ rest) = Inr (Some (s, rest)) \<and> abs s = p"
    and read_safe: "safe (rd b) (\<lambda>r. case r of None \<Rightarrow> True | Some (s, rest) \<Rightarrow> length rest < length b)"
begin

lemma read_frames_wire:
  "\<forall>p \<in> set ps. ok p \<Longrightarrow> \<exists>segs. read_frames rd (concat (map wire ps)) = Inr segs \<and> map abs segs = ps"
proof (induction ps)
  case Nil
  then show ?case by (simp add: read_frames.simps)
next
  case (Cons p ps)
  then obtain segs where segs: "read_frames rd (concat (map wire ps)) = Inr segs" "map abs segs = ps" by auto
  from Cons.prems read_wire [of p "concat (map wire ps)"] obtain s where
    s: "rd (wire p @ concat (map wire ps)) = Inr (Some (s, concat (map wire ps)))" "abs s = p" by auto
  have "read_frames rd (wire p @ concat (map wire ps)) = Inr (s # segs)"
    by (subst read_frames.simps) (simp add: s segs wire_nonempty)
  with s segs show ?case by simp
qed

lemma read_frames_safe: "safe (read_frames rd b) (\<lambda>_. True)"
proof (induction b rule: measure_induct_rule [where f = length])
  case (less b)
  show ?case
  proof (cases "rd b")
    case (Inl e)
    with read_safe [of b] show ?thesis by (subst read_frames.simps) simp
  next
    case (Inr r)
    with read_safe [of b] less show ?thesis
      by (subst read_frames.simps) (auto split: option.splits intro!: safe_bind)
  qed
qed

end

end
