(* ===== verification/Buf.thy ===== *)
theory Buf
  imports Net Interfaces
begin

text \<open>
  Package \<^verbatim>\<open>common/buf\<close>: the recyclable \<^verbatim>\<open>Buffer\<close> (\<^verbatim>\<open>buffer.go\<close>) with its window
  \<^verbatim>\<open>v[start:end]\<close>, and \<^verbatim>\<open>MultiBuffer\<close> (\<^verbatim>\<open>multi_buffer.go\<close>), the list of buffers every part
  of the data plane exchanges. The abstraction \<open>content\<close> (the live window) states what each
  operation does to the bytes; \<open>buffer_ok\<close> is the window invariant.

  A fresh buffer holds the zeroed array that the pool allocates; a recycled array differs
  only outside the window. A nil \<^verbatim>\<open>*Buffer\<close> is \<open>None\<close> of \<open>Buffer option\<close>, and a nil
  \<^verbatim>\<open>v\<close> (after \<^verbatim>\<open>Release\<close>) is the empty list.
\<close>

section \<open>Buffer\<close>

datatype ownership = managed | unmanaged | bytespools

record Buffer =
  buf_v :: "byte list"
  buf_start :: int
  buf_end :: int
  buf_ownership :: ownership
  buf_Endpoint :: "Destination option"

definition Size :: nat where
  "Size = 16384"

definition New :: Buffer where
  "New = \<lparr>buf_v = replicate Size 0, buf_start = 0, buf_end = 0,
          buf_ownership = managed, buf_Endpoint = None\<rparr>"

text \<open>
  \<^verbatim>\<open>bytespool.Alloc\<close>: the smallest of the four pools (16k, 64k, 256k, 1M) that is large
  enough, or an array of the exact size.
\<close>

definition poolSize :: "nat list" where
  "poolSize = [16384, 65536, 262144, 1048576]"

definition Alloc :: "int \<Rightarrow> byte list result" where
  "Alloc sz =
     (case find (\<lambda>ps. sz \<le> int ps) poolSize of
        Some ps \<Rightarrow> Inr (replicate ps 0)
      | None \<Rightarrow> if sz < 0 then Inl Panic else Inr (replicate (nat sz) 0))"

definition NewWithSize :: "int \<Rightarrow> Buffer result" where
  "NewWithSize sz =
     bind_res (Alloc sz) (\<lambda>v.
       Inr \<lparr>buf_v = v, buf_start = 0, buf_end = 0,
            buf_ownership = bytespools, buf_Endpoint = None\<rparr>)"

definition FromBytes :: "byte list \<Rightarrow> Buffer" where
  "FromBytes data = \<lparr>buf_v = data, buf_start = 0, buf_end = i32 (int (length data)),
                     buf_ownership = unmanaged, buf_Endpoint = None\<rparr>"

definition StackNew :: Buffer where
  "StackNew = \<lparr>buf_v = replicate Size 0, buf_start = 0, buf_end = 0,
               buf_ownership = managed, buf_Endpoint = None\<rparr>"

definition Buffer_Clear :: "Buffer \<Rightarrow> Buffer" where
  "Buffer_Clear b = b\<lparr>buf_start := 0, buf_end := 0\<rparr>"

text \<open>\<^verbatim>\<open>Release\<close>: the array goes back to its pool; what stays is the emptied buffer.\<close>

definition Buffer_Release :: "Buffer option \<Rightarrow> Buffer option" where
  "Buffer_Release p =
     (case p of
        None \<Rightarrow> None
      | Some b \<Rightarrow>
          if buf_v b = [] \<or> buf_ownership b = unmanaged then Some b
          else Some ((Buffer_Clear (b\<lparr>buf_v := []\<rparr>))\<lparr>buf_Endpoint := None\<rparr>))"

definition Buffer_Byte :: "Buffer \<Rightarrow> int \<Rightarrow> byte result" where
  "Buffer_Byte b i = index (buf_v b) (i32 (buf_start b + i))"

definition Buffer_SetByte :: "Buffer \<Rightarrow> int \<Rightarrow> byte \<Rightarrow> Buffer result" where
  "Buffer_SetByte b i value =
     (let k = i32 (buf_start b + i) in
      if 0 \<le> k \<and> k < int (length (buf_v b))
      then Inr (b\<lparr>buf_v := (buf_v b)[nat k := value]\<rparr>) else Inl Panic)"

definition Buffer_Bytes :: "Buffer \<Rightarrow> byte list result" where
  "Buffer_Bytes b = slice (buf_start b) (buf_end b) (buf_v b)"

text \<open>
  \<^verbatim>\<open>Extend(n)\<close> returns the slice that the caller then fills. The model returns the grown
  buffer and the offset of that slice in \<^verbatim>\<open>v\<close>; the caller's writes go through \<open>store\<close>.
\<close>

definition Buffer_Extend :: "Buffer \<Rightarrow> int \<Rightarrow> (Buffer \<times> nat) result" where
  "Buffer_Extend b n =
     (let end' = i32 (buf_end b + n) in
      if end' > int (length (buf_v b)) then Inl Panic
      else bind_res (slice (buf_end b) end' (buf_v b)) (\<lambda>ext.
             Inr (b\<lparr>buf_end := end'\<rparr>, nat (buf_end b))))"

definition store :: "nat \<Rightarrow> byte list \<Rightarrow> Buffer \<Rightarrow> Buffer result" where
  "store off xs b = bind_res (put off xs (buf_v b)) (\<lambda>v'. Inr (b\<lparr>buf_v := v'\<rparr>))"

definition Buffer_Len :: "Buffer option \<Rightarrow> int" where
  "Buffer_Len p = (case p of None \<Rightarrow> 0 | Some b \<Rightarrow> i32 (buf_end b - buf_start b))"

definition Buffer_Cap :: "Buffer option \<Rightarrow> int" where
  "Buffer_Cap p = (case p of None \<Rightarrow> 0 | Some b \<Rightarrow> i32 (int (length (buf_v b))))"

definition Buffer_Available :: "Buffer option \<Rightarrow> int" where
  "Buffer_Available p =
     (case p of None \<Rightarrow> 0 | Some b \<Rightarrow> i32 (int (length (buf_v b)) - buf_end b))"

definition Buffer_IsEmpty :: "Buffer option \<Rightarrow> bool" where
  "Buffer_IsEmpty p = (Buffer_Len p = 0)"

definition Buffer_IsFull :: "Buffer option \<Rightarrow> bool" where
  "Buffer_IsFull p =
     (case p of None \<Rightarrow> False | Some b \<Rightarrow> buf_end b = i32 (int (length (buf_v b))))"

abbreviation blen :: "Buffer \<Rightarrow> int" where
  "blen b \<equiv> Buffer_Len (Some b)"

definition Buffer_BytesRange :: "Buffer \<Rightarrow> int \<Rightarrow> int \<Rightarrow> byte list result" where
  "Buffer_BytesRange b from to =
     (let from' = (if from < 0 then i32 (from + blen b) else from);
          to' = (if to < 0 then i32 (to + blen b) else to)
      in slice (i32 (buf_start b + from')) (i32 (buf_start b + to')) (buf_v b))"

definition Buffer_BytesFrom :: "Buffer \<Rightarrow> int \<Rightarrow> byte list result" where
  "Buffer_BytesFrom b from =
     (let from' = (if from < 0 then i32 (from + blen b) else from)
      in slice (i32 (buf_start b + from')) (buf_end b) (buf_v b))"

definition Buffer_BytesTo :: "Buffer \<Rightarrow> int \<Rightarrow> byte list result" where
  "Buffer_BytesTo b to =
     (let to' = (if to < 0 then i32 (to + blen b) else to)
      in slice (buf_start b) (i32 (buf_start b + to')) (buf_v b))"

definition Buffer_Resize :: "Buffer \<Rightarrow> int \<Rightarrow> int \<Rightarrow> Buffer result" where
  "Buffer_Resize b from to =
     (let from' = (if from < 0 then i32 (from + blen b) else from);
          to' = (if to < 0 then i32 (to + blen b) else to)
      in if to' < from' then Inl Panic
         else Inr (b\<lparr>buf_end := i32 (buf_start b + to'), buf_start := i32 (buf_start b + from')\<rparr>))"

definition Buffer_Advance :: "Buffer \<Rightarrow> int \<Rightarrow> Buffer" where
  "Buffer_Advance b from =
     (let from' = (if from < 0 then i32 (from + blen b) else from)
      in b\<lparr>buf_start := i32 (buf_start b + from')\<rparr>)"

text \<open>\<^verbatim>\<open>Write\<close>: \<^verbatim>\<open>copy(b.v[b.end:], data)\<close>, which stops when the array is full.\<close>

definition Buffer_Write :: "Buffer \<Rightarrow> byte list \<Rightarrow> (Buffer \<times> nat) result" where
  "Buffer_Write b data =
     bind_res (slice (buf_end b) (int (length (buf_v b))) (buf_v b)) (\<lambda>dst.
       let nBytes = min (length dst) (length data) in
       Inr (b\<lparr>buf_v := overwrite (nat (buf_end b)) (take nBytes data) (buf_v b),
              buf_end := i32 (buf_end b + int nBytes)\<rparr>, nBytes))"

definition Buffer_WriteByte :: "Buffer \<Rightarrow> byte \<Rightarrow> Buffer result" where
  "Buffer_WriteByte b x =
     (if Buffer_IsFull (Some b) then Inl (NewError ''buffer full'')
      else bind_res (index (buf_v b) (buf_end b)) (\<lambda>_.
             Inr (b\<lparr>buf_v := (buf_v b)[nat (buf_end b) := x], buf_end := i32 (buf_end b + 1)\<rparr>)))"

definition Buffer_WriteString :: "Buffer \<Rightarrow> gostring \<Rightarrow> (Buffer \<times> nat) result" where
  "Buffer_WriteString b s = Buffer_Write b s"

definition Buffer_ReadByte :: "Buffer \<Rightarrow> (byte \<times> Buffer) result" where
  "Buffer_ReadByte b =
     (if buf_start b = buf_end b then Inl EOF
      else bind_res (index (buf_v b) (buf_start b)) (\<lambda>nb.
             Inr (nb, b\<lparr>buf_start := i32 (buf_start b + 1)\<rparr>)))"

definition Buffer_ReadBytes :: "Buffer \<Rightarrow> int \<Rightarrow> (byte list \<times> Buffer) result" where
  "Buffer_ReadBytes b n =
     (if i32 (buf_end b - buf_start b) < n then Inl EOF
      else bind_res (slice (buf_start b) (i32 (buf_start b + n)) (buf_v b)) (\<lambda>nb.
             Inr (nb, b\<lparr>buf_start := i32 (buf_start b + n)\<rparr>)))"

text \<open>
  \<^verbatim>\<open>Read(data)\<close>: the bytes copied into \<^verbatim>\<open>data\<close> (their number is \<^verbatim>\<open>nBytes\<close>; \<open>n\<close> is
  \<^verbatim>\<open>len(data)\<close>) and the advanced buffer.
\<close>

definition Buffer_Read :: "Buffer \<Rightarrow> nat \<Rightarrow> (byte list \<times> Buffer) result" where
  "Buffer_Read b n =
     (if blen b = 0 then Inl EOF
      else bind_res (slice (buf_start b) (buf_end b) (buf_v b)) (\<lambda>src.
             let copied = take n src; nBytes = int (length copied) in
             Inr (copied, if nBytes = blen b then Buffer_Clear b
                          else b\<lparr>buf_start := i32 (buf_start b + nBytes)\<rparr>)))"

text \<open>
  An \<^verbatim>\<open>io.Reader\<close> is a function from the length of the destination to the bytes it delivers,
  an error (\<open>None\<close> for nil) and the reader's next state.
\<close>

type_synonym 'r io_Reader = "'r \<Rightarrow> nat \<Rightarrow> byte list \<times> go_error option \<times> 'r"

definition Buffer_ReadFrom ::
  "'r io_Reader \<Rightarrow> 'r \<Rightarrow> Buffer \<Rightarrow> (Buffer \<times> nat \<times> go_error option \<times> 'r) result" where
  "Buffer_ReadFrom read r b =
     bind_res (slice (buf_end b) (int (length (buf_v b))) (buf_v b)) (\<lambda>dst.
       let (xs, err, r') = read r (length dst) in
       if length xs > length dst then Inl Panic
       else Inr (b\<lparr>buf_v := overwrite (nat (buf_end b)) xs (buf_v b),
                   buf_end := i32 (buf_end b + int (length xs))\<rparr>, length xs, err, r'))"

text \<open>
  \<^verbatim>\<open>io.ReadFull\<close> on a reader whose remaining input is the byte list \<open>inp\<close> and which then
  reports \<^verbatim>\<open>io.EOF\<close>: the bytes read, the input that is left and the error, which is \<^verbatim>\<open>EOF\<close> when
  nothing was read and \<^verbatim>\<open>ErrUnexpectedEOF\<close> when the input ends too early.
\<close>

definition ReadFull :: "byte list \<Rightarrow> nat \<Rightarrow> byte list \<times> byte list \<times> go_error option" where
  "ReadFull inp n =
     (if n \<le> length inp then (take n inp, drop n inp, None)
      else (inp, [], Some (if inp = [] then EOF else UnexpectedEOF)))"

definition Buffer_ReadFullFrom ::
  "Buffer \<Rightarrow> byte list \<Rightarrow> int \<Rightarrow> (Buffer \<times> byte list \<times> go_error option) result" where
  "Buffer_ReadFullFrom b inp n =
     (let end' = i32 (buf_end b + n) in
      if end' > int (length (buf_v b)) then Inr (b, inp, Some (NewError ''out of bound''))
      else bind_res (slice (buf_end b) end' (buf_v b)) (\<lambda>dst.
             let (xs, rest, err) = ReadFull inp (length dst) in
             Inr (b\<lparr>buf_v := overwrite (nat (buf_end b)) xs (buf_v b),
                    buf_end := i32 (buf_end b + int (length xs))\<rparr>, rest, err)))"

text \<open>The callers that return at once when \<^verbatim>\<open>ReadFullFrom\<close> reports an error.\<close>

definition read_full :: "Buffer \<Rightarrow> byte list \<Rightarrow> int \<Rightarrow> (Buffer \<times> byte list) result" where
  "read_full b inp n =
     bind_res (Buffer_ReadFullFrom b inp n) (\<lambda>(b', rest, err).
       case err of None \<Rightarrow> Inr (b', rest) | Some e \<Rightarrow> Inl e)"

section \<open>MultiBuffer\<close>

type_synonym MultiBuffer = "Buffer list"

definition MergeMulti :: "MultiBuffer \<Rightarrow> MultiBuffer \<Rightarrow> MultiBuffer \<times> MultiBuffer" where
  "MergeMulti dest src = (dest @ src, [])"

text \<open>
  The loop of \<^verbatim>\<open>MergeBytes\<close> that fills fresh buffers: a fresh buffer takes \<open>Size\<close> bytes, so
  the input shrinks in every round.
\<close>

function MergeBytes_loop :: "MultiBuffer \<Rightarrow> byte list \<Rightarrow> MultiBuffer result" where
  "MergeBytes_loop dest src =
     (if src = [] then Inr dest
      else case Buffer_Write New src of
             Inl e \<Rightarrow> Inl e
           | Inr (b, nBytes) \<Rightarrow>
               if nBytes = 0 then Inl Panic \<comment> \<open>not reachable: a fresh buffer has room\<close>
               else MergeBytes_loop (dest @ [b]) (drop nBytes src))"
  by pat_completeness auto
termination
  by (relation "measure (\<lambda>(dest, src). length src)") auto

declare MergeBytes_loop.simps [simp del]

definition MergeBytes :: "MultiBuffer \<Rightarrow> byte list \<Rightarrow> MultiBuffer result" where
  "MergeBytes dest src =
     (if dest \<noteq> [] \<and> \<not> Buffer_IsFull (Some (last dest)) then
        bind_res (Buffer_Write (last dest) src) (\<lambda>(b, nBytes).
          MergeBytes_loop (butlast dest @ [b]) (drop nBytes src))
      else MergeBytes_loop dest src)"

definition ReleaseMulti :: "MultiBuffer \<Rightarrow> MultiBuffer" where
  "ReleaseMulti mb = []"

text \<open>\<^verbatim>\<open>mb.Copy(b)\<close>: the bytes copied into the first part of \<^verbatim>\<open>b\<close>, whose length is \<open>n\<close>.\<close>

fun MultiBuffer_Copy :: "MultiBuffer \<Rightarrow> nat \<Rightarrow> byte list result" where
  "MultiBuffer_Copy [] n = Inr []"
| "MultiBuffer_Copy (bb # mb) n =
     bind_res (Buffer_Bytes bb) (\<lambda>bytes.
       let copied = take n bytes in
       if int (length copied) < blen bb then Inr copied
       else bind_res (MultiBuffer_Copy mb (n - length copied)) (\<lambda>rest. Inr (copied @ rest)))"

text \<open>
  \<^verbatim>\<open>SplitBytes(mb, b)\<close>: the leftover and the bytes written into \<^verbatim>\<open>b\<close> (\<open>n\<close> is \<^verbatim>\<open>len(b)\<close>). The
  error of \<^verbatim>\<open>pBuffer.Read\<close> is dropped, as in the code: an empty buffer is skipped.
\<close>

fun SplitBytes :: "MultiBuffer \<Rightarrow> nat \<Rightarrow> (MultiBuffer \<times> byte list) result" where
  "SplitBytes [] n = Inr ([], [])"
| "SplitBytes (pBuffer # mb) n =
     (case Buffer_Read pBuffer n of
        Inl Panic \<Rightarrow> Inl Panic
      | Inl e \<Rightarrow>
          if \<not> Buffer_IsEmpty (Some pBuffer) then Inr (pBuffer # mb, [])
          else SplitBytes mb n
      | Inr (xs, b') \<Rightarrow>
          if \<not> Buffer_IsEmpty (Some b') then Inr (b' # mb, xs)
          else bind_res (SplitBytes mb (n - length xs)) (\<lambda>(mb', ys). Inr (mb', xs @ ys)))"

definition SplitFirst :: "MultiBuffer \<Rightarrow> MultiBuffer \<times> Buffer option" where
  "SplitFirst mb = (case mb of [] \<Rightarrow> ([], None) | b # mb' \<Rightarrow> (mb', Some b))"

definition SplitFirstBytes :: "MultiBuffer \<Rightarrow> nat \<Rightarrow> (MultiBuffer \<times> byte list) result" where
  "SplitFirstBytes mb n =
     (case SplitFirst mb of
        (mb', None) \<Rightarrow> Inr (mb', [])
      | (mb', Some b) \<Rightarrow> bind_res (Buffer_Bytes b) (\<lambda>bytes. Inr (mb', take n bytes)))"

text \<open>
  The loop of \<^verbatim>\<open>Compact\<close>, with the last buffer of the result as an accumulator.
  \<^verbatim>\<open>last.ReadFrom(curr)\<close> reads through \<^verbatim>\<open>curr.Read\<close>; \<^verbatim>\<open>common.Must2\<close> panics on its error, which
  is \<^verbatim>\<open>EOF\<close> when \<^verbatim>\<open>curr\<close> is empty.
\<close>

definition Buffer_reader :: "Buffer io_Reader" where
  "Buffer_reader b n =
     (case Buffer_Read b n of Inl e \<Rightarrow> ([], Some e, b) | Inr (xs, b') \<Rightarrow> (xs, None, b'))"

fun Compact_loop :: "MultiBuffer \<Rightarrow> Buffer \<Rightarrow> MultiBuffer \<Rightarrow> MultiBuffer result" where
  "Compact_loop mb2 lst [] = Inr (mb2 @ [lst])"
| "Compact_loop mb2 lst (cur # mb) =
     (if blen cur > Buffer_Available (Some lst) then Compact_loop (mb2 @ [lst]) cur mb
      else bind_res (Buffer_ReadFrom Buffer_reader cur lst) (\<lambda>(lst', n, err, _).
             if err \<noteq> None then Inl Panic else Compact_loop mb2 lst' mb))"

definition Compact :: "MultiBuffer \<Rightarrow> MultiBuffer result" where
  "Compact mb = (case mb of [] \<Rightarrow> Inr [] | lst # mb' \<Rightarrow> Compact_loop [] lst mb')"

definition MultiBuffer_Len :: "MultiBuffer \<Rightarrow> int" where
  "MultiBuffer_Len mb = foldl (\<lambda>sz b. i32 (sz + blen b)) 0 mb"

fun MultiBuffer_IsEmpty :: "MultiBuffer \<Rightarrow> bool" where
  "MultiBuffer_IsEmpty [] = True"
| "MultiBuffer_IsEmpty (b # mb) = (if \<not> Buffer_IsEmpty (Some b) then False else MultiBuffer_IsEmpty mb)"

text \<open>The second loop of \<^verbatim>\<open>SplitSize\<close>: whole buffers as long as they fit into \<open>sz\<close>.\<close>

fun SplitSize_loop :: "int \<Rightarrow> int \<Rightarrow> MultiBuffer \<Rightarrow> MultiBuffer \<times> MultiBuffer" where
  "SplitSize_loop totalBytes sz [] = ([], [])"
| "SplitSize_loop totalBytes sz (b # mb) =
     (if i32 (totalBytes + blen b) > sz then (b # mb, [])
      else let (rest, r) = SplitSize_loop (i32 (totalBytes + blen b)) sz mb in (rest, b # r))"

definition SplitSize :: "MultiBuffer \<Rightarrow> int \<Rightarrow> (MultiBuffer \<times> MultiBuffer) result" where
  "SplitSize mb sz =
     (case mb of
        [] \<Rightarrow> Inr ([], [])
      | b0 # mb' \<Rightarrow>
          if blen b0 > sz then
            bind_res (Buffer_Extend New sz) (\<lambda>(b, off).
              bind_res (Buffer_BytesTo b0 sz) (\<lambda>bytes.
                bind_res (store off (take (nat sz) bytes) b) (\<lambda>b'.
                  Inr (Buffer_Advance b0 sz # mb', [b']))))
          else Inr (SplitSize_loop 0 sz mb))"

text \<open>
  \<^verbatim>\<open>WriteMultiBuffer(writer, mb)\<close>: the buffers one by one; on an error the leftover is what
  was not yet handed to the writer.
\<close>

fun WriteMultiBuffer ::
  "('w \<Rightarrow> byte list \<Rightarrow> go_error option \<times> 'w) \<Rightarrow> 'w \<Rightarrow> MultiBuffer
     \<Rightarrow> (MultiBuffer \<times> go_error option \<times> 'w) result" where
  "WriteMultiBuffer wr w [] = Inr ([], None, w)"
| "WriteMultiBuffer wr w (b # mb) =
     bind_res (Buffer_Bytes b) (\<lambda>bytes.
       case wr w bytes of
         (Some e, w') \<Rightarrow> Inr (mb, Some e, w')
       | (None, w') \<Rightarrow> WriteMultiBuffer wr w' mb)"

text \<open>
  \<^verbatim>\<open>ReadFrom(reader)\<close>: buffers of \<open>Size\<close> bytes until the input ends. Every round but the
  last consumes \<open>Size\<close> bytes of input.
\<close>

function ReadFrom_loop :: "MultiBuffer \<Rightarrow> byte list \<Rightarrow> MultiBuffer result" where
  "ReadFrom_loop mb inp =
     (case Buffer_ReadFullFrom New inp (int Size) of
        Inl e \<Rightarrow> Inl e
      | Inr (b, rest, err) \<Rightarrow>
          let mb' = (if Buffer_IsEmpty (Some b) then mb else mb @ [b]) in
          case err of
            Some e \<Rightarrow> if e = EOF \<or> e = UnexpectedEOF then Inr mb' else Inl e
          | None \<Rightarrow> if length rest < length inp then ReadFrom_loop mb' rest
                    else Inl Panic \<comment> \<open>not reachable: a full read consumes \<open>Size\<close> bytes\<close>)"
  by pat_completeness auto
termination
  by (relation "measure (\<lambda>(mb, inp). length inp)") auto

declare ReadFrom_loop.simps [simp del]

definition ReadFrom :: "byte list \<Rightarrow> MultiBuffer result" where
  "ReadFrom inp = ReadFrom_loop [] inp"

definition ReadAllToBytes :: "byte list \<Rightarrow> byte list result" where
  "ReadAllToBytes inp =
     bind_res (ReadFrom inp) (\<lambda>mb.
       if MultiBuffer_Len mb = 0 then Inr []
       else if MultiBuffer_Len mb < 0 then Inl Panic
       else bind_res (SplitBytes mb (nat (MultiBuffer_Len mb))) (\<lambda>(mb', xs).
              Inr (xs @ replicate (nat (MultiBuffer_Len mb) - length xs) 0)))"

text \<open>\<^verbatim>\<open>MultiBufferContainer\<close> keeps a \<^verbatim>\<open>MultiBuffer\<close> and reads and writes through it.\<close>

definition Container_Read :: "MultiBuffer \<Rightarrow> nat \<Rightarrow> (MultiBuffer \<times> byte list) result" where
  "Container_Read c n = (if MultiBuffer_IsEmpty c then Inl EOF else SplitBytes c n)"

definition Container_ReadMultiBuffer :: "MultiBuffer \<Rightarrow> MultiBuffer \<times> MultiBuffer" where
  "Container_ReadMultiBuffer c = ([], c)"

definition Container_Write :: "MultiBuffer \<Rightarrow> byte list \<Rightarrow> (MultiBuffer \<times> nat) result" where
  "Container_Write c b = bind_res (MergeBytes c b) (\<lambda>mb. Inr (mb, length b))"

definition Container_WriteMultiBuffer :: "MultiBuffer \<Rightarrow> MultiBuffer \<Rightarrow> MultiBuffer" where
  "Container_WriteMultiBuffer c b = fst (MergeMulti c b)"

definition Container_Close :: "MultiBuffer \<Rightarrow> MultiBuffer" where
  "Container_Close c = ReleaseMulti c"

section \<open>The window invariant and the content of a buffer\<close>

text \<open>
  \<open>buffer_ok\<close>: the window lies inside the array, and the array is small enough that no sum
  of two lengths leaves \<^verbatim>\<open>int32\<close> (the largest pool has one megabyte).
\<close>

definition buffer_ok :: "Buffer \<Rightarrow> bool" where
  "buffer_ok b \<longleftrightarrow> 0 \<le> buf_start b \<and> buf_start b \<le> buf_end b
     \<and> buf_end b \<le> int (length (buf_v b)) \<and> length (buf_v b) \<le> 1073741823"

definition content :: "Buffer \<Rightarrow> byte list" where
  "content b = take (nat (buf_end b) - nat (buf_start b)) (drop (nat (buf_start b)) (buf_v b))"

definition room :: "Buffer \<Rightarrow> nat" where
  "room b = length (buf_v b) - nat (buf_end b)"

definition mb_ok :: "MultiBuffer \<Rightarrow> bool" where
  "mb_ok mb \<longleftrightarrow> (\<forall>b \<in> set mb. buffer_ok b)"

definition mcontent :: "MultiBuffer \<Rightarrow> byte list" where
  "mcontent mb = concat (map content mb)"

lemma mb_ok_simps [simp]:
  "mb_ok []" "mb_ok (b # mb) \<longleftrightarrow> buffer_ok b \<and> mb_ok mb"
  "mb_ok (mb @ mb') \<longleftrightarrow> mb_ok mb \<and> mb_ok mb'"
  by (auto simp: mb_ok_def)

lemma mcontent_simps [simp]:
  "mcontent [] = []" "mcontent (b # mb) = content b @ mcontent mb"
  "mcontent (mb @ mb') = mcontent mb @ mcontent mb'"
  by (auto simp: mcontent_def)

lemma length_content: "buffer_ok b \<Longrightarrow> int (length (content b)) = buf_end b - buf_start b"
  by (auto simp: buffer_ok_def content_def)

lemma blen_content [simp]: "buffer_ok b \<Longrightarrow> blen b = int (length (content b))"
  by (simp add: length_content Buffer_Len_def) (auto simp: buffer_ok_def)

lemma Buffer_IsEmpty_content [simp]: "buffer_ok b \<Longrightarrow> Buffer_IsEmpty (Some b) \<longleftrightarrow> content b = []"
  by (simp add: Buffer_IsEmpty_def)

lemma Buffer_Bytes_content [simp]: "buffer_ok b \<Longrightarrow> Buffer_Bytes b = Inr (content b)"
  by (auto simp: Buffer_Bytes_def slice_def content_def buffer_ok_def)

lemma Buffer_IsFull_room [simp]: "buffer_ok b \<Longrightarrow> Buffer_IsFull (Some b) \<longleftrightarrow> room b = 0"
  by (auto simp: Buffer_IsFull_def room_def buffer_ok_def)

lemma Buffer_Available_room [simp]: "buffer_ok b \<Longrightarrow> Buffer_Available (Some b) = int (room b)"
  by (auto simp: Buffer_Available_def room_def buffer_ok_def)

lemma New_ok [simp]: "buffer_ok New" "content New = []" "room New = Size"
  by (auto simp: buffer_ok_def New_def content_def Size_def room_def)

lemma New_sel [simp]:
  "buf_v New = replicate Size 0" "buf_start New = 0" "buf_end New = 0" "buf_Endpoint New = None"
  by (simp_all add: New_def)

lemma FromBytes_ok:
  assumes "length xs \<le> 1073741823"
  shows "buffer_ok (FromBytes xs)" "content (FromBytes xs) = xs"
  using assms by (auto simp: buffer_ok_def FromBytes_def content_def)

lemma Buffer_Clear_ok: "buffer_ok b \<Longrightarrow> buffer_ok (Buffer_Clear b)" "content (Buffer_Clear b) = []"
  by (auto simp: buffer_ok_def Buffer_Clear_def content_def)

text \<open>The window of a well-formed buffer as natural numbers.\<close>

lemma buffer_okE:
  assumes "buffer_ok b"
  obtains s e where "buf_start b = int s" "buf_end b = int e" "s \<le> e" "e \<le> length (buf_v b)"
    "length (buf_v b) \<le> 1073741823" "content b = take (e - s) (drop s (buf_v b))"
    "length (content b) = e - s" "room b = length (buf_v b) - e"
  using assms that [of "nat (buf_start b)" "nat (buf_end b)"]
  by (auto simp: buffer_ok_def content_def room_def)

lemma content_update_v:
  assumes "buffer_ok b" "length xs \<le> room b"
    and "b' = b\<lparr>buf_v := overwrite (nat (buf_end b)) xs (buf_v b),
                buf_end := buf_end b + int (length xs)\<rparr>"
  shows "buffer_ok b'" "content b' = content b @ xs" "room b' = room b - length xs"
proof -
  from assms(1) obtain s e where w: "buf_start b = int s" "buf_end b = int e" "s \<le> e"
    "e \<le> length (buf_v b)" "length (buf_v b) \<le> 1073741823"
    "content b = take (e - s) (drop s (buf_v b))" "room b = length (buf_v b) - e"
    by (elim buffer_okE)
  have le: "e + length xs \<le> length (buf_v b)" using w assms(2) by simp
  have m: "e + length xs - s = (e - s) + length xs" "min (length (buf_v b) - s) (e - s) = e - s"
    using w le by auto
  show "buffer_ok b'"
    using w le assms(3) by (simp add: buffer_ok_def)
  show "content b' = content b @ xs"
    using w le m assms(3) by (simp add: content_def overwrite_def nat_int_add drop_take)
  show "room b' = room b - length xs"
    using w le assms(3) by (simp add: room_def nat_int_add)
qed

lemma Buffer_Write_spec:
  assumes "buffer_ok b"
  obtains b' where "Buffer_Write b xs = Inr (b', min (room b) (length xs))" "buffer_ok b'"
    "content b' = content b @ take (room b) xs" "room b' = room b - length xs"
    "buf_Endpoint b' = buf_Endpoint b"
proof -
  from assms obtain s e where w: "buf_start b = int s" "buf_end b = int e" "s \<le> e"
    "e \<le> length (buf_v b)" "length (buf_v b) \<le> 1073741823" "room b = length (buf_v b) - e"
    by (elim buffer_okE)
  define ys where "ys = take (room b) xs"
  let ?b = "b\<lparr>buf_v := overwrite (nat (buf_end b)) ys (buf_v b),
              buf_end := buf_end b + int (length ys)\<rparr>"
  have ys: "take (min (room b) (length xs)) xs = ys" "length ys = min (room b) (length xs)"
    by (simp_all add: ys_def min_def)
  have "i32 (int e + int (min (room b) (length xs))) = int e + int (min (room b) (length xs))"
    using w by simp
  moreover have "slice (buf_end b) (int (length (buf_v b))) (buf_v b) = Inr (drop e (buf_v b))"
    "length (drop e (buf_v b)) = room b"
    using w by (simp_all add: slice_def)
  ultimately have "Buffer_Write b xs = Inr (?b, min (room b) (length xs))"
    by (simp add: Buffer_Write_def Let_def ys w(2))
  moreover have "room b - length ys = room b - length xs" by (simp add: ys)
  ultimately show thesis
    using content_update_v [OF assms _ refl, of ys] that [of ?b] ys by (simp add: ys_def)
qed

lemma Buffer_Write_fits:
  assumes "buffer_ok b" "length xs \<le> room b"
  obtains b' where "Buffer_Write b xs = Inr (b', length xs)" "buffer_ok b'"
    "content b' = content b @ xs" "room b' = room b - length xs" "buf_Endpoint b' = buf_Endpoint b"
  using Buffer_Write_spec [OF assms(1), of xs] assms(2) by (metis min.absorb2 take_all)

lemma Buffer_Advance_spec:
  assumes "buffer_ok b" "n \<le> length (content b)"
  shows "buffer_ok (Buffer_Advance b (int n))" "content (Buffer_Advance b (int n)) = drop n (content b)"
    and "room (Buffer_Advance b (int n)) = room b"
    and "Buffer_Advance b (int n) = b\<lparr>buf_start := i32 (buf_start b + int n)\<rparr>"
proof -
  from assms(1) obtain s e where w: "buf_start b = int s" "buf_end b = int e" "s \<le> e"
    "e \<le> length (buf_v b)" "length (buf_v b) \<le> 1073741823"
    "content b = take (e - s) (drop s (buf_v b))" "length (content b) = e - s"
    by (elim buffer_okE)
  have eq: "Buffer_Advance b (int n) = b\<lparr>buf_start := int (s + n)\<rparr>"
    using w assms(2) by (simp add: Buffer_Advance_def)
  show "buffer_ok (Buffer_Advance b (int n))"
    using w assms(2) by (simp add: eq buffer_ok_def)
  show "content (Buffer_Advance b (int n)) = drop n (content b)"
    using w assms(2) by (simp add: eq content_def drop_take add.commute nat_int_add)
  show "room (Buffer_Advance b (int n)) = room b" by (simp add: eq room_def)
  show "Buffer_Advance b (int n) = b\<lparr>buf_start := i32 (buf_start b + int n)\<rparr>"
    by (simp add: Buffer_Advance_def)
qed

lemma Buffer_Read_spec:
  assumes "buffer_ok b" "content b \<noteq> []"
  obtains b' where "Buffer_Read b n = Inr (take n (content b), b')" "buffer_ok b'"
    "content b' = drop n (content b)"
proof -
  let ?m = "min (length (content b)) n"
  have "slice (buf_start b) (buf_end b) (buf_v b) = Inr (content b)"
    using Buffer_Bytes_content [OF assms(1)] by (simp add: Buffer_Bytes_def)
  then have r: "Buffer_Read b n = Inr (take n (content b),
      if int ?m = blen b then Buffer_Clear b else b\<lparr>buf_start := i32 (buf_start b + int ?m)\<rparr>)"
    using assms by (simp add: Buffer_Read_def Let_def)
  show thesis
  proof (cases "n < length (content b)")
    case True
    then have "?m = n" by simp
    with r True assms(1) have "Buffer_Read b n = Inr (take n (content b), Buffer_Advance b (int n))"
      by (simp add: Buffer_Advance_spec(4))
    with True assms(1) show thesis using that Buffer_Advance_spec(1,2) by force
  next
    case False
    with r assms(1) have "Buffer_Read b n = Inr (take n (content b), Buffer_Clear b)" by simp
    with False assms(1) show thesis using that Buffer_Clear_ok by force
  qed
qed

lemma Buffer_Read_empty: "buffer_ok b \<Longrightarrow> content b = [] \<Longrightarrow> Buffer_Read b n = Inl EOF"
  by (simp add: Buffer_Read_def)

lemma Buffer_BytesTo_spec:
  assumes "buffer_ok b" "n \<le> length (content b)"
  shows "Buffer_BytesTo b (int n) = Inr (take n (content b))"
proof -
  from assms(1) obtain s e where w: "buf_start b = int s" "buf_end b = int e" "s \<le> e"
    "e \<le> length (buf_v b)" "length (buf_v b) \<le> 1073741823"
    "content b = take (e - s) (drop s (buf_v b))" "length (content b) = e - s"
    by (elim buffer_okE)
  then have "min (e - s) n = n" "i32 (int s + int n) = int s + int n" using assms(2) by auto
  with w assms(2) show ?thesis
    by (simp add: Buffer_BytesTo_def slice_def Let_def nat_int_add)
qed

section \<open>What the MultiBuffer operations do to the content\<close>

lemma MultiBuffer_Len_foldl:
  "mb_ok mb \<Longrightarrow> 0 \<le> n \<Longrightarrow> n + int (length (mcontent mb)) < 2147483648
    \<Longrightarrow> foldl (\<lambda>sz b. i32 (sz + blen b)) n mb = n + int (length (mcontent mb))"
  by (induction mb arbitrary: n) auto

lemma MultiBuffer_Len_mcontent:
  "mb_ok mb \<Longrightarrow> length (mcontent mb) < 2147483648 \<Longrightarrow> MultiBuffer_Len mb = int (length (mcontent mb))"
  using MultiBuffer_Len_foldl [of mb 0] by (simp add: MultiBuffer_Len_def)

lemma MultiBuffer_IsEmpty_mcontent [simp]:
  "mb_ok mb \<Longrightarrow> MultiBuffer_IsEmpty mb \<longleftrightarrow> mcontent mb = []"
  by (induction mb) auto

lemma SplitBytes_law:
  "mb_ok mb \<Longrightarrow> \<exists>mb'. SplitBytes mb n = Inr (mb', take n (mcontent mb)) \<and> mb_ok mb'
     \<and> mcontent mb' = drop n (mcontent mb)"
proof (induction mb arbitrary: n)
  case Nil
  then show ?case by simp
next
  case (Cons b mb)
  show ?case
  proof (cases "content b = []")
    case True
    with Cons.prems Cons.IH [of n] show ?thesis by (simp add: Buffer_Read_empty)
  next
    case False
    from Cons.prems have b: "buffer_ok b" "mb_ok mb" by simp_all
    from Buffer_Read_spec [OF b(1) False, of n] obtain b' where
      b': "Buffer_Read b n = Inr (take n (content b), b')" "buffer_ok b'" "content b' = drop n (content b)"
      by blast
    show ?thesis
    proof (cases "drop n (content b) = []")
      case True
      then have "n - min (length (content b)) n = n - length (content b)" by simp
      with True b' b(2) Cons.IH [of "n - length (content b)"] show ?thesis
        by (auto simp: min_def split: if_splits)
    next
      case False
      with b' b(2) show ?thesis by auto
    qed
  qed
qed

interpretation mb_source: byte_source mb_ok mcontent SplitBytes
  by unfold_locales (rule SplitBytes_law)

lemma MergeBytes_loop_law:
  "mb_ok dest \<Longrightarrow> \<exists>mb. MergeBytes_loop dest src = Inr mb \<and> mb_ok mb
     \<and> mcontent mb = mcontent dest @ src"
proof (induction dest src rule: MergeBytes_loop.induct)
  case (1 dest src)
  show ?case
  proof (cases "src = []")
    case True
    with "1.prems" show ?thesis by (subst MergeBytes_loop.simps) simp
  next
    case False
    obtain b where b: "Buffer_Write New src = Inr (b, min Size (length src))" "buffer_ok b"
      "content b = take Size src"
      using Buffer_Write_spec [OF New_ok(1), of src] by auto
    have nz: "min Size (length src) \<noteq> 0" using False by (simp add: Size_def)
    have "take Size src @ drop (min Size (length src)) src = src"
      by (cases "Size \<le> length src") (simp_all add: min_def)
    with "1.IH" [OF False b(1) refl nz] "1.prems" b False nz show ?thesis
      by (simp add: MergeBytes_loop.simps [of dest src])
  qed
qed

lemma MergeBytes_law:
  assumes "mb_ok dest"
  shows "\<exists>mb. MergeBytes dest src = Inr mb \<and> mb_ok mb \<and> mcontent mb = mcontent dest @ src"
proof (cases "dest \<noteq> [] \<and> \<not> Buffer_IsFull (Some (last dest))")
  case True
  then have d: "dest = butlast dest @ [last dest]" by simp
  with assms have ok: "mb_ok (butlast dest)" "buffer_ok (last dest)" by (metis mb_ok_simps)+
  from Buffer_Write_spec [OF ok(2), of src] obtain b where
    b: "Buffer_Write (last dest) src = Inr (b, min (room (last dest)) (length src))" "buffer_ok b"
    "content b = content (last dest) @ take (room (last dest)) src" by blast
  let ?n = "min (room (last dest)) (length src)"
  have "take (room (last dest)) src @ drop ?n src = src"
    by (cases "room (last dest) \<le> length src") (simp_all add: min_def)
  moreover have "mcontent dest = mcontent (butlast dest) @ content (last dest)"
    by (subst d) simp
  ultimately show ?thesis
    using MergeBytes_loop_law [of "butlast dest @ [b]" "drop ?n src"] ok b True
    by (simp add: MergeBytes_def)
next
  case False
  then show ?thesis using MergeBytes_loop_law [OF assms, of src] by (auto simp: MergeBytes_def)
qed

interpretation buffer_sink: byte_sink buffer_ok content "\<lambda>b n. n \<le> room b"
    "\<lambda>b xs. map_sum id fst (Buffer_Write b xs)"
proof
  fix b and xs :: "byte list"
  assume "buffer_ok b" "length xs \<le> room b"
  then obtain b' where "Buffer_Write b xs = Inr (b', length xs)" "buffer_ok b'"
    "content b' = content b @ xs" "room b' = room b - length xs"
    by (rule Buffer_Write_fits)
  then show "\<exists>b'. map_sum id fst (Buffer_Write b xs) = Inr b' \<and> buffer_ok b'
      \<and> content b' = content b @ xs \<and> (\<forall>n. length xs + n \<le> room b \<longrightarrow> n \<le> room b')"
    by auto
qed simp

interpretation mb_sink: byte_sink mb_ok mcontent "\<lambda>_ _. True" MergeBytes
  by unfold_locales (auto dest: MergeBytes_law)

lemma SplitSize_loop_spec:
  assumes "mb_ok mb" "0 \<le> t" "t \<le> sz" "sz \<le> 1073741823"
  shows "case SplitSize_loop t sz mb of (rest, r) \<Rightarrow> mb = r @ rest
      \<and> t + int (length (mcontent r)) \<le> sz
      \<and> (rest \<noteq> [] \<longrightarrow> t + int (length (mcontent r)) + blen (hd rest) > sz)"
  using assms
proof (induction t sz mb rule: SplitSize_loop.induct)
  case (1 t sz)
  then show ?case by simp
next
  case (2 t sz b mb)
  from "2.prems"(1) have ok: "buffer_ok b" by simp
  then have small: "blen b \<le> 1073741823" using length_content [OF ok] by (simp add: buffer_ok_def)
  have w: "i32 (t + blen b) = t + blen b" using "2.prems"(2-4) small ok by simp
  show ?case
  proof (cases "t + blen b > sz")
    case True
    with w "2.prems" ok show ?thesis by simp
  next
    case False
    with w have "case SplitSize_loop (t + blen b) sz mb of (rest, r) \<Rightarrow> mb = r @ rest
        \<and> t + blen b + int (length (mcontent r)) \<le> sz
        \<and> (rest \<noteq> [] \<longrightarrow> t + blen b + int (length (mcontent r)) + blen (hd rest) > sz)"
      using "2.IH" "2.prems" ok by simp
    with False w ok show ?thesis by (auto simp: Let_def split: prod.splits)
  qed
qed

text \<open>
  \<^verbatim>\<open>SplitSize\<close> copies the beginning of a large first buffer into a fresh one, which has room for
  \<open>Size\<close> bytes: it must not be asked for more when the first buffer is larger than that.
\<close>

definition mb_small :: "MultiBuffer \<Rightarrow> bool" where
  "mb_small mb \<longleftrightarrow> (\<forall>b \<in> set mb. length (content b) \<le> Size)"

lemma mb_small_simps [simp]:
  "mb_small []" "mb_small (b # mb) \<longleftrightarrow> length (content b) \<le> Size \<and> mb_small mb"
  "mb_small (mb @ mb') \<longleftrightarrow> mb_small mb \<and> mb_small mb'"
  by (auto simp: mb_small_def)

text \<open>MultiBuffers without an empty buffer.\<close>

definition mb_solid :: "MultiBuffer \<Rightarrow> bool" where
  "mb_solid mb \<longleftrightarrow> (\<forall>b \<in> set mb. content b \<noteq> [])"

lemma mb_solid_simps [simp]:
  "mb_solid []" "mb_solid (b # mb) \<longleftrightarrow> content b \<noteq> [] \<and> mb_solid mb"
  "mb_solid (mb @ mb') \<longleftrightarrow> mb_solid mb \<and> mb_solid mb'"
  by (auto simp: mb_solid_def)

lemma SplitSize_law:
  assumes "mb_ok mb" "0 \<le> sz" "sz \<le> 1073741823" "sz \<le> int Size \<or> mb_small mb"
  obtains rest r where "SplitSize mb sz = Inr (rest, r)" "mb_ok rest" "mb_ok r"
    "mcontent r @ mcontent rest = mcontent mb" "int (length (mcontent r)) \<le> sz"
    "mb \<noteq> [] \<Longrightarrow> r \<noteq> []" "length rest \<le> length mb"
    "mb \<noteq> [] \<Longrightarrow> 0 < sz \<Longrightarrow> length rest < length mb \<or> length (mcontent rest) < length (mcontent mb)"
    "mb_small mb \<Longrightarrow> mb_small rest" "mb_solid mb \<Longrightarrow> 0 < sz \<Longrightarrow> mb_solid rest \<and> mb_solid r"
proof (cases mb)
  case Nil
  then show thesis using that assms(2) by (simp add: SplitSize_def)
next
  case (Cons b0 mb')
  with assms have ok: "buffer_ok b0" "mb_ok mb'" by simp_all
  show thesis
  proof (cases "blen b0 > sz")
    case True
    define n where "n = nat sz"
    have n: "sz = int n" "n \<le> length (content b0)" "n \<le> Size"
      using True assms ok Cons by (auto simp: n_def)
    let ?b = "New\<lparr>buf_v := overwrite 0 (take n (content b0)) (replicate Size 0), buf_end := int n\<rparr>"
    have ext: "Buffer_Extend New sz = Inr (New\<lparr>buf_end := int n\<rparr>, 0)"
      using n by (simp add: Buffer_Extend_def slice_def Size_def)
    have "store 0 (take n (take n (content b0))) (New\<lparr>buf_end := int n\<rparr>) = Inr ?b"
      using n by (simp add: store_def put_def)
    moreover have "buffer_ok ?b" "content ?b = take n (content b0)"
      using content_update_v [OF New_ok(1), of "take n (content b0)" ?b] n
      by simp_all
    ultimately have "SplitSize mb sz = Inr (Buffer_Advance b0 sz # mb', [?b])"
      using True Cons ok n ext Buffer_BytesTo_spec [OF ok(1) n(2)]
      by (simp add: SplitSize_def)
    moreover have "n < length (content b0)" using True n ok by auto
    moreover note b = \<open>buffer_ok ?b\<close> \<open>content ?b = take n (content b0)\<close> Buffer_Advance_spec(1,2) [OF ok(1) n(2)]
    ultimately show thesis
      by (intro that [of "Buffer_Advance b0 sz # mb'" "[?b]"]) (use n ok Cons in \<open>auto simp: b\<close>)
  next
    case False
    obtain rest r where sp: "SplitSize_loop 0 sz mb = (rest, r)" by fastforce
    with SplitSize_loop_spec [OF assms(1), of 0 sz] assms have
      s: "mb = r @ rest" "int (length (mcontent r)) \<le> sz"
      "rest \<noteq> [] \<longrightarrow> int (length (mcontent r)) + blen (hd rest) > sz"
      by (simp_all add: Size_def)
    have "r \<noteq> []" using s(1,3) False Cons by auto
    moreover have "SplitSize mb sz = Inr (rest, r)" using sp False Cons by (simp add: SplitSize_def)
    moreover have "mb_ok r" "mb_ok rest" "mcontent r @ mcontent rest = mcontent mb"
      "length rest \<le> length mb"
      using s(1) assms(1) by simp_all
    ultimately show thesis
      using that [of rest r] s(1,2) by simp
  qed
qed

lemma room_slice:
  assumes "buffer_ok b"
  obtains dst where "slice (buf_end b) (int (length (buf_v b))) (buf_v b) = Inr dst"
    "length dst = room b" "0 \<le> buf_end b" "buf_end b + int (room b) \<le> 1073741823"
  using assms by (elim buffer_okE) (auto simp: slice_def)

lemma Buffer_ReadFrom_buffer:
  assumes "buffer_ok lst" "buffer_ok cur" "length (content cur) \<le> room lst" "content cur \<noteq> []"
  obtains lst' c' where
    "Buffer_ReadFrom Buffer_reader cur lst = Inr (lst', length (content cur), None, c')"
    "buffer_ok lst'" "content lst' = content lst @ content cur"
proof -
  from assms(1) obtain dst where dst:
    "slice (buf_end lst) (int (length (buf_v lst))) (buf_v lst) = Inr dst" "length dst = room lst"
    "0 \<le> buf_end lst" "buf_end lst + int (room lst) \<le> 1073741823" by (rule room_slice)
  from Buffer_Read_spec [OF assms(2,4), of "room lst"] assms(3) obtain c' where
    "Buffer_Read cur (room lst) = Inr (content cur, c')" by auto
  moreover have "i32 (buf_end lst + int (length (content cur))) = buf_end lst + int (length (content cur))"
    using dst(3,4) assms(3) by simp
  ultimately show thesis
    using that content_update_v [OF assms(1,3) refl] dst assms(3)
    by (simp add: Buffer_ReadFrom_def Buffer_reader_def)
qed

lemma Buffer_ReadFrom_empty:
  assumes "buffer_ok lst" "buffer_ok cur" "content cur = []"
  obtains lst' c' where "Buffer_ReadFrom Buffer_reader cur lst = Inr (lst', 0, Some EOF, c')"
proof -
  from assms(1) obtain dst where
    "slice (buf_end lst) (int (length (buf_v lst))) (buf_v lst) = Inr dst" by (rule room_slice)
  then show thesis
    using that assms by (simp add: Buffer_ReadFrom_def Buffer_reader_def Buffer_Read_empty)
qed

lemma Compact_loop_law:
  "buffer_ok lst \<Longrightarrow> mb_ok mb \<Longrightarrow> mb_ok mb2 \<Longrightarrow>
     if \<exists>b \<in> set mb. content b = [] then Compact_loop mb2 lst mb = Inl Panic
     else \<exists>r. Compact_loop mb2 lst mb = Inr r \<and> mb_ok r
            \<and> mcontent r = mcontent mb2 @ content lst @ mcontent mb
            \<and> length r \<le> length mb2 + 1 + length mb"
proof (induction mb arbitrary: mb2 lst)
  case Nil
  then show ?case by simp
next
  case (Cons cur mb)
  then have ok: "buffer_ok lst" "buffer_ok cur" "mb_ok mb" "mb_ok mb2" by simp_all
  consider (keep) "length (content cur) > room lst" "content cur \<noteq> []"
    | (join) "length (content cur) \<le> room lst" "content cur \<noteq> []" | (empty) "content cur = []"
    by fastforce
  then show ?case
  proof cases
    case keep
    with Cons.IH [OF ok(2,3), of "mb2 @ [lst]"] ok show ?thesis by auto
  next
    case join
    from Buffer_ReadFrom_buffer [OF ok(1,2) join] obtain lst' c' where
      l: "Buffer_ReadFrom Buffer_reader cur lst = Inr (lst', length (content cur), None, c')"
      "buffer_ok lst'" "content lst' = content lst @ content cur" by blast
    from Cons.IH [OF l(2) ok(3,4)] l join ok show ?thesis by auto
  next
    case empty
    with Buffer_ReadFrom_empty [OF ok(1,2)] obtain lst' c' where
      "Buffer_ReadFrom Buffer_reader cur lst = Inr (lst', 0, Some EOF, c')" by blast
    with empty ok show ?thesis by simp
  qed
qed

lemma Buffer_ReadFullFrom_New:
  assumes "n \<le> Size"
  obtains b where "Buffer_ReadFullFrom New inp (int n) =
      Inr (b, drop n inp, if n \<le> length inp then None else Some (if inp = [] then EOF else UnexpectedEOF))"
    "buffer_ok b" "content b = take n inp"
proof -
  define xs where "xs = take n inp"
  let ?b = "New\<lparr>buf_v := overwrite (nat (buf_end New)) xs (buf_v New),
                buf_end := buf_end New + int (length xs)\<rparr>"
  have "length xs \<le> Size" using assms by (simp add: xs_def)
  then have "buffer_ok ?b" "content ?b = xs" "i32 (int (length xs)) = int (length xs)"
    using content_update_v [OF New_ok(1) _ refl, of xs] by (simp_all add: Size_def)
  moreover have "slice 0 (int n) (buf_v New) = Inr (replicate n 0)" "i32 (int n) = int n"
    using assms by (simp_all add: slice_def Size_def)
  moreover have "ReadFull inp n =
      (xs, drop n inp, if n \<le> length inp then None else Some (if inp = [] then EOF else UnexpectedEOF))"
    by (auto simp: ReadFull_def xs_def)
  ultimately show thesis
    using that [of ?b] assms by (simp add: Buffer_ReadFullFrom_def xs_def)
qed

lemma ReadFrom_loop_law:
  "mb_ok mb \<Longrightarrow> \<exists>r. ReadFrom_loop mb inp = Inr r \<and> mb_ok r \<and> mcontent r = mcontent mb @ inp"
proof (induction mb inp rule: ReadFrom_loop.induct)
  case (1 mb inp)
  from Buffer_ReadFullFrom_New [of Size inp] obtain b where
    b: "Buffer_ReadFullFrom New inp (int Size) = Inr (b, drop Size inp,
          if Size \<le> length inp then None else Some (if inp = [] then EOF else UnexpectedEOF))"
    "buffer_ok b" "content b = take Size inp" by blast
  let ?mb = "if Buffer_IsEmpty (Some b) then mb else mb @ [b]"
  have mb: "mb_ok ?mb" "mcontent ?mb = mcontent mb @ take Size inp"
    using b(2,3) "1.prems" by auto
  show ?case
  proof (cases "Size \<le> length inp")
    case True
    then have lt: "length (drop Size inp) < length inp" by (simp add: Size_def)
    have "\<exists>r. ReadFrom_loop ?mb (drop Size inp) = Inr r \<and> mb_ok r
        \<and> mcontent r = mcontent ?mb @ drop Size inp"
      using "1.IH" [OF b(1) refl refl refl _ lt] True mb(1) by simp
    moreover have "ReadFrom_loop mb inp = ReadFrom_loop ?mb (drop Size inp)"
      using b(1) True lt by (subst ReadFrom_loop.simps) (simp add: Let_def)
    ultimately show ?thesis using mb(2) by simp
  next
    case False
    with b(1) have "ReadFrom_loop mb inp = Inr ?mb" by (subst ReadFrom_loop.simps) (simp add: Let_def)
    with False mb show ?thesis by simp
  qed
qed

lemma ReadFrom_law: "\<exists>r. ReadFrom inp = Inr r \<and> mb_ok r \<and> mcontent r = inp"
  using ReadFrom_loop_law [of "[]" inp] by (simp add: ReadFrom_def)

section \<open>Reading into a scratch buffer\<close>

lemma read_full_law:
  assumes "buffer_ok b" "n \<le> room b"
  shows "if n \<le> length inp
         then \<exists>b'. read_full b inp (int n) = Inr (b', drop n inp) \<and> buffer_ok b'
                \<and> content b' = content b @ take n inp \<and> room b' = room b - n
         else read_full b inp (int n) = Inl (if inp = [] then EOF else UnexpectedEOF)"
proof -
  from assms(1) obtain s e where w: "buf_start b = int s" "buf_end b = int e" "s \<le> e"
    "e \<le> length (buf_v b)" "length (buf_v b) \<le> 1073741823" "room b = length (buf_v b) - e"
    by (elim buffer_okE)
  have "i32 (buf_end b + int n) = int (e + n)" "e + n \<le> length (buf_v b)"
    using w assms(2) by simp_all
  then have sl: "Buffer_ReadFullFrom b inp (int n) =
      (let (xs, rest, err) = ReadFull inp n in
       Inr (b\<lparr>buf_v := overwrite (nat (buf_end b)) xs (buf_v b),
              buf_end := i32 (buf_end b + int (length xs))\<rparr>, rest, err))"
    using w by (simp add: Buffer_ReadFullFrom_def slice_def nat_int_add)
  show ?thesis
  proof (cases "n \<le> length inp")
    case True
    then have t: "length (take n inp) = n" by simp
    have "i32 (buf_end b + int (length (take n inp))) = buf_end b + int (length (take n inp))"
      using w assms(2) t by simp
    with True sl t content_update_v [OF assms(1), of "take n inp", OF _ refl] assms(2) show ?thesis
      by (simp add: read_full_def ReadFull_def)
  next
    case False
    with sl show ?thesis by (simp add: read_full_def ReadFull_def)
  qed
qed

lemma read_full_append:
  assumes "buffer_ok b" "length xs \<le> room b" "n = int (length xs)"
  obtains b' where "read_full b (xs @ rest) n = Inr (b', rest)" "buffer_ok b'"
    "content b' = content b @ xs" "room b' = room b - length xs"
  using read_full_law [OF assms(1,2), of "xs @ rest"] assms(3) that by auto

lemma Buffer_BytesFrom_suffix:
  assumes "buffer_ok b" "content b = pre @ xs" "xs \<noteq> []"
  shows "Buffer_BytesFrom b (- int (length xs)) = Inr xs"
proof -
  from assms(1) obtain s e where w: "buf_start b = int s" "buf_end b = int e" "s \<le> e"
    "e \<le> length (buf_v b)" "length (buf_v b) \<le> 1073741823"
    "content b = take (e - s) (drop s (buf_v b))" "length (content b) = e - s"
    by (elim buffer_okE)
  define k where "k = length (content b) - length xs"
  have k: "k = length pre" using assms(2) by (simp add: k_def)
  have len: "- int (length xs) + blen b = int k" using assms by (simp add: k_def)
  have "length pre + length xs = e - s" using w(7) assms(2) by simp
  then have "s + k \<le> e" "e - (s + k) = length xs" using w(3) k by auto
  moreover have "take (e - (s + k)) (drop (s + k) (buf_v b)) = drop k (content b)"
    using w by (simp add: drop_take add.commute)
  moreover have "drop k (content b) = xs" using assms(2) k by simp
  ultimately show ?thesis
    using w len assms(3) by (simp add: Buffer_BytesFrom_def Let_def slice_def nat_int_add)
qed

lemma Buffer_BytesFrom_zero: "buffer_ok b \<Longrightarrow> Buffer_BytesFrom b 0 = Inr (content b)"
  by (elim buffer_okE) (simp add: Buffer_BytesFrom_def slice_def)

lemma Buffer_Byte_nth:
  assumes "buffer_ok b" "k < length (content b)"
  shows "Buffer_Byte b (int k) = Inr (content b ! k)"
proof -
  from assms(1) obtain s e where w: "buf_start b = int s" "buf_end b = int e" "s \<le> e"
    "e \<le> length (buf_v b)" "length (buf_v b) \<le> 1073741823"
    "content b = take (e - s) (drop s (buf_v b))" "length (content b) = e - s"
    by (elim buffer_okE)
  then show ?thesis using assms(2) by (simp add: Buffer_Byte_def index_def nat_int_add)
qed

lemma Buffer_Byte_last:
  assumes "buffer_ok b" "content b = pre @ [x]"
  shows "Buffer_Byte b (blen b - 1) = Inr x"
  using Buffer_Byte_nth [OF assms(1), of "length pre"] assms by simp

section \<open>Panic freedom of the scratch buffer\<close>

lemma safe_read_full:
  assumes "buffer_ok b" "n \<le> room b" "k = int n"
  shows "safe (read_full b inp k) (\<lambda>(b', r). buffer_ok b' \<and> room b' = room b - n
           \<and> length (content b') = length (content b) + n)"
  using read_full_law [OF assms(1,2), of inp] assms(3)
  by (cases "n \<le> length inp") auto

lemma safe_Byte_last:
  assumes "buffer_ok b" "content b \<noteq> []"
  shows "safe (Buffer_Byte b (blen b - 1)) (\<lambda>_. True)"
  using Buffer_Byte_last [OF assms(1), of "butlast (content b)" "last (content b)"] assms by simp

lemma safe_BytesFrom:
  assumes "buffer_ok b" "n \<le> length (content b)" "k = - int n" "content b \<noteq> []"
  shows "safe (Buffer_BytesFrom b k) (\<lambda>xs. xs \<noteq> [] \<and> (0 < n \<longrightarrow> length xs = n))"
proof (cases "n = 0")
  case True
  then show ?thesis using Buffer_BytesFrom_zero [OF assms(1)] assms by simp
next
  case False
  define xs where "xs = drop (length (content b) - n) (content b)"
  have "content b = take (length (content b) - n) (content b) @ xs" by (simp add: xs_def)
  moreover have xs: "length xs = n" "xs \<noteq> []" using assms(2) False by (auto simp: xs_def)
  ultimately have "Buffer_BytesFrom b (- int (length xs)) = Inr xs"
    by (intro Buffer_BytesFrom_suffix [OF assms(1)])
  then show ?thesis using assms(3) xs by simp
qed

section \<open>Properties\<close>

text \<open>
  C34: a byte stream written into a \<^verbatim>\<open>MultiBufferContainer\<close> in any pieces (\<^verbatim>\<open>MergeBytes\<close>) and
  read back in pieces of any sizes (\<^verbatim>\<open>SplitBytes\<close>) comes out in order, without loss and
  without repetition; what is not yet read stays in the container.
\<close>

theorem multibuffer_stream_roundtrip:
  assumes "mb_ok mb"
  shows "\<exists>mb1 mb2 yss. run_writes MergeBytes mb xss = Inr mb1 \<and> run_reads SplitBytes mb1 ns = Inr (mb2, yss)
     \<and> concat yss = take (sum_list ns) (mcontent mb @ concat xss)
     \<and> mcontent mb2 = drop (sum_list ns) (mcontent mb @ concat xss)"
proof -
  from mb_sink.run_writes_law [OF assms, of xss] obtain mb1 where
    "run_writes MergeBytes mb xss = Inr mb1" "mb_ok mb1" "mcontent mb1 = mcontent mb @ concat xss"
    by auto
  with mb_source.run_reads_law [of mb1 ns] show ?thesis by fastforce
qed

theorem multibuffer_stream_roundtrip_witness:
  "mb_ok [FromBytes [1, 2]] \<and>
   (\<exists>mb1 mb2 yss. run_writes MergeBytes [FromBytes [1, 2]] [[3], [4, 5]] = Inr mb1
     \<and> run_reads SplitBytes mb1 [3, 1] = Inr (mb2, yss)
     \<and> concat yss = [1, 2, 3, 4] \<and> mcontent mb2 = [5])"
proof -
  have ok: "mb_ok [FromBytes [1, 2]]" by (simp add: FromBytes_ok)
  from multibuffer_stream_roundtrip [OF ok, of "[[3], [4, 5]]" "[3, 1]"] ok
  show ?thesis by (simp add: FromBytes_ok)
qed

text \<open>
  \<^verbatim>\<open>SplitSize\<close> cuts a MultiBuffer in two: the content is split at a point of at most \<^verbatim>\<open>size\<close>
  bytes, nothing is lost or reordered, and whenever there is a buffer and \<^verbatim>\<open>size\<close> is positive
  the rest is smaller, so a loop that takes chunks until the rest is empty ends.
\<close>

theorem SplitSize_partition:
  assumes "mb_ok mb" "0 < sz" "sz \<le> int Size" "mb \<noteq> []"
  shows "\<exists>rest r. SplitSize mb sz = Inr (rest, r) \<and> mb_ok rest \<and> mb_ok r
     \<and> mcontent r @ mcontent rest = mcontent mb \<and> int (length (mcontent r)) \<le> sz
     \<and> (length rest < length mb \<or> length rest = length mb \<and> length (mcontent rest) < length (mcontent mb))"
proof -
  have "sz \<le> 1073741823" using assms(3) by (simp add: Size_def)
  show ?thesis
    by (rule SplitSize_law [OF assms(1) less_imp_le [OF assms(2)] \<open>sz \<le> 1073741823\<close> disjI1 [OF assms(3)]])
      (use assms(2,4) in \<open>auto simp: nat_less_le\<close>)
qed

theorem SplitSize_partition_witness:
  "\<exists>rest r. SplitSize [FromBytes [7, 8, 9]] 2 = Inr (rest, r) \<and> mcontent r @ mcontent rest = [7, 8, 9]"
proof -
  have ok: "mb_ok [FromBytes [7, 8, 9]]" by (simp add: FromBytes_ok)
  from SplitSize_partition [OF ok, of 2] show ?thesis
    by (fastforce simp: Size_def FromBytes_ok)
qed

text \<open>
  \<^verbatim>\<open>Compact\<close> merges neighbouring buffers and keeps the content; it panics exactly when a
  buffer other than the first is empty, because \<^verbatim>\<open>common.Must2\<close> then meets the \<^verbatim>\<open>EOF\<close> of
  \<^verbatim>\<open>Buffer.Read\<close>.
\<close>

theorem Compact_content_or_panic:
  assumes "mb_ok mb"
  shows "if \<exists>b \<in> set (tl mb). content b = [] then Compact mb = Inl Panic
         else \<exists>r. Compact mb = Inr r \<and> mb_ok r \<and> mcontent r = mcontent mb \<and> length r \<le> length mb"
proof (cases mb)
  case Nil
  then show ?thesis by (simp add: Compact_def)
next
  case (Cons b mb')
  with Compact_loop_law [of b mb' "[]"] assms show ?thesis by (simp add: Compact_def split: if_splits)
qed

theorem Compact_content_or_panic_witness:
  "Compact [FromBytes [1], FromBytes []] = Inl Panic
   \<and> (\<exists>r. Compact [FromBytes [1], FromBytes [2]] = Inr r \<and> mcontent r = [1, 2])"
proof -
  have ok: "mb_ok [FromBytes [1], FromBytes []]" "mb_ok [FromBytes [1], FromBytes [2]]"
    by (simp_all add: FromBytes_ok)
  from Compact_content_or_panic [OF ok(1)] Compact_content_or_panic [OF ok(2)] show ?thesis
    by (auto simp: FromBytes_ok)
qed

text \<open>
  reading a whole input with \<^verbatim>\<open>ReadAllToBytes\<close> gives back exactly that input, through any
  number of 16k buffers.
\<close>

theorem ReadAllToBytes_identity:
  assumes "length inp < 2147483648"
  shows "ReadAllToBytes inp = Inr inp"
proof -
  from ReadFrom_law [of inp] obtain r where
    r: "ReadFrom inp = Inr r" "mb_ok r" "mcontent r = inp" by blast
  then have len: "MultiBuffer_Len r = int (length inp)" using MultiBuffer_Len_mcontent [of r] assms by simp
  from SplitBytes_law [OF r(2), of "length inp"] r(3) obtain mb' where
    "SplitBytes r (length inp) = Inr (mb', inp)" by auto
  with r(1) len show ?thesis by (simp add: ReadAllToBytes_def)
qed

theorem ReadAllToBytes_identity_witness: "ReadAllToBytes [1, 2, 3] = Inr [1, 2, 3]"
  by (rule ReadAllToBytes_identity) simp

text \<open>
  \<^verbatim>\<open>Buffer.Write\<close> never fails and never overruns the array: it appends as many bytes as fit,
  reports their number, and silently leaves out the rest.
\<close>

theorem Buffer_Write_bounded:
  assumes "buffer_ok b"
  shows "\<exists>b'. Buffer_Write b xs = Inr (b', min (room b) (length xs)) \<and> buffer_ok b'
     \<and> content b' = content b @ take (room b) xs \<and> length (buf_v b') = length (buf_v b)"
proof -
  from Buffer_Write_spec [OF assms, of xs] obtain b' where
    b': "Buffer_Write b xs = Inr (b', min (room b) (length xs))" "buffer_ok b'"
    "content b' = content b @ take (room b) xs" by blast
  from assms obtain s e where "buf_end b = int e" "e \<le> length (buf_v b)" by (elim buffer_okE) blast
  with b'(1) have "length (buf_v b') = length (buf_v b)"
    by (auto simp: Buffer_Write_def slice_def overwrite_def Let_def split: if_splits)
  with b' show ?thesis by blast
qed

theorem Buffer_Write_bounded_witness:
  "\<exists>b'. Buffer_Write (FromBytes [1]) [2, 3] = Inr (b', 0) \<and> content b' = [1]"
proof -
  have "buffer_ok (FromBytes [1])" "room (FromBytes [1]) = 0"
    by (simp_all add: FromBytes_ok, simp add: FromBytes_def room_def)
  with Buffer_Write_bounded [of "FromBytes [1]" "[2, 3]"] show ?thesis
    by (auto simp: FromBytes_ok)
qed

end
