(* ===== verification/AddressParser.thy ===== *)
theory AddressParser
  imports Buf
begin

text \<open>
  The configurable address serializer of \<^verbatim>\<open>common/protocol/address.go\<close>, which the mux frames
  and the proxy protocols share: an address family is announced by one byte, the port comes
  first or last. Writers are any sink of bytes; the reader reads its input through a scratch
  buffer, as the code does.
\<close>

section \<open>Options and construction\<close>

definition afInvalid :: byte where
  "afInvalid = 255"

type_synonym AddressTypeParser = "byte \<Rightarrow> byte"

record addr_option =
  opt_addrTypeMap :: "AddressFamily list"
  opt_addrByteMap :: "byte list"
  opt_portFirst :: bool
  opt_typeParser :: "AddressTypeParser option"

type_synonym AddressOption = "addr_option \<Rightarrow> addr_option result"

definition PortThenAddress :: AddressOption where
  "PortThenAddress p = Inr (p\<lparr>opt_portFirst := True\<rparr>)"

definition AddressFamilyByte :: "byte \<Rightarrow> AddressFamily \<Rightarrow> AddressOption result" where
  "AddressFamilyByte b f =
     (if b \<ge> 16 then Inl Panic
      else Inr (\<lambda>p. if f \<ge> 16 then Inl Panic
                    else Inr (p\<lparr>opt_addrTypeMap := (opt_addrTypeMap p)[unat b := f],
                                opt_addrByteMap := (opt_addrByteMap p)[unat f := b]\<rparr>)))"

definition WithAddressTypeParser :: "AddressTypeParser \<Rightarrow> AddressOption" where
  "WithAddressTypeParser atp p = Inr (p\<lparr>opt_typeParser := Some atp\<rparr>)"

record addressParser =
  ap_addrTypeMap :: "AddressFamily list"
  ap_addrByteMap :: "byte list"
  ap_typeParser :: "AddressTypeParser option"

datatype AddressSerializer =
    portFirstAddressParser addressParser
  | portLastAddressParser addressParser

fun apply_options :: "AddressOption list \<Rightarrow> AddressOption" where
  "apply_options [] o1 = Inr o1"
| "apply_options (opt # opts) o1 = bind_res (opt o1) (apply_options opts)"

definition NewAddressParser :: "AddressOption list \<Rightarrow> AddressSerializer result" where
  "NewAddressParser options =
     bind_res (apply_options options
                 \<lparr>opt_addrTypeMap = replicate 16 afInvalid, opt_addrByteMap = replicate 16 afInvalid,
                  opt_portFirst = False, opt_typeParser = None\<rparr>) (\<lambda>o1.
       let ap = \<lparr>ap_addrTypeMap = opt_addrTypeMap o1, ap_addrByteMap = opt_addrByteMap o1,
                 ap_typeParser = opt_typeParser o1\<rparr>
       in Inr (if opt_portFirst o1 then portFirstAddressParser ap else portLastAddressParser ap))"

section \<open>Reading\<close>

definition readPort :: "Buffer \<Rightarrow> byte list \<Rightarrow> (Port \<times> Buffer \<times> byte list) result" where
  "readPort b reader =
     bind_res (read_full b reader 2) (\<lambda>(b1, rest).
     bind_res (Buffer_BytesFrom b1 (- 2)) (\<lambda>bytes.
     bind_res (PortFromBytes bytes) (\<lambda>port.
       Inr (port, b1, rest))))"

definition maybeIPPrefix :: "byte \<Rightarrow> bool" where
  "maybeIPPrefix b = (b = 0x5B \<or> (0x30 \<le> b \<and> b \<le> 0x39))"

text \<open>
  \<^verbatim>\<open>isValidDomain\<close> ranges over the runes of the string; a byte above 0x7F belongs to a rune
  that is none of the accepted ASCII characters, so the test is one of the bytes.
\<close>

definition isValidDomain :: "gostring \<Rightarrow> bool" where
  "isValidDomain d = list_all (\<lambda>c.
     (0x30 \<le> c \<and> c \<le> 0x39) \<or> (0x61 \<le> c \<and> c \<le> 0x7A) \<or> (0x41 \<le> c \<and> c \<le> 0x5A)
     \<or> c = 0x2D \<or> c = 0x2E \<or> c = 0x5F) d"

definition IsDomainTooLong :: "gostring \<Rightarrow> bool" where
  "IsDomainTooLong domain = (length domain > 255)"

text \<open>The end of the domain case: an IP literal is turned into an IP address.\<close>

definition domain_or_ip :: "gostring \<Rightarrow> Address option result" where
  "domain_or_ip domain =
     bind_res (index domain 0) (\<lambda>c.
       let fallback = (if \<not> isValidDomain domain then Inl (NewError ''invalid domain name'')
                       else Inr (Some (DomainAddress domain)))
       in if maybeIPPrefix c then
            (case ParseAddress domain of
               None \<Rightarrow> Inl Panic
             | Some addr \<Rightarrow> if IsIP (Family addr) then Inr (Some addr) else fallback)
          else fallback)"

text \<open>The IP cases of \<^verbatim>\<open>readAddress\<close>, with 4 or 16 bytes, and its domain case.\<close>

definition readIP :: "int \<Rightarrow> Buffer \<Rightarrow> byte list \<Rightarrow> (Address option \<times> Buffer \<times> byte list) result" where
  "readIP n b reader =
     bind_res (read_full b reader n) (\<lambda>(b1, rest).
     bind_res (Buffer_BytesFrom b1 (- n)) (\<lambda>ip.
       Inr (IPAddress ip, b1, rest)))"

definition readDomain :: "Buffer \<Rightarrow> byte list \<Rightarrow> (Address option \<times> Buffer \<times> byte list) result" where
  "readDomain b reader =
     bind_res (read_full b reader 1) (\<lambda>(b1, r1).
     bind_res (Buffer_Byte b1 (blen b1 - 1)) (\<lambda>domainLength.
     bind_res (read_full b1 r1 (uint domainLength)) (\<lambda>(b2, r2).
     bind_res (Buffer_BytesFrom b2 (- uint domainLength)) (\<lambda>domain.
     bind_res (domain_or_ip domain) (\<lambda>addr.
       Inr (addr, b2, r2))))))"

definition readAddress ::
  "addressParser \<Rightarrow> Buffer \<Rightarrow> byte list \<Rightarrow> (Address option \<times> Buffer \<times> byte list) result" where
  "readAddress p b reader =
     bind_res (read_full b reader 1) (\<lambda>(b1, r1).
     bind_res (Buffer_Byte b1 (blen b1 - 1)) (\<lambda>t.
       let addrType = (case ap_typeParser p of None \<Rightarrow> t | Some tp \<Rightarrow> tp t) in
       if addrType \<ge> 16 then Inl (NewError ''unknown address type'')
       else bind_res (index (ap_addrTypeMap p) (uint addrType)) (\<lambda>addrFamily.
         if addrFamily = afInvalid then Inl (NewError ''unknown address type'')
         else if addrFamily = AddressFamilyIPv4 then readIP 4 b1 r1
         else if addrFamily = AddressFamilyIPv6 then readIP 16 b1 r1
         else if addrFamily = AddressFamilyDomain then readDomain b1 r1
         else Inl Panic)))"

text \<open>
  \<^verbatim>\<open>ReadAddressPort\<close> of the two serializers: the address and port, and the input left. A nil
  buffer is replaced by a fresh one.
\<close>

fun ReadAddressPort :: "AddressSerializer \<Rightarrow> Buffer option \<Rightarrow> byte list
    \<Rightarrow> (Address option \<times> Port \<times> Buffer \<times> byte list) result" where
  "ReadAddressPort (portFirstAddressParser ap) buffer input =
     (let b0 = (case buffer of None \<Rightarrow> New | Some b \<Rightarrow> b) in
      bind_res (readPort b0 input) (\<lambda>(port, b1, r1).
      bind_res (readAddress ap b1 r1) (\<lambda>(addr, b2, r2).
        Inr (addr, port, b2, r2))))"
| "ReadAddressPort (portLastAddressParser ap) buffer input =
     (let b0 = (case buffer of None \<Rightarrow> New | Some b \<Rightarrow> b) in
      bind_res (readAddress ap b0 input) (\<lambda>(addr, b1, r1).
      bind_res (readPort b1 r1) (\<lambda>(port, b2, r2).
        Inr (addr, port, b2, r2))))"

section \<open>Writing\<close>

definition WriteUint16 :: "('w \<Rightarrow> byte list \<Rightarrow> 'w result) \<Rightarrow> 'w \<Rightarrow> u16 \<Rightarrow> 'w result" where
  "WriteUint16 wr w value = wr w (be16 value)"

definition writePort :: "('w \<Rightarrow> byte list \<Rightarrow> 'w result) \<Rightarrow> 'w \<Rightarrow> Port \<Rightarrow> 'w result" where
  "writePort wr w port = WriteUint16 wr w port"

definition writeAddress ::
  "('w \<Rightarrow> byte list \<Rightarrow> 'w result) \<Rightarrow> addressParser \<Rightarrow> 'w \<Rightarrow> Address option \<Rightarrow> 'w result" where
  "writeAddress wr p w address =
     (case address of
        None \<Rightarrow> Inl Panic
      | Some a \<Rightarrow>
          bind_res (index (ap_addrByteMap p) (uint (Family a))) (\<lambda>tb.
            if tb = afInvalid then Inl (NewError ''unknown address family'')
            else if Family a = AddressFamilyIPv4 \<or> Family a = AddressFamilyIPv6 then
              bind_res (wr w [tb]) (\<lambda>w1.
              bind_res (Address_IP a) (\<lambda>ip. wr w1 ip))
            else if Family a = AddressFamilyDomain then
              bind_res (Address_Domain a) (\<lambda>domain.
                if IsDomainTooLong domain then Inl (NewError ''Super long domain is not supported'')
                else bind_res (wr w [tb, of_nat (length domain)]) (\<lambda>w1. wr w1 domain))
            else Inl Panic))"

fun WriteAddressPort :: "('w \<Rightarrow> byte list \<Rightarrow> 'w result) \<Rightarrow> AddressSerializer \<Rightarrow> 'w
    \<Rightarrow> Address option \<Rightarrow> Port \<Rightarrow> 'w result" where
  "WriteAddressPort wr (portFirstAddressParser ap) w addr port =
     bind_res (writePort wr w port) (\<lambda>w1. writeAddress wr ap w1 addr)"
| "WriteAddressPort wr (portLastAddressParser ap) w addr port =
     bind_res (writeAddress wr ap w addr) (\<lambda>w1. writePort wr w1 port)"

section \<open>The wire format\<close>

text \<open>
  \<open>address_wire\<close> is the reference encoding of an address; \<open>ap_knows\<close> says that a parser
  announces a family by a byte that it reads back as the same family.
\<close>

definition address_wire :: "addressParser \<Rightarrow> Address \<Rightarrow> byte list" where
  "address_wire p a = ap_addrByteMap p ! unat (Family a) #
     (case a of ipv4Address ip \<Rightarrow> ip | ipv6Address ip \<Rightarrow> ip
      | domainAddress d \<Rightarrow> of_nat (length d) # d)"

definition ap_knows :: "addressParser \<Rightarrow> AddressFamily \<Rightarrow> bool" where
  "ap_knows p f \<longleftrightarrow> length (ap_addrByteMap p) = 16 \<and> length (ap_addrTypeMap p) = 16 \<and>
     (let tb = ap_addrByteMap p ! unat f in
        tb < 16 \<and> ap_addrTypeMap p ! unat tb = f
        \<and> (case ap_typeParser p of None \<Rightarrow> True | Some tp \<Rightarrow> tp tb = tb))"

text \<open>
  The domains that survive the trip: not empty, at most 255 bytes, only accepted characters,
  and not the text of an IP address (which is read back as that IP address).
\<close>

definition domain_ok :: "gostring \<Rightarrow> bool" where
  "domain_ok d \<longleftrightarrow> d \<noteq> [] \<and> length d \<le> 255 \<and> isValidDomain d
     \<and> (maybeIPPrefix (hd d) \<longrightarrow> \<not> IsIP (Family (the (ParseAddress d))))"

definition sendable :: "addressParser \<Rightarrow> Address \<Rightarrow> bool" where
  "sendable p a \<longleftrightarrow> address_ok a \<and> ap_knows p (Family a)
     \<and> (case a of domainAddress d \<Rightarrow> domain_ok d | _ \<Rightarrow> True)"

fun serializer_parser :: "AddressSerializer \<Rightarrow> addressParser" where
  "serializer_parser (portFirstAddressParser ap) = ap"
| "serializer_parser (portLastAddressParser ap) = ap"

fun address_port_wire :: "AddressSerializer \<Rightarrow> Address \<Rightarrow> Port \<Rightarrow> byte list" where
  "address_port_wire (portFirstAddressParser ap) a port = be16 port @ address_wire ap a"
| "address_port_wire (portLastAddressParser ap) a port = address_wire ap a @ be16 port"

lemma Family_cases: "Family a = 0 \<or> Family a = 1 \<or> Family a = 2"
  by (cases a) (simp_all add: family_defs)

lemma ap_knows_tb: "ap_knows p f \<Longrightarrow> ap_addrByteMap p ! unat f \<noteq> afInvalid"
  by (auto simp: ap_knows_def afInvalid_def Let_def)

lemma index_byte_map:
  "ap_knows p (Family a) \<Longrightarrow>
     index (ap_addrByteMap p) (uint (Family a)) = Inr (ap_addrByteMap p ! unat (Family a))"
  using Family_cases [of a] by (auto simp: index_def ap_knows_def)

section \<open>The client of a byte sink\<close>

context byte_sink
begin

lemma writeAddress_law:
  assumes "ok w" "sendable p a" "fits w (length (address_wire p a))"
  shows "\<exists>w'. writeAddress wr p w (Some a) = Inr w' \<and> ok w' \<and> cont w' = cont w @ address_wire p a
    \<and> (\<forall>n. fits w (length (address_wire p a) + n) \<longrightarrow> fits w' n)"
proof -
  let ?tb = "ap_addrByteMap p ! unat (Family a)"
  define cs where "cs = (case a of ipv4Address ip \<Rightarrow> [[?tb], ip] | ipv6Address ip \<Rightarrow> [[?tb], ip]
      | domainAddress d \<Rightarrow> [[?tb, of_nat (length d)], d])"
  have kn: "ap_knows p (Family a)" using assms(2) by (simp add: sendable_def)
  have "concat cs = address_wire p a" by (cases a) (simp_all add: cs_def address_wire_def)
  moreover have "writeAddress wr p w (Some a) = run_writes wr w cs"
    using kn ap_knows_tb [OF kn] assms(2) index_byte_map [OF kn]
    by (cases a) (simp_all add: writeAddress_def cs_def family_defs sendable_def domain_ok_def
        IsDomainTooLong_def)
  ultimately show ?thesis using run_writes_law [of w cs] assms(1,3) by simp
qed

lemma WriteAddressPort_law:
  assumes "ok w" "sendable (serializer_parser ser) a" "fits w (length (address_port_wire ser a port))"
  shows "\<exists>w'. WriteAddressPort wr ser w (Some a) port = Inr w' \<and> ok w'
    \<and> cont w' = cont w @ address_port_wire ser a port
    \<and> (\<forall>n. fits w (length (address_port_wire ser a port) + n) \<longrightarrow> fits w' n)"
proof (cases ser)
  case (portFirstAddressParser ap)
  have "fits w (length (be16 port))" using assms(3) portFirstAddressParser fits_mono by fastforce
  from write_law [OF assms(1) this] obtain w1 where
    w1: "wr w (be16 port) = Inr w1" "ok w1" "cont w1 = cont w @ be16 port"
    "\<And>n. fits w (length (be16 port) + n) \<Longrightarrow> fits w1 n" by blast
  from writeAddress_law [of w1 ap a] w1 assms portFirstAddressParser show ?thesis
    by (auto simp: writePort_def WriteUint16_def)
next
  case (portLastAddressParser ap)
  have "fits w (length (address_wire ap a))" using assms(3) portLastAddressParser fits_mono by fastforce
  from writeAddress_law [OF assms(1) _ this] assms(2) portLastAddressParser obtain w1 where
    w1: "writeAddress wr ap w (Some a) = Inr w1" "ok w1" "cont w1 = cont w @ address_wire ap a"
    "\<And>n. fits w (length (address_wire ap a) + n) \<Longrightarrow> fits w1 n" by auto
  have "fits w1 (length (be16 port))" using w1(4) assms(3) portLastAddressParser by simp
  from write_law [OF w1(2) this] w1 portLastAddressParser show ?thesis
    by (auto simp: writePort_def WriteUint16_def)
qed

end

section \<open>Reading back what was written\<close>

lemma index_uint: "uint (w :: byte) < int (length xs) \<Longrightarrow> index xs (uint w) = Inr (xs ! unat w)"
  by (simp add: index_def)

lemma domain_or_ip_ok: "domain_ok d \<Longrightarrow> domain_or_ip d = Inr (Some (domainAddress d))"
  using ParseAddress_total [of d]
  by (auto simp: domain_or_ip_def domain_ok_def index_def hd_conv_nth DomainAddress_def Let_def)

lemma readIP_law:
  assumes "buffer_ok b" "length ip \<le> room b" "n = int (length ip)" "ip \<noteq> []"
  obtains b' where "readIP n b (ip @ rest) = Inr (IPAddress ip, b', rest)" "buffer_ok b'"
    "content b' = content b @ ip" "room b' = room b - length ip"
proof -
  from read_full_append [OF assms(1,2,3), of rest] obtain b' where
    b': "read_full b (ip @ rest) n = Inr (b', rest)" "buffer_ok b'" "content b' = content b @ ip"
    "room b' = room b - length ip" by blast
  with Buffer_BytesFrom_suffix [OF b'(2,3) assms(4)] show thesis
    using that assms(3) by (simp add: readIP_def)
qed

lemma readDomain_law:
  assumes "buffer_ok b" "Suc (length d) \<le> room b" "domain_ok d"
  obtains b' where "readDomain b (of_nat (length d) # d @ rest) = Inr (Some (domainAddress d), b', rest)"
    "buffer_ok b'" "content b' = content b @ of_nat (length d) # d" "room b' = room b - Suc (length d)"
proof -
  define l :: byte where "l = of_nat (length d)"
  have d: "d \<noteq> []" "uint l = int (length d)"
    using assms(3) by (auto simp: domain_ok_def l_def uint_nat unat_of_nat)
  have "length [l] \<le> room b" using assms(2) by simp
  from read_full_append [OF assms(1) this, of 1 "d @ rest"] obtain b1 where
    b1: "read_full b (l # d @ rest) 1 = Inr (b1, d @ rest)" "buffer_ok b1" "content b1 = content b @ [l]"
    "room b1 = room b - 1" by auto
  have "length d \<le> room b1" using assms(2) b1(4) by simp
  from read_full_append [OF b1(2) this d(2), of rest] obtain b2 where
    b2: "read_full b1 (d @ rest) (uint l) = Inr (b2, rest)" "buffer_ok b2" "content b2 = content b1 @ d"
    "room b2 = room b1 - length d" by blast
  have "Buffer_BytesFrom b2 (- uint l) = Inr d"
    using Buffer_BytesFrom_suffix [OF b2(2,3) d(1)] d(2) by simp
  with b1 b2 Buffer_Byte_last [OF b1(2,3)] domain_or_ip_ok [OF assms(3)] show thesis
    using that [of b2] by (simp add: readDomain_def l_def)
qed

lemma readAddress_family:
  assumes "buffer_ok b" "ap_knows p f" "f = 0 \<or> f = 1 \<or> f = 2" "1 \<le> room b"
    and tb: "tb = ap_addrByteMap p ! unat f"
  obtains b1 where "buffer_ok b1" "content b1 = content b @ [tb]" "room b1 = room b - 1"
    "readAddress p b (tb # r1) =
       (if f = 0 then readIP 4 b1 r1 else if f = 1 then readIP 16 b1 r1 else readDomain b1 r1)"
proof -
  have "length [tb] \<le> room b" using assms(4) by simp
  from read_full_append [OF assms(1) this, of 1 r1] obtain b1 where
    b1: "read_full b (tb # r1) 1 = Inr (b1, r1)" "buffer_ok b1" "content b1 = content b @ [tb]"
    "room b1 = room b - 1" by auto
  have lt: "tb < 16" "length (ap_addrTypeMap p) = 16" "ap_addrTypeMap p ! unat tb = f"
    "(case ap_typeParser p of None \<Rightarrow> tb | Some tp \<Rightarrow> tp tb) = tb"
    using assms(2) tb by (auto simp: ap_knows_def Let_def split: option.splits)
  then have "uint tb < 16" by (simp add: word_less_def)
  with lt have "index (ap_addrTypeMap p) (uint tb) = Inr f" by (simp add: index_uint)
  moreover have "f \<noteq> afInvalid" using assms(3) by (auto simp: afInvalid_def)
  moreover have "\<not> tb \<ge> 16" using lt(1) by simp
  moreover note Buffer_Byte_last [OF b1(2,3)]
  ultimately show thesis
    using that [of b1] b1 lt(4) assms(3) unfolding readAddress_def Let_def
    by (auto simp: family_defs)
qed

lemma readAddress_law:
  assumes "buffer_ok b" "sendable p a" "length (address_wire p a) \<le> room b"
  obtains b' where "readAddress p b (address_wire p a @ rest) = Inr (Some a, b', rest)"
    "buffer_ok b'" "content b' = content b @ address_wire p a"
    "room b' = room b - length (address_wire p a)"
proof -
  define tb pay where "tb = ap_addrByteMap p ! unat (Family a)" and "pay = tl (address_wire p a)"
  have wire: "address_wire p a = tb # pay" by (simp add: tb_def pay_def address_wire_def)
  have kn: "ap_knows p (Family a)" "1 \<le> room b"
    using assms(2,3) by (auto simp: sendable_def wire)
  from readAddress_family [OF assms(1) kn(1) Family_cases kn(2) refl, of "pay @ rest"] obtain b1 where
    b1: "buffer_ok b1" "content b1 = content b @ [tb]" "room b1 = room b - 1"
    "readAddress p b (tb # pay @ rest) = (if Family a = 0 then readIP 4 b1 (pay @ rest)
       else if Family a = 1 then readIP 16 b1 (pay @ rest) else readDomain b1 (pay @ rest))"
    unfolding tb_def by blast
  have rm: "length pay \<le> room b1" using assms(3) b1(3) by (simp add: wire)
  have "\<exists>b'. readAddress p b (tb # pay @ rest) = Inr (Some a, b', rest) \<and> buffer_ok b'
      \<and> content b' = content b1 @ pay \<and> room b' = room b1 - length pay"
  proof (cases a)
    case (ipv4Address ip)
    then have ip: "length ip = 4" "ip \<noteq> []" "pay = ip"
      using assms(2) by (auto simp: sendable_def pay_def address_wire_def)
    with readIP_law [OF b1(1) rm, of 4 rest] b1(4) ipv4Address show ?thesis
      by (auto simp: family_defs IPAddress_of_ok)
  next
    case (ipv6Address ip)
    then have ip: "length ip = 16" "ip \<noteq> []" "pay = ip" "\<not> v4mapped ip"
      using assms(2) by (auto simp: sendable_def pay_def address_wire_def)
    with readIP_law [OF b1(1) rm, of 16 rest] b1(4) ipv6Address show ?thesis
      by (auto simp: family_defs IPAddress_of_ok)
  next
    case (domainAddress d)
    then have d: "domain_ok d" "pay = of_nat (length d) # d"
      using assms(2) by (auto simp: sendable_def pay_def address_wire_def)
    then have "Suc (length d) \<le> room b1" using rm by simp
    from readDomain_law [OF b1(1) this d(1), of rest] b1(4) d domainAddress show ?thesis
      by (auto simp: family_defs)
  qed
  then show thesis using that b1 wire by auto
qed

lemma readPort_law:
  assumes "buffer_ok b" "2 \<le> room b"
  obtains b' where "readPort b (be16 port @ rest) = Inr (port, b', rest)" "buffer_ok b'"
    "content b' = content b @ be16 port" "room b' = room b - 2"
proof -
  from read_full_append [OF assms(1), of "be16 port" 2 rest] assms(2) obtain b' where
    b': "read_full b (be16 port @ rest) 2 = Inr (b', rest)" "buffer_ok b'"
    "content b' = content b @ be16 port" "room b' = room b - 2" by auto
  have "Buffer_BytesFrom b' (- 2) = Inr (be16 port)"
    using Buffer_BytesFrom_suffix [OF b'(2,3)] by (auto simp: be16_def)
  with b' show thesis
    using that Uint16_be16 [of port "[]"] by (simp add: readPort_def PortFromBytes_def)
qed

lemma ReadAddressPort_law:
  assumes "buffer_ok b0" "b0 = (case buffer of None \<Rightarrow> New | Some b \<Rightarrow> b)"
    and "sendable (serializer_parser ser) a" "length (address_port_wire ser a port) \<le> room b0"
  obtains b' where "ReadAddressPort ser buffer (address_port_wire ser a port @ rest) = Inr (Some a, port, b', rest)"
    "buffer_ok b'" "content b' = content b0 @ address_port_wire ser a port"
proof (cases ser)
  case (portFirstAddressParser ap)
  then have "2 \<le> room b0" using assms(4) by simp
  from readPort_law [OF assms(1) this, of port "address_wire ap a @ rest"] obtain b1 where
    b1: "readPort b0 (be16 port @ address_wire ap a @ rest) = Inr (port, b1, address_wire ap a @ rest)"
    "buffer_ok b1" "content b1 = content b0 @ be16 port" "room b1 = room b0 - 2" by blast
  have "sendable ap a" "length (address_wire ap a) \<le> room b1"
    using assms(3,4) b1(4) portFirstAddressParser by simp_all
  from readAddress_law [OF b1(2) this, of rest] obtain b2 where
    "readAddress ap b1 (address_wire ap a @ rest) = Inr (Some a, b2, rest)" "buffer_ok b2"
    "content b2 = content b1 @ address_wire ap a" by blast
  with b1 portFirstAddressParser show thesis
    using that [of b2] assms(2) by simp
next
  case (portLastAddressParser ap)
  have "sendable ap a" "length (address_wire ap a) \<le> room b0"
    using assms(3,4) portLastAddressParser by simp_all
  from readAddress_law [OF assms(1) this, of "be16 port @ rest"] obtain b1
    where b1: "readAddress ap b0 (address_wire ap a @ be16 port @ rest) = Inr (Some a, b1, be16 port @ rest)"
    "buffer_ok b1" "content b1 = content b0 @ address_wire ap a"
    "room b1 = room b0 - length (address_wire ap a)" by blast
  have "2 \<le> room b1" using b1(4) assms(4) portLastAddressParser by simp
  from readPort_law [OF b1(2) this, of port rest] obtain b2 where
    "readPort b1 (be16 port @ rest) = Inr (port, b2, rest)" "buffer_ok b2"
    "content b2 = content b1 @ be16 port" by blast
  with b1 portLastAddressParser show thesis
    using that [of b2] assms(2) by simp
qed

section \<open>No input makes the parser panic\<close>

definition ap_ok :: "addressParser \<Rightarrow> bool" where
  "ap_ok p \<longleftrightarrow> length (ap_addrTypeMap p) = 16 \<and>
     (\<forall>f \<in> set (ap_addrTypeMap p). f = AddressFamilyIPv4 \<or> f = AddressFamilyIPv6
        \<or> f = AddressFamilyDomain \<or> f = afInvalid)"

lemma safe_domain_or_ip: "d \<noteq> [] \<Longrightarrow> safe (domain_or_ip d) (\<lambda>_. True)"
  using ParseAddress_total [of d] by (auto simp: domain_or_ip_def index_def Let_def)

lemma safe_readIP:
  assumes "buffer_ok b" "n \<le> room b" "k = int n" "0 < n"
  shows "safe (readIP k b inp) (\<lambda>(a, b', r). buffer_ok b' \<and> room b' = room b - n)"
  unfolding readIP_def
proof (rule safe_bind [OF safe_read_full [OF assms(1-3)]], clarify)
  fix b1 r1
  assume b1: "buffer_ok b1" "room b1 = room b - n" "length (content b1) = length (content b) + n"
  have "content b1 \<noteq> []" using b1(3) assms(4) by auto
  from safe_BytesFrom [OF b1(1) _ _ this, of n "- k"] b1 assms(3)
  show "safe (bind_res (Buffer_BytesFrom b1 (- k)) (\<lambda>ip. Inr (IPAddress ip, b1, r1)))
      (\<lambda>(a, b', r). buffer_ok b' \<and> room b' = room b - n)"
    by (auto elim: safe_bind)
qed

lemma safe_readDomain:
  assumes "buffer_ok b" "256 \<le> room b"
  shows "safe (readDomain b inp) (\<lambda>(a, b', r). buffer_ok b' \<and> room b - 256 \<le> room b')"
  unfolding readDomain_def
proof (rule safe_bind [OF safe_read_full [OF assms(1), of 1]], goal_cases)
  case (3 x)
  then obtain b1 r1 where b1: "x = (b1, r1)" "buffer_ok b1" "room b1 = room b - 1"
    "length (content b1) = length (content b) + 1" by auto
  then have ne: "content b1 \<noteq> []" by auto
  have step: "safe (bind_res (read_full b1 r1 (uint l)) (\<lambda>(b2, r2).
      bind_res (Buffer_BytesFrom b2 (- uint l)) (\<lambda>domain.
      bind_res (domain_or_ip domain) (\<lambda>addr. Inr (addr, b2, r2)))))
      (\<lambda>(a, b', r). buffer_ok b' \<and> room b - 256 \<le> room b')" for l :: byte
  proof -
    obtain n where l: "n \<le> 255" "uint l = int n" by (rule uint_byteE)
    have "n \<le> room b1" using l(1) b1(3) assms(2) by simp
    from safe_read_full [OF b1(2) this l(2)] show ?thesis
    proof (rule safe_bind, clarify)
      fix b2 r2
      assume b2: "buffer_ok b2" "room b2 = room b1 - n"
        "length (content b2) = length (content b1) + n"
      have "content b2 \<noteq> []" using b2(3) b1(4) by auto
      from safe_BytesFrom [OF b2(1) _ _ this, of n "- uint l"] b2(3) l(2)
      have "safe (Buffer_BytesFrom b2 (- uint l)) (\<lambda>xs. xs \<noteq> [])" by (auto elim: safe_mono)
      moreover have "room b - 256 \<le> room b2" using b2(2) b1(3) l(1) assms(2) by simp
      ultimately show "safe (bind_res (Buffer_BytesFrom b2 (- uint l)) (\<lambda>domain.
          bind_res (domain_or_ip domain) (\<lambda>addr. Inr (addr, b2, r2))))
          (\<lambda>(a, b', r). buffer_ok b' \<and> room b - 256 \<le> room b')"
        using b2(1) by (auto intro!: safe_bind dest: safe_domain_or_ip)
    qed
  qed
  show ?case by (simp add: b1(1)) (rule safe_bind [OF safe_Byte_last [OF b1(2) ne]], rule step)
qed (use assms(2) in simp_all)

lemma safe_readAddress:
  assumes "buffer_ok b" "ap_ok p" "257 \<le> room b"
  shows "safe (readAddress p b inp) (\<lambda>(a, b', r). buffer_ok b' \<and> room b - 257 \<le> room b')"
  unfolding readAddress_def
proof (rule safe_bind [OF safe_read_full [OF assms(1), of 1]], goal_cases)
  case (3 x)
  then obtain b1 r1 where b1: "x = (b1, r1)" "buffer_ok b1" "room b1 = room b - 1"
    "length (content b1) = length (content b) + 1" by auto
  then have ne: "content b1 \<noteq> []" by auto
  have family: "safe (index (ap_addrTypeMap p) (uint t)) (\<lambda>f. f = AddressFamilyIPv4
      \<or> f = AddressFamilyIPv6 \<or> f = AddressFamilyDomain \<or> f = afInvalid)" if "\<not> 16 \<le> t" for t :: byte
  proof -
    have "unat t < 16" using that by (simp add: word_le_nat_alt)
    moreover have "uint t < 16" using that by (simp add: word_le_def)
    ultimately show ?thesis using assms(2) nth_mem [of "unat t" "ap_addrTypeMap p"]
      by (simp add: index_def ap_ok_def)
  qed
  have rm: "4 \<le> room b1" "16 \<le> room b1" "256 \<le> room b1" using b1(3) assms(3) by simp_all
  have "safe (readIP 4 b1 r1) (\<lambda>(a, b', r). buffer_ok b' \<and> room b - 257 \<le> room b')"
    "safe (readIP 16 b1 r1) (\<lambda>(a, b', r). buffer_ok b' \<and> room b - 257 \<le> room b')"
    "safe (readDomain b1 r1) (\<lambda>(a, b', r). buffer_ok b' \<and> room b - 257 \<le> room b')"
    using safe_readIP [OF b1(2) rm(1), of 4 r1] safe_readIP [OF b1(2) rm(2), of 16 r1]
      safe_readDomain [OF b1(2) rm(3), of r1] b1(3) assms(3)
    by (auto elim!: safe_mono)
  then show ?case
    by (simp add: b1(1)) (rule safe_bind [OF safe_Byte_last [OF b1(2) ne]],
      auto simp: Let_def intro!: safe_bind [OF family])
qed (use assms(3) in simp_all)

lemma safe_readPort:
  assumes "buffer_ok b" "2 \<le> room b"
  shows "safe (readPort b inp) (\<lambda>(port, b', r). buffer_ok b' \<and> room b' = room b - 2)"
  unfolding readPort_def
proof (rule safe_bind [OF safe_read_full [OF assms(1,2), of 2]], goal_cases)
  case (2 x)
  then obtain b1 r1 where b1: "x = (b1, r1)" "buffer_ok b1" "room b1 = room b - 2"
    "length (content b1) = length (content b) + 2" by auto
  then have ne: "content b1 \<noteq> []" by auto
  have "safe (PortFromBytes xs) (\<lambda>_. True)" if "length xs = 2" for xs
    using that by (auto simp: PortFromBytes_def numeral_2_eq_2 length_Suc_conv)
  then show ?case
    using safe_BytesFrom [OF b1(2) _ _ ne, of 2 "- 2"] b1 by (auto intro!: safe_bind elim: safe_mono)
qed simp

lemma safe_ReadAddressPort:
  assumes "buffer_ok b0" "b0 = (case buffer of None \<Rightarrow> New | Some b \<Rightarrow> b)" "259 \<le> room b0"
    and "ap_ok (serializer_parser ser)"
  shows "safe (ReadAddressPort ser buffer inp) (\<lambda>(a, port, b', r). buffer_ok b')"
proof (cases ser)
  case (portFirstAddressParser ap)
  have 1: "safe (readPort b0 inp) (\<lambda>(port, b', r). buffer_ok b' \<and> room b' = room b0 - 2)"
    using safe_readPort [OF assms(1)] assms(3) by simp
  have 2: "safe (readAddress ap b1 r1) (\<lambda>(a, b', r). buffer_ok b')"
    if "buffer_ok b1" "room b1 = room b0 - 2" for b1 r1
  proof -
    have "257 \<le> room b1" "ap_ok ap" using that(2) assms(3,4) portFirstAddressParser by simp_all
    with safe_readAddress [OF that(1), of ap r1] show ?thesis by (auto elim: safe_mono)
  qed
  show ?thesis
    by (simp add: portFirstAddressParser assms(2) [symmetric])
      (rule safe_bind [OF 1], auto intro!: safe_bind [OF 2])
next
  case (portLastAddressParser ap)
  have 1: "safe (readAddress ap b0 inp) (\<lambda>(a, b', r). buffer_ok b' \<and> room b0 - 257 \<le> room b')"
    using safe_readAddress [OF assms(1), of ap inp] assms(3,4) portLastAddressParser by simp
  have 2: "safe (readPort b1 r1) (\<lambda>(port, b', r). buffer_ok b')"
    if "buffer_ok b1" "room b0 - 257 \<le> room b1" for b1 r1
  proof -
    have "2 \<le> room b1" using that(2) assms(3) by simp
    with safe_readPort [OF that(1), of r1] show ?thesis by (auto elim: safe_mono)
  qed
  show ?thesis
    by (simp add: portLastAddressParser assms(2) [symmetric])
      (rule safe_bind [OF 1], auto intro!: safe_bind [OF 2])
qed

section \<open>Properties\<close>

text \<open>
  C35: an address and port that a serializer writes into a buffer with enough room is read
  back as the same address and port, in both layouts, and the reader leaves exactly the bytes
  that follow.
\<close>

theorem address_port_roundtrip:
  assumes "buffer_ok w" "sendable (serializer_parser ser) a" "length (address_port_wire ser a port) \<le> room w"
    and "room w \<le> Size"
  shows "\<exists>w' b'. WriteAddressPort (\<lambda>b xs. map_sum id fst (Buffer_Write b xs)) ser w (Some a) port = Inr w'
     \<and> content w' = content w @ address_port_wire ser a port
     \<and> ReadAddressPort ser None (drop (length (content w)) (content w') @ rest) = Inr (Some a, port, b', rest)"
proof -
  from buffer_sink.WriteAddressPort_law [OF assms(1-3)] obtain w' where
    w': "WriteAddressPort (\<lambda>b xs. map_sum id fst (Buffer_Write b xs)) ser w (Some a) port = Inr w'"
    "content w' = content w @ address_port_wire ser a port" by blast
  have "length (address_port_wire ser a port) \<le> room New" using assms(3,4) by simp
  with ReadAddressPort_law [of New None ser a port rest] assms(2) obtain b' where
    "ReadAddressPort ser None (address_port_wire ser a port @ rest) = Inr (Some a, port, b', rest)"
    by auto
  with w' show ?thesis by auto
qed

theorem address_port_roundtrip_witness:
  "\<exists>ser w' b'. NewAddressParser [\<lambda>p. bind_res (AddressFamilyByte 1 AddressFamilyIPv4) (\<lambda>f. f p), PortThenAddress]
       = Inr ser
     \<and> WriteAddressPort (\<lambda>b xs. map_sum id fst (Buffer_Write b xs)) ser New (Some (ipv4Address [127, 0, 0, 1])) 80
         = Inr w'
     \<and> content w' = [0, 80, 1, 127, 0, 0, 1]
     \<and> ReadAddressPort ser None ([0, 80, 1, 127, 0, 0, 1] @ [9])
         = Inr (Some (ipv4Address [127, 0, 0, 1]), 80, b', [9])"
proof -
  let ?ap = "\<lparr>ap_addrTypeMap = (replicate 16 afInvalid)[1 := 0], ap_addrByteMap = (replicate 16 afInvalid)[0 := 1],
      ap_typeParser = None\<rparr>"
  let ?ser = "portFirstAddressParser ?ap"
  have new: "NewAddressParser [\<lambda>p. bind_res (AddressFamilyByte 1 AddressFamilyIPv4) (\<lambda>f. f p), PortThenAddress]
      = Inr ?ser"
    by (simp add: NewAddressParser_def AddressFamilyByte_def PortThenAddress_def family_defs word_le_nat_alt)
  have s: "sendable (serializer_parser ?ser) (ipv4Address [127, 0, 0, 1])"
    by (simp add: sendable_def ap_knows_def family_defs)
  have wire: "address_port_wire ?ser (ipv4Address [127, 0, 0, 1]) 80 = [0, 80, 1, 127, 0, 0, 1]"
    by (simp add: address_wire_def be16_def family_defs)
  from address_port_roundtrip [OF New_ok(1) s, of 80 "[9]"] new show ?thesis
    unfolding wire by (auto simp: Size_def simp del: serializer_parser.simps)
qed

text \<open>
  no input, however malformed, makes \<^verbatim>\<open>ReadAddressPort\<close> panic: with a scratch buffer of at
  least 259 free bytes (a fresh buffer has 16384) every read ends in an address or in an error.
\<close>

theorem ReadAddressPort_never_panics:
  assumes "ap_ok (serializer_parser ser)"
    and "case buffer of None \<Rightarrow> True | Some b \<Rightarrow> buffer_ok b \<and> 259 \<le> room b"
  shows "ReadAddressPort ser buffer inp \<noteq> Inl Panic"
proof (rule safe_not_Panic)
  let ?b0 = "case buffer of None \<Rightarrow> New | Some b \<Rightarrow> b"
  have "buffer_ok ?b0" "259 \<le> room ?b0" using assms(2) by (auto simp: Size_def split: option.splits)
  then show "safe (ReadAddressPort ser buffer inp) (\<lambda>(a, port, b', r). buffer_ok b')"
    using safe_ReadAddressPort assms(1) by blast
qed

theorem ReadAddressPort_never_panics_witness:
  "ReadAddressPort (portLastAddressParser \<lparr>ap_addrTypeMap = (replicate 16 afInvalid)[3 := 2],
      ap_addrByteMap = (replicate 16 afInvalid)[2 := 3], ap_typeParser = None\<rparr>) None [3, 0] \<noteq> Inl Panic"
  by (rule ReadAddressPort_never_panics)
    (auto simp: ap_ok_def family_defs afInvalid_def nth_list_update
      dest!: set_update_subset_insert [THEN subsetD])

end
