(* ===== verification/KcpSegment.thy ===== *)
theory KcpSegment
  imports Buf
begin

text \<open>
  \<^verbatim>\<open>transport/internet/kcp/segment.go\<close>: the three kinds of mKCP segments, their wire format
  and the parser \<^verbatim>\<open>ReadSegment\<close>. The wire format of a segment is given by \<open>segment_wire\<close>;
  the lemmas show that \<^verbatim>\<open>Serialize\<close> produces it in exactly \<^verbatim>\<open>ByteSize\<close> bytes, that
  \<^verbatim>\<open>ReadSegment\<close> reads it back and leaves the rest of the packet alone, and that no input
  makes the parser panic.
\<close>

section \<open>Commands and options\<close>

type_synonym Command = byte
type_synonym SegmentOption = byte

definition CommandACK :: Command where "CommandACK = 0"
definition CommandData :: Command where "CommandData = 1"
definition CommandTerminate :: Command where "CommandTerminate = 2"
definition CommandPing :: Command where "CommandPing = 3"

definition SegmentOptionClose :: SegmentOption where "SegmentOptionClose = 1"

definition DataSegmentOverhead :: u32 where "DataSegmentOverhead = 18"

lemmas command_defs = CommandACK_def CommandData_def CommandTerminate_def CommandPing_def

section \<open>Data segments\<close>

record DataSegment =
  ds_Conv :: u16
  ds_Option :: SegmentOption
  ds_Timestamp :: u32
  ds_Number :: u32
  ds_SendingNext :: u32
  ds_payload :: "Buffer option"
  ds_timeout :: u32
  ds_transmit :: u32

definition NewDataSegment :: DataSegment where
  "NewDataSegment = \<lparr>ds_Conv = 0, ds_Option = 0, ds_Timestamp = 0, ds_Number = 0, ds_SendingNext = 0,
     ds_payload = None, ds_timeout = 0, ds_transmit = 0\<rparr>"

text \<open>\<^verbatim>\<open>Data()\<close>: the payload, allocated on first use; the segment with it is returned.\<close>

definition DataSegment_Data :: "DataSegment \<Rightarrow> Buffer \<times> DataSegment" where
  "DataSegment_Data s =
     (case ds_payload s of Some b \<Rightarrow> (b, s) | None \<Rightarrow> (New, s\<lparr>ds_payload := Some New\<rparr>))"

text \<open>
  \<^verbatim>\<open>parse\<close> returns \<^verbatim>\<open>(false, nil)\<close> (here \<open>None\<close>) or \<^verbatim>\<open>(true, rest)\<close> with the filled segment.
\<close>

definition DataSegment_parse :: "DataSegment \<Rightarrow> u16 \<Rightarrow> Command \<Rightarrow> SegmentOption \<Rightarrow> byte list
    \<Rightarrow> (DataSegment \<times> byte list) option result" where
  "DataSegment_parse s conv cmd opt buf =
     (let s = s\<lparr>ds_Conv := conv, ds_Option := opt\<rparr> in
      if length buf < 15 then Inr None
      else bind_res (Uint32 buf) (\<lambda>ts. bind_res (slice_from 4 buf) (\<lambda>buf.
        bind_res (Uint32 buf) (\<lambda>number. bind_res (slice_from 4 buf) (\<lambda>buf.
        bind_res (Uint32 buf) (\<lambda>sendingNext. bind_res (slice_from 4 buf) (\<lambda>buf.
        bind_res (Uint16 buf) (\<lambda>len. bind_res (slice_from 2 buf) (\<lambda>buf.
          let dataLen = unat len;
              s = s\<lparr>ds_Timestamp := ts, ds_Number := number, ds_SendingNext := sendingNext\<rparr> in
          if length buf < dataLen then Inr None
          else let (b, s) = DataSegment_Data s in
            bind_res (slice 0 (int dataLen) buf) (\<lambda>data.
            bind_res (Buffer_Write (Buffer_Clear b) data) (\<lambda>(b', n).
            bind_res (slice_from dataLen buf) (\<lambda>buf.
              Inr (Some (s\<lparr>ds_payload := Some b'\<rparr>, buf))))))))))))))"

definition DataSegment_Detach :: "DataSegment \<Rightarrow> Buffer option \<times> DataSegment" where
  "DataSegment_Detach s = (ds_payload s, s\<lparr>ds_payload := None\<rparr>)"

text \<open>\<^verbatim>\<open>s.payload.Bytes()\<close> dereferences the payload, so a nil payload panics there.\<close>

definition payload_Bytes :: "DataSegment \<Rightarrow> byte list result" where
  "payload_Bytes s = (case ds_payload s of None \<Rightarrow> Inl Panic | Some b \<Rightarrow> Buffer_Bytes b)"

definition DataSegment_Serialize :: "DataSegment \<Rightarrow> byte list \<Rightarrow> byte list result" where
  "DataSegment_Serialize s b =
     bind_res (put 0 (be16 (ds_Conv s)) b) (\<lambda>b.
     bind_res (put 2 [CommandData] b) (\<lambda>b.
     bind_res (put 3 [ds_Option s] b) (\<lambda>b.
     bind_res (put 4 (be32 (ds_Timestamp s)) b) (\<lambda>b.
     bind_res (put 8 (be32 (ds_Number s)) b) (\<lambda>b.
     bind_res (put 12 (be32 (ds_SendingNext s)) b) (\<lambda>b.
     bind_res (put 16 (be16 (word_of_int (Buffer_Len (ds_payload s)))) b) (\<lambda>b.
     bind_res (payload_Bytes s) (\<lambda>data.
     copy_into 18 data b))))))))"

definition DataSegment_ByteSize :: "DataSegment \<Rightarrow> int" where
  "DataSegment_ByteSize s = i32 (2 + 1 + 1 + 4 + 4 + 4 + 2 + Buffer_Len (ds_payload s))"

definition DataSegment_Release :: "DataSegment \<Rightarrow> DataSegment" where
  "DataSegment_Release s = s\<lparr>ds_payload := None\<rparr>"

section \<open>Acknowledgement segments\<close>

record AckSegment =
  as_Conv :: u16
  as_Option :: SegmentOption
  as_ReceivingWindow :: u32
  as_ReceivingNext :: u32
  as_Timestamp :: u32
  as_NumberList :: "u32 list"

definition ackNumberLimit :: nat where "ackNumberLimit = 128"

definition NewAckSegment :: AckSegment where
  "NewAckSegment = \<lparr>as_Conv = 0, as_Option = 0, as_ReceivingWindow = 0, as_ReceivingNext = 0,
     as_Timestamp = 0, as_NumberList = []\<rparr>"

definition AckSegment_PutTimestamp :: "AckSegment \<Rightarrow> u32 \<Rightarrow> AckSegment" where
  "AckSegment_PutTimestamp s timestamp =
     (if timestamp - as_Timestamp s < 0x7FFFFFFF then s\<lparr>as_Timestamp := timestamp\<rparr> else s)"

definition AckSegment_PutNumber :: "AckSegment \<Rightarrow> u32 \<Rightarrow> AckSegment" where
  "AckSegment_PutNumber s number = s\<lparr>as_NumberList := as_NumberList s @ [number]\<rparr>"

definition AckSegment_IsFull :: "AckSegment \<Rightarrow> bool" where
  "AckSegment_IsFull s \<longleftrightarrow> length (as_NumberList s) = ackNumberLimit"

definition AckSegment_IsEmpty :: "AckSegment \<Rightarrow> bool" where
  "AckSegment_IsEmpty s \<longleftrightarrow> length (as_NumberList s) = 0"

text \<open>The loop of \<^verbatim>\<open>parse\<close> over the \<^verbatim>\<open>count\<close> numbers.\<close>

fun read_numbers :: "nat \<Rightarrow> AckSegment \<Rightarrow> byte list \<Rightarrow> (AckSegment \<times> byte list) result" where
  "read_numbers 0 s buf = Inr (s, buf)"
| "read_numbers (Suc count) s buf =
     bind_res (Uint32 buf) (\<lambda>number. bind_res (slice_from 4 buf) (\<lambda>buf.
       read_numbers count (AckSegment_PutNumber s number) buf))"

definition AckSegment_parse :: "AckSegment \<Rightarrow> u16 \<Rightarrow> Command \<Rightarrow> SegmentOption \<Rightarrow> byte list
    \<Rightarrow> (AckSegment \<times> byte list) option result" where
  "AckSegment_parse s conv cmd opt buf =
     (let s = s\<lparr>as_Conv := conv, as_Option := opt\<rparr> in
      if length buf < 13 then Inr None
      else bind_res (Uint32 buf) (\<lambda>win. bind_res (slice_from 4 buf) (\<lambda>buf.
        bind_res (Uint32 buf) (\<lambda>nxt. bind_res (slice_from 4 buf) (\<lambda>buf.
        bind_res (Uint32 buf) (\<lambda>ts. bind_res (slice_from 4 buf) (\<lambda>buf.
        bind_res (index buf 0) (\<lambda>c. bind_res (slice_from 1 buf) (\<lambda>buf.
          let count = unat c;
              s = s\<lparr>as_ReceivingWindow := win, as_ReceivingNext := nxt, as_Timestamp := ts\<rparr> in
          if length buf < count * 4 then Inr None
          else map_sum id Some (read_numbers count s buf))))))))))"

text \<open>The loop of \<^verbatim>\<open>Serialize\<close> over \<^verbatim>\<open>NumberList\<close>; \<open>n\<close> is the offset.\<close>

fun put_numbers :: "nat \<Rightarrow> u32 list \<Rightarrow> byte list \<Rightarrow> byte list result" where
  "put_numbers n [] b = Inr b"
| "put_numbers n (number # ns) b = bind_res (put n (be32 number) b) (put_numbers (n + 4) ns)"

definition AckSegment_Serialize :: "AckSegment \<Rightarrow> byte list \<Rightarrow> byte list result" where
  "AckSegment_Serialize s b =
     bind_res (put 0 (be16 (as_Conv s)) b) (\<lambda>b.
     bind_res (put 2 [CommandACK] b) (\<lambda>b.
     bind_res (put 3 [as_Option s] b) (\<lambda>b.
     bind_res (put 4 (be32 (as_ReceivingWindow s)) b) (\<lambda>b.
     bind_res (put 8 (be32 (as_ReceivingNext s)) b) (\<lambda>b.
     bind_res (put 12 (be32 (as_Timestamp s)) b) (\<lambda>b.
     bind_res (put 16 [of_nat (length (as_NumberList s))] b) (\<lambda>b.
     put_numbers 17 (as_NumberList s) b)))))))"

definition AckSegment_ByteSize :: "AckSegment \<Rightarrow> int" where
  "AckSegment_ByteSize s = i32 (2 + 1 + 1 + 4 + 4 + 4 + 1 + i32 (int (length (as_NumberList s) * 4)))"

section \<open>Command-only segments\<close>

record CmdOnlySegment =
  cs_Conv :: u16
  cs_Cmd :: Command
  cs_Option :: SegmentOption
  cs_SendingNext :: u32
  cs_ReceivingNext :: u32
  cs_PeerRTO :: u32

definition NewCmdOnlySegment :: CmdOnlySegment where
  "NewCmdOnlySegment = \<lparr>cs_Conv = 0, cs_Cmd = 0, cs_Option = 0, cs_SendingNext = 0, cs_ReceivingNext = 0,
     cs_PeerRTO = 0\<rparr>"

definition CmdOnlySegment_parse :: "CmdOnlySegment \<Rightarrow> u16 \<Rightarrow> Command \<Rightarrow> SegmentOption \<Rightarrow> byte list
    \<Rightarrow> (CmdOnlySegment \<times> byte list) option result" where
  "CmdOnlySegment_parse s conv cmd opt buf =
     (let s = s\<lparr>cs_Conv := conv, cs_Cmd := cmd, cs_Option := opt\<rparr> in
      if length buf < 12 then Inr None
      else bind_res (Uint32 buf) (\<lambda>snd_next. bind_res (slice_from 4 buf) (\<lambda>buf.
        bind_res (Uint32 buf) (\<lambda>rcv_next. bind_res (slice_from 4 buf) (\<lambda>buf.
        bind_res (Uint32 buf) (\<lambda>rto. bind_res (slice_from 4 buf) (\<lambda>buf.
          Inr (Some (s\<lparr>cs_SendingNext := snd_next, cs_ReceivingNext := rcv_next, cs_PeerRTO := rto\<rparr>,
                     buf)))))))))"

definition CmdOnlySegment_Serialize :: "CmdOnlySegment \<Rightarrow> byte list \<Rightarrow> byte list result" where
  "CmdOnlySegment_Serialize s b =
     bind_res (put 0 (be16 (cs_Conv s)) b) (\<lambda>b.
     bind_res (put 2 [cs_Cmd s] b) (\<lambda>b.
     bind_res (put 3 [cs_Option s] b) (\<lambda>b.
     bind_res (put 4 (be32 (cs_SendingNext s)) b) (\<lambda>b.
     bind_res (put 8 (be32 (cs_ReceivingNext s)) b) (\<lambda>b.
     put 12 (be32 (cs_PeerRTO s)) b)))))"

definition CmdOnlySegment_ByteSize :: "CmdOnlySegment \<Rightarrow> int" where
  "CmdOnlySegment_ByteSize s = 2 + 1 + 1 + 4 + 4 + 4"

section \<open>The Segment interface\<close>

datatype Segment = DataSeg DataSegment | AckSeg AckSegment | CmdSeg CmdOnlySegment

fun Segment_Conversation :: "Segment \<Rightarrow> u16" where
  "Segment_Conversation (DataSeg s) = ds_Conv s"
| "Segment_Conversation (AckSeg s) = as_Conv s"
| "Segment_Conversation (CmdSeg s) = cs_Conv s"

fun Segment_Command :: "Segment \<Rightarrow> Command" where
  "Segment_Command (DataSeg s) = CommandData"
| "Segment_Command (AckSeg s) = CommandACK"
| "Segment_Command (CmdSeg s) = cs_Cmd s"

fun Segment_ByteSize :: "Segment \<Rightarrow> int" where
  "Segment_ByteSize (DataSeg s) = DataSegment_ByteSize s"
| "Segment_ByteSize (AckSeg s) = AckSegment_ByteSize s"
| "Segment_ByteSize (CmdSeg s) = CmdOnlySegment_ByteSize s"

fun Segment_Serialize :: "Segment \<Rightarrow> byte list \<Rightarrow> byte list result" where
  "Segment_Serialize (DataSeg s) = DataSegment_Serialize s"
| "Segment_Serialize (AckSeg s) = AckSegment_Serialize s"
| "Segment_Serialize (CmdSeg s) = CmdOnlySegment_Serialize s"

text \<open>\<^verbatim>\<open>ReadSegment\<close>: \<open>None\<close> stands for \<^verbatim>\<open>(nil, nil)\<close>.\<close>

definition ReadSegment :: "byte list \<Rightarrow> (Segment \<times> byte list) option result" where
  "ReadSegment buf =
     (if length buf < 4 then Inr None
      else bind_res (Uint16 buf) (\<lambda>conv. bind_res (slice_from 2 buf) (\<lambda>buf.
        bind_res (index buf 0) (\<lambda>cmd. bind_res (index buf 1) (\<lambda>opt. bind_res (slice_from 2 buf) (\<lambda>buf.
          if cmd = CommandData then
            map_sum id (map_option (apfst DataSeg)) (DataSegment_parse NewDataSegment conv cmd opt buf)
          else if cmd = CommandACK then
            map_sum id (map_option (apfst AckSeg)) (AckSegment_parse NewAckSegment conv cmd opt buf)
          else
            map_sum id (map_option (apfst CmdSeg)) (CmdOnlySegment_parse NewCmdOnlySegment conv cmd opt buf)))))))"

section \<open>The wire format as a specification\<close>

text \<open>
  A protocol data unit is what a segment means on the wire: its fields, with the payload as
  a byte list and without the sender's retransmission bookkeeping.
\<close>

datatype pdu =
    Data_pdu u16 SegmentOption u32 u32 u32 "byte list"
  | Ack_pdu u16 SegmentOption u32 u32 u32 "u32 list"
  | Cmd_pdu u16 Command SegmentOption u32 u32 u32

fun pdu_of :: "Segment \<Rightarrow> pdu" where
  "pdu_of (DataSeg s) = Data_pdu (ds_Conv s) (ds_Option s) (ds_Timestamp s) (ds_Number s) (ds_SendingNext s)
     (case ds_payload s of None \<Rightarrow> [] | Some b \<Rightarrow> content b)"
| "pdu_of (AckSeg s) = Ack_pdu (as_Conv s) (as_Option s) (as_ReceivingWindow s) (as_ReceivingNext s)
     (as_Timestamp s) (as_NumberList s)"
| "pdu_of (CmdSeg s) = Cmd_pdu (cs_Conv s) (cs_Cmd s) (cs_Option s) (cs_SendingNext s) (cs_ReceivingNext s)
     (cs_PeerRTO s)"

fun pdu_wire :: "pdu \<Rightarrow> byte list" where
  "pdu_wire (Data_pdu conv opt ts number sn data) =
     be16 conv @ [CommandData] @ [opt] @ be32 ts @ be32 number @ be32 sn @ be16 (of_nat (length data)) @ data"
| "pdu_wire (Ack_pdu conv opt win nxt ts numbers) =
     be16 conv @ [CommandACK] @ [opt] @ be32 win @ be32 nxt @ be32 ts @ [of_nat (length numbers)]
       @ concat (map be32 numbers)"
| "pdu_wire (Cmd_pdu conv cmd opt sn rn rto) = be16 conv @ [cmd] @ [opt] @ be32 sn @ be32 rn @ be32 rto"

text \<open>
  The units the format can express: a data segment carries 1 to \<open>Size\<close> bytes (the parser
  insists on at least one byte after the length field), an acknowledgement at most 255
  numbers, and the command byte of a command-only segment is neither of the other two.
\<close>

fun pdu_ok :: "pdu \<Rightarrow> bool" where
  "pdu_ok (Data_pdu conv opt ts number sn data) \<longleftrightarrow> data \<noteq> [] \<and> length data \<le> Size"
| "pdu_ok (Ack_pdu conv opt win nxt ts numbers) \<longleftrightarrow> length numbers \<le> 255"
| "pdu_ok (Cmd_pdu conv cmd opt sn rn rto) \<longleftrightarrow> cmd \<noteq> CommandData \<and> cmd \<noteq> CommandACK"

text \<open>Segments whose payload, if they are data segments, is a well-formed buffer.\<close>

fun segment_ok :: "Segment \<Rightarrow> bool" where
  "segment_ok (DataSeg s) \<longleftrightarrow> (\<exists>b. ds_payload s = Some b \<and> buffer_ok b)"
| "segment_ok (AckSeg s) \<longleftrightarrow> length (as_NumberList s) \<le> 255"
| "segment_ok (CmdSeg s) \<longleftrightarrow> True"

text \<open>A data segment carries the payload with index \<open>i\<close> of the stream \<open>sent\<close>.\<close>

definition carries :: "(nat \<Rightarrow> byte list) \<Rightarrow> nat \<Rightarrow> DataSegment \<Rightarrow> bool" where
  "carries sent i seg \<longleftrightarrow> (\<exists>b. ds_payload seg = Some b \<and> buffer_ok b \<and> content b = sent i)"

lemma length_concat_be32 [simp]: "length (concat (map be32 ns)) = 4 * length ns"
  by (induction ns) auto

lemma pdu_wire_nonempty [simp]: "pdu_wire p \<noteq> []"
  by (cases p) (auto simp: be16_def)

lemma length_pdu_wire:
  "segment_ok s \<Longrightarrow> int (length (pdu_wire (pdu_of s))) = Segment_ByteSize s"
proof (cases s)
  case (DataSeg d)
  assume "segment_ok s"
  with DataSeg obtain b where b: "ds_payload d = Some b" "buffer_ok b" by auto
  then have "length (content b) \<le> 1073741823" by (elim buffer_okE) simp
  with b DataSeg show ?thesis by (simp add: DataSegment_ByteSize_def)
qed (simp_all add: AckSegment_ByteSize_def CmdOnlySegment_ByteSize_def)

section \<open>Serializing\<close>

lemma fills_put_numbers: "n = m \<Longrightarrow> fills (put_numbers n ns) m (concat (map be32 ns))"
proof (induction ns arbitrary: n m)
  case Nil
  have "put_numbers n [] = Inr" by (rule ext) simp
  with Nil show ?case by (simp add: fills_Inr)
next
  case (Cons x ns)
  have "put_numbers n (x # ns) = (\<lambda>b. bind_res (put n (be32 x) b) (put_numbers (n + 4) ns))"
    by (rule ext) simp
  with Cons show ?case by (auto intro!: fills_intros)
qed

lemma DataSegment_Serialize_fills:
  assumes "ds_payload s = Some b" "buffer_ok b"
  shows "fills (DataSegment_Serialize s) 0 (pdu_wire (pdu_of (DataSeg s)))"
proof -
  have "word_of_int (Buffer_Len (ds_payload s)) = (of_nat (length (content b)) :: u16)"
    using assms by simp
  then have "DataSegment_Serialize s = (\<lambda>x. bind_res (put 0 (be16 (ds_Conv s)) x) (\<lambda>x.
     bind_res (put 2 [CommandData] x) (\<lambda>x.
     bind_res (put 3 [ds_Option s] x) (\<lambda>x.
     bind_res (put 4 (be32 (ds_Timestamp s)) x) (\<lambda>x.
     bind_res (put 8 (be32 (ds_Number s)) x) (\<lambda>x.
     bind_res (put 12 (be32 (ds_SendingNext s)) x) (\<lambda>x.
     bind_res (put 16 (be16 (of_nat (length (content b)))) x) (copy_into 18 (content b)))))))))"
    using assms by (simp add: DataSegment_Serialize_def payload_Bytes_def fun_eq_iff)
  moreover have "fills \<dots> 0 (pdu_wire (pdu_of (DataSeg s)))"
    using assms by (auto intro!: fills_intros)
  ultimately show ?thesis by simp
qed

lemma AckSegment_Serialize_fills: "fills (AckSegment_Serialize s) 0 (pdu_wire (pdu_of (AckSeg s)))"
  unfolding AckSegment_Serialize_def
  by (auto intro!: fills_intros fills_put_numbers)

lemma CmdOnlySegment_Serialize_fills:
  "fills (CmdOnlySegment_Serialize s) 0 (pdu_wire (pdu_of (CmdSeg s)))"
  unfolding CmdOnlySegment_Serialize_def
  by (auto intro!: fills_intros)

lemma Segment_Serialize_law:
  assumes "segment_ok s" "int (length b) = Segment_ByteSize s"
  shows "Segment_Serialize s b = Inr (pdu_wire (pdu_of s))"
proof -
  have "fills (Segment_Serialize s) 0 (pdu_wire (pdu_of s))"
    using assms(1) DataSegment_Serialize_fills AckSegment_Serialize_fills CmdOnlySegment_Serialize_fills
    by (cases s) auto
  moreover have "length b = length (pdu_wire (pdu_of s))"
    using length_pdu_wire [OF assms(1)] assms(2) by simp
  ultimately show ?thesis by (rule fills_all)
qed

section \<open>Parsing\<close>

lemma Uint32_be32' [simp]: "Uint32 (be32 w) = Inr w"
  using Uint32_be32 [of w "[]"] by simp

lemma read_numbers_law:
  "read_numbers (length ns) s (concat (map be32 ns) @ rest)
     = Inr (s\<lparr>as_NumberList := as_NumberList s @ ns\<rparr>, rest)"
  by (induction ns arbitrary: s) (simp_all add: AckSegment_PutNumber_def)

lemma unat_u16_of_nat: "n < 65536 \<Longrightarrow> unat (of_nat n :: u16) = n"
  by (simp add: unat_of_nat)

lemma unat_byte_of_nat: "n < 256 \<Longrightarrow> unat (of_nat n :: byte) = n"
  by (simp add: unat_of_nat)

lemma ReadSegment_header:
  "ReadSegment (be16 conv @ [cmd] @ [opt] @ buf) =
     (if cmd = CommandData then
        map_sum id (map_option (apfst DataSeg)) (DataSegment_parse NewDataSegment conv cmd opt buf)
      else if cmd = CommandACK then
        map_sum id (map_option (apfst AckSeg)) (AckSegment_parse NewAckSegment conv cmd opt buf)
      else
        map_sum id (map_option (apfst CmdSeg)) (CmdOnlySegment_parse NewCmdOnlySegment conv cmd opt buf))"
  by (simp add: ReadSegment_def index_def)

lemma DataSegment_parse_law:
  assumes "data \<noteq> []" "length data \<le> Size"
  shows "\<exists>d. DataSegment_parse NewDataSegment conv CommandData opt
      (be32 ts @ be32 number @ be32 sn @ be16 (of_nat (length data)) @ data @ rest) = Inr (Some (d, rest))
    \<and> pdu_of (DataSeg d) = Data_pdu conv opt ts number sn data \<and> segment_ok (DataSeg d)"
proof -
  have "Buffer_Clear New = New" by (simp add: Buffer_Clear_def New_def)
  moreover obtain b where "Buffer_Write New data = Inr (b, length data)" "buffer_ok b" "content b = data"
    using Buffer_Write_fits [of New data] assms(2) by auto
  moreover have "unat (of_nat (length data) :: u16) = length data"
    using assms(2) by (simp add: unat_u16_of_nat Size_def)
  moreover have "0 < length data" using assms(1) by simp
  ultimately show ?thesis
    by (simp add: DataSegment_parse_def NewDataSegment_def DataSegment_Data_def slice_def Let_def)
qed

lemma AckSegment_parse_law:
  assumes "length numbers \<le> 255"
  shows "\<exists>a. AckSegment_parse NewAckSegment conv CommandACK opt
      (be32 win @ be32 nxt @ be32 ts @ [of_nat (length numbers)] @ concat (map be32 numbers) @ rest)
        = Inr (Some (a, rest))
    \<and> pdu_of (AckSeg a) = Ack_pdu conv opt win nxt ts numbers \<and> segment_ok (AckSeg a)"
proof -
  have "unat (of_nat (length numbers) :: byte) = length numbers"
    using assms by (simp add: unat_byte_of_nat)
  with assms show ?thesis
    by (simp add: AckSegment_parse_def NewAckSegment_def Let_def index_def read_numbers_law
        del: unat_of_nat)
qed

lemma CmdOnlySegment_parse_law:
  "\<exists>c. CmdOnlySegment_parse NewCmdOnlySegment conv cmd opt (be32 sn @ be32 rn @ be32 rto @ rest)
        = Inr (Some (c, rest))
    \<and> pdu_of (CmdSeg c) = Cmd_pdu conv cmd opt sn rn rto"
  by (simp add: CmdOnlySegment_parse_def NewCmdOnlySegment_def Let_def)

lemma ReadSegment_law:
  assumes "pdu_ok p"
  shows "\<exists>s. ReadSegment (pdu_wire p @ rest) = Inr (Some (s, rest)) \<and> pdu_of s = p \<and> segment_ok s"
proof (cases p)
  case (Data_pdu conv opt ts number sn data)
  with assms have "data \<noteq> []" "length data \<le> Size" by auto
  from DataSegment_parse_law [OF this, of conv opt ts number sn rest] Data_pdu show ?thesis
    using ReadSegment_header [of conv CommandData opt] by fastforce
next
  case (Ack_pdu conv opt win nxt ts numbers)
  with assms have "length numbers \<le> 255" by auto
  from AckSegment_parse_law [OF this, of conv opt win nxt ts rest] Ack_pdu show ?thesis
    using ReadSegment_header [of conv CommandACK opt] by (fastforce simp: command_defs)
next
  case (Cmd_pdu conv cmd opt sn rn rto)
  with CmdOnlySegment_parse_law [of conv cmd opt sn rn rto rest] assms show ?thesis
    using ReadSegment_header [of conv cmd opt] by fastforce
qed

section \<open>The parser never panics\<close>

lemma safe_Uint32: "4 \<le> length b \<Longrightarrow> safe (Uint32 b) (\<lambda>_. True)"
  by (cases b rule: Uint32.cases) auto

lemma safe_Uint16: "2 \<le> length b \<Longrightarrow> safe (Uint16 b) (\<lambda>_. True)"
  by (cases b rule: Uint16.cases) auto

lemma safe_slice_from: "n \<le> length b \<Longrightarrow> safe (slice_from n b) (\<lambda>b'. length b' = length b - n)"
  by simp

lemma safe_index0: "0 < length b \<Longrightarrow> safe (index b 0) (\<lambda>_. True)"
  by (simp add: index_def)

abbreviation shorter :: "byte list \<Rightarrow> ('s \<times> byte list) option \<Rightarrow> bool" where
  "shorter b r \<equiv> (case r of None \<Rightarrow> True | Some (s, rest) \<Rightarrow> length rest < length b)"

lemma safe_DataSegment_parse: "safe (DataSegment_parse s conv cmd opt b) (shorter b)"
  if "ds_payload s = None"
proof -
  have "Buffer_Clear New = New" by (simp add: Buffer_Clear_def New_def)
  moreover have "safe (Buffer_Write New xs) (\<lambda>_. True)" for xs
    using Buffer_Write_spec [of New xs] by force
  ultimately show ?thesis
    unfolding DataSegment_parse_def Let_def using that
    by (auto simp: DataSegment_Data_def slice_0_unat not_less
        intro!: safe_bind [OF safe_Uint32] safe_bind [OF safe_Uint16] safe_bind [OF safe_slice_from]
          safe_bind [where r = "Buffer_Write New _" and P = "\<lambda>_. True"])
qed

lemma safe_read_numbers:
  "4 * n \<le> length b \<Longrightarrow> safe (read_numbers n s b) (\<lambda>(s', rest). length rest \<le> length b)"
proof (induction n arbitrary: s b)
  case (Suc n)
  then show ?case
    by (auto intro!: safe_bind [OF safe_Uint32] safe_mono [OF Suc.IH])
qed simp

lemma safe_map_sum: "safe (map_sum id f r) P \<longleftrightarrow> safe r (\<lambda>x. P (f x))"
  by (cases r) auto

lemma safe_AckSegment_parse: "safe (AckSegment_parse s conv cmd opt b) (shorter b)"
  unfolding AckSegment_parse_def Let_def
  by (auto simp: safe_map_sum intro!: safe_bind [OF safe_Uint32] safe_bind [OF safe_index0] safe_bind [OF safe_slice_from]
      safe_mono [OF safe_read_numbers])

lemma safe_CmdOnlySegment_parse: "safe (CmdOnlySegment_parse s conv cmd opt b) (shorter b)"
  unfolding CmdOnlySegment_parse_def Let_def
  by (auto intro!: safe_bind [OF safe_Uint32])

lemma safe_ReadSegment: "safe (ReadSegment b) (shorter b)"
proof (cases "length b < 4")
  case True
  then show ?thesis by (simp add: ReadSegment_def)
next
  case False
  then obtain a1 a2 cmd opt buf where b: "b = a1 # a2 # cmd # opt # buf"
    by (auto simp: not_less numeral_eq_Suc Suc_le_length_iff)
  show ?thesis
    using safe_DataSegment_parse [of NewDataSegment "push_bit 8 (ucast a1) OR ucast a2" cmd opt buf]
      safe_AckSegment_parse [of NewAckSegment "push_bit 8 (ucast a1) OR ucast a2" cmd opt buf]
      safe_CmdOnlySegment_parse [of NewCmdOnlySegment "push_bit 8 (ucast a1) OR ucast a2" cmd opt buf]
    unfolding ReadSegment_def b
    by (auto simp: safe_map_sum index_def NewDataSegment_def elim!: safe_mono split: option.splits)
qed

interpretation segments: framed_codec pdu_wire pdu_ok pdu_of ReadSegment
proof
  fix p rest assume "pdu_ok p"
  then show "\<exists>s. ReadSegment (pdu_wire p @ rest) = Inr (Some (s, rest)) \<and> pdu_of s = p"
    using ReadSegment_law by blast
qed (simp_all add: safe_ReadSegment)

section \<open>Properties\<close>

text \<open>
  C32: for every segment with a well-formed payload, \<^verbatim>\<open>Serialize\<close> into a slice of
  \<^verbatim>\<open>ByteSize()\<close> bytes does not panic and fills the slice completely; and when the segment
  carries 1 to 16384 bytes (data), at most 255 numbers (ack) or another command (cmd-only),
  \<^verbatim>\<open>ReadSegment\<close> reads from the result followed by any other bytes a segment with the same
  fields and payload, and returns exactly those other bytes as the rest.
\<close>

theorem segment_roundtrip:
  assumes "segment_ok s" "pdu_ok (pdu_of s)" "int (length b) = Segment_ByteSize s"
  shows "\<exists>w s'. Segment_Serialize s b = Inr w \<and> length w = length b
     \<and> ReadSegment (w @ rest) = Inr (Some (s', rest)) \<and> pdu_of s' = pdu_of s"
  using Segment_Serialize_law [OF assms(1,3)] ReadSegment_law [OF assms(2)] length_pdu_wire [OF assms(1)] assms(3)
  by (metis of_nat_eq_iff)

theorem segment_roundtrip_witness:
  "\<exists>w s'. Segment_Serialize (AckSeg (NewAckSegment\<lparr>as_NumberList := [7, 9]\<rparr>)) (replicate 25 0) = Inr w
     \<and> length w = length (replicate 25 (0 :: byte))
     \<and> ReadSegment (w @ [1]) = Inr (Some (s', [1]))
     \<and> pdu_of s' = pdu_of (AckSeg (NewAckSegment\<lparr>as_NumberList := [7, 9]\<rparr>))"
  by (rule segment_roundtrip) (simp_all add: NewAckSegment_def AckSegment_ByteSize_def)

text \<open>
  the parser rejects a data segment without payload at the end of a packet, although
  \<^verbatim>\<open>Serialize\<close> writes it in 18 bytes: the guard \<^verbatim>\<open>len(buf) < 15\<close> asks for one byte more than
  the 14 that the fields after the common header take. In front of other bytes the same segment
  is accepted.
\<close>

theorem ReadSegment_empty_payload:
  "ReadSegment (pdu_wire (Data_pdu conv opt ts number sn []) @ rest) = Inr None \<longleftrightarrow> rest = []"
proof (cases rest)
  case Nil
  then show ?thesis
    using ReadSegment_header [of conv CommandData opt "be32 ts @ be32 number @ be32 sn @ be16 0"]
    by (simp add: DataSegment_parse_def)
next
  case (Cons r rs)
  have "Buffer_Clear New = New" by (simp add: Buffer_Clear_def New_def)
  moreover obtain b where "Buffer_Write New [] = Inr (b, 0)"
    using Buffer_Write_fits [of New "[]"] by auto
  ultimately show ?thesis
    using Cons ReadSegment_header [of conv CommandData opt "be32 ts @ be32 number @ be32 sn @ be16 0 @ rest"]
    by (simp add: DataSegment_parse_def NewDataSegment_def DataSegment_Data_def slice_def)
qed

end
