(* ===== verification/KcpConfig.thy ===== *)
theory KcpConfig
  imports KcpSegment
begin

text \<open>
  \<^verbatim>\<open>transport/internet/kcp/config.go\<close> and the round-trip estimator of \<^verbatim>\<open>connection.go\<close>. A
  \<^verbatim>\<open>*Config\<close> is an option (the getters accept nil), and so is each of its message fields. The
  arithmetic is on 32-bit words, as in the code; a division by zero is a panic.
\<close>

section \<open>Config\<close>

record Config =
  cfg_Mtu :: "u32 option"
  cfg_Tti :: "u32 option"
  cfg_UplinkCapacity :: "u32 option"
  cfg_DownlinkCapacity :: "u32 option"
  cfg_Congestion :: bool
  cfg_WriteBuffer :: "u32 option"
  cfg_ReadBuffer :: "u32 option"

definition cfg_value :: "Config option \<Rightarrow> (Config \<Rightarrow> u32 option) \<Rightarrow> u32 \<Rightarrow> u32" where
  "cfg_value c field dflt = (case c of None \<Rightarrow> dflt | Some cfg \<Rightarrow> (case field cfg of None \<Rightarrow> dflt | Some v \<Rightarrow> v))"

definition GetMTUValue :: "Config option \<Rightarrow> u32" where
  "GetMTUValue c = cfg_value c cfg_Mtu 1350"

definition GetTTIValue :: "Config option \<Rightarrow> u32" where
  "GetTTIValue c = cfg_value c cfg_Tti 50"

definition GetUplinkCapacityValue :: "Config option \<Rightarrow> u32" where
  "GetUplinkCapacityValue c = cfg_value c cfg_UplinkCapacity 5"

definition GetDownlinkCapacityValue :: "Config option \<Rightarrow> u32" where
  "GetDownlinkCapacityValue c = cfg_value c cfg_DownlinkCapacity 20"

definition GetWriteBufferSize :: "Config option \<Rightarrow> u32" where
  "GetWriteBufferSize c = cfg_value c cfg_WriteBuffer (2 * 1024 * 1024)"

definition GetReadBufferSize :: "Config option \<Rightarrow> u32" where
  "GetReadBufferSize c = cfg_value c cfg_ReadBuffer (2 * 1024 * 1024)"

text \<open>Unsigned division; by zero it panics.\<close>

definition div_u32 :: "u32 \<Rightarrow> u32 \<Rightarrow> u32 result" where
  "div_u32 a b = (if b = 0 then Inl Panic else Inr (a div b))"

definition in_flight_size :: "u32 \<Rightarrow> Config option \<Rightarrow> u32 result" where
  "in_flight_size capacity c =
     bind_res (div_u32 (capacity * 1024 * 1024) (GetMTUValue c)) (\<lambda>x.
     bind_res (div_u32 1000 (GetTTIValue c)) (\<lambda>y.
     bind_res (div_u32 x y) (\<lambda>size. Inr (if size < 8 then 8 else size))))"

definition GetSendingInFlightSize :: "Config option \<Rightarrow> u32 result" where
  "GetSendingInFlightSize c = in_flight_size (GetUplinkCapacityValue c) c"

definition GetSendingBufferSize :: "Config option \<Rightarrow> u32 result" where
  "GetSendingBufferSize c = div_u32 (GetWriteBufferSize c) (GetMTUValue c)"

definition GetReceivingInFlightSize :: "Config option \<Rightarrow> u32 result" where
  "GetReceivingInFlightSize c = in_flight_size (GetDownlinkCapacityValue c) c"

definition GetReceivingBufferSize :: "Config option \<Rightarrow> u32 result" where
  "GetReceivingBufferSize c = div_u32 (GetReadBufferSize c) (GetMTUValue c)"

section \<open>RoundTripInfo\<close>

record RoundTripInfo =
  rt_variation :: u32
  rt_srtt :: u32
  rt_rto :: u32
  rt_minRtt :: u32
  rt_updatedTimestamp :: u32

definition UpdatePeerRTO :: "RoundTripInfo \<Rightarrow> u32 \<Rightarrow> u32 \<Rightarrow> RoundTripInfo" where
  "UpdatePeerRTO info rto current =
     (if current - rt_updatedTimestamp info < 3000 then info
      else info\<lparr>rt_updatedTimestamp := current, rt_rto := rto\<rparr>)"

definition RoundTripInfo_Update :: "RoundTripInfo \<Rightarrow> u32 \<Rightarrow> u32 \<Rightarrow> RoundTripInfo" where
  "RoundTripInfo_Update info rtt current =
     (if rtt > 0x7FFFFFFF then info
      else
        let info = (if rt_srtt info = 0 then info\<lparr>rt_srtt := rtt, rt_variation := rtt div 2\<rparr>
                    else
                      let delta = (if rt_srtt info > rtt then rt_srtt info - rtt else rtt - rt_srtt info);
                          variation = (3 * rt_variation info + delta) div 4;
                          srtt = (7 * rt_srtt info + rtt) div 8;
                          srtt' = (if srtt < rt_minRtt info then rt_minRtt info else srtt)
                      in info\<lparr>rt_variation := variation, rt_srtt := srtt'\<rparr>);
            rto = (if rt_minRtt info < 4 * rt_variation info then rt_srtt info + 4 * rt_variation info
                   else rt_srtt info + rt_variation info);
            rto' = (if rto > 10000 then 10000 else rto)
        in info\<lparr>rt_rto := rto' * 5 div 4, rt_updatedTimestamp := current\<rparr>)"

section \<open>The JSON configuration\<close>

text \<open>
  \<^verbatim>\<open>KCPConfig.Build\<close> of \<^verbatim>\<open>infra/conf/v4/transport_internet.go\<close>, for the fields that the
  arithmetic above reads; the header and the seed pass through unchanged.
\<close>

record KCPConfig =
  kc_Mtu :: "u32 option"
  kc_Tti :: "u32 option"
  kc_UpCap :: "u32 option"
  kc_DownCap :: "u32 option"
  kc_Congestion :: "bool option"
  kc_ReadBufferSize :: "u32 option"
  kc_WriteBufferSize :: "u32 option"

definition buffer_size :: "u32 option \<Rightarrow> u32 option" where
  "buffer_size = map_option (\<lambda>size. if size > 0 then size * 1024 * 1024 else 512 * 1024)"

definition KCPConfig_Build :: "KCPConfig \<Rightarrow> Config result" where
  "KCPConfig_Build c =
     (if case kc_Mtu c of None \<Rightarrow> False | Some mtu \<Rightarrow> mtu < 576 \<or> mtu > 1460
      then Inl (NewError ''invalid mKCP MTU size: '')
      else if case kc_Tti c of None \<Rightarrow> False | Some tti \<Rightarrow> tti < 10 \<or> tti > 100
      then Inl (NewError ''invalid mKCP TTI: '')
      else Inr \<lparr>cfg_Mtu = kc_Mtu c, cfg_Tti = kc_Tti c, cfg_UplinkCapacity = kc_UpCap c,
                cfg_DownlinkCapacity = kc_DownCap c,
                cfg_Congestion = (case kc_Congestion c of None \<Rightarrow> False | Some b \<Rightarrow> b),
                cfg_WriteBuffer = buffer_size (kc_WriteBufferSize c),
                cfg_ReadBuffer = buffer_size (kc_ReadBufferSize c)\<rparr>)"

section \<open>Division\<close>

lemma unat_div_u32: "unat (a div b :: u32) = unat a div unat b"
  by (simp add: unat_div_distrib)

lemma div_eq_0_u32: "(a div b :: u32) = 0 \<longleftrightarrow> b = 0 \<or> a < b"
proof -
  have "(a div b = 0) \<longleftrightarrow> unat a div unat b = 0" by (simp add: unat_div_u32 flip: unat_eq_0)
  also have "\<dots> \<longleftrightarrow> b = 0 \<or> a < b" by (auto simp: word_less_nat_alt div_eq_0_iff unat_eq_0)
  finally show ?thesis .
qed

lemma in_flight_size_law:
  "in_flight_size cap c = (if GetMTUValue c = 0 \<or> GetTTIValue c = 0 \<or> GetTTIValue c > 1000 then Inl Panic
     else Inr (max 8 (cap * 1024 * 1024 div GetMTUValue c div (1000 div GetTTIValue c))))"
  by (auto simp: in_flight_size_def div_u32_def div_eq_0_u32 not_less max_def)

section \<open>The estimator stays in range\<close>

text \<open>
  With samples below 10000 ms (the caller's guard) and a minimum below that, no intermediate
  value of the estimator comes near the 32-bit limit.
\<close>

definition rtt_ok :: "RoundTripInfo \<Rightarrow> bool" where
  "rtt_ok info \<longleftrightarrow> unat (rt_srtt info) \<le> 10000 \<and> unat (rt_variation info) \<le> 10000 \<and> unat (rt_minRtt info) \<le> 10000"

lemma unat_u32_lin:
  "3 * unat v + unat d < 4294967296 \<Longrightarrow> unat (3 * v + d :: u32) = 3 * unat v + unat d"
  "7 * unat v + unat d < 4294967296 \<Longrightarrow> unat (7 * v + d :: u32) = 7 * unat v + unat d"
  "4 * unat v < 4294967296 \<Longrightarrow> unat (4 * v :: u32) = 4 * unat v"
  "unat d + 4 * unat v < 4294967296 \<Longrightarrow> unat (d + 4 * v :: u32) = unat d + 4 * unat v"
  "unat v + unat d < 4294967296 \<Longrightarrow> unat (v + d :: u32) = unat v + unat d"
  "5 * unat v < 4294967296 \<Longrightarrow> unat (v * 5 :: u32) = unat v * 5"
  by (simp_all add: unat_word_ariths)

lemma unat_u32_diff: "b \<le> a \<Longrightarrow> unat (a - b :: u32) = unat a - unat b"
  by (simp add: unat_sub word_le_nat_alt)

definition srtt_next :: "RoundTripInfo \<Rightarrow> nat \<Rightarrow> nat" where
  "srtt_next info rtt = (if unat (rt_srtt info) = 0 then rtt
     else max (unat (rt_minRtt info)) ((7 * unat (rt_srtt info) + rtt) div 8))"

definition variation_next :: "RoundTripInfo \<Rightarrow> nat \<Rightarrow> nat" where
  "variation_next info rtt = (if unat (rt_srtt info) = 0 then rtt div 2
     else (3 * unat (rt_variation info) + ((unat (rt_srtt info) - rtt) + (rtt - unat (rt_srtt info)))) div 4)"

lemma RoundTripInfo_Update_parts:
  assumes "rtt_ok info" "unat rtt < 10000"
  shows "unat (rt_srtt (RoundTripInfo_Update info rtt current)) = srtt_next info (unat rtt)"
    and "unat (rt_variation (RoundTripInfo_Update info rtt current)) = variation_next info (unat rtt)"
    and "rt_minRtt (RoundTripInfo_Update info rtt current) = rt_minRtt info"
proof -
  have le: "\<not> rtt > 0x7FFFFFFF" using assms(2) by (simp add: word_less_nat_alt)
  let ?s = "rt_srtt info" and ?v = "rt_variation info"
  have b: "unat ?s \<le> 10000" "unat ?v \<le> 10000" using assms(1) by (simp_all add: rtt_ok_def)
  let ?d = "if ?s > rtt then ?s - rtt else rtt - ?s"
  have d: "unat ?d = ((unat ?s - unat rtt) + (unat rtt - unat ?s))"
    by (auto simp: unat_u32_diff not_less less_imp_le word_le_nat_alt word_less_nat_alt)
  have "unat ((3 * ?v + ?d) div 4) = (3 * unat ?v + ((unat ?s - unat rtt) + (unat rtt - unat ?s))) div 4"
    using b assms(2) by (subst unat_div_u32, subst unat_u32_lin(1)) (simp_all only: d, auto)
  moreover have "unat ((7 * ?s + rtt) div 8) = (7 * unat ?s + unat rtt) div 8"
    using b assms(2) by (subst unat_div_u32, subst unat_u32_lin(2)) auto
  moreover have "unat (rtt div 2) = unat rtt div 2" by (simp add: unat_div_u32)
  ultimately show "unat (rt_srtt (RoundTripInfo_Update info rtt current)) = srtt_next info (unat rtt)"
    "unat (rt_variation (RoundTripInfo_Update info rtt current)) = variation_next info (unat rtt)"
    "rt_minRtt (RoundTripInfo_Update info rtt current) = rt_minRtt info"
    using le
    by (auto simp: RoundTripInfo_Update_def Let_def srtt_next_def variation_next_def max_def unat_eq_0
        word_le_nat_alt word_less_nat_alt)
qed

lemma RoundTripInfo_Update_rto:
  assumes "unat rtt < 10000"
  shows "unat (rt_rto (RoundTripInfo_Update info rtt current)) \<le> 12500"
proof -
  have *: "unat ((if r > 10000 then 10000 else r) * 5 div 4) \<le> 12500" for r :: u32
  proof -
    have "unat (if r > 10000 then 10000 else r) \<le> 10000" by (auto simp: word_less_nat_alt)
    then show ?thesis by (simp only: unat_div_u32 unat_u32_lin(6)) (simp add: unat_u32_lin(6))
  qed
  have "\<not> rtt > 0x7FFFFFFF" using assms by (simp add: word_less_nat_alt)
  then show ?thesis using * unfolding RoundTripInfo_Update_def Let_def by simp
qed

section \<open>Properties\<close>

text \<open>
  the round-trip estimator computes the smoothed values of RFC 6298 in natural numbers, without
  wrap-around: for samples below 10000 ms (which the only caller checks) the smoothed time is
  \<open>(7 * srtt + rtt) / 8\<close>, not below the minimum, the variation is \<open>(3 * var + |srtt - rtt|) / 4\<close>; the
  estimator stays in the range in which this holds, and the retransmission timeout never exceeds 12500 ms.
\<close>

theorem RoundTripInfo_Update_rfc6298:
  assumes "rtt_ok info" "unat rtt < 10000"
  shows "unat (rt_srtt (RoundTripInfo_Update info rtt current)) = srtt_next info (unat rtt)
     \<and> unat (rt_variation (RoundTripInfo_Update info rtt current)) = variation_next info (unat rtt)
     \<and> rtt_ok (RoundTripInfo_Update info rtt current)
     \<and> unat (rt_rto (RoundTripInfo_Update info rtt current)) \<le> 12500"
proof -
  note p = RoundTripInfo_Update_parts [OF assms, of current]
  have "srtt_next info (unat rtt) \<le> 10000" "variation_next info (unat rtt) \<le> 10000"
    using assms by (auto simp: srtt_next_def variation_next_def rtt_ok_def)
  then have "rtt_ok (RoundTripInfo_Update info rtt current)" using p assms(1) by (simp add: rtt_ok_def)
  moreover have "unat (rt_rto (RoundTripInfo_Update info rtt current)) \<le> 12500"
    using assms(2) by (rule RoundTripInfo_Update_rto)
  ultimately show ?thesis using p by simp
qed

theorem RoundTripInfo_Update_rfc6298_witness:
  "let info = \<lparr>rt_variation = 20, rt_srtt = 100, rt_rto = 100, rt_minRtt = 50, rt_updatedTimestamp = 0\<rparr>;
       info' = RoundTripInfo_Update info 180 7 in
     unat (rt_srtt info') = srtt_next info (unat (180 :: u32))
     \<and> unat (rt_variation info') = variation_next info (unat (180 :: u32)) \<and> rtt_ok info'
     \<and> unat (rt_rto info') \<le> 12500"
  unfolding Let_def by (rule RoundTripInfo_Update_rfc6298) (simp_all add: rtt_ok_def)

text \<open>
  the window sizes of a configuration are computed without a panic exactly when the MTU is
  not zero and the TTI lies between 1 and 1000 (beyond 1000 the quotient \<^verbatim>\<open>1000 / tti\<close> is the
  zero that the next division divides by); then both windows have at least 8 segments.
\<close>

theorem in_flight_sizes:
  "(if GetMTUValue c = 0 \<or> GetTTIValue c = 0 \<or> GetTTIValue c > 1000
    then GetSendingInFlightSize c = Inl Panic \<and> GetReceivingInFlightSize c = Inl Panic
    else \<exists>s r. GetSendingInFlightSize c = Inr s \<and> GetReceivingInFlightSize c = Inr r \<and> 8 \<le> s \<and> 8 \<le> r)"
  by (simp add: GetSendingInFlightSize_def GetReceivingInFlightSize_def in_flight_size_law)

text \<open>
  every mKCP configuration that \<^verbatim>\<open>KCPConfig.Build\<close> accepts gives window sizes, without a panic and
  of at least 8 segments.
\<close>

theorem KCPConfig_Build_sizes:
  assumes "KCPConfig_Build kc = Inr cfg"
  shows "\<exists>s r. GetSendingInFlightSize (Some cfg) = Inr s \<and> GetReceivingInFlightSize (Some cfg) = Inr r
     \<and> 8 \<le> s \<and> 8 \<le> r"
proof -
  have "GetMTUValue (Some cfg) \<noteq> 0 \<and> GetTTIValue (Some cfg) \<noteq> 0 \<and> \<not> GetTTIValue (Some cfg) > 1000"
    using assms
    by (auto simp: KCPConfig_Build_def GetMTUValue_def GetTTIValue_def cfg_value_def not_less word_le_nat_alt
        split: if_splits option.splits)
  then show ?thesis
    by (simp add: GetSendingInFlightSize_def GetReceivingInFlightSize_def in_flight_size_law)
qed

theorem KCPConfig_Build_sizes_witness:
  "\<exists>cfg s r. KCPConfig_Build \<lparr>kc_Mtu = Some 576, kc_Tti = None, kc_UpCap = Some 100, kc_DownCap = None,
       kc_Congestion = None, kc_ReadBufferSize = None, kc_WriteBufferSize = Some 1\<rparr> = Inr cfg
     \<and> GetSendingInFlightSize (Some cfg) = Inr s \<and> GetReceivingInFlightSize (Some cfg) = Inr r \<and> 8 \<le> s \<and> 8 \<le> r"
proof -
  let ?kc = "\<lparr>kc_Mtu = Some 576, kc_Tti = None, kc_UpCap = Some 100, kc_DownCap = None,
       kc_Congestion = None, kc_ReadBufferSize = None, kc_WriteBufferSize = Some 1\<rparr>"
  have "KCPConfig_Build ?kc = Inr (projr (KCPConfig_Build ?kc))" by (simp add: KCPConfig_Build_def)
  with KCPConfig_Build_sizes [OF this] show ?thesis by blast
qed

end
