(* ===== verification/KcpSending.thy ===== *)
theory KcpSending
  imports KcpConfig
begin

text \<open>
  \<^verbatim>\<open>transport/internet/kcp/sending.go\<close>: the sending half of a connection. The sending window is
  the list of segments that are not yet acknowledged; the worker numbers new segments,
  processes acknowledgements and decides what to send or send again.

  Segments written to the connection's output are returned as a list, in order. What the
  worker reads of the connection (conversation, state, configuration, round-trip
  information) is an argument, what it changes of it is part of the result.
\<close>

section \<open>SendingWindow\<close>

record SendingWindow =
  sw_cache :: "DataSegment list"
  sw_totalInFlightSize :: u32

definition NewSendingWindow :: SendingWindow where
  "NewSendingWindow = \<lparr>sw_cache = [], sw_totalInFlightSize = 0\<rparr>"

definition SendingWindow_Release :: "SendingWindow \<Rightarrow> SendingWindow" where
  "SendingWindow_Release sw = sw\<lparr>sw_cache := []\<rparr>"

definition SendingWindow_Len :: "SendingWindow \<Rightarrow> u32" where
  "SendingWindow_Len sw = of_nat (length (sw_cache sw))"

definition SendingWindow_IsEmpty :: "SendingWindow \<Rightarrow> bool" where
  "SendingWindow_IsEmpty sw \<longleftrightarrow> length (sw_cache sw) = 0"

definition SendingWindow_Push :: "SendingWindow \<Rightarrow> u32 \<Rightarrow> Buffer \<Rightarrow> SendingWindow" where
  "SendingWindow_Push sw number b =
     sw\<lparr>sw_cache := sw_cache sw @ [NewDataSegment\<lparr>ds_Number := number, ds_payload := Some b\<rparr>]\<rparr>"

text \<open>\<^verbatim>\<open>FirstNumber\<close> dereferences the front of the list: nil when it is empty.\<close>

definition SendingWindow_FirstNumber :: "SendingWindow \<Rightarrow> u32 result" where
  "SendingWindow_FirstNumber sw = (case sw_cache sw of [] \<Rightarrow> Inl Panic | seg # _ \<Rightarrow> Inr (ds_Number seg))"

fun Clear_cache :: "u32 \<Rightarrow> DataSegment list \<Rightarrow> DataSegment list" where
  "Clear_cache una [] = []"
| "Clear_cache una (seg # segs) = (if ds_Number seg \<ge> una then seg # segs else Clear_cache una segs)"

definition SendingWindow_Clear :: "SendingWindow \<Rightarrow> u32 \<Rightarrow> SendingWindow" where
  "SendingWindow_Clear sw una = sw\<lparr>sw_cache := Clear_cache una (sw_cache sw)\<rparr>"

text \<open>
  \<^verbatim>\<open>Visit(visitor)\<close>: the visitor may change the segment and its own variables \<open>st\<close>, and says
  whether to go on.
\<close>

fun Visit :: "('s \<Rightarrow> DataSegment \<Rightarrow> bool \<times> DataSegment \<times> 's) \<Rightarrow> 's \<Rightarrow> DataSegment list \<Rightarrow> DataSegment list \<times> 's" where
  "Visit visitor st [] = ([], st)"
| "Visit visitor st (seg # segs) =
     (let (go_on, seg', st') = visitor st seg in
      if go_on then let (segs', st'') = Visit visitor st' segs in (seg' # segs', st'')
      else (seg' # segs, st'))"

definition HandleFastAck :: "SendingWindow \<Rightarrow> u32 \<Rightarrow> u32 \<Rightarrow> SendingWindow" where
  "HandleFastAck sw number rto =
     sw\<lparr>sw_cache := fst (Visit (\<lambda>_ seg.
        if number = ds_Number seg \<or> number - ds_Number seg > 0x7FFFFFFF then (False, seg, ())
        else if ds_transmit seg > 0 \<and> ds_timeout seg > rto div 3
        then (True, seg\<lparr>ds_timeout := ds_timeout seg - rto div 3\<rparr>, ())
        else (True, seg, ())) () (sw_cache sw))\<rparr>"

text \<open>
  The visitor of \<^verbatim>\<open>Flush\<close>; its variables are \<^verbatim>\<open>lost\<close>, \<^verbatim>\<open>inFlightSize\<close>, \<^verbatim>\<open>totalInFlightSize\<close> and the
  segments written. \<open>wr\<close> is what \<^verbatim>\<open>SendingWorker.Write\<close> does to the segment before it is output.
\<close>

record flush_vars =
  fv_lost :: u32
  fv_inFlightSize :: u32
  fv_totalInFlightSize :: u32
  fv_out :: "DataSegment list"

definition flush_visitor :: "(DataSegment \<Rightarrow> DataSegment) \<Rightarrow> u32 \<Rightarrow> u32 \<Rightarrow> u32 \<Rightarrow> flush_vars \<Rightarrow> DataSegment
    \<Rightarrow> bool \<times> DataSegment \<times> flush_vars" where
  "flush_visitor wr current rto maxInFlightSize v segment =
     (if current - ds_timeout segment \<ge> 0x7FFFFFFF then (True, segment, v)
      else
        let v = (if ds_transmit segment = 0 then v\<lparr>fv_totalInFlightSize := fv_totalInFlightSize v + 1\<rparr>
                 else v\<lparr>fv_lost := fv_lost v + 1\<rparr>);
            segment = wr (segment\<lparr>ds_timeout := current + rto, ds_Timestamp := current,
                                  ds_transmit := ds_transmit segment + 1\<rparr>);
            v = v\<lparr>fv_out := fv_out v @ [segment], fv_inFlightSize := fv_inFlightSize v + 1\<rparr>
        in (fv_inFlightSize v < maxInFlightSize, segment, v))"

text \<open>\<^verbatim>\<open>Flush\<close>: the new window, the segments written and the loss rate reported, if any.\<close>

definition SendingWindow_Flush :: "(DataSegment \<Rightarrow> DataSegment) \<Rightarrow> SendingWindow \<Rightarrow> u32 \<Rightarrow> u32 \<Rightarrow> u32
    \<Rightarrow> SendingWindow \<times> DataSegment list \<times> u32 option" where
  "SendingWindow_Flush wr sw current rto maxInFlightSize =
     (if SendingWindow_IsEmpty sw then (sw, [], None)
      else
        let (cache, v) = Visit (flush_visitor wr current rto maxInFlightSize)
              \<lparr>fv_lost = 0, fv_inFlightSize = 0, fv_totalInFlightSize = sw_totalInFlightSize sw, fv_out = []\<rparr>
              (sw_cache sw)
        in (\<lparr>sw_cache = cache, sw_totalInFlightSize = fv_totalInFlightSize v\<rparr>, fv_out v,
            if fv_inFlightSize v > 0 \<and> fv_totalInFlightSize v \<noteq> 0
            then Some (fv_lost v * 100 div fv_totalInFlightSize v) else None))"

text \<open>The loop of \<^verbatim>\<open>Remove\<close>: \<open>None\<close> for \<^verbatim>\<open>return false\<close>, else the list without the segment.\<close>

fun Remove_cache :: "u32 \<Rightarrow> DataSegment list \<Rightarrow> DataSegment list option" where
  "Remove_cache number [] = None"
| "Remove_cache number (seg # segs) =
     (if ds_Number seg > number then None
      else if ds_Number seg = number then Some segs
      else map_option ((#) seg) (Remove_cache number segs))"

definition SendingWindow_Remove :: "SendingWindow \<Rightarrow> u32 \<Rightarrow> bool \<times> SendingWindow" where
  "SendingWindow_Remove sw number =
     (case Remove_cache number (sw_cache sw) of
        None \<Rightarrow> (False, sw)
      | Some cache \<Rightarrow>
          (True, sw\<lparr>sw_cache := cache,
                    sw_totalInFlightSize := if sw_totalInFlightSize sw > 0 then sw_totalInFlightSize sw - 1
                                            else sw_totalInFlightSize sw\<rparr>))"

section \<open>SendingWorker\<close>

record SendingWorker =
  snd_window :: SendingWindow
  snd_firstUnacknowledged :: u32
  snd_nextNumber :: u32
  snd_remoteNextNumber :: u32
  snd_controlWindow :: u32
  snd_fastResend :: u32
  snd_windowSize :: u32
  snd_firstUnacknowledgedUpdated :: bool
  snd_closed :: bool

definition NewSendingWorker :: "Config option \<Rightarrow> SendingWorker result" where
  "NewSendingWorker config =
     bind_res (GetSendingInFlightSize config) (\<lambda>controlWindow.
     bind_res (GetSendingBufferSize config) (\<lambda>windowSize.
       Inr \<lparr>snd_window = NewSendingWindow, snd_firstUnacknowledged = 0, snd_nextNumber = 0,
            snd_remoteNextNumber = 32, snd_controlWindow = controlWindow, snd_fastResend = 2,
            snd_windowSize = windowSize, snd_firstUnacknowledgedUpdated = False, snd_closed = False\<rparr>))"

definition SendingWorker_Release :: "SendingWorker \<Rightarrow> SendingWorker" where
  "SendingWorker_Release w = w\<lparr>snd_window := SendingWindow_Release (snd_window w), snd_closed := True\<rparr>"

definition FindFirstUnacknowledged :: "SendingWorker \<Rightarrow> SendingWorker" where
  "FindFirstUnacknowledged w =
     (let first = snd_firstUnacknowledged w;
          una = (case sw_cache (snd_window w) of [] \<Rightarrow> snd_nextNumber w | seg # _ \<Rightarrow> ds_Number seg);
          w = w\<lparr>snd_firstUnacknowledged := una\<rparr>
      in if first \<noteq> una then w\<lparr>snd_firstUnacknowledgedUpdated := True\<rparr> else w)"

definition ProcessReceivingNext :: "SendingWorker \<Rightarrow> u32 \<Rightarrow> SendingWorker" where
  "ProcessReceivingNext w nextNumber =
     FindFirstUnacknowledged (w\<lparr>snd_window := SendingWindow_Clear (snd_window w) nextNumber\<rparr>)"

definition processAck :: "SendingWorker \<Rightarrow> u32 \<Rightarrow> bool \<times> SendingWorker" where
  "processAck w number =
     (if number - snd_firstUnacknowledged w > 0x7FFFFFFF \<or> number - snd_nextNumber w < 0x7FFFFFFF then (False, w)
      else
        let (removed, win) = SendingWindow_Remove (snd_window w) number; w = w\<lparr>snd_window := win\<rparr> in
        (removed, if removed then FindFirstUnacknowledged w else w))"

text \<open>The loop of \<^verbatim>\<open>ProcessSegment\<close> over the acknowledged numbers, with \<^verbatim>\<open>maxack\<close> and \<^verbatim>\<open>maxackRemoved\<close>.\<close>

fun processAcks :: "SendingWorker \<Rightarrow> u32 \<Rightarrow> bool \<Rightarrow> u32 list \<Rightarrow> SendingWorker \<times> u32 \<times> bool" where
  "processAcks w maxack maxackRemoved [] = (w, maxack, maxackRemoved)"
| "processAcks w maxack maxackRemoved (number # ns) =
     (let (removed, w) = processAck w number in
      if maxack < number then processAcks w number removed ns
      else processAcks w maxack maxackRemoved ns)"

definition SendingWorker_ProcessSegment :: "SendingWorker \<Rightarrow> RoundTripInfo \<Rightarrow> u32 \<Rightarrow> AckSegment \<Rightarrow> u32
    \<Rightarrow> SendingWorker \<times> RoundTripInfo" where
  "SendingWorker_ProcessSegment w roundTrip current seg rto =
     (if snd_closed w then (w, roundTrip)
      else
        let w = (if snd_remoteNextNumber w < as_ReceivingWindow seg
                 then w\<lparr>snd_remoteNextNumber := as_ReceivingWindow seg\<rparr> else w);
            w = ProcessReceivingNext w (as_ReceivingNext seg)
        in if AckSegment_IsEmpty seg then (w, roundTrip)
           else
             let (w, maxack, maxackRemoved) = processAcks w 0 False (as_NumberList seg) in
             if maxackRemoved then
               (w\<lparr>snd_window := HandleFastAck (snd_window w) maxack rto\<rparr>,
                if current - as_Timestamp seg < 10000
                then RoundTripInfo_Update roundTrip (current - as_Timestamp seg) current else roundTrip)
             else (w, roundTrip))"

definition SendingWorker_Push :: "SendingWorker \<Rightarrow> Buffer \<Rightarrow> bool \<times> SendingWorker" where
  "SendingWorker_Push w b =
     (if snd_closed w then (False, w)
      else if SendingWindow_Len (snd_window w) > snd_windowSize w then (False, w)
      else (True, w\<lparr>snd_window := SendingWindow_Push (snd_window w) (snd_nextNumber w) b,
                     snd_nextNumber := snd_nextNumber w + 1\<rparr>))"

definition SendingWorker_Write :: "u16 \<Rightarrow> bool \<Rightarrow> SendingWorker \<Rightarrow> DataSegment \<Rightarrow> DataSegment" where
  "SendingWorker_Write conv closing w dataSeg =
     dataSeg\<lparr>ds_Conv := conv, ds_SendingNext := snd_firstUnacknowledged w,
             ds_Option := if closing then SegmentOptionClose else 0\<rparr>"

text \<open>\<^verbatim>\<open>w.conn.Config.Congestion\<close> dereferences the configuration.\<close>

definition congestion :: "Config option \<Rightarrow> bool result" where
  "congestion config = (case config of None \<Rightarrow> Inl Panic | Some c \<Rightarrow> Inr (cfg_Congestion c))"

definition OnPacketLoss :: "Config option \<Rightarrow> u32 \<Rightarrow> SendingWorker \<Rightarrow> u32 \<Rightarrow> SendingWorker result" where
  "OnPacketLoss config timeout w lossRate =
     bind_res (congestion config) (\<lambda>cong.
      if \<not> cong \<or> timeout = 0 then Inr w
      else
        let cw = snd_controlWindow w;
            cw = (if lossRate \<ge> 15 then 3 * cw div 4 else if lossRate \<le> 5 then cw + cw div 4 else cw);
            cw = (if cw < 16 then 16 else cw)
        in bind_res (GetSendingInFlightSize config) (\<lambda>inFlight.
             Inr (w\<lparr>snd_controlWindow := if cw > 2 * inFlight then 2 * inFlight else cw\<rparr>)))"

text \<open>The number of segments one \<^verbatim>\<open>Flush\<close> may send.\<close>

definition send_cwnd :: "bool \<Rightarrow> SendingWorker \<Rightarrow> u32 \<Rightarrow> u32" where
  "send_cwnd cong w cwnd =
     (let left = snd_remoteNextNumber w - snd_firstUnacknowledged w;
          cwnd = (if cwnd > left then left else cwnd);
          cwnd = (if cong \<and> cwnd > snd_controlWindow w then snd_controlWindow w else cwnd)
      in cwnd * 20)"

text \<open>
  \<^verbatim>\<open>Flush\<close>: the worker, the data segments written, and whether the connection has to send a
  ping because the first unacknowledged number changed.
\<close>

definition SendingWorker_Flush :: "u16 \<Rightarrow> bool \<Rightarrow> Config option \<Rightarrow> u32 \<Rightarrow> SendingWorker \<Rightarrow> u32
    \<Rightarrow> (SendingWorker \<times> Segment list \<times> bool) result" where
  "SendingWorker_Flush conv closing config timeout w current =
     (if snd_closed w then Inr (w, [], False)
      else bind_res (GetSendingInFlightSize config) (\<lambda>cwnd.
        bind_res (congestion config) (\<lambda>cong.
          if \<not> SendingWindow_IsEmpty (snd_window w) then
            let (win, out, loss) = SendingWindow_Flush (SendingWorker_Write conv closing w) (snd_window w)
                  current timeout (send_cwnd cong w cwnd);
                w = w\<lparr>snd_window := win\<rparr>
            in bind_res (case loss of None \<Rightarrow> Inr w | Some rate \<Rightarrow> OnPacketLoss config timeout w rate) (\<lambda>w.
                 Inr (w\<lparr>snd_firstUnacknowledgedUpdated := False\<rparr>, map DataSeg out, False))
          else Inr (w\<lparr>snd_firstUnacknowledgedUpdated := False\<rparr>, [], snd_firstUnacknowledgedUpdated w))))"

definition CloseWrite :: "SendingWorker \<Rightarrow> SendingWorker" where
  "CloseWrite w = w\<lparr>snd_window := SendingWindow_Clear (snd_window w) 0xFFFFFFFF\<rparr>"

definition SendingWorker_IsEmpty :: "SendingWorker \<Rightarrow> bool" where
  "SendingWorker_IsEmpty w = SendingWindow_IsEmpty (snd_window w)"

definition SendingWorker_UpdateNecessary :: "SendingWorker \<Rightarrow> bool" where
  "SendingWorker_UpdateNecessary w \<longleftrightarrow> \<not> SendingWorker_IsEmpty w"

section \<open>Windows with increasing numbers\<close>

text \<open>
  \<open>cache_inv sent n cache\<close>: the numbers of the cached segments increase strictly, are below \<open>n\<close> (the
  number of segments pushed so far, less than \<open>2 ^ 32\<close>), and each segment carries the payload of its
  number. \<open>held\<close> is the set of these numbers.
\<close>

definition number_of :: "DataSegment \<Rightarrow> nat" where
  "number_of seg = unat (ds_Number seg)"

definition cache_inv :: "(nat \<Rightarrow> byte list) \<Rightarrow> nat \<Rightarrow> DataSegment list \<Rightarrow> bool" where
  "cache_inv sent n cache \<longleftrightarrow> sorted_wrt (<) (map number_of cache)
     \<and> (\<forall>seg \<in> set cache. number_of seg < n \<and> carries sent (number_of seg) seg)"

definition held :: "DataSegment list \<Rightarrow> nat set" where
  "held cache = number_of ` set cache"

lemma cache_inv_simps [simp]:
  "cache_inv sent n []"
  "cache_inv sent n (seg # cache) \<longleftrightarrow> number_of seg < n \<and> carries sent (number_of seg) seg
     \<and> (\<forall>s \<in> set cache. number_of seg < number_of s) \<and> cache_inv sent n cache"
  by (auto simp: cache_inv_def)

lemma held_simps [simp]: "held [] = {}" "held (seg # cache) = insert (number_of seg) (held cache)"
  "held (c @ d) = held c \<union> held d"
  by (auto simp: held_def)

lemma Clear_cache_filter:
  "cache_inv sent n cache \<Longrightarrow> Clear_cache una cache = filter (\<lambda>seg. una \<le> ds_Number seg) cache"
proof (induction cache)
  case (Cons seg cache)
  show ?case
  proof (cases "una \<le> ds_Number seg")
    case True
    then have "\<forall>s \<in> set cache. una \<le> ds_Number s"
      using Cons.prems by (auto simp: number_of_def word_le_nat_alt)
    with True show ?thesis by simp
  qed (use Cons in simp)
qed simp

lemma Remove_cache_filter:
  "cache_inv sent n cache \<Longrightarrow> Remove_cache number cache =
     (if unat number \<in> held cache then Some (filter (\<lambda>seg. ds_Number seg \<noteq> number) cache) else None)"
proof (induction cache)
  case (Cons seg cache)
  have inj: "unat (ds_Number s) = unat number \<longleftrightarrow> ds_Number s = number" for s by (simp add: word_unat_eq_iff)
  consider "ds_Number seg > number" | "ds_Number seg = number" | "ds_Number seg < number" by fastforce
  then show ?case
  proof cases
    case 1
    then have "unat number \<notin> held (seg # cache)"
      using Cons.prems by (auto simp: held_def number_of_def word_less_nat_alt)
    with 1 show ?thesis by simp
  next
    case 2
    then have "filter (\<lambda>seg. ds_Number seg \<noteq> number) cache = cache"
      using Cons.prems by (auto simp: filter_id_conv number_of_def)
    with 2 show ?thesis by (simp add: number_of_def)
  next
    case 3
    then have "unat number \<noteq> number_of seg" by (auto simp: number_of_def word_less_nat_alt)
    with 3 Cons show ?thesis by (auto simp: not_less less_imp_le)
  qed
qed simp

lemma cache_inv_filter: "cache_inv sent n cache \<Longrightarrow> cache_inv sent n (filter P cache)"
  by (induction cache) auto

lemma held_filter_ge: "held (filter (\<lambda>seg. una \<le> ds_Number seg) cache) = {i \<in> held cache. unat una \<le> i}"
  by (auto simp: held_def number_of_def word_le_nat_alt)

lemma held_filter_ne: "held (filter (\<lambda>seg. ds_Number seg \<noteq> number) cache) = held cache - {unat number}"
  by (auto simp: held_def number_of_def word_unat_eq_iff)

text \<open>A visitor that keeps number and payload keeps the invariant and the numbers.\<close>

definition same_data :: "DataSegment \<Rightarrow> DataSegment \<Rightarrow> bool" where
  "same_data s t \<longleftrightarrow> ds_Number t = ds_Number s \<and> ds_payload t = ds_payload s"

lemma Visit_same_data:
  assumes "\<And>st seg. same_data seg (fst (snd (visitor st seg)))"
  shows "list_all2 same_data cache (fst (Visit visitor st cache))"
proof (induction cache arbitrary: st)
  case (Cons seg cache)
  obtain g seg' st' where v: "visitor st seg = (g, seg', st')" by (metis prod_cases3)
  then have "same_data seg seg'" using assms [of seg st] by simp
  with Cons [of st'] v show ?case
    by (auto simp: split_beta same_data_def intro!: list.rel_refl_strong)
qed simp

lemma same_data_cache:
  assumes "list_all2 same_data cache cache'"
  shows "cache_inv sent n cache \<Longrightarrow> cache_inv sent n cache'" "held cache' = held cache"
    and "length cache' = length cache"
proof -
  have m: "map number_of cache' = map number_of cache"
    using assms by (induction rule: list_all2_induct) (auto simp: same_data_def number_of_def)
  then show "held cache' = held cache" by (metis held_def image_set)
  have "\<exists>s \<in> set cache. same_data s t" if "t \<in> set cache'" for t
    using assms that by (metis in_set_conv_nth list_all2_conv_all_nth)
  then show "cache_inv sent n cache \<Longrightarrow> cache_inv sent n cache'"
    unfolding cache_inv_def m by (fastforce simp: same_data_def carries_def number_of_def)
  show "length cache' = length cache" using assms by (simp add: list_all2_lengthD)
qed

lemma HandleFastAck_same_data: "list_all2 same_data (sw_cache sw) (sw_cache (HandleFastAck sw number rto))"
  unfolding HandleFastAck_def by (simp, rule Visit_same_data) (auto simp: same_data_def)

lemma flush_visitor_same_data:
  "same_data seg (fst (snd (flush_visitor (SendingWorker_Write conv closing w) current rto m v seg)))"
  by (auto simp: flush_visitor_def same_data_def SendingWorker_Write_def Let_def)

lemma flush_visitor_out:
  assumes "flush_visitor (SendingWorker_Write conv closing w) current rto m v seg = (g, seg', v')"
  shows "fv_out v' = fv_out v \<or> (\<exists>s. fv_out v' = fv_out v @ [s] \<and> same_data seg s)"
  using assms by (auto simp: flush_visitor_def same_data_def SendingWorker_Write_def Let_def split: if_splits)

lemma Visit_flush_out:
  "s \<in> set (fv_out (snd (Visit (flush_visitor (SendingWorker_Write conv closing w) current rto m) v cache)))
    \<Longrightarrow> s \<in> set (fv_out v) \<or> (\<exists>seg \<in> set cache. same_data seg s)"
proof (induction cache arbitrary: v)
  case (Cons seg cache)
  obtain g seg' v' where e: "flush_visitor (SendingWorker_Write conv closing w) current rto m v seg = (g, seg', v')"
    by (metis prod_cases3)
  from Cons.prems e have "s \<in> set (fv_out v') \<or> (\<exists>seg \<in> set cache. same_data seg s)"
    using Cons.IH [of v'] by (auto simp: split_beta split: if_splits)
  with flush_visitor_out [OF e] show ?case by auto
qed simp

section \<open>The invariant of the sending worker\<close>

definition tx_inv :: "(nat \<Rightarrow> byte list) \<Rightarrow> nat \<Rightarrow> SendingWorker \<Rightarrow> bool" where
  "tx_inv sent n w \<longleftrightarrow> n < 4294967296 \<and> snd_nextNumber w = of_nat n \<and> cache_inv sent n (sw_cache (snd_window w))"

abbreviation cached :: "SendingWorker \<Rightarrow> nat set" where
  "cached w \<equiv> held (sw_cache (snd_window w))"

lemma FindFirst_sel [simp]:
  "snd_window (FindFirstUnacknowledged w) = snd_window w" "snd_nextNumber (FindFirstUnacknowledged w) = snd_nextNumber w"
  "snd_windowSize (FindFirstUnacknowledged w) = snd_windowSize w" "snd_closed (FindFirstUnacknowledged w) = snd_closed w"
  by (simp_all add: FindFirstUnacknowledged_def Let_def)

lemma ProcessReceivingNext_law:
  assumes "tx_inv sent n w"
  shows "tx_inv sent n (ProcessReceivingNext w nxt)" "cached (ProcessReceivingNext w nxt) = {i \<in> cached w. unat nxt \<le> i}"
  using assms Clear_cache_filter [of sent n "sw_cache (snd_window w)" nxt]
  by (auto simp: tx_inv_def ProcessReceivingNext_def SendingWindow_Clear_def cache_inv_filter held_filter_ge)

lemma processAck_law:
  assumes "tx_inv sent n w" "processAck w number = (r, w')"
  shows "tx_inv sent n w'" "cached w - {unat number} \<subseteq> cached w'" "cached w' \<subseteq> cached w"
  using assms Remove_cache_filter [of sent n "sw_cache (snd_window w)" number]
  by (auto simp: tx_inv_def processAck_def SendingWindow_Remove_def Let_def cache_inv_filter held_filter_ne
      split: if_splits)

lemma processAcks_law:
  "tx_inv sent n w \<Longrightarrow> processAcks w m b ns = (w', m', b')
    \<Longrightarrow> tx_inv sent n w' \<and> cached w - unat ` set ns \<subseteq> cached w' \<and> cached w' \<subseteq> cached w"
proof (induction w m b ns rule: processAcks.induct)
  case (2 w m b number ns)
  obtain r v where v: "processAck w number = (r, v)" by (cases "processAck w number")
  note law = processAck_law [OF "2.prems"(1) v]
  have "tx_inv sent n w' \<and> cached v - unat ` set ns \<subseteq> cached w' \<and> cached w' \<subseteq> cached v"
    using "2.IH" [OF v [symmetric]] "2.prems"(2) v law(1) by (auto split: if_splits)
  with law show ?case by auto
qed simp

lemma SendingWorker_ProcessSegment_law:
  assumes "tx_inv sent n w" "SendingWorker_ProcessSegment w rt current seg rto = (w', rt')"
  shows "tx_inv sent n w'"
    and "{i \<in> cached w. unat (as_ReceivingNext seg) \<le> i} - unat ` set (as_NumberList seg) \<subseteq> cached w'"
    and "cached w' \<subseteq> cached w"
proof (atomize (full), cases "snd_closed w")
  case True
  with assms show "tx_inv sent n w'
      \<and> {i \<in> cached w. unat (as_ReceivingNext seg) \<le> i} - unat ` set (as_NumberList seg) \<subseteq> cached w'
      \<and> cached w' \<subseteq> cached w"
    by (auto simp: SendingWorker_ProcessSegment_def)
next
  case False
  define w1 where "w1 = (if snd_remoteNextNumber w < as_ReceivingWindow seg
                 then w\<lparr>snd_remoteNextNumber := as_ReceivingWindow seg\<rparr> else w)"
  define w2 where "w2 = ProcessReceivingNext w1 (as_ReceivingNext seg)"
  obtain w3 mx b where acks: "processAcks w2 0 False (as_NumberList seg) = (w3, mx, b)" by (metis prod_cases3)
  have "tx_inv sent n w1" "cached w1 = cached w" using assms(1) by (auto simp: w1_def tx_inv_def)
  then have w2: "tx_inv sent n w2" "cached w2 = {i \<in> cached w. unat (as_ReceivingNext seg) \<le> i}"
    using ProcessReceivingNext_law w2_def by metis+
  note w3 = processAcks_law [OF w2(1) acks]
  have "w' = w2 \<and> as_NumberList seg = [] \<or> w' = w3 \<or> w' = w3\<lparr>snd_window := HandleFastAck (snd_window w3) mx rto\<rparr>"
    using assms(2) False acks
    by (auto simp: SendingWorker_ProcessSegment_def Let_def AckSegment_IsEmpty_def w2_def w1_def split: if_splits)
  moreover have "tx_inv sent n (w3\<lparr>snd_window := HandleFastAck (snd_window w3) mx rto\<rparr>)
      \<and> cached (w3\<lparr>snd_window := HandleFastAck (snd_window w3) mx rto\<rparr>) = cached w3"
    using w3 same_data_cache [OF HandleFastAck_same_data [of "snd_window w3" mx rto]] by (auto simp: tx_inv_def)
  ultimately show "tx_inv sent n w'
      \<and> {i \<in> cached w. unat (as_ReceivingNext seg) \<le> i} - unat ` set (as_NumberList seg) \<subseteq> cached w'
      \<and> cached w' \<subseteq> cached w"
    using w2 w3 by auto
qed

lemma SendingWorker_Push_law:
  assumes "tx_inv sent n w" "SendingWorker_Push w b = (True, w')" "buffer_ok b" "content b = sent n" "Suc n < 4294967296"
  shows "tx_inv sent (Suc n) w'" "cached w' = insert n (cached w)"
proof -
  let ?seg = "NewDataSegment\<lparr>ds_Number := of_nat n, ds_payload := Some b\<rparr>"
  have w': "sw_cache (snd_window w') = sw_cache (snd_window w) @ [?seg]" "snd_nextNumber w' = of_nat (Suc n)"
    using assms(1,2) by (auto simp: SendingWorker_Push_def SendingWindow_Push_def tx_inv_def add.commute split: if_splits)
  have n: "number_of ?seg = n" "carries sent n ?seg"
    using assms(3-5) by (simp_all add: number_of_def unat_of_nat carries_def)
  with w' assms(1,5) show "tx_inv sent (Suc n) w'" "cached w' = insert n (cached w)"
    by (auto simp: tx_inv_def cache_inv_def sorted_wrt_append less_SucI)
qed

lemma OnPacketLoss_sel:
  "OnPacketLoss config timeout w rate = Inr w' \<Longrightarrow> snd_window w' = snd_window w \<and> snd_nextNumber w' = snd_nextNumber w
     \<and> snd_windowSize w' = snd_windowSize w \<and> snd_closed w' = snd_closed w"
  by (auto simp: OnPacketLoss_def bind_res_Inr_iff Let_def split: if_splits)

lemma SendingWorker_Flush_law:
  assumes "tx_inv sent n w" "SendingWorker_Flush conv closing config timeout w current = Inr (w', out, ping)"
  shows "tx_inv sent n w'" "cached w' = cached w"
    and "\<forall>s \<in> set out. \<exists>d. s = DataSeg d \<and> number_of d < n \<and> carries sent (number_of d) d"
proof -
  have *: "snd_nextNumber w' = snd_nextNumber w \<and> list_all2 same_data (sw_cache (snd_window w)) (sw_cache (snd_window w'))
    \<and> (\<forall>s \<in> set out. \<exists>d. s = DataSeg d \<and> (\<exists>seg \<in> set (sw_cache (snd_window w)). same_data seg d))"
  proof (cases "snd_closed w \<or> SendingWindow_IsEmpty (snd_window w)")
    case True
    with assms(2) show ?thesis
      by (auto simp: SendingWorker_Flush_def bind_res_Inr_iff Let_def same_data_def intro!: list.rel_refl_strong split: if_splits)
  next
    case False
    then obtain cwnd cong where c: "GetSendingInFlightSize config = Inr cwnd" "congestion config = Inr cong"
      using assms(2) by (auto simp: SendingWorker_Flush_def bind_res_Inr_iff)
    obtain win ds loss where f: "SendingWindow_Flush (SendingWorker_Write conv closing w) (snd_window w) current timeout
        (send_cwnd cong w cwnd) = (win, ds, loss)" by (metis prod_cases3)
    with False c assms(2) obtain w1 where w1: "(case loss of None \<Rightarrow> Inr (w\<lparr>snd_window := win\<rparr>)
            | Some rate \<Rightarrow> OnPacketLoss config timeout (w\<lparr>snd_window := win\<rparr>) rate) = Inr w1"
        and w': "w' = w1\<lparr>snd_firstUnacknowledgedUpdated := False\<rparr>" "out = map DataSeg ds"
      by (auto simp: SendingWorker_Flush_def bind_res_Inr_iff Let_def)
    have "snd_window w1 = win" "snd_nextNumber w1 = snd_nextNumber w"
      using w1 by (auto dest!: OnPacketLoss_sel split: option.splits)
    with w' have "sw_cache (snd_window w') = sw_cache win" "snd_nextNumber w' = snd_nextNumber w" by auto
    moreover have "list_all2 same_data (sw_cache (snd_window w)) (sw_cache win)"
      using f False Visit_same_data [OF flush_visitor_same_data]
      by (auto simp: SendingWindow_Flush_def split_beta)
    moreover have "\<exists>seg \<in> set (sw_cache (snd_window w)). same_data seg d" if "d \<in> set ds" for d
      using f False that by (auto simp: SendingWindow_Flush_def split_beta dest!: Visit_flush_out)
    ultimately show ?thesis using w'(2) by auto
  qed
  then have "list_all2 same_data (sw_cache (snd_window w)) (sw_cache (snd_window w'))" by blast
  note same = same_data_cache [OF this]
  show "tx_inv sent n w'" using assms(1) * same(1) by (simp add: tx_inv_def)
  show "cached w' = cached w" by (rule same(2))
  have "number_of d < n \<and> carries sent (number_of d) d" if "seg \<in> set (sw_cache (snd_window w))" "same_data seg d" for seg d
    using assms(1) that by (auto simp: tx_inv_def cache_inv_def same_data_def number_of_def carries_def)
  with * show "\<forall>s \<in> set out. \<exists>d. s = DataSeg d \<and> number_of d < n \<and> carries sent (number_of d) d" by blast
qed

section \<open>Acknowledgements remove exactly what they acknowledge\<close>

definition una_inv :: "nat \<Rightarrow> SendingWorker \<Rightarrow> bool" where
  "una_inv n w \<longleftrightarrow> snd_firstUnacknowledged w =
     (case sw_cache (snd_window w) of [] \<Rightarrow> of_nat n | seg # _ \<Rightarrow> ds_Number seg)"

lemma una_inv_FindFirst: "snd_nextNumber w = of_nat n \<Longrightarrow> una_inv n (FindFirstUnacknowledged w)"
  by (auto simp: una_inv_def FindFirstUnacknowledged_def Let_def split: list.splits)

lemma processAck_guard:
  assumes "tx_inv sent n w" "una_inv n w" "n < 2147483648" "unat number \<in> cached w"
  shows "\<not> number - snd_firstUnacknowledged w > 0x7FFFFFFF" "\<not> number - snd_nextNumber w < 0x7FFFFFFF"
proof -
  from assms(4) obtain seg segs where c: "sw_cache (snd_window w) = seg # segs"
    by (cases "sw_cache (snd_window w)") auto
  then have u: "snd_firstUnacknowledged w = ds_Number seg" using assms(2) by (simp add: una_inv_def)
  have le: "unat (ds_Number seg) \<le> unat number" "unat number < n"
    using assms(1,4) c by (auto simp: tx_inv_def cache_inv_def held_def number_of_def)
  then have "unat (number - ds_Number seg) = unat number - unat (ds_Number seg)"
    by (simp add: unat_u32_diff word_le_nat_alt)
  with u le assms(3) show "\<not> number - snd_firstUnacknowledged w > 0x7FFFFFFF"
    by (simp add: word_less_nat_alt)
  have "(of_nat 4294967296 :: u32) = 0" by simp
  then have eq: "of_nat (unat number + 4294967296) = number" by (simp only: of_nat_add) simp
  have "n \<le> unat number + 4294967296" "unat number + 4294967296 < n + 4294967296" using le assms(3) by auto
  from unat_diff_of_nat [OF this] have "unat (number - of_nat n) = unat number + 4294967296 - n" unfolding eq .
  with assms(1,3) show "\<not> number - snd_nextNumber w < 0x7FFFFFFF"
    by (simp add: word_less_nat_alt tx_inv_def)
qed

lemma processAck_exact:
  assumes "tx_inv sent n w" "una_inv n w" "n < 2147483648" "processAck w number = (r, w')"
  shows "cached w' = cached w - {unat number}" "una_inv n w'" "r \<longleftrightarrow> unat number \<in> cached w"
proof (atomize (full), cases "unat number \<in> cached w")
  case True
  note g = processAck_guard [OF assms(1-3) True]
  let ?win = "(snd_window w)\<lparr>sw_cache := filter (\<lambda>seg. ds_Number seg \<noteq> number) (sw_cache (snd_window w)),
      sw_totalInFlightSize := if sw_totalInFlightSize (snd_window w) > 0 then sw_totalInFlightSize (snd_window w) - 1
                              else sw_totalInFlightSize (snd_window w)\<rparr>"
  have "SendingWindow_Remove (snd_window w) number = (True, ?win)"
    using True assms(1) Remove_cache_filter [of sent n "sw_cache (snd_window w)" number]
    by (simp add: SendingWindow_Remove_def tx_inv_def)
  then have "r" "w' = FindFirstUnacknowledged (w\<lparr>snd_window := ?win\<rparr>)"
    using assms(4) g by (auto simp: processAck_def)
  with True assms(1) show "cached w' = cached w - {unat number} \<and> una_inv n w' \<and> (r \<longleftrightarrow> unat number \<in> cached w)"
    by (auto simp: held_filter_ne tx_inv_def intro!: una_inv_FindFirst)
next
  case False
  then have "SendingWindow_Remove (snd_window w) number = (False, snd_window w)"
    using assms(1) Remove_cache_filter [of sent n "sw_cache (snd_window w)" number]
    by (simp add: SendingWindow_Remove_def tx_inv_def)
  then have "\<not> r" "w' = w" using assms(4) by (auto simp: processAck_def split: if_splits)
  with False assms(2) show "cached w' = cached w - {unat number} \<and> una_inv n w' \<and> (r \<longleftrightarrow> unat number \<in> cached w)" by auto
qed

lemma processAcks_exact:
  "tx_inv sent n w \<Longrightarrow> una_inv n w \<Longrightarrow> n < 2147483648 \<Longrightarrow> processAcks w m b ns = (w', m', b')
    \<Longrightarrow> cached w' = cached w - unat ` set ns \<and> una_inv n w'"
proof (induction w m b ns rule: processAcks.induct)
  case (2 w m b number ns)
  obtain r v where v: "processAck w number = (r, v)" by (cases "processAck w number")
  note ex = processAck_exact [OF "2.prems"(1-3) v] and inv = processAck_law(1) [OF "2.prems"(1) v]
  have "cached w' = cached v - unat ` set ns \<and> una_inv n w'"
    using "2.IH" [OF v [symmetric]] "2.prems"(3,4) v inv ex(2) by (auto split: if_splits)
  with ex(1) show ?case by auto
qed simp

lemma HandleFastAck_una: "una_inv n w \<Longrightarrow> una_inv n (w\<lparr>snd_window := HandleFastAck (snd_window w) mx rto\<rparr>)"
  using HandleFastAck_same_data [of "snd_window w" mx rto]
  by (cases "sw_cache (snd_window w)"; cases "sw_cache (HandleFastAck (snd_window w) mx rto)")
    (auto simp: una_inv_def same_data_def)

section \<open>Bounds on what one flush sends\<close>

lemma flush_visitor_count:
  assumes "flush_visitor wr current rto m v seg = (g, seg', v')" "fv_inFlightSize v = of_nat (length (fv_out v))"
    and "g \<longrightarrow> length (fv_out v) < unat m \<or> fv_out v = []" "Suc (length (fv_out v)) < 4294967296"
  shows "fv_inFlightSize v' = of_nat (length (fv_out v'))" "length (fv_out v') \<le> Suc (length (fv_out v))"
    and "g \<Longrightarrow> length (fv_out v') < unat m \<or> fv_out v' = fv_out v"
proof -
  note unat_u32_of_nat [OF assms(4)]
  with assms show "fv_inFlightSize v' = of_nat (length (fv_out v'))" "length (fv_out v') \<le> Suc (length (fv_out v))"
    "g \<Longrightarrow> length (fv_out v') < unat m \<or> fv_out v' = fv_out v"
    by (auto simp: flush_visitor_def Let_def word_less_nat_alt add.commute split: if_splits)
qed

lemma Visit_flush_count:
  assumes "fv_inFlightSize v = of_nat (length (fv_out v))" "length (fv_out v) + length cache < 4294967296"
    and "length (fv_out v) < unat m \<or> fv_out v = []"
  shows "length (fv_out (snd (Visit (flush_visitor wr current rto m) v cache))) \<le> max 1 (unat m)"
  using assms
proof (induction cache arbitrary: v)
  case (Cons seg cache)
  obtain g seg' v' where e: "flush_visitor wr current rto m v seg = (g, seg', v')" by (metis prod_cases3)
  note c = flush_visitor_count [OF e Cons.prems(1)]
  show ?case
  proof (cases g)
    case True
    with c Cons.prems have v': "fv_inFlightSize v' = of_nat (length (fv_out v'))"
      "length (fv_out v') + length cache < 4294967296" "length (fv_out v') < unat m \<or> fv_out v' = []"
      by (auto simp: e)
    from Cons.IH [OF this] True e show ?thesis by (simp add: split_beta)
  next
    case False
    with c Cons.prems e show ?thesis by auto
  qed
qed auto

section \<open>Properties\<close>

text \<open>
  C31: an acknowledgement removes exactly what it acknowledges. Below \<open>2 ^ 31\<close> segments, after
  \<^verbatim>\<open>ProcessSegment\<close> the sending window holds the segments it held before, without those below
  \<^verbatim>\<open>ReceivingNext\<close> and without those in \<^verbatim>\<open>NumberList\<close>; the worker's invariant is kept, and
  \<^verbatim>\<open>firstUnacknowledged\<close> is the number of the first segment left, or of the next one to send.
\<close>

theorem ProcessSegment_removes_acknowledged:
  assumes "tx_inv sent n w" "una_inv n w" "n < 2147483648" "\<not> snd_closed w"
    and "SendingWorker_ProcessSegment w rt current seg rto = (w', rt')"
  shows "cached w' = {i \<in> cached w. unat (as_ReceivingNext seg) \<le> i} - unat ` set (as_NumberList seg)
    \<and> tx_inv sent n w' \<and> una_inv n w'"
proof -
  define w1 where "w1 = (if snd_remoteNextNumber w < as_ReceivingWindow seg
                 then w\<lparr>snd_remoteNextNumber := as_ReceivingWindow seg\<rparr> else w)"
  define w2 where "w2 = ProcessReceivingNext w1 (as_ReceivingNext seg)"
  obtain w3 mx b where acks: "processAcks w2 0 False (as_NumberList seg) = (w3, mx, b)" by (metis prod_cases3)
  have "tx_inv sent n w1" "cached w1 = cached w" using assms(1) by (auto simp: w1_def tx_inv_def)
  then have w2: "tx_inv sent n w2" "cached w2 = {i \<in> cached w. unat (as_ReceivingNext seg) \<le> i}"
    using ProcessReceivingNext_law w2_def by metis+
  have "una_inv n w2" using \<open>tx_inv sent n w1\<close> unfolding w2_def ProcessReceivingNext_def
    by (intro una_inv_FindFirst) (simp add: tx_inv_def)
  from processAcks_exact [OF w2(1) this assms(3) acks]
  have w3: "cached w3 = cached w2 - unat ` set (as_NumberList seg)" "una_inv n w3" by auto
  have "w' = w2 \<and> as_NumberList seg = [] \<or> w' = w3 \<or> w' = w3\<lparr>snd_window := HandleFastAck (snd_window w3) mx rto\<rparr>"
    using assms(4,5) acks
    by (auto simp: SendingWorker_ProcessSegment_def Let_def AckSegment_IsEmpty_def w2_def w1_def split: if_splits)
  then show ?thesis
    using SendingWorker_ProcessSegment_law(1) [OF assms(1,5)] w2 w3 \<open>una_inv n w2\<close> HandleFastAck_una [OF w3(2)]
      same_data_cache(2) [OF HandleFastAck_same_data [of "snd_window w3" mx rto]]
    by auto
qed

definition demo_sender :: SendingWorker where
  "demo_sender = \<lparr>snd_window = \<lparr>sw_cache = [NewDataSegment\<lparr>ds_Number := 1, ds_payload := Some (FromBytes [7])\<rparr>,
       NewDataSegment\<lparr>ds_Number := 2, ds_payload := Some (FromBytes [7])\<rparr>], sw_totalInFlightSize = 2\<rparr>,
     snd_firstUnacknowledged = 1, snd_nextNumber = 3, snd_remoteNextNumber = 32, snd_controlWindow = 16,
     snd_fastResend = 2, snd_windowSize = 100, snd_firstUnacknowledgedUpdated = False, snd_closed = False\<rparr>"

lemma demo_sender_inv: "tx_inv (\<lambda>i. [7]) 3 demo_sender" "una_inv 3 demo_sender" "cached demo_sender = {1, 2}"
  using FromBytes_ok [of "[7]"]
  by (simp_all add: demo_sender_def tx_inv_def una_inv_def number_of_def carries_def)

theorem ProcessSegment_removes_acknowledged_witness:
  "let r = SendingWorker_ProcessSegment demo_sender \<lparr>rt_variation = 0, rt_srtt = 0, rt_rto = 100, rt_minRtt = 50,
       rt_updatedTimestamp = 0\<rparr> 10 (NewAckSegment\<lparr>as_NumberList := [2]\<rparr>) 100 in
   cached (fst r) = {i \<in> cached demo_sender. unat (as_ReceivingNext (NewAckSegment\<lparr>as_NumberList := [2]\<rparr>)) \<le> i}
       - unat ` set (as_NumberList (NewAckSegment\<lparr>as_NumberList := [2]\<rparr>))
   \<and> tx_inv (\<lambda>i. [7]) 3 (fst r) \<and> una_inv 3 (fst r)"
  unfolding Let_def
  by (rule ProcessSegment_removes_acknowledged [OF demo_sender_inv(1,2)]) (simp_all add: demo_sender_def prod_eq_iff)

text \<open>
  C40: one \<^verbatim>\<open>Flush\<close> of the sending window sends at most \<^verbatim>\<open>maxInFlightSize\<close> segments, or a single one
  when that limit is zero (the probe that keeps a connection with a closed peer window alive), and
  neither changes which segments are held nor their payloads.
\<close>

theorem SendingWindow_Flush_bounded:
  assumes "length (sw_cache sw) < 4294967296"
    and "SendingWindow_Flush (SendingWorker_Write conv closing w) sw current rto m = (sw', out, loss)"
  shows "length out \<le> max 1 (unat m) \<and> list_all2 same_data (sw_cache sw) (sw_cache sw')"
proof (cases "SendingWindow_IsEmpty sw")
  case True
  with assms(2) show ?thesis by (auto simp: SendingWindow_Flush_def same_data_def intro!: list.rel_refl_strong)
next
  case False
  let ?v = "\<lparr>fv_lost = 0, fv_inFlightSize = 0, fv_totalInFlightSize = sw_totalInFlightSize sw, fv_out = []\<rparr>"
  have "length (fv_out (snd (Visit (flush_visitor (SendingWorker_Write conv closing w) current rto m) ?v (sw_cache sw))))
      \<le> max 1 (unat m)"
    using assms(1) by (intro Visit_flush_count) auto
  with False assms(2) Visit_same_data [OF flush_visitor_same_data] show ?thesis
    by (auto simp: SendingWindow_Flush_def split_beta)
qed

theorem SendingWindow_Flush_bounded_witness:
  "let r = SendingWindow_Flush (SendingWorker_Write 1 False demo_sender) (snd_window demo_sender) 5 100 1 in
     length (fst (snd r)) \<le> max 1 (unat (1 :: u32)) \<and> list_all2 same_data (sw_cache (snd_window demo_sender)) (sw_cache (fst r))"
  unfolding Let_def
  by (rule SendingWindow_Flush_bounded [where loss = "snd (snd (SendingWindow_Flush
      (SendingWorker_Write 1 False demo_sender) (snd_window demo_sender) 5 100 1))"])
    (simp_all add: demo_sender_def)

text \<open>
  congestion control keeps the control window between 16 segments and twice the configured
  in-flight size, whatever loss rates are reported.
\<close>

theorem OnPacketLoss_bounds:
  assumes "GetSendingInFlightSize (Some cfg) = Inr inFlight" "unat inFlight < 2147483648" "cfg_Congestion cfg" "timeout \<noteq> 0"
  shows "\<exists>w'. OnPacketLoss (Some cfg) timeout w lossRate = Inr w' \<and> 16 \<le> snd_controlWindow w'
     \<and> unat (snd_controlWindow w') \<le> 2 * unat inFlight"
proof -
  have "8 \<le> unat inFlight"
    using assms(1) word_le_nat_alt [of 8 inFlight]
    by (auto simp: GetSendingInFlightSize_def in_flight_size_law split: if_splits)
  moreover have "unat (2 * inFlight) = 2 * unat inFlight" using assms(2) by (simp add: unat_word_ariths)
  ultimately show ?thesis
    using assms by (simp add: OnPacketLoss_def congestion_def Let_def word_le_nat_alt word_less_nat_alt)
qed

theorem OnPacketLoss_bounds_witness:
  "\<exists>w'. OnPacketLoss (Some \<lparr>cfg_Mtu = None, cfg_Tti = None, cfg_UplinkCapacity = Some 0, cfg_DownlinkCapacity = None,
       cfg_Congestion = True, cfg_WriteBuffer = None, cfg_ReadBuffer = None\<rparr>) 100 demo_sender 20 = Inr w'
     \<and> 16 \<le> snd_controlWindow w' \<and> unat (snd_controlWindow w') \<le> 2 * unat (8 :: u32)"
  by (rule OnPacketLoss_bounds)
    (simp_all add: GetSendingInFlightSize_def in_flight_size_def div_u32_def GetMTUValue_def GetTTIValue_def
      GetUplinkCapacityValue_def cfg_value_def)

section \<open>Divergences\<close>

text \<open>
  \<^verbatim>\<open>Clear\<close> compares numbers without wrap-around: around \<open>2 ^ 32\<close> a cumulative acknowledgement does not
  remove what it covers, while the guard of \<^verbatim>\<open>processAck\<close> is modular.
\<close>

lemma Clear_around_wrap:
  "Clear_cache 1 [NewDataSegment\<lparr>ds_Number := 0xFFFFFFFF\<rparr>, NewDataSegment\<lparr>ds_Number := 0\<rparr>]
     = [NewDataSegment\<lparr>ds_Number := 0xFFFFFFFF\<rparr>, NewDataSegment\<lparr>ds_Number := 0\<rparr>]"
  by simp

text \<open>
  \<^verbatim>\<open>Remove\<close> takes a segment out of \<^verbatim>\<open>totalInFlightSize\<close>, \<^verbatim>\<open>Clear\<close> does not: after a cumulative
  acknowledgement of everything the window is empty and the counter still counts.
\<close>

lemma Clear_keeps_in_flight:
  "SendingWindow_IsEmpty (SendingWindow_Clear (snd_window demo_sender) 3)
   \<and> sw_totalInFlightSize (SendingWindow_Clear (snd_window demo_sender) 3) = 2"
  by (simp add: demo_sender_def SendingWindow_Clear_def SendingWindow_IsEmpty_def word_le_nat_alt)

end
