(* ===== verification/KcpReceiving.thy ===== *)
theory KcpReceiving
  imports KcpSegment
begin

text \<open>
  \<^verbatim>\<open>transport/internet/kcp/receiving.go\<close>: the receiving half of a connection. The receiving
  window holds segments that arrived out of order, the acknowledgement list the numbers to
  report to the peer, and the worker delivers consecutive payloads.

  The map \<^verbatim>\<open>cache\<close> is a partial function. What the code writes through \<^verbatim>\<open>SegmentWriter\<close> is
  returned as the list of segments, in order; the connection passes them on. The
  connection's conversation number, state and timeout are arguments.
\<close>

section \<open>ReceivingWindow\<close>

type_synonym ReceivingWindow = "u32 \<Rightarrow> DataSegment option"

definition NewReceivingWindow :: ReceivingWindow where
  "NewReceivingWindow = Map.empty"

definition ReceivingWindow_Set :: "ReceivingWindow \<Rightarrow> u32 \<Rightarrow> DataSegment \<Rightarrow> bool \<times> ReceivingWindow" where
  "ReceivingWindow_Set w ident value =
     (case w ident of Some _ \<Rightarrow> (False, w) | None \<Rightarrow> (True, w(ident \<mapsto> value)))"

definition ReceivingWindow_Has :: "ReceivingWindow \<Rightarrow> u32 \<Rightarrow> bool" where
  "ReceivingWindow_Has w ident \<longleftrightarrow> w ident \<noteq> None"

definition ReceivingWindow_Remove :: "ReceivingWindow \<Rightarrow> u32 \<Rightarrow> DataSegment option \<times> ReceivingWindow" where
  "ReceivingWindow_Remove w ident =
     (case w ident of None \<Rightarrow> (None, w) | Some v \<Rightarrow> (Some v, w(ident := None)))"

section \<open>AckList\<close>

record AckList =
  al_timestamps :: "u32 list"
  al_numbers :: "u32 list"
  al_nextFlush :: "u32 list"
  al_flushCandidates :: "u32 list"
  al_dirty :: bool

definition NewAckList :: AckList where
  "NewAckList = \<lparr>al_timestamps = [], al_numbers = [], al_nextFlush = [], al_flushCandidates = [],
     al_dirty = False\<rparr>"

definition AckList_Add :: "AckList \<Rightarrow> u32 \<Rightarrow> u32 \<Rightarrow> AckList" where
  "AckList_Add l number timestamp =
     l\<lparr>al_timestamps := al_timestamps l @ [timestamp], al_numbers := al_numbers l @ [number],
       al_nextFlush := al_nextFlush l @ [0], al_dirty := True\<rparr>"

text \<open>The compaction loop of \<^verbatim>\<open>Clear\<close>: \<open>i\<close> reads, \<open>count\<close> writes; the result holds \<^verbatim>\<open>count\<close>.\<close>

function AckList_Clear_loop :: "u32 \<Rightarrow> nat \<Rightarrow> nat \<Rightarrow> AckList \<Rightarrow> nat \<times> AckList" where
  "AckList_Clear_loop una i count l =
     (if i < length (al_numbers l) then
        if al_numbers l ! i < una then AckList_Clear_loop una (Suc i) count l
        else AckList_Clear_loop una (Suc i) (Suc count)
          (if i \<noteq> count then
             l\<lparr>al_numbers := (al_numbers l)[count := al_numbers l ! i],
               al_timestamps := (al_timestamps l)[count := al_timestamps l ! i],
               al_nextFlush := (al_nextFlush l)[count := al_nextFlush l ! i]\<rparr>
           else l)
      else (count, l))"
  by pat_completeness auto
termination
  by (relation "measure (\<lambda>(una, i, count, l). length (al_numbers l) - i)") auto

declare AckList_Clear_loop.simps [simp del]

definition AckList_Clear :: "AckList \<Rightarrow> u32 \<Rightarrow> AckList" where
  "AckList_Clear l una =
     (let (count, l) = AckList_Clear_loop una 0 0 l in
      if count < length (al_numbers l) then
        l\<lparr>al_numbers := take count (al_numbers l), al_timestamps := take count (al_timestamps l),
          al_nextFlush := take count (al_nextFlush l), al_dirty := True\<rparr>
      else l)"

text \<open>
  The loop of \<^verbatim>\<open>Flush\<close> over the index \<^verbatim>\<open>i\<close>, as recursion over the three parallel lists. The
  state is the segment being filled, the candidates, the dirty flag and the segments
  written so far; \<^verbatim>\<open>cap(l.flushCandidates)\<close> is 128 from the constructor on.
\<close>

definition flush_timeout :: "u32 \<Rightarrow> u32" where
  "flush_timeout rto = (let timeout = rto div 2 in if timeout < 20 then 20 else timeout)"

fun AckList_Flush_loop :: "u32 \<Rightarrow> u32 \<Rightarrow> u32 list \<Rightarrow> u32 list \<Rightarrow> u32 list
    \<Rightarrow> AckSegment \<times> u32 list \<times> bool \<times> AckSegment list
    \<Rightarrow> u32 list \<times> AckSegment \<times> u32 list \<times> bool \<times> AckSegment list" where
  "AckList_Flush_loop current rto (n # ns) (t # ts) (f # fs) (seg, cands, dirty, out) =
     (if f > current then
        let cands' = (if length cands < 128 then cands @ [n] else cands);
            (fs', r) = AckList_Flush_loop current rto ns ts fs (seg, cands', dirty, out)
        in (f # fs', r)
      else
        let seg' = AckSegment_PutTimestamp (AckSegment_PutNumber seg n) t;
            st = (if AckSegment_IsFull seg' then (NewAckSegment, cands, False, out @ [seg'])
                  else (seg', cands, dirty, out));
            (fs', r) = AckList_Flush_loop current rto ns ts fs st
        in ((current + flush_timeout rto) # fs', r))"
| "AckList_Flush_loop current rto ns ts fs st = (fs, st)"

text \<open>The loop over the candidates, which fills up the last segment.\<close>

fun put_candidates :: "AckSegment \<Rightarrow> u32 list \<Rightarrow> AckSegment" where
  "put_candidates seg [] = seg"
| "put_candidates seg (n # ns) =
     (if AckSegment_IsFull seg then seg else put_candidates (AckSegment_PutNumber seg n) ns)"

definition AckList_Flush :: "AckList \<Rightarrow> u32 \<Rightarrow> u32 \<Rightarrow> AckList \<times> AckSegment list" where
  "AckList_Flush l current rto =
     (let (fs, seg, cands, dirty, out) =
            AckList_Flush_loop current rto (al_numbers l) (al_timestamps l) (al_nextFlush l)
              (NewAckSegment, [], al_dirty l, []);
          l = l\<lparr>al_nextFlush := fs, al_flushCandidates := cands, al_dirty := dirty\<rparr>
      in if dirty \<or> \<not> AckSegment_IsEmpty seg then
           (l\<lparr>al_dirty := False\<rparr>, out @ [put_candidates seg cands])
         else (l, out))"

section \<open>ReceivingWorker\<close>

record ReceivingWorker =
  rw_leftOver :: "MultiBuffer option"
  rw_window :: ReceivingWindow
  rw_acklist :: AckList
  rw_nextNumber :: u32
  rw_windowSize :: u32

definition NewReceivingWorker :: "u32 \<Rightarrow> ReceivingWorker" where
  "NewReceivingWorker receivingInFlightSize =
     \<lparr>rw_leftOver = None, rw_window = NewReceivingWindow, rw_acklist = NewAckList,
      rw_nextNumber = 0, rw_windowSize = receivingInFlightSize\<rparr>"

definition ReceivingWorker_Release :: "ReceivingWorker \<Rightarrow> ReceivingWorker" where
  "ReceivingWorker_Release w = w\<lparr>rw_leftOver := None\<rparr>"

definition ProcessSendingNext :: "ReceivingWorker \<Rightarrow> u32 \<Rightarrow> ReceivingWorker" where
  "ProcessSendingNext w number = w\<lparr>rw_acklist := AckList_Clear (rw_acklist w) number\<rparr>"

definition ReceivingWorker_ProcessSegment :: "ReceivingWorker \<Rightarrow> DataSegment \<Rightarrow> ReceivingWorker" where
  "ReceivingWorker_ProcessSegment w seg =
     (let number = ds_Number seg; idx = number - rw_nextNumber w in
      if idx \<ge> rw_windowSize w then w
      else let l = AckList_Add (AckList_Clear (rw_acklist w) (ds_SendingNext seg)) number (ds_Timestamp seg);
               (_, win) = ReceivingWindow_Set (rw_window w) (ds_Number seg) seg
           in w\<lparr>rw_acklist := l, rw_window := win\<rparr>)"

text \<open>
  The loop of \<^verbatim>\<open>ReadMultiBuffer\<close>; every round removes an entry of the finite map. A payload
  of a parsed segment is never nil; a nil one would be an empty entry of the result.
\<close>

function ReadMultiBuffer_loop :: "ReceivingWindow \<Rightarrow> u32 \<Rightarrow> MultiBuffer \<Rightarrow> MultiBuffer \<times> ReceivingWindow \<times> u32" where
  "ReadMultiBuffer_loop win nextNumber mb =
     (case ReceivingWindow_Remove win nextNumber of
        (None, win') \<Rightarrow> (mb, win', nextNumber)
      | (Some seg, win') \<Rightarrow>
          ReadMultiBuffer_loop win' (nextNumber + 1)
            (case fst (DataSegment_Detach seg) of None \<Rightarrow> mb | Some b \<Rightarrow> mb @ [b]))"
  by pat_completeness auto
termination
  by (relation "measure (\<lambda>(win, n, mb). card (dom win))")
    (auto simp: ReceivingWindow_Remove_def domI split: option.splits intro!: diff_less card_gt_0_iff [THEN iffD2])

declare ReadMultiBuffer_loop.simps [simp del]

definition ReceivingWorker_ReadMultiBuffer :: "ReceivingWorker \<Rightarrow> MultiBuffer \<times> ReceivingWorker" where
  "ReceivingWorker_ReadMultiBuffer w =
     (case rw_leftOver w of
        Some mb \<Rightarrow> (mb, w\<lparr>rw_leftOver := None\<rparr>)
      | None \<Rightarrow>
          let (mb, win, n) = ReadMultiBuffer_loop (rw_window w) (rw_nextNumber w) [] in
          (mb, w\<lparr>rw_window := win, rw_nextNumber := n\<rparr>))"

text \<open>\<^verbatim>\<open>Read(b)\<close>: the bytes copied into \<^verbatim>\<open>b\<close>, whose length is \<open>n\<close>.\<close>

definition ReceivingWorker_Read :: "ReceivingWorker \<Rightarrow> nat \<Rightarrow> (byte list \<times> ReceivingWorker) result" where
  "ReceivingWorker_Read w n =
     (let (mb, w) = ReceivingWorker_ReadMultiBuffer w in
      if MultiBuffer_IsEmpty mb then Inr ([], w)
      else bind_res (SplitBytes mb n) (\<lambda>(mb, xs).
             Inr (xs, if \<not> MultiBuffer_IsEmpty mb then w\<lparr>rw_leftOver := Some mb\<rparr> else w)))"

definition IsDataAvailable :: "ReceivingWorker \<Rightarrow> bool" where
  "IsDataAvailable w = ReceivingWindow_Has (rw_window w) (rw_nextNumber w)"

text \<open>\<^verbatim>\<open>Write(seg)\<close> completes an acknowledgement; \<open>closing\<close> is \<^verbatim>\<open>State() == StateReadyToClose\<close>.\<close>

definition ReceivingWorker_Write :: "u16 \<Rightarrow> bool \<Rightarrow> ReceivingWorker \<Rightarrow> AckSegment \<Rightarrow> Segment" where
  "ReceivingWorker_Write conv closing w seg =
     AckSeg (seg\<lparr>as_Conv := conv, as_ReceivingNext := rw_nextNumber w,
                 as_ReceivingWindow := rw_nextNumber w + rw_windowSize w,
                 as_Option := if closing then SegmentOptionClose else 0\<rparr>)"

definition ReceivingWorker_Flush :: "u16 \<Rightarrow> bool \<Rightarrow> u32 \<Rightarrow> ReceivingWorker \<Rightarrow> u32 \<Rightarrow> ReceivingWorker \<times> Segment list" where
  "ReceivingWorker_Flush conv closing timeout w current =
     (let (l, out) = AckList_Flush (rw_acklist w) current timeout in
      (w\<lparr>rw_acklist := l\<rparr>, map (ReceivingWorker_Write conv closing w) out))"

definition ReceivingWorker_UpdateNecessary :: "ReceivingWorker \<Rightarrow> bool" where
  "ReceivingWorker_UpdateNecessary w \<longleftrightarrow> length (al_numbers (rw_acklist w)) > 0"

section \<open>The acknowledgement list\<close>

text \<open>The three parallel lists as one list of entries; they always have the same length.\<close>

definition acklist_ok :: "AckList \<Rightarrow> bool" where
  "acklist_ok l \<longleftrightarrow> length (al_timestamps l) = length (al_numbers l)
     \<and> length (al_nextFlush l) = length (al_numbers l)"

definition entries :: "AckList \<Rightarrow> (u32 \<times> u32 \<times> u32) list" where
  "entries l = zip (al_numbers l) (zip (al_timestamps l) (al_nextFlush l))"

lemma length_entries: "acklist_ok l \<Longrightarrow> length (entries l) = length (al_numbers l)"
  by (simp add: acklist_ok_def entries_def)

lemma entries_nth:
  "acklist_ok l \<Longrightarrow> i < length (al_numbers l)
    \<Longrightarrow> entries l ! i = (al_numbers l ! i, al_timestamps l ! i, al_nextFlush l ! i)"
  by (simp add: acklist_ok_def entries_def)

lemma AckList_Clear_loop_law:
  "acklist_ok l \<Longrightarrow> count \<le> i \<Longrightarrow> i \<le> length (al_numbers l)
    \<Longrightarrow> AckList_Clear_loop una i count l = (c, l')
    \<Longrightarrow> acklist_ok l' \<and> length (al_numbers l') = length (al_numbers l) \<and> al_dirty l' = al_dirty l
      \<and> take c (entries l') = take count (entries l) @ filter (\<lambda>e. \<not> fst e < una) (drop i (entries l))
      \<and> c \<le> length (al_numbers l)"
proof (induction una i count l arbitrary: c l' rule: AckList_Clear_loop.induct)
  case (1 una i count l)
  note prems = "1.prems"
  show ?case
  proof (cases "i < length (al_numbers l)")
    case False
    with prems length_entries [of l] show ?thesis by (simp add: AckList_Clear_loop.simps)
  next
    case i: True
    then have d: "drop i (entries l) = entries l ! i # drop (Suc i) (entries l)"
      using length_entries [OF prems(1)] by (simp add: Cons_nth_drop_Suc)
    have fst: "fst (entries l ! i) = al_numbers l ! i" using entries_nth [OF prems(1) i] by simp
    show ?thesis
    proof (cases "al_numbers l ! i < una")
      case True
      then have r: "AckList_Clear_loop una (Suc i) count l = (c, l')"
        using prems(4) i by (subst (asm) AckList_Clear_loop.simps) simp
      have le: "count \<le> Suc i" "Suc i \<le> length (al_numbers l)" using prems i by auto
      from "1.IH"(1) [OF i True prems(1) le r] show ?thesis
        using True by (simp add: d fst)
    next
      case False
      let ?l = "if i \<noteq> count then
             l\<lparr>al_numbers := (al_numbers l)[count := al_numbers l ! i],
               al_timestamps := (al_timestamps l)[count := al_timestamps l ! i],
               al_nextFlush := (al_nextFlush l)[count := al_nextFlush l ! i]\<rparr>
           else l"
      have r: "AckList_Clear_loop una (Suc i) (Suc count) ?l = (c, l')"
        using prems(4) i False by (subst (asm) AckList_Clear_loop.simps) simp
      have l: "acklist_ok ?l" "length (al_numbers ?l) = length (al_numbers l)" "al_dirty ?l = al_dirty l"
        using prems(1) by (auto simp: acklist_ok_def)
      have e: "entries ?l = (entries l)[count := entries l ! i]"
        using entries_nth [OF prems(1) i] by (auto simp: entries_def zip_update [symmetric])
      have "count < length (entries l)" using prems i length_entries [OF prems(1)] by simp
      then have t: "take (Suc count) (entries ?l) = take count (entries l) @ [entries l ! i]"
        "drop (Suc i) (entries ?l) = drop (Suc i) (entries l)"
        using prems(2) by (simp_all add: e take_Suc_conv_app_nth)
      have le: "Suc count \<le> Suc i" "Suc i \<le> length (al_numbers ?l)" using prems i l by auto
      from "1.IH"(2) [OF i False l(1) le r] show ?thesis
        using False unfolding t l(2,3) by (simp add: d fst)
    qed
  qed
qed

lemma acklist_take:
  "acklist_ok l \<Longrightarrow> entries (l\<lparr>al_numbers := take c (al_numbers l), al_timestamps := take c (al_timestamps l),
     al_nextFlush := take c (al_nextFlush l), al_dirty := d\<rparr>) = take c (entries l)"
  by (simp add: entries_def take_zip)

lemma AckList_Clear_law:
  assumes "acklist_ok l"
  shows "acklist_ok (AckList_Clear l una)"
    and "entries (AckList_Clear l una) = filter (\<lambda>e. una \<le> fst e) (entries l)"
proof -
  obtain c l' where r: "AckList_Clear_loop una 0 0 l = (c, l')" by (cases "AckList_Clear_loop una 0 0 l")
  from AckList_Clear_loop_law [OF assms _ _ r] have l': "acklist_ok l'" "length (al_numbers l') = length (al_numbers l)"
    "take c (entries l') = filter (\<lambda>e. una \<le> fst e) (entries l)" "c \<le> length (al_numbers l)"
    by (simp_all add: not_less)
  show "acklist_ok (AckList_Clear l una)"
    using l'(1) r by (simp add: AckList_Clear_def acklist_ok_def)
  show "entries (AckList_Clear l una) = filter (\<lambda>e. una \<le> fst e) (entries l)"
  proof (cases "c < length (al_numbers l')")
    case True
    then have "AckList_Clear l una = l'\<lparr>al_numbers := take c (al_numbers l'), al_timestamps := take c (al_timestamps l'),
       al_nextFlush := take c (al_nextFlush l'), al_dirty := True\<rparr>"
      using r by (simp add: AckList_Clear_def)
    then show ?thesis using acklist_take [OF l'(1)] l'(3) by simp
  next
    case False
    then have "c = length (entries l')" using l'(2,4) length_entries [OF l'(1)] by simp
    with l'(3) r False show ?thesis by (simp add: AckList_Clear_def)
  qed
qed

text \<open>The numbers that are due at \<open>current\<close>, and those that wait.\<close>

definition due :: "u32 \<Rightarrow> u32 list \<Rightarrow> u32 list \<Rightarrow> u32 list" where
  "due current ns fs = map fst (filter (\<lambda>e. snd e \<le> current) (zip ns fs))"

definition waiting :: "u32 \<Rightarrow> u32 list \<Rightarrow> u32 list \<Rightarrow> u32 list" where
  "waiting current ns fs = map fst (filter (\<lambda>e. \<not> snd e \<le> current) (zip ns fs))"

definition reported :: "AckSegment list \<Rightarrow> u32 list" where
  "reported segs = concat (map as_NumberList segs)"

lemma reported_simps [simp]: "reported [] = []" "reported (xs @ [s]) = reported xs @ as_NumberList s"
  by (simp_all add: reported_def)

lemma as_NumberList_Put [simp]:
  "as_NumberList (AckSegment_PutTimestamp s t) = as_NumberList s"
  "as_NumberList (AckSegment_PutNumber s n) = as_NumberList s @ [n]"
  "as_NumberList NewAckSegment = []"
  by (simp_all add: AckSegment_PutTimestamp_def AckSegment_PutNumber_def NewAckSegment_def)

lemma take_128_Cons: "m < 128 \<Longrightarrow> take (128 - m) (x # xs) = x # take (127 - m) xs"
proof -
  assume "m < 128"
  then have "128 - m = Suc (127 - m)" by simp
  then show ?thesis by simp
qed

lemma AckList_Flush_loop_law:
  assumes "length ts = length ns" "length fs = length ns" "length (as_NumberList seg) < 128" "length cands \<le> 128"
    and "\<forall>s \<in> set out. length (as_NumberList s) \<le> 128"
    and "AckList_Flush_loop current rto ns ts fs (seg, cands, dirty, out) = (fs', seg', cands', dirty', out')"
  shows "length fs' = length ns \<and> length (as_NumberList seg') < 128
    \<and> (\<forall>s \<in> set out'. length (as_NumberList s) \<le> 128)
    \<and> reported out' @ as_NumberList seg' = reported out @ as_NumberList seg @ due current ns fs
    \<and> cands' = take 128 (cands @ waiting current ns fs)"
  using assms
proof (induction current rto ns ts fs "(seg, cands, dirty, out)" arbitrary: seg cands dirty out fs' seg' cands' dirty' out'
    rule: AckList_Flush_loop.induct)
  case (1 current rto n ns t ts f fs seg cands dirty out)
  show ?case
  proof (cases "f > current")
    case True
    let ?c = "if length cands < 128 then cands @ [n] else cands"
    from "1.prems"(6) True obtain gs where gs: "fs' = f # gs"
      "AckList_Flush_loop current rto ns ts fs (seg, ?c, dirty, out) = (gs, seg', cands', dirty', out')"
      by (auto simp: Let_def split: prod.splits)
    have "length ?c \<le> 128" using "1.prems"(4) by simp
    from "1.hyps"(1) [OF True refl _ _ "1.prems"(3) this "1.prems"(5) gs(2)] "1.prems"(1,2)
    show ?thesis using True gs(1) by (auto simp: due_def waiting_def take_128_Cons)
  next
    case False
    let ?s = "AckSegment_PutTimestamp (AckSegment_PutNumber seg n) t"
    let ?st = "if AckSegment_IsFull ?s then (NewAckSegment, cands, False, out @ [?s]) else (?s, cands, dirty, out)"
    from "1.prems"(6) False obtain gs where gs: "fs' = (current + flush_timeout rto) # gs"
      "AckList_Flush_loop current rto ns ts fs ?st = (gs, seg', cands', dirty', out')"
      by (auto simp: Let_def split: prod.splits if_splits)
    show ?thesis
    proof (cases "AckSegment_IsFull ?s")
      case full: True
      then have "\<forall>s \<in> set (out @ [?s]). length (as_NumberList s) \<le> 128" using "1.prems"(5)
        by (auto simp: AckSegment_IsFull_def ackNumberLimit_def)
      with "1.hyps"(2) [OF False refl, of NewAckSegment cands False "out @ [?s]" gs seg' cands' dirty' out'] "1.prems" gs full
      show ?thesis using False by (auto simp: due_def waiting_def)
    next
      case nf: False
      then have "length (as_NumberList ?s) < 128" using "1.prems"(3)
        by (simp add: AckSegment_IsFull_def ackNumberLimit_def)
      with "1.hyps"(2) [OF False refl, of ?s cands dirty out gs seg' cands' dirty' out'] "1.prems" gs nf
      show ?thesis using False by (auto simp: due_def waiting_def)
    qed
  qed
qed (auto simp: due_def waiting_def)

lemma put_candidates_law:
  "length (as_NumberList seg) \<le> 128 \<Longrightarrow>
     as_NumberList (put_candidates seg cs) = as_NumberList seg @ take (128 - length (as_NumberList seg)) cs"
proof (induction seg cs rule: put_candidates.induct)
  case (2 seg n ns)
  show ?case
  proof (cases "AckSegment_IsFull seg")
    case True
    then show ?thesis by (simp add: AckSegment_IsFull_def ackNumberLimit_def)
  next
    case False
    then have "length (as_NumberList seg) < 128" using 2 by (simp add: AckSegment_IsFull_def ackNumberLimit_def)
    with 2 False show ?thesis by (simp add: take_128_Cons)
  qed
qed simp

lemma AckList_Flush_law:
  assumes "acklist_ok l" "AckList_Flush l current rto = (l', out)"
  shows "\<forall>s \<in> set out. length (as_NumberList s) \<le> 128"
    and "set (due current (al_numbers l) (al_nextFlush l)) \<subseteq> set (reported out)"
    and "set (reported out) \<subseteq> set (al_numbers l)" "acklist_ok l'" "al_numbers l' = al_numbers l"
proof -
  obtain fs seg cands dirty out0 where r: "AckList_Flush_loop current rto (al_numbers l) (al_timestamps l) (al_nextFlush l)
      (NewAckSegment, [], al_dirty l, []) = (fs, seg, cands, dirty, out0)" by (metis prod_cases5)
  from AckList_Flush_loop_law [OF _ _ _ _ _ r] assms(1)
  have f: "length fs = length (al_numbers l)" "length (as_NumberList seg) < 128"
    "\<forall>s \<in> set out0. length (as_NumberList s) \<le> 128"
    "reported out0 @ as_NumberList seg = due current (al_numbers l) (al_nextFlush l)"
    "cands = take 128 (waiting current (al_numbers l) (al_nextFlush l))"
    by (simp_all add: acklist_ok_def)
  note p = put_candidates_law [of seg cands]
  have sub: "set (due current (al_numbers l) (al_nextFlush l)) \<subseteq> set (al_numbers l)"
    "set cands \<subseteq> set (al_numbers l)"
    unfolding f(5) by (auto simp: due_def waiting_def dest!: in_set_takeD set_zip_leftD)
  show "\<forall>s \<in> set out. length (as_NumberList s) \<le> 128"
    using assms(2) r f(2,3) p by (auto simp: AckList_Flush_def Let_def split: if_splits)
  show "set (due current (al_numbers l) (al_nextFlush l)) \<subseteq> set (reported out)"
    using assms(2) r f(2) p by (auto simp: AckList_Flush_def Let_def AckSegment_IsEmpty_def simp flip: f(4) split: if_splits)
  have "out = out0 \<or> out = out0 @ [put_candidates seg cands]"
    using assms(2) r by (auto simp: AckList_Flush_def Let_def split: if_splits)
  moreover have "set (reported out0 @ as_NumberList seg @ take (128 - length (as_NumberList seg)) cands) \<subseteq> set (al_numbers l)"
    using sub set_take_subset [of _ cands] unfolding append_assoc [symmetric] f(4) by fastforce
  ultimately show "set (reported out) \<subseteq> set (al_numbers l)"
    using p f(2) by auto
  show "acklist_ok l'" "al_numbers l' = al_numbers l"
    using assms r f(1) by (auto simp: AckList_Flush_def Let_def acklist_ok_def split: if_splits)
qed

section \<open>Delivery in order\<close>

text \<open>
  The sender's stream is a function \<open>sent\<close> from segment indices (unbounded, unlike the 32-bit
  numbers on the wire) to payloads. A data segment is \<open>genuine\<close> when it carries the payload of
  its index \<open>i\<close> under the number \<open>i mod 2 ^ 32\<close>, and when it is not so old or so new, against the
  \<open>k\<close> segments delivered so far, that its number comes round again into the window.
\<close>

definition genuine :: "(nat \<Rightarrow> byte list) \<Rightarrow> nat \<Rightarrow> u32 \<Rightarrow> nat \<Rightarrow> DataSegment \<Rightarrow> bool" where
  "genuine sent k ws i seg \<longleftrightarrow> ds_Number seg = of_nat i \<and> carries sent i seg
     \<and> i < k + 4294967296 \<and> k + unat ws \<le> i + 4294967296"

text \<open>Every entry of the window belongs to an index between \<open>k\<close> and \<open>hi\<close>.\<close>

definition window_inv :: "(nat \<Rightarrow> byte list) \<Rightarrow> nat \<Rightarrow> nat \<Rightarrow> ReceivingWindow \<Rightarrow> bool" where
  "window_inv sent k hi win \<longleftrightarrow>
     (\<forall>ident seg. win ident = Some seg \<longrightarrow> (\<exists>i. k \<le> i \<and> i < hi \<and> ident = of_nat i \<and> carries sent i seg))"

lemma window_invD:
  assumes "window_inv sent k hi win" "win (of_nat k) = Some seg" "hi \<le> k + 4294967296"
  shows "k < hi" "carries sent k seg"
proof -
  from assms(1,2) obtain i where i: "k \<le> i" "i < hi" "(of_nat k :: u32) = of_nat i" "carries sent i seg"
    unfolding window_inv_def by blast
  then have "i = k" using of_nat_u32_eq [of i k] assms(3) by simp
  with i show "k < hi" "carries sent k seg" by auto
qed

lemma window_inv_remove:
  assumes "window_inv sent k hi win"
  shows "window_inv sent (Suc k) hi (win(of_nat k := None))"
  unfolding window_inv_def
proof (intro allI impI)
  fix ident seg assume a: "(win(of_nat k := None)) ident = Some seg"
  then have "win ident = Some seg" "ident \<noteq> of_nat k" by (auto split: if_splits)
  with assms obtain i where "k \<le> i" "i < hi" "ident = of_nat i" "carries sent i seg"
    unfolding window_inv_def by blast
  with \<open>ident \<noteq> of_nat k\<close> show "\<exists>i. Suc k \<le> i \<and> i < hi \<and> ident = of_nat i \<and> carries sent i seg"
    by (metis Suc_leI le_neq_implies_less)
qed

lemma ReadMultiBuffer_loop_law:
  assumes "window_inv sent k hi win" "hi \<le> k + 4294967296" "mb_ok mb"
    and "ReadMultiBuffer_loop win (of_nat k) mb = (mb', win', n')"
  shows "\<exists>k'. k \<le> k' \<and> k' \<le> max k hi \<and> n' = of_nat k' \<and> mb_ok mb'
    \<and> mcontent mb' = mcontent mb @ concat (map sent [k..<k']) \<and> window_inv sent k' hi win' \<and> win' (of_nat k') = None
    \<and> (\<forall>i. k' \<le> i \<longrightarrow> i < k + 4294967296 \<longrightarrow> win' (of_nat i) = win (of_nat i))"
  using assms
proof (induction win "of_nat k :: u32" mb arbitrary: k rule: ReadMultiBuffer_loop.induct)
  case (1 win mb)
  show ?case
  proof (cases "win (of_nat k)")
    case None
    then have "mb' = mb" "win' = win" "n' = of_nat k"
      using "1.prems"(4) by (auto simp: ReadMultiBuffer_loop.simps [of win] ReceivingWindow_Remove_def)
    with None "1.prems" show ?thesis by (intro exI [of _ k]) simp
  next
    case (Some seg)
    note hd = window_invD [OF "1.prems"(1) Some "1.prems"(2)]
    from hd(2) obtain b where b: "ds_payload seg = Some b" "buffer_ok b" "content b = sent k"
      by (auto simp: carries_def)
    have rm: "ReceivingWindow_Remove win (of_nat k) = (Some seg, win(of_nat k := None))"
      using Some by (simp add: ReceivingWindow_Remove_def)
    have "ReadMultiBuffer_loop win (of_nat k) mb
        = ReadMultiBuffer_loop (win(of_nat k := None)) (of_nat (Suc k)) (mb @ [b])"
      using b by (subst ReadMultiBuffer_loop.simps) (simp add: rm DataSegment_Detach_def add.commute)
    with "1.prems"(4) have loop: "ReadMultiBuffer_loop (win(of_nat k := None)) (of_nat (Suc k)) (mb @ [b]) = (mb', win', n')"
      by simp
    have "(case fst (DataSegment_Detach seg) of None \<Rightarrow> mb | Some b \<Rightarrow> mb @ [b]) = mb @ [b]"
      using b by (simp add: DataSegment_Detach_def)
    then have IH: "\<exists>k'. Suc k \<le> k' \<and> k' \<le> max (Suc k) hi \<and> n' = of_nat k' \<and> mb_ok mb'
      \<and> mcontent mb' = mcontent (mb @ [b]) @ concat (map sent [Suc k..<k']) \<and> window_inv sent k' hi win'
      \<and> win' (of_nat k') = None
      \<and> (\<forall>i. k' \<le> i \<longrightarrow> i < Suc k + 4294967296 \<longrightarrow> win' (of_nat i) = (win(of_nat k := None)) (of_nat i))"
      using "1.hyps" [OF rm [symmetric] refl, of "Suc k"] window_inv_remove [OF "1.prems"(1)] "1.prems"(2,3) b(2) loop
      by (simp add: add.commute)
    then obtain k' where k': "Suc k \<le> k'" "k' \<le> max (Suc k) hi" "n' = of_nat k'" "mb_ok mb'"
      "mcontent mb' = mcontent (mb @ [b]) @ concat (map sent [Suc k..<k'])" "window_inv sent k' hi win'"
      "win' (of_nat k') = None"
      "\<And>i. k' \<le> i \<Longrightarrow> i < Suc k + 4294967296 \<Longrightarrow> win' (of_nat i) = (win(of_nat k := None)) (of_nat i)"
      by blast
    have "win' (of_nat i) = win (of_nat i)" if "k' \<le> i" "i < k + 4294967296" for i
      using k'(8) [of i] that k'(1) of_nat_u32_eq [of i k] by auto
    moreover have "[k..<k'] = k # [Suc k..<k']" using k'(1) by (simp add: upt_rec)
    ultimately show ?thesis using k' hd(1) b(3) by (intro exI [of _ k']) auto
  qed
qed

text \<open>
  The runs of a receiving worker with window \<open>ws\<close>: segments arrive in any order, repeatedly or
  not at all, between the reads of the application and the acknowledgement traffic. The
  relation keeps the number \<open>k\<close> of segments delivered and the bytes \<open>out\<close> read so far.
\<close>

inductive rx :: "(nat \<Rightarrow> byte list) \<Rightarrow> u32 \<Rightarrow> ReceivingWorker \<Rightarrow> nat \<Rightarrow> byte list \<Rightarrow> bool"
  for sent :: "nat \<Rightarrow> byte list" and ws :: u32 where
  start: "rx sent ws (NewReceivingWorker ws) 0 []"
| segment: "rx sent ws w k out \<Longrightarrow> genuine sent k ws i seg
    \<Longrightarrow> rx sent ws (ReceivingWorker_ProcessSegment w seg) k out"
| read_multi: "rx sent ws w k out \<Longrightarrow> ReceivingWorker_ReadMultiBuffer w = (mb, w')
    \<Longrightarrow> rx sent ws w' (k + unat (rw_nextNumber w' - rw_nextNumber w)) (out @ mcontent mb)"
| read_bytes: "rx sent ws w k out \<Longrightarrow> ReceivingWorker_Read w n = Inr (xs, w')
    \<Longrightarrow> rx sent ws w' (k + unat (rw_nextNumber w' - rw_nextNumber w)) (out @ xs)"
| acks: "rx sent ws w k out \<Longrightarrow> ReceivingWorker_Flush conv closing timeout w current = (w', segs)
    \<Longrightarrow> rx sent ws w' k out"
| sending_next: "rx sent ws w k out \<Longrightarrow> rx sent ws (ProcessSendingNext w number) k out"

definition leftover :: "ReceivingWorker \<Rightarrow> MultiBuffer" where
  "leftover w = (case rw_leftOver w of None \<Rightarrow> [] | Some mb \<Rightarrow> mb)"

definition rx_inv :: "(nat \<Rightarrow> byte list) \<Rightarrow> u32 \<Rightarrow> ReceivingWorker \<Rightarrow> nat \<Rightarrow> byte list \<Rightarrow> bool" where
  "rx_inv sent ws w k out \<longleftrightarrow> rw_nextNumber w = of_nat k \<and> rw_windowSize w = ws \<and> mb_ok (leftover w)
     \<and> out @ mcontent (leftover w) = concat (map sent [0..<k])
     \<and> window_inv sent k (k + unat ws) (rw_window w) \<and> acklist_ok (rw_acklist w)"

lemma acklist_ok_Add: "acklist_ok l \<Longrightarrow> acklist_ok (AckList_Add l n t)"
  by (simp add: acklist_ok_def AckList_Add_def)

lemma window_inv_mono: "window_inv sent k hi win \<Longrightarrow> hi \<le> hi' \<Longrightarrow> window_inv sent k hi' win"
  unfolding window_inv_def by (meson less_le_trans)

lemma ProcessSegment_window:
  assumes "rw_nextNumber w = of_nat k" "rw_windowSize w = ws" "window_inv sent k (k + unat ws) (rw_window w)"
    and "genuine sent k ws i seg"
  shows "window_inv sent k (k + unat ws) (rw_window (ReceivingWorker_ProcessSegment w seg))"
proof (cases "ds_Number seg - rw_nextNumber w \<ge> rw_windowSize w")
  case True
  with assms show ?thesis by (simp add: ReceivingWorker_ProcessSegment_def Let_def)
next
  case False
  with assms have "k \<le> i" "i < k + unat ws" "carries sent i seg" "ds_Number seg = of_nat i"
    using u32_window [of i k ws] by (auto simp: genuine_def not_le)
  with assms(3) show ?thesis
    using False by (auto simp: ReceivingWorker_ProcessSegment_def ReceivingWindow_Set_def Let_def window_inv_def
        split: option.splits)
qed

lemma rx_inv_ProcessSegment:
  "rx_inv sent ws w k out \<Longrightarrow> genuine sent k ws i seg \<Longrightarrow> rx_inv sent ws (ReceivingWorker_ProcessSegment w seg) k out"
  using ProcessSegment_window [of w k ws sent i seg] AckList_Clear_law(1) [of "rw_acklist w"]
  by (auto simp: rx_inv_def ReceivingWorker_ProcessSegment_def Let_def leftover_def acklist_ok_Add split: prod.splits)

lemma rx_inv_ReadMultiBuffer:
  assumes "rx_inv sent ws w k out" "ReceivingWorker_ReadMultiBuffer w = (mb, w')"
  shows "rx_inv sent ws w' (k + unat (rw_nextNumber w' - rw_nextNumber w)) (out @ mcontent mb)"
    and "mb_ok mb" "rw_leftOver w' = None"
proof (atomize (full), cases "rw_leftOver w")
  case (Some lo)
  with assms show "rx_inv sent ws w' (k + unat (rw_nextNumber w' - rw_nextNumber w)) (out @ mcontent mb)
      \<and> mb_ok mb \<and> rw_leftOver w' = None"
    by (auto simp: rx_inv_def ReceivingWorker_ReadMultiBuffer_def leftover_def)
next
  case None
  let ?hi = "k + unat ws"
  obtain win n where loop: "ReadMultiBuffer_loop (rw_window w) (of_nat k) [] = (mb, win, n)"
    and w': "w' = w\<lparr>rw_window := win, rw_nextNumber := n\<rparr>"
    using assms None by (auto simp: ReceivingWorker_ReadMultiBuffer_def rx_inv_def split: prod.splits)
  have hi: "?hi \<le> k + 4294967296" using unat_u32 [of ws] by simp
  from ReadMultiBuffer_loop_law [OF _ hi mb_ok_simps(1) loop, of sent] assms(1) obtain k' where
    k': "k \<le> k'" "k' \<le> ?hi" "n = of_nat k'" "mb_ok mb" "mcontent mb = concat (map sent [k..<k'])"
      "window_inv sent k' ?hi win"
    by (auto simp: rx_inv_def)
  have "k + unat (of_nat k' - of_nat k :: u32) = k'"
    using unat_diff_of_nat [of k k'] k'(1,2) unat_u32 [of ws] by simp
  moreover have "[0..<k'] = [0..<k] @ [k..<k']" using k'(1) upt_add_eq_append [of 0 k "k' - k"] by simp
  moreover have "window_inv sent k' (k' + unat ws) win" using k'(1,6) by (rule_tac window_inv_mono) auto
  ultimately show "rx_inv sent ws w' (k + unat (rw_nextNumber w' - rw_nextNumber w)) (out @ mcontent mb)
      \<and> mb_ok mb \<and> rw_leftOver w' = None"
    using assms(1) None k' w' by (simp add: rx_inv_def leftover_def)
qed

lemma rx_inv_Read:
  assumes "rx_inv sent ws w k out" "ReceivingWorker_Read w n = Inr (xs, w')"
  shows "rx_inv sent ws w' (k + unat (rw_nextNumber w' - rw_nextNumber w)) (out @ xs)"
proof -
  obtain mb v where r: "ReceivingWorker_ReadMultiBuffer w = (mb, v)" by (cases "ReceivingWorker_ReadMultiBuffer w")
  note inv = rx_inv_ReadMultiBuffer [OF assms(1) r]
  from SplitBytes_law [OF inv(2), of n] obtain mb' where
    mb': "SplitBytes mb n = Inr (mb', take n (mcontent mb))" "mb_ok mb'" "mcontent mb' = drop n (mcontent mb)" by blast
  show ?thesis
  proof (cases "mcontent mb = []")
    case True
    with assms(2) r inv show ?thesis by (simp add: ReceivingWorker_Read_def)
  next
    case False
    then have "xs = take n (mcontent mb)" "w' = (if mcontent mb' = [] then v else v\<lparr>rw_leftOver := Some mb'\<rparr>)"
      using assms(2) r mb' inv(2) by (auto simp: ReceivingWorker_Read_def)
    with inv mb' show ?thesis by (auto simp: rx_inv_def leftover_def)
  qed
qed

lemma rx_rx_inv: "rx sent ws w k out \<Longrightarrow> rx_inv sent ws w k out"
proof (induction rule: rx.induct)
  case start
  then show ?case
    by (simp add: rx_inv_def NewReceivingWorker_def leftover_def window_inv_def NewReceivingWindow_def
        acklist_ok_def NewAckList_def)
next
  case (acks w k out conv closing timeout current w' segs)
  then show ?case using AckList_Flush_law(4)
    by (fastforce simp: rx_inv_def ReceivingWorker_Flush_def leftover_def split: prod.splits)
next
  case (sending_next w k out number)
  then show ?case using AckList_Clear_law(1) by (simp add: rx_inv_def ProcessSendingNext_def leftover_def)
qed (blast intro: rx_inv_ProcessSegment rx_inv_ReadMultiBuffer(1) rx_inv_Read)+

text \<open>The window after a batch of segments holds all of them.\<close>

abbreviation process_all :: "DataSegment list \<Rightarrow> ReceivingWorker \<Rightarrow> ReceivingWorker" where
  "process_all segs w \<equiv> fold (\<lambda>seg w. ReceivingWorker_ProcessSegment w seg) segs w"

lemma ProcessSegment_sel [simp]:
  "rw_nextNumber (ReceivingWorker_ProcessSegment w seg) = rw_nextNumber w"
  "rw_windowSize (ReceivingWorker_ProcessSegment w seg) = rw_windowSize w"
  "rw_leftOver (ReceivingWorker_ProcessSegment w seg) = rw_leftOver w"
  by (auto simp: ReceivingWorker_ProcessSegment_def Let_def split: prod.splits)

lemma process_all_sel [simp]:
  "rw_nextNumber (process_all segs w) = rw_nextNumber w"
  "rw_leftOver (process_all segs w) = rw_leftOver w"
  by (induction segs arbitrary: w) simp_all

lemma rx_inv_process_all:
  "rx_inv sent ws w k out \<Longrightarrow> \<forall>seg \<in> set segs. \<exists>i. genuine sent k ws i seg
    \<Longrightarrow> rx_inv sent ws (process_all segs w) k out"
  by (induction segs arbitrary: w) (auto intro: rx_inv_ProcessSegment)

lemma process_all_keeps: "rw_window w x \<noteq> None \<Longrightarrow> rw_window (process_all segs w) x \<noteq> None"
proof (induction segs arbitrary: w)
  case (Cons seg segs)
  have "rw_window (ReceivingWorker_ProcessSegment w seg) x \<noteq> None"
    using Cons.prems by (auto simp: ReceivingWorker_ProcessSegment_def ReceivingWindow_Set_def Let_def split: option.splits)
  with Cons.IH show ?case by simp
qed simp

lemma process_all_has:
  assumes "seg \<in> set segs" "ds_Number seg - rw_nextNumber w < rw_windowSize w"
  shows "rw_window (process_all segs w) (ds_Number seg) \<noteq> None"
  using assms
proof (induction segs arbitrary: w)
  case (Cons a segs)
  show ?case
  proof (cases "seg = a")
    case True
    have "rw_window (ReceivingWorker_ProcessSegment w a) (ds_Number a) \<noteq> None"
      using Cons.prems(2) True
      by (auto simp: ReceivingWorker_ProcessSegment_def ReceivingWindow_Set_def Let_def split: option.splits)
    from process_all_keeps [OF this] True show ?thesis by simp
  next
    case False
    with Cons show ?thesis by simp
  qed
qed simp

section \<open>Properties\<close>

text \<open>
  C29: mKCP delivers in order and exactly once. In every run of a receiving worker, in which the
  network reorders, repeats and drops data segments at will, the bytes the application has
  read are a prefix of the sender's stream: those of the first \<open>k\<close> segments except what is
  still held as left over, where \<open>k\<close> is the counter behind \<^verbatim>\<open>nextNumber\<close>.
\<close>

theorem in_order_delivery:
  assumes "rx sent ws w k out"
  shows "rw_nextNumber w = of_nat k \<and> concat (map sent [0..<k]) = out @ mcontent (leftover w)"
  using rx_rx_inv [OF assms] by (simp add: rx_inv_def)

theorem in_order_delivery_witness:
  "rw_nextNumber (ReceivingWorker_ProcessSegment (NewReceivingWorker 8)
      (NewDataSegment\<lparr>ds_Number := 1, ds_payload := Some (FromBytes [7])\<rparr>)) = of_nat 0
   \<and> concat (map (\<lambda>i. [7]) [0..<0]) = [] @ mcontent (leftover (ReceivingWorker_ProcessSegment (NewReceivingWorker 8)
      (NewDataSegment\<lparr>ds_Number := 1, ds_payload := Some (FromBytes [7 :: byte])\<rparr>)))"
proof -
  have "genuine (\<lambda>i. [7]) 0 8 1 (NewDataSegment\<lparr>ds_Number := 1, ds_payload := Some (FromBytes [7])\<rparr>)"
    using FromBytes_ok [of "[7]"] by (simp add: genuine_def carries_def)
  from rx.segment [OF rx.start this] show ?thesis
    using in_order_delivery by blast
qed

text \<open>
  C30: nothing that has arrived is withheld. When the worker has no left over data and every
  segment with index \<open>k\<close> to \<open>k + m - 1\<close> inside the window has arrived at least once, in whatever
  order and mixed with other genuine segments, the next \<^verbatim>\<open>ReadMultiBuffer\<close> returns at least
  these payloads, in order.
\<close>

theorem arrived_segments_are_read:
  assumes "rx sent ws w k out" "rw_leftOver w = None"
    and "\<forall>seg \<in> set segs. \<exists>i. genuine sent k ws i seg" "m \<le> unat ws"
    and "\<forall>i. k \<le> i \<and> i < k + m \<longrightarrow> (\<exists>seg \<in> set segs. genuine sent k ws i seg)"
    and "ReceivingWorker_ReadMultiBuffer (process_all segs w) = (mb, w')"
  shows "\<exists>m' \<ge> m. mcontent mb = concat (map sent [k..<k + m']) \<and> rw_nextNumber w' = of_nat (k + m')"
proof -
  let ?w = "process_all segs w" and ?hi = "k + unat ws"
  have inv: "rx_inv sent ws ?w k out" using rx_inv_process_all rx_rx_inv assms(1,3) by blast
  have hi: "?hi \<le> k + 4294967296" using unat_u32 [of ws] by simp
  have w: "rw_nextNumber w = of_nat k" "rw_windowSize w = ws" using rx_rx_inv [OF assms(1)] by (simp_all add: rx_inv_def)
  obtain win where loop: "ReadMultiBuffer_loop (rw_window ?w) (of_nat k) [] = (mb, win, rw_nextNumber w')"
    using assms(2,6) w by (auto simp: ReceivingWorker_ReadMultiBuffer_def split: prod.splits)
  from ReadMultiBuffer_loop_law [OF _ hi mb_ok_simps(1) loop, of sent] inv obtain k' where
    k': "k \<le> k'" "rw_nextNumber w' = of_nat k'" "mcontent mb = concat (map sent [k..<k'])" "win (of_nat k') = None"
      "k' \<le> ?hi" "\<And>i. k' \<le> i \<Longrightarrow> i < k + 4294967296 \<Longrightarrow> win (of_nat i) = rw_window ?w (of_nat i)"
    by (auto simp: rx_inv_def)
  have "\<not> k' < k + m"
  proof
    assume "k' < k + m"
    with assms(5) k'(1) obtain seg where seg: "seg \<in> set segs" "genuine sent k ws k' seg" by blast
    then have n: "ds_Number seg = of_nat k'" by (simp add: genuine_def)
    have lt: "k' < k + 4294967296" using \<open>k' < k + m\<close> assms(4) unat_u32 [of ws] by simp
    have "(of_nat k' - of_nat k :: u32) < ws"
      using unat_diff_of_nat [OF k'(1) lt] \<open>k' < k + m\<close> assms(4) k'(1) unfolding word_less_nat_alt by linarith
    then have "rw_window ?w (of_nat k') \<noteq> None" using process_all_has [OF seg(1), of w] w n by simp
    with k'(4) k'(6) [of k'] lt show False by simp
  qed
  with k' show ?thesis by (intro exI [of _ "k' - k"]) auto
qed

theorem arrived_segments_are_read_witness:
  "\<exists>m' \<ge> 1. mcontent (fst (ReceivingWorker_ReadMultiBuffer (process_all
      [NewDataSegment\<lparr>ds_payload := Some (FromBytes [7 :: byte])\<rparr>] (NewReceivingWorker 8)))) = concat (map (\<lambda>i. [7]) [0..<0 + m'])
   \<and> rw_nextNumber (snd (ReceivingWorker_ReadMultiBuffer (process_all
      [NewDataSegment\<lparr>ds_payload := Some (FromBytes [7])\<rparr>] (NewReceivingWorker 8)))) = of_nat (0 + m')"
proof -
  let ?seg = "NewDataSegment\<lparr>ds_payload := Some (FromBytes [7 :: byte])\<rparr>"
  have g: "genuine (\<lambda>i. [7]) 0 8 0 ?seg"
    using FromBytes_ok [of "[7]"] by (simp add: genuine_def carries_def NewDataSegment_def)
  show ?thesis
    by (rule arrived_segments_are_read [OF rx.start, where segs = "[?seg]" and m = 1])
      (use g in \<open>auto simp: NewReceivingWorker_def\<close>)
qed

text \<open>
  C38: the in-place compaction of \<^verbatim>\<open>AckList.Clear\<close> keeps the three lists aligned and is the filter
  by \<^verbatim>\<open>number >= una\<close>; \<^verbatim>\<open>AckList.Flush\<close> then reports every number that is due, reports no number
  that is not in the list, and puts at most 128 numbers into one segment.
\<close>

theorem acklist_correct:
  assumes "acklist_ok l" "AckList_Flush (AckList_Clear l una) current rto = (l', out)"
  shows "entries (AckList_Clear l una) = filter (\<lambda>e. una \<le> fst e) (entries l) \<and> acklist_ok l'
    \<and> set (due current (al_numbers (AckList_Clear l una)) (al_nextFlush (AckList_Clear l una))) \<subseteq> set (reported out)
    \<and> set (reported out) \<subseteq> set (al_numbers (AckList_Clear l una))
    \<and> (\<forall>s \<in> set out. length (as_NumberList s) \<le> 128)"
  using AckList_Clear_law [OF assms(1), of una] AckList_Flush_law [OF _ assms(2)] by blast

theorem acklist_correct_witness:
  "let l = AckList_Add (AckList_Add NewAckList 3 50) 4 60; r = AckList_Flush (AckList_Clear l 4) 100 40 in
     entries (AckList_Clear l 4) = filter (\<lambda>e. 4 \<le> fst e) (entries l) \<and> acklist_ok (fst r)
     \<and> set (due 100 (al_numbers (AckList_Clear l 4)) (al_nextFlush (AckList_Clear l 4))) \<subseteq> set (reported (snd r))
     \<and> set (reported (snd r)) \<subseteq> set (al_numbers (AckList_Clear l 4))
     \<and> list_all (\<lambda>s. length (as_NumberList s) \<le> 128) (snd r)"
  unfolding Let_def list_all_iff
  by (rule acklist_correct) (simp_all add: acklist_ok_def NewAckList_def AckList_Add_def)

end
