(* ===== verification/KcpIO.thy ===== *)
theory KcpIO
  imports KcpSegment
begin

text \<open>
  The packet layer of mKCP: the obfuscation headers of \<^verbatim>\<open>transport/internet/headers\<close>, the
  legacy authenticator (\<^verbatim>\<open>kcp/crypt.go\<close>, \<^verbatim>\<open>kcp/xor.go\<close>), the packet reader and writer
  (\<^verbatim>\<open>kcp/io.go\<close>), the segment writers (\<^verbatim>\<open>kcp/output.go\<close>) and \<^verbatim>\<open>common/retry\<close>. The lemmas show
  that a segment handed to the segment writer is what the peer's packet reader returns.

  A \<^verbatim>\<open>cipher.AEAD\<close> is a record of functions. \<^verbatim>\<open>SimpleAuthenticator\<close> is defined from its
  source; the AES-GCM instance of \<^verbatim>\<open>cryptreal.go\<close> is another value of that record.
\<close>

section \<open>Packet headers\<close>

record SRTP =
  srtp_header :: u16
  srtp_number :: u16

record UTP =
  utp_header :: byte
  utp_extension :: byte
  utp_connectionID :: u16

record DTLS =
  dtls_epoch :: u16
  dtls_length :: u16
  dtls_sequence :: u32

datatype PacketHeader =
  SRTP_header SRTP | UTP_header UTP | VideoChat_header u32 | Wireguard_header | DTLS_header DTLS | Noop_header

text \<open>The constructors; \<open>rnd\<close> is what \<^verbatim>\<open>dice.RollUint16\<close> returns.\<close>

definition NewSRTP :: "u16 \<Rightarrow> PacketHeader" where
  "NewSRTP rnd = SRTP_header \<lparr>srtp_header = 0xB5E8, srtp_number = rnd\<rparr>"

definition NewUTP :: "u16 \<Rightarrow> PacketHeader" where
  "NewUTP rnd = UTP_header \<lparr>utp_header = 1, utp_extension = 0, utp_connectionID = rnd\<rparr>"

definition NewVideoChat :: "u16 \<Rightarrow> PacketHeader" where
  "NewVideoChat rnd = VideoChat_header (ucast rnd)"

definition NewWireguard :: PacketHeader where
  "NewWireguard = Wireguard_header"

definition NewDTLS :: "u16 \<Rightarrow> PacketHeader" where
  "NewDTLS rnd = DTLS_header \<lparr>dtls_epoch = rnd, dtls_length = 17, dtls_sequence = 0\<rparr>"

fun Header_Size :: "PacketHeader \<Rightarrow> int" where
  "Header_Size (SRTP_header s) = 4"
| "Header_Size (UTP_header u) = 4"
| "Header_Size (VideoChat_header sn) = 13"
| "Header_Size Wireguard_header = 4"
| "Header_Size (DTLS_header d) = 1 + 2 + 2 + 6 + 2"
| "Header_Size Noop_header = 0"

definition SRTP_Serialize :: "SRTP \<Rightarrow> byte list \<Rightarrow> (SRTP \<times> byte list) result" where
  "SRTP_Serialize s b =
     (let s = s\<lparr>srtp_number := srtp_number s + 1\<rparr> in
      bind_res (put 0 (be16 (srtp_header s)) b) (\<lambda>b.
      bind_res (put 2 (be16 (srtp_number s)) b) (\<lambda>b. Inr (s, b))))"

definition UTP_Serialize :: "UTP \<Rightarrow> byte list \<Rightarrow> byte list result" where
  "UTP_Serialize u b =
     bind_res (put 0 (be16 (utp_connectionID u)) b) (\<lambda>b.
     bind_res (put 2 [utp_header u] b) (\<lambda>b.
     put 3 [utp_extension u] b))"

definition VideoChat_Serialize :: "u32 \<Rightarrow> byte list \<Rightarrow> (u32 \<times> byte list) result" where
  "VideoChat_Serialize sn b =
     (let sn = sn + 1 in
      bind_res (put 0 [0xa1] b) (\<lambda>b. bind_res (put 1 [0x08] b) (\<lambda>b.
      bind_res (put 2 (be32 sn) b) (\<lambda>b. bind_res (put 6 [0x00] b) (\<lambda>b.
      bind_res (put 7 [0x10] b) (\<lambda>b. bind_res (put 8 [0x11] b) (\<lambda>b.
      bind_res (put 9 [0x18] b) (\<lambda>b. bind_res (put 10 [0x30] b) (\<lambda>b.
      bind_res (put 11 [0x22] b) (\<lambda>b. bind_res (put 12 [0x30] b) (\<lambda>b. Inr (sn, b))))))))))))"

definition Wireguard_Serialize :: "byte list \<Rightarrow> byte list result" where
  "Wireguard_Serialize b =
     bind_res (put 0 [0x04] b) (\<lambda>b. bind_res (put 1 [0x00] b) (\<lambda>b.
     bind_res (put 2 [0x00] b) (\<lambda>b. put 3 [0x00] b)))"

definition DTLS_Serialize :: "DTLS \<Rightarrow> byte list \<Rightarrow> (DTLS \<times> byte list) result" where
  "DTLS_Serialize d b =
     bind_res (put 0 [23] b) (\<lambda>b. bind_res (put 1 [254] b) (\<lambda>b. bind_res (put 2 [253] b) (\<lambda>b.
     bind_res (put 3 [ucast (drop_bit 8 (dtls_epoch d))] b) (\<lambda>b.
     bind_res (put 4 [ucast (dtls_epoch d)] b) (\<lambda>b.
     bind_res (put 5 [0] b) (\<lambda>b. bind_res (put 6 [0] b) (\<lambda>b.
     bind_res (put 7 [ucast (drop_bit 24 (dtls_sequence d))] b) (\<lambda>b.
     bind_res (put 8 [ucast (drop_bit 16 (dtls_sequence d))] b) (\<lambda>b.
     bind_res (put 9 [ucast (drop_bit 8 (dtls_sequence d))] b) (\<lambda>b.
     bind_res (put 10 [ucast (dtls_sequence d)] b) (\<lambda>b.
     bind_res (put 11 [ucast (drop_bit 8 (dtls_length d))] b) (\<lambda>b.
     bind_res (put 12 [ucast (dtls_length d)] b) (\<lambda>b.
       let len = dtls_length d + 17 in
       Inr (d\<lparr>dtls_sequence := dtls_sequence d + 1,
              dtls_length := if len > 100 then len - 50 else len\<rparr>, b))))))))))))))"

fun Header_Serialize :: "PacketHeader \<Rightarrow> byte list \<Rightarrow> (PacketHeader \<times> byte list) result" where
  "Header_Serialize (SRTP_header s) b = map_sum id (apfst SRTP_header) (SRTP_Serialize s b)"
| "Header_Serialize (UTP_header u) b = map_sum id (Pair (UTP_header u)) (UTP_Serialize u b)"
| "Header_Serialize (VideoChat_header sn) b = map_sum id (apfst VideoChat_header) (VideoChat_Serialize sn b)"
| "Header_Serialize Wireguard_header b = map_sum id (Pair Wireguard_header) (Wireguard_Serialize b)"
| "Header_Serialize (DTLS_header d) b = map_sum id (apfst DTLS_header) (DTLS_Serialize d b)"
| "Header_Serialize Noop_header b = Inr (Noop_header, b)"

section \<open>The XOR scrambler\<close>

text \<open>\<^verbatim>\<open>x[i] ^= x[i-4]\<close>, for \<^verbatim>\<open>i\<close> upwards in \<^verbatim>\<open>xorfwd\<close> and downwards in \<^verbatim>\<open>xorbkd\<close>.\<close>

definition xor_step :: "nat \<Rightarrow> byte list \<Rightarrow> byte list" where
  "xor_step i x = x[i := x ! i XOR x ! (i - 4)]"

definition xorfwd :: "byte list \<Rightarrow> byte list" where
  "xorfwd x = fold xor_step [4..<length x] x"

definition xorbkd :: "byte list \<Rightarrow> byte list" where
  "xorbkd x = fold xor_step (rev [4..<length x]) x"

section \<open>SimpleAuthenticator\<close>

text \<open>The 32-bit FNV-1a hash of \<^verbatim>\<open>hash/fnv\<close>.\<close>

definition fnv32a :: "byte list \<Rightarrow> u32" where
  "fnv32a xs = foldl (\<lambda>h c. (h XOR ucast c) * 16777619) 2166136261 xs"

definition SimpleAuthenticator_NonceSize :: nat where "SimpleAuthenticator_NonceSize = 0"
definition SimpleAuthenticator_Overhead :: nat where "SimpleAuthenticator_Overhead = 6"

text \<open>
  \<^verbatim>\<open>Seal\<close> appends to \<^verbatim>\<open>dst\<close>, whose array has room for \<open>cap\<close> bytes. An \<^verbatim>\<open>append\<close> that does not
  fit moves to a new array and leaves the old one as it is. The result is the pair of what the
  old array holds afterwards and the returned slice: the caller in \<^verbatim>\<open>io.go\<close> uses the former.
\<close>

definition zero_pad :: "byte list \<Rightarrow> byte list" where
  "zero_pad dst = (let xtra = 4 - length dst mod 4 in if xtra \<noteq> 4 then dst @ replicate xtra 0 else dst)"

definition SimpleAuthenticator_Seal ::
  "nat \<Rightarrow> byte list \<Rightarrow> byte list \<Rightarrow> byte list \<Rightarrow> (byte list \<times> byte list) result" where
  "SimpleAuthenticator_Seal cap dst nonce plain =
     bind_res (put 4 (be16 (of_nat (length plain))) (dst @ [0, 0, 0, 0, 0, 0])) (\<lambda>dst1.
       let dst2 = dst1 @ plain in
       bind_res (put 0 (be32 (fnv32a (drop 4 dst2))) dst2) (\<lambda>dst3.
         let padded = zero_pad dst3; sealed = take (length dst3) (xorfwd padded);
             arr = (if length padded \<le> cap then sealed
                    else if length dst3 \<le> cap then dst3
                    else if length dst1 \<le> cap then dst1 else dst)
         in Inr (arr, sealed)))"

definition SimpleAuthenticator_Open :: "byte list \<Rightarrow> byte list \<Rightarrow> byte list \<Rightarrow> byte list result" where
  "SimpleAuthenticator_Open dst nonce cipherText =
     (let dst = dst @ cipherText; dst = take (length dst) (xorbkd (zero_pad dst)) in
      bind_res (slice_from 4 dst) (\<lambda>rest.
      bind_res (slice 0 4 dst) (\<lambda>sum_bytes.
      bind_res (Uint32 sum_bytes) (\<lambda>s.
        if s \<noteq> fnv32a rest then Inl (NewError ''invalid auth'')
        else bind_res (slice 4 6 dst) (\<lambda>len_bytes.
          bind_res (Uint16 len_bytes) (\<lambda>len.
            if int (length dst) - 6 \<noteq> int (unat len) then Inl (NewError ''invalid auth'')
            else slice_from 6 dst))))))"

section \<open>Packet reader and writer\<close>

record AEAD =
  aead_NonceSize :: nat
  aead_Overhead :: nat
  aead_Seal :: "nat \<Rightarrow> byte list \<Rightarrow> byte list \<Rightarrow> byte list \<Rightarrow> (byte list \<times> byte list) result"
  aead_Open :: "byte list \<Rightarrow> byte list \<Rightarrow> byte list \<Rightarrow> byte list result"

definition NewSimpleAuthenticator :: AEAD where
  "NewSimpleAuthenticator = \<lparr>aead_NonceSize = SimpleAuthenticator_NonceSize,
     aead_Overhead = SimpleAuthenticator_Overhead, aead_Seal = SimpleAuthenticator_Seal,
     aead_Open = SimpleAuthenticator_Open\<rparr>"

text \<open>
  \<^verbatim>\<open>KCPPacketReader.Read\<close>: the segments of a datagram; nil is the empty list. An error of
  \<^verbatim>\<open>Open\<close> drops the packet, a panic of it is one of the reader.
\<close>

definition KCPPacketReader_Read :: "AEAD option \<Rightarrow> PacketHeader option \<Rightarrow> byte list \<Rightarrow> Segment list result" where
  "KCPPacketReader_Read Security Header b =
     (let security = (\<lambda>b. case Security of
            None \<Rightarrow> read_frames ReadSegment b
          | Some sec \<Rightarrow>
              let nonceSize = aead_NonceSize sec; overhead = aead_Overhead sec in
              if length b \<le> nonceSize + overhead then Inr []
              else case aead_Open sec [] (take nonceSize b) (drop nonceSize b) of
                     Inl Panic \<Rightarrow> Inl Panic
                   | Inl err \<Rightarrow> Inr []
                   | Inr out \<Rightarrow> read_frames ReadSegment out)
      in case Header of
           None \<Rightarrow> security b
         | Some h \<Rightarrow>
             if i32 (int (length b)) \<le> Header_Size h then Inr []
             else bind_res (slice_from (nat (Header_Size h)) b) security)"

definition KCPPacketWriter_Overhead :: "PacketHeader option \<Rightarrow> AEAD option \<Rightarrow> int" where
  "KCPPacketWriter_Overhead Header Security =
     (case Header of None \<Rightarrow> 0 | Some h \<Rightarrow> Header_Size h)
     + (case Security of None \<Rightarrow> 0 | Some sec \<Rightarrow> int (aead_Overhead sec))"

text \<open>
  \<^verbatim>\<open>KCPPacketWriter.Write\<close>: \<open>rnd\<close> is the output of \<^verbatim>\<open>rand.Reader\<close>. The result is the new state
  of the header, the datagram handed to the underlying writer, and \<^verbatim>\<open>len(b)\<close>; the underlying
  writer's error is returned as it is.
\<close>

definition extend_and :: "Buffer \<Rightarrow> int \<Rightarrow> (byte list \<Rightarrow> ('h \<times> byte list) result) \<Rightarrow> ('h \<times> Buffer) result" where
  "extend_and bb n f =
     bind_res (Buffer_Extend bb n) (\<lambda>(bb', off).
     bind_res (f (take (nat n) (drop off (buf_v bb')))) (\<lambda>(h, xs).
     bind_res (store off xs bb') (\<lambda>bb''. Inr (h, bb''))))"

definition write_header :: "PacketHeader option \<Rightarrow> Buffer \<Rightarrow> (PacketHeader option \<times> Buffer) result" where
  "write_header Header bb =
     (case Header of
        None \<Rightarrow> Inr (None, bb)
      | Some h \<Rightarrow> map_sum id (apfst Some) (extend_and bb (Header_Size h) (Header_Serialize h)))"

definition write_sealed :: "AEAD option \<Rightarrow> byte list \<Rightarrow> byte list \<Rightarrow> Buffer \<Rightarrow> Buffer result" where
  "write_sealed Security rnd b bb =
     (case Security of
        Some sec \<Rightarrow>
          bind_res (Buffer_ReadFullFrom bb rnd (int (aead_NonceSize sec))) (\<lambda>(bb, rest, err).
          if err \<noteq> None then Inl Panic
          else bind_res (Buffer_BytesFrom bb (- int (aead_NonceSize sec))) (\<lambda>nonce.
          bind_res (Buffer_Extend bb (i32 (int (aead_Overhead sec + length b)))) (\<lambda>(bb', off).
          bind_res (aead_Seal sec (length (buf_v bb') - off) [] nonce b) (\<lambda>(arr, sealed).
          store off arr bb'))))
      | None \<Rightarrow> bind_res (Buffer_Write bb b) (\<lambda>(bb, n). Inr bb))"

definition KCPPacketWriter_Write :: "PacketHeader option \<Rightarrow> AEAD option \<Rightarrow> byte list \<Rightarrow> byte list
    \<Rightarrow> (PacketHeader option \<times> byte list \<times> nat) result" where
  "KCPPacketWriter_Write Header Security rnd b =
     bind_res (write_header Header StackNew) (\<lambda>(h', bb).
     bind_res (write_sealed Security rnd b bb) (\<lambda>bb.
     bind_res (Buffer_Bytes bb) (\<lambda>datagram. Inr (h', datagram, length b))))"

section \<open>Segment writers and retry\<close>

record SimpleSegmentWriter =
  sw_buffer :: "Buffer option"
  sw_closed :: bool

definition NewSegmentWriter :: SimpleSegmentWriter where
  "NewSegmentWriter = \<lparr>sw_buffer = Some New, sw_closed = False\<rparr>"

text \<open>\<^verbatim>\<open>Write(seg)\<close>: the new state and the bytes handed to the packet writer.\<close>

definition SimpleSegmentWriter_Write ::
  "SimpleSegmentWriter \<Rightarrow> Segment \<Rightarrow> (SimpleSegmentWriter \<times> byte list) result" where
  "SimpleSegmentWriter_Write w seg =
     (if sw_closed w then Inl ClosedPipe
      else case sw_buffer w of
             None \<Rightarrow> Inl Panic
           | Some b \<Rightarrow>
               bind_res (extend_and (Buffer_Clear b) (Segment_ByteSize seg)
                           (\<lambda>raw. map_sum id (Pair ()) (Segment_Serialize seg raw))) (\<lambda>(_, b').
               bind_res (Buffer_Bytes b') (\<lambda>bytes. Inr (w\<lparr>sw_buffer := Some b'\<rparr>, bytes))))"

definition SimpleSegmentWriter_Release :: "SimpleSegmentWriter \<Rightarrow> SimpleSegmentWriter" where
  "SimpleSegmentWriter_Release w = w\<lparr>sw_buffer := Buffer_Release (sw_buffer w), sw_closed := True\<rparr>"

text \<open>
  \<^verbatim>\<open>retryer.On(method)\<close>: \<open>method\<close> transforms a state and may fail. The result holds the
  errors that differ from their predecessor, the delays slept, and the last state.
\<close>

record 's retry_outcome =
  ro_state :: 's
  ro_errors :: "go_error list"
  ro_delays :: "u32 list"
  ro_ok :: bool

text \<open>\<^verbatim>\<open>nextDelay\<close> is a closure with a counter: its state is the delay it returns next.\<close>

fun retryer_On :: "nat \<Rightarrow> (u32 \<Rightarrow> u32) \<Rightarrow> u32 \<Rightarrow> ('s \<Rightarrow> go_error option \<times> 's) \<Rightarrow> 's \<Rightarrow> go_error list
    \<Rightarrow> 's retry_outcome" where
  "retryer_On 0 next d method s errs = \<lparr>ro_state = s, ro_errors = errs, ro_delays = [], ro_ok = False\<rparr>"
| "retryer_On (Suc n) next d method s errs =
     (case method s of
        (None, s') \<Rightarrow> \<lparr>ro_state = s', ro_errors = errs, ro_delays = [], ro_ok = True\<rparr>
      | (Some err, s') \<Rightarrow>
          let errs' = (if errs = [] \<or> err \<noteq> last errs then errs @ [err] else errs);
              r = retryer_On n next (next d) method s' errs'
          in r\<lparr>ro_delays := d # ro_delays r\<rparr>)"

definition Timed :: "nat \<Rightarrow> u32 \<Rightarrow> ('s \<Rightarrow> go_error option \<times> 's) \<Rightarrow> 's \<Rightarrow> 's retry_outcome" where
  "Timed attempts delay method s = retryer_On attempts (\<lambda>d. d) delay method s []"

definition ExponentialBackoff :: "nat \<Rightarrow> u32 \<Rightarrow> ('s \<Rightarrow> go_error option \<times> 's) \<Rightarrow> 's \<Rightarrow> 's retry_outcome" where
  "ExponentialBackoff attempts delay method s = retryer_On attempts (\<lambda>d. d + delay) 0 method s []"

section \<open>Headers fill exactly their size\<close>

lemma Header_Size_bounds: "0 \<le> Header_Size h" "Header_Size h \<le> 13"
  by (cases h; simp)+

lemma Header_Serialize_law:
  assumes "int (length b) = Header_Size h"
  shows "\<exists>h' b'. Header_Serialize h b = Inr (h', b') \<and> length b' = length b \<and> Header_Size h' = Header_Size h"
  using assms
  by (cases h) (auto simp: put_def SRTP_Serialize_def UTP_Serialize_def VideoChat_Serialize_def
      Wireguard_Serialize_def DTLS_Serialize_def Let_def)

section \<open>The scrambler is undone\<close>

lemma length_xor_step [simp]: "length (xor_step i x) = length x"
  by (simp add: xor_step_def)

lemma length_fold_xor_step [simp]: "length (fold xor_step is x) = length x"
  by (induction "is" arbitrary: x) simp_all

lemma length_xor [simp]: "length (xorfwd x) = length x" "length (xorbkd x) = length x"
  by (simp_all add: xorfwd_def xorbkd_def)

lemma xor_step_twice: "4 \<le> i \<Longrightarrow> xor_step i (xor_step i x) = x"
proof (cases "i < length x")
  case True
  assume "4 \<le> i"
  with True show ?thesis
    by (simp add: xor_step_def xor.assoc list_update_id)
qed (simp add: xor_step_def list_update_beyond)

lemma fold_xor_step_rev:
  "\<forall>i \<in> set is. 4 \<le> i \<Longrightarrow> fold xor_step (rev is) (fold xor_step is x) = x"
  by (induction "is" arbitrary: x) (simp_all add: xor_step_twice)

lemma xorbkd_xorfwd: "xorbkd (xorfwd x) = x"
  using fold_xor_step_rev [of "[4..<length x]" x] by (simp add: xorbkd_def xorfwd_def)

lemma take_xor_step: "take n (xor_step i x) = (if i < n then xor_step i (take n x) else take n x)"
  by (cases "i < length x") (auto simp: xor_step_def take_update_swap list_update_beyond)

lemma take_fold_xor_step:
  "take n (fold xor_step is x) = fold xor_step (filter (\<lambda>i. i < n) is) (take n x)"
  by (induction "is" arbitrary: x) (simp_all add: take_xor_step)

lemma filter_upt_less: "filter (\<lambda>i. i < n) [4..<m] = [4..<min n m]"
  by (induction m) (auto simp: min_def le_Suc_eq)

lemma take_xorbkd: "take n (xorbkd x) = xorbkd (take n x)"
  by (simp add: xorbkd_def take_fold_xor_step rev_filter [symmetric] filter_upt_less min.commute)

lemma take_xorfwd: "take n (xorfwd x) = xorfwd (take n x)"
  by (simp add: xorfwd_def take_fold_xor_step filter_upt_less min.commute)

lemma take_zero_pad [simp]: "take (length x) (zero_pad x) = x"
  by (simp add: zero_pad_def Let_def)

lemma length_zero_pad: "length (zero_pad x) \<le> length x + 3"
  by (auto simp: zero_pad_def Let_def)

section \<open>SimpleAuthenticator\<close>

lemma SimpleAuthenticator_Seal_law:
  assumes "6 + length p + 3 \<le> cap"
  shows "SimpleAuthenticator_Seal cap [] nonce p =
    (let c = xorfwd (be32 (fnv32a (be16 (of_nat (length p)) @ p)) @ be16 (of_nat (length p)) @ p) in Inr (c, c))"
proof -
  let ?len = "be16 (of_nat (length p)) :: byte list"
  have 1: "put 4 ?len [0, 0, 0, 0, 0, 0] = Inr ([0, 0, 0, 0] @ ?len)"
    by (simp add: put_def overwrite_def)
  have 2: "put 0 (be32 w) ([0, 0, 0, 0] @ ?len @ p) = Inr (be32 w @ ?len @ p)" for w
    by (simp add: put_def overwrite_def)
  let ?d = "be32 (fnv32a (?len @ p)) @ ?len @ p"
  have "length (zero_pad ?d) \<le> cap" using length_zero_pad [of ?d] assms by simp
  moreover have "take (length ?d) (xorfwd (zero_pad ?d)) = xorfwd ?d" by (simp only: take_xorfwd take_zero_pad)
  ultimately show ?thesis
    by (simp add: SimpleAuthenticator_Seal_def 1 [simplified] 2 [simplified] Let_def)
qed

lemma SimpleAuthenticator_Open_law:
  assumes "length p \<le> 65535"
  shows "SimpleAuthenticator_Open [] nonce
    (xorfwd (be32 (fnv32a (be16 (of_nat (length p)) @ p)) @ be16 (of_nat (length p)) @ p)) = Inr p"
proof -
  let ?len = "be16 (of_nat (length p)) :: byte list"
  let ?d = "be32 (fnv32a (?len @ p)) @ ?len @ p"
  have eq: "take (length (xorfwd ?d)) (xorbkd (zero_pad (xorfwd ?d))) = ?d"
    by (simp only: take_xorbkd take_zero_pad xorbkd_xorfwd)
  have "unat (of_nat (length p) :: u16) = length p" using assms by (simp add: unat_u16_of_nat)
  moreover have "Uint16 ?len = Inr (of_nat (length p))" using Uint16_be16 [of _ "[]"] by simp
  ultimately show ?thesis
    unfolding SimpleAuthenticator_Open_def Let_def append_Nil eq by (simp add: slice_def del: of_nat_unat)
qed

lemma SimpleAuthenticator_Open_safe:
  assumes "6 < length c"
  shows "SimpleAuthenticator_Open [] nonce c \<noteq> Inl Panic"
proof -
  let ?d = "take (length c) (xorbkd (zero_pad c))"
  have "length ?d = length c" by (simp add: zero_pad_def Let_def)
  with assms have "6 \<le> length ?d" by simp
  then obtain a1 a2 a3 a4 a5 a6 rest where "?d = a1 # a2 # a3 # a4 # a5 # a6 # rest"
    by (auto simp: numeral_eq_Suc Suc_le_length_iff simp del: length_take)
  then show ?thesis
    unfolding SimpleAuthenticator_Open_def Let_def append_Nil by (simp add: slice_def)
qed

section \<open>Authenticated encryption as an interface\<close>

text \<open>
  What the packet layer needs of a \<^verbatim>\<open>cipher.AEAD\<close>: sealing in place grows the plaintext by the
  overhead, and opening with the same nonce gives it back. An instance with nonce size 0
  ignores the nonce. The spare 3 bytes of the array are for the padding of \<^verbatim>\<open>Seal\<close>.
\<close>

locale aead_laws =
  fixes sec :: AEAD
  assumes seal_open: "aead_Overhead sec + length p + 3 \<le> cap \<Longrightarrow> length p \<le> 65535
    \<Longrightarrow> aead_NonceSize sec = 0 \<or> length nonce = aead_NonceSize sec \<and> nonce' = nonce
    \<Longrightarrow> \<exists>c. aead_Seal sec cap [] nonce p = Inr (c, c) \<and> length c = aead_Overhead sec + length p
          \<and> aead_Open sec [] nonce' c = Inr p"

interpretation simple_auth: aead_laws NewSimpleAuthenticator
  by unfold_locales
    (simp add: NewSimpleAuthenticator_def SimpleAuthenticator_NonceSize_def SimpleAuthenticator_Overhead_def
      SimpleAuthenticator_Seal_law SimpleAuthenticator_Open_law Let_def)

section \<open>Filling a grown buffer\<close>

lemma Buffer_Extend_law:
  assumes "buffer_ok bb" "n \<le> room bb"
  shows "Buffer_Extend bb (int n) = Inr (bb\<lparr>buf_end := buf_end bb + int n\<rparr>, nat (buf_end bb))"
    and "nat (buf_end bb) + n \<le> length (buf_v bb)" "room bb = length (buf_v bb) - nat (buf_end bb)"
proof -
  from assms(1) obtain s e where w: "buf_start bb = int s" "buf_end bb = int e" "s \<le> e"
    "e \<le> length (buf_v bb)" "length (buf_v bb) \<le> 1073741823" "room bb = length (buf_v bb) - e"
    by (elim buffer_okE)
  with assms(2) show "Buffer_Extend bb (int n) = Inr (bb\<lparr>buf_end := buf_end bb + int n\<rparr>, nat (buf_end bb))"
    by (simp add: Buffer_Extend_def slice_def Let_def)
  show "nat (buf_end bb) + n \<le> length (buf_v bb)" "room bb = length (buf_v bb) - nat (buf_end bb)"
    using w assms(2) by simp_all
qed

lemma store_extended:
  assumes "buffer_ok bb" "n \<le> room bb" "length xs = n"
  obtains bb' where "store (nat (buf_end bb)) xs (bb\<lparr>buf_end := buf_end bb + int n\<rparr>) = Inr bb'"
    "buffer_ok bb'" "content bb' = content bb @ xs" "room bb' = room bb - n"
proof -
  have "store (nat (buf_end bb)) xs (bb\<lparr>buf_end := buf_end bb + int n\<rparr>)
      = Inr (bb\<lparr>buf_v := overwrite (nat (buf_end bb)) xs (buf_v bb), buf_end := buf_end bb + int (length xs)\<rparr>)"
    using Buffer_Extend_law(2) [OF assms(1,2)] assms(3) by (simp add: store_def put_def)
  then show thesis
    using that content_update_v [OF assms(1) _ refl, of xs] assms(2,3) by blast
qed

lemma extend_and_law:
  assumes "buffer_ok bb" "n \<le> room bb"
    and f: "\<And>raw. length raw = n \<Longrightarrow> \<exists>h xs. f raw = Inr (h, xs) \<and> length xs = n \<and> P h xs"
  obtains h xs bb' where "extend_and bb (int n) f = Inr (h, bb')" "buffer_ok bb'"
    "content bb' = content bb @ xs" "room bb' = room bb - n" "length xs = n" "P h xs"
proof -
  note ext = Buffer_Extend_law [OF assms(1,2)]
  let ?raw = "take n (drop (nat (buf_end bb)) (buf_v bb))"
  have "length ?raw = n" using ext(2) by simp
  from f [OF this] obtain h xs where xs: "f ?raw = Inr (h, xs)" "length xs = n" "P h xs" by blast
  from store_extended [OF assms(1,2) xs(2)] obtain bb' where
    "store (nat (buf_end bb)) xs (bb\<lparr>buf_end := buf_end bb + int n\<rparr>) = Inr bb'"
    "buffer_ok bb'" "content bb' = content bb @ xs" "room bb' = room bb - n" .
  with xs ext(1) show thesis using that by (simp add: extend_and_def)
qed

lemma write_header_law:
  assumes "buffer_ok bb" "13 \<le> room bb"
  obtains h' hdr bb' where "write_header Header bb = Inr (h', bb')" "buffer_ok bb'"
    "content bb' = content bb @ hdr" "room bb' = room bb - length hdr"
    "int (length hdr) = (case Header of None \<Rightarrow> 0 | Some h \<Rightarrow> Header_Size h)"
proof (cases Header)
  case None
  with assms show thesis using that [of None bb "[]"] by (simp add: write_header_def)
next
  case (Some h)
  have sz: "int (nat (Header_Size h)) = Header_Size h" "nat (Header_Size h) \<le> room bb"
    using Header_Size_bounds [of h] assms(2) by auto
  have "\<exists>h' xs. Header_Serialize h raw = Inr (h', xs) \<and> length xs = nat (Header_Size h) \<and> True"
    if "length raw = nat (Header_Size h)" for raw
    using Header_Serialize_law [of raw h] that sz by auto
  note f = this
  obtain h' xs bb' where
    "extend_and bb (int (nat (Header_Size h))) (Header_Serialize h) = Inr (h', bb')" "buffer_ok bb'"
    "content bb' = content bb @ xs" "room bb' = room bb - nat (Header_Size h)" "length xs = nat (Header_Size h)"
    by (rule extend_and_law [OF assms(1) sz(2), where f = "Header_Serialize h" and P = "\<lambda>_ _. True"]) (use f in blast)+
  with Some sz show thesis using that [of "Some h'" bb' xs] by (simp add: write_header_def)
qed

section \<open>Packets\<close>

context aead_laws
begin

lemma write_sealed_law:
  assumes "buffer_ok bb" "aead_NonceSize sec + aead_Overhead sec + length b + 3 \<le> room bb"
    and "aead_NonceSize sec \<le> length rnd" "length b \<le> 65535"
  obtains bb' c where "write_sealed (Some sec) rnd b bb = Inr bb'" "buffer_ok bb'"
    "content bb' = content bb @ take (aead_NonceSize sec) rnd @ c"
    "length c = aead_Overhead sec + length b"
    "aead_Open sec [] (take (aead_NonceSize sec) rnd) c = Inr b"
proof -
  let ?n = "aead_NonceSize sec" and ?m = "aead_Overhead sec + length b"
  have "?n \<le> room bb" using assms(2) by simp
  from read_full_law [OF assms(1) this, of rnd] assms(3) obtain bb1 where
    r: "read_full bb rnd (int ?n) = Inr (bb1, drop ?n rnd)" and bb1: "buffer_ok bb1"
      "content bb1 = content bb @ take ?n rnd" "room bb1 = room bb - ?n"
    by auto
  from r obtain rest where r': "Buffer_ReadFullFrom bb rnd (int ?n) = Inr (bb1, rest, None)"
    by (auto simp: read_full_def bind_res_Inr_iff split: option.splits)
  let ?nonce = "if ?n = 0 then content bb1 else take ?n rnd"
  have bf: "Buffer_BytesFrom bb1 (- int ?n) = Inr ?nonce"
    using Buffer_BytesFrom_zero [OF bb1(1)] Buffer_BytesFrom_suffix [OF bb1(1), of "content bb" "take ?n rnd"]
      bb1(2) assms(3) by (cases "?n = 0"; cases rnd) auto
  have m: "?m \<le> room bb1" using bb1(3) assms(2) by simp
  note ext = Buffer_Extend_law [OF bb1(1) m]
  have "?m \<le> 1073741823" using m bb1(1) by (elim buffer_okE) simp
  then have i: "i32 (int ?m) = int ?m" by simp
  have "aead_Overhead sec + length b + 3 \<le> length (buf_v bb1) - nat (buf_end bb1)"
    using ext(3) bb1(3) assms(2) by simp
  moreover have "?n = 0 \<or> length ?nonce = ?n \<and> take ?n rnd = ?nonce" using assms(3) by simp
  ultimately obtain c where
    c: "aead_Seal sec (length (buf_v bb1) - nat (buf_end bb1)) [] ?nonce b = Inr (c, c)" "length c = ?m"
      "aead_Open sec [] (take ?n rnd) c = Inr b"
    using seal_open [OF _ assms(4)] by blast
  from store_extended [OF bb1(1) m c(2)] obtain bb' where
    "store (nat (buf_end bb1)) c (bb1\<lparr>buf_end := buf_end bb1 + int ?m\<rparr>) = Inr bb'"
    "buffer_ok bb'" "content bb' = content bb1 @ c" .
  with c r' bf ext(1) i bb1(2) show thesis
    using that [of bb' c] by (simp add: write_sealed_def)
qed

text \<open>The size of a datagram, and that the reader finds the plaintext in it.\<close>

lemma packet_law:
  assumes "13 + aead_NonceSize sec + aead_Overhead sec + length b + 3 \<le> Size" "b \<noteq> []"
    and "aead_NonceSize sec \<le> length rnd"
  obtains h' d where "KCPPacketWriter_Write Header (Some sec) rnd b = Inr (h', d, length b)"
    "int (length d) = KCPPacketWriter_Overhead Header (Some sec) + int (aead_NonceSize sec) + int (length b)"
    "KCPPacketReader_Read (Some sec) Header d = read_frames ReadSegment b"
proof -
  have S: "buffer_ok StackNew" "content StackNew = []" "room StackNew = Size"
    using New_ok by (simp_all add: StackNew_def New_def)
  have "13 \<le> room StackNew" using S(3) by (simp add: Size_def)
  obtain h' hdr bb where
    h: "write_header Header StackNew = Inr (h', bb)" "buffer_ok bb" "content bb = content StackNew @ hdr"
      "room bb = room StackNew - length hdr"
      "int (length hdr) = (case Header of None \<Rightarrow> 0 | Some h \<Rightarrow> Header_Size h)"
    by (rule write_header_law [OF S(1) \<open>13 \<le> room StackNew\<close>, of Header])
  have "int (length hdr) \<le> 13" using h(5) Header_Size_bounds(2) by (cases Header) simp_all
  then have "length hdr \<le> 13" by simp
  then have rm: "aead_NonceSize sec + aead_Overhead sec + length b + 3 \<le> room bb" "length b \<le> 65535"
    using h(4) S(3) assms(1) by (simp_all add: Size_def)
  obtain bb' c where
    c: "write_sealed (Some sec) rnd b bb = Inr bb'" "buffer_ok bb'"
      "content bb' = content bb @ take (aead_NonceSize sec) rnd @ c" "length c = aead_Overhead sec + length b"
      "aead_Open sec [] (take (aead_NonceSize sec) rnd) c = Inr b"
    by (rule write_sealed_law [OF h(2) rm(1) assms(3) rm(2)])
  let ?d = "hdr @ take (aead_NonceSize sec) rnd @ c"
  have w: "KCPPacketWriter_Write Header (Some sec) rnd b = Inr (h', ?d, length b)"
    using h(1,3) c(1-3) S(2) by (simp add: KCPPacketWriter_Write_def)
  have l: "int (length ?d) = KCPPacketWriter_Overhead Header (Some sec) + int (aead_NonceSize sec) + int (length b)"
    using h(5) c(4) assms(3) by (simp add: KCPPacketWriter_Overhead_def)
  have "length ?d \<le> 2 * Size" "length hdr < length ?d"
    using \<open>length hdr \<le> 13\<close> c(4) assms by (simp_all add: Size_def)
  then have d: "i32 (int (length ?d)) = int (length ?d)" "int (length hdr) < int (length ?d)"
    by (simp_all add: Size_def del: length_append)
  have "aead_NonceSize sec + aead_Overhead sec < length (take (aead_NonceSize sec) rnd @ c)"
    using c(4) assms(2,3) by simp
  then have r: "\<not> length (take (aead_NonceSize sec) rnd @ c) \<le> aead_NonceSize sec + aead_Overhead sec"
    "take (aead_NonceSize sec) (take (aead_NonceSize sec) rnd @ c) = take (aead_NonceSize sec) rnd"
    "drop (aead_NonceSize sec) (take (aead_NonceSize sec) rnd @ c) = c"
    using assms(3) by simp_all
  have "KCPPacketReader_Read (Some sec) Header ?d = read_frames ReadSegment b"
  proof (cases Header)
    case None
    with h(5) r c(5) show ?thesis by (simp add: KCPPacketReader_Read_def Let_def del: length_append take_append drop_append)
  next
    case (Some hd)
    with h(5) have hd: "Header_Size hd = int (length hdr)" by simp
    have "\<not> i32 (int (length ?d)) \<le> int (length hdr)" using d by linarith
    moreover have "slice_from (nat (int (length hdr))) ?d = Inr (take (aead_NonceSize sec) rnd @ c)"
      by simp
    ultimately show ?thesis using r c(5)
      by (simp add: Some hd KCPPacketReader_Read_def Let_def del: length_append take_append drop_append nat_int)
  qed
  with w l show thesis using that by blast
qed

end

lemma SimpleSegmentWriter_Write_law:
  assumes "\<not> sw_closed w" "sw_buffer w = Some b" "buffer_ok b" "length (buf_v b) = Size"
    and "segment_ok seg" "length (pdu_wire (pdu_of seg)) \<le> Size"
  shows "\<exists>b'. SimpleSegmentWriter_Write w seg = Inr (w\<lparr>sw_buffer := Some b'\<rparr>, pdu_wire (pdu_of seg))"
proof -
  let ?n = "length (pdu_wire (pdu_of seg))"
  have b: "buffer_ok (Buffer_Clear b)" "content (Buffer_Clear b) = []" "?n \<le> room (Buffer_Clear b)"
    using Buffer_Clear_ok [of b] assms(3,4,6) by (simp_all add: room_def Buffer_Clear_def)
  note sz = length_pdu_wire [OF assms(5)]
  have f: "\<exists>h xs. map_sum id (Pair ()) (Segment_Serialize seg raw) = Inr (h, xs) \<and> length xs = ?n
      \<and> xs = pdu_wire (pdu_of seg)" if "length raw = ?n" for raw
    using Segment_Serialize_law [OF assms(5), of raw] that sz by simp
  obtain h xs b' where "extend_and (Buffer_Clear b) (int ?n)
      (\<lambda>raw. map_sum id (Pair ()) (Segment_Serialize seg raw)) = Inr (h, b')" "buffer_ok b'"
    "content b' = content (Buffer_Clear b) @ xs" "xs = pdu_wire (pdu_of seg)"
    by (rule extend_and_law [OF b(1,3), where P = "\<lambda>_ xs. xs = pdu_wire (pdu_of seg)", OF f])
  with b(2) assms(1,2) show ?thesis unfolding sz by (auto simp: SimpleSegmentWriter_Write_def)
qed

section \<open>Properties\<close>

text \<open>
  C33: a segment written by a fresh \<^verbatim>\<open>SimpleSegmentWriter\<close> and sent by \<^verbatim>\<open>KCPPacketWriter\<close> (with any
  obfuscation header and the legacy authenticator) is returned, as the only segment and with
  the same fields and payload, by the peer's \<^verbatim>\<open>KCPPacketReader\<close>, as long as it fits into one
  buffer with the header, the authentication overhead and the padding.
\<close>

theorem packet_roundtrip:
  assumes "segment_ok seg" "pdu_ok (pdu_of seg)" "Segment_ByteSize seg + 22 \<le> 16384"
  shows "\<exists>w raw h' d seg'. SimpleSegmentWriter_Write NewSegmentWriter seg = Inr (w, raw)
     \<and> KCPPacketWriter_Write Header (Some NewSimpleAuthenticator) rnd raw = Inr (h', d, length raw)
     \<and> KCPPacketReader_Read (Some NewSimpleAuthenticator) Header d = Inr [seg'] \<and> pdu_of seg' = pdu_of seg"
proof -
  let ?raw = "pdu_wire (pdu_of seg)"
  have len: "length ?raw + 22 \<le> 16384" using length_pdu_wire [OF assms(1)] assms(3) by simp
  then obtain b' where w: "SimpleSegmentWriter_Write NewSegmentWriter seg
      = Inr (NewSegmentWriter\<lparr>sw_buffer := Some b'\<rparr>, ?raw)"
    using SimpleSegmentWriter_Write_law [of NewSegmentWriter New seg] assms(1)
    by (auto simp: NewSegmentWriter_def Size_def)
  have "13 + aead_NonceSize NewSimpleAuthenticator + aead_Overhead NewSimpleAuthenticator + length ?raw + 3 \<le> Size"
    "aead_NonceSize NewSimpleAuthenticator \<le> length rnd"
    using len by (simp_all add: NewSimpleAuthenticator_def SimpleAuthenticator_NonceSize_def
        SimpleAuthenticator_Overhead_def Size_def)
  then obtain h' d where "KCPPacketWriter_Write Header (Some NewSimpleAuthenticator) rnd ?raw = Inr (h', d, length ?raw)"
    "KCPPacketReader_Read (Some NewSimpleAuthenticator) Header d = read_frames ReadSegment ?raw"
    by (rule simple_auth.packet_law [OF _ pdu_wire_nonempty, of "pdu_of seg" rnd Header])
  moreover obtain segs where "read_frames ReadSegment ?raw = Inr segs" "map pdu_of segs = [pdu_of seg]"
    using segments.read_frames_wire [of "[pdu_of seg]"] assms(2) by auto
  ultimately show ?thesis using w by auto
qed

theorem packet_roundtrip_witness:
  "\<exists>w raw h' d seg'. SimpleSegmentWriter_Write NewSegmentWriter (CmdSeg (NewCmdOnlySegment\<lparr>cs_Cmd := 3\<rparr>)) = Inr (w, raw)
     \<and> KCPPacketWriter_Write (Some (NewDTLS 7)) (Some NewSimpleAuthenticator) [] raw = Inr (h', d, length raw)
     \<and> KCPPacketReader_Read (Some NewSimpleAuthenticator) (Some (NewDTLS 7)) d = Inr [seg']
     \<and> pdu_of seg' = pdu_of (CmdSeg (NewCmdOnlySegment\<lparr>cs_Cmd := 3\<rparr>))"
  by (rule packet_roundtrip) (simp_all add: CmdOnlySegment_ByteSize_def command_defs)

text \<open>
  for every AEAD that satisfies the laws of sealing and opening, the datagram of a packet is
  longer than the packet by \<^verbatim>\<open>Overhead()\<close> plus the nonce size: \<^verbatim>\<open>KCPPacketWriter.Overhead\<close>, from
  which the connection computes its maximum segment size, does not count the nonce.
\<close>

theorem datagram_length:
  assumes "aead_laws sec" "13 + aead_NonceSize sec + aead_Overhead sec + length b + 3 \<le> Size" "b \<noteq> []"
    and "aead_NonceSize sec \<le> length rnd"
  shows "\<exists>h' d. KCPPacketWriter_Write Header (Some sec) rnd b = Inr (h', d, length b)
     \<and> int (length d) = KCPPacketWriter_Overhead Header (Some sec) + int (aead_NonceSize sec) + int (length b)"
proof -
  obtain h' d where "KCPPacketWriter_Write Header (Some sec) rnd b = Inr (h', d, length b)"
    "int (length d) = KCPPacketWriter_Overhead Header (Some sec) + int (aead_NonceSize sec) + int (length b)"
    by (rule aead_laws.packet_law [OF assms])
  then show ?thesis by blast
qed

text \<open>
  An AEAD with a nonce of two bytes, which prefixes the plaintext with its nonce and checks it
  on opening: the laws are consistent with a nonce that is not empty.
\<close>

definition tag_aead :: AEAD where
  "tag_aead = \<lparr>aead_NonceSize = 2, aead_Overhead = 2,
     aead_Seal = (\<lambda>cap dst nonce p. Inr (dst @ nonce @ p, dst @ nonce @ p)),
     aead_Open = (\<lambda>dst nonce c. if take 2 c = nonce then Inr (dst @ drop 2 c) else Inl (NewError ''invalid''))\<rparr>"

lemma tag_aead_laws: "aead_laws tag_aead"
  by unfold_locales (auto simp: tag_aead_def)

theorem datagram_length_witness:
  "\<exists>h' d. KCPPacketWriter_Write (Some NewWireguard) (Some tag_aead) [8, 9] [1, 2, 3] = Inr (h', d, length [1, 2, 3 :: byte])
     \<and> int (length d) = KCPPacketWriter_Overhead (Some NewWireguard) (Some tag_aead) + int (aead_NonceSize tag_aead)
         + int (length [1, 2, 3 :: byte])"
  by (rule datagram_length [OF tag_aead_laws]) (simp_all add: tag_aead_def Size_def)

text \<open>
  C39: no datagram, of whatever content, makes the packet reader with the legacy authenticator
  panic: the length guards in front of the header, of \<^verbatim>\<open>Open\<close> and of the segment parsers
  suffice for every index they use.
\<close>

theorem KCPPacketReader_never_panics:
  assumes "length b \<le> 65535"
  shows "KCPPacketReader_Read (Some NewSimpleAuthenticator) Header b \<noteq> Inl Panic"
proof -
  have sec: "(if length x \<le> 0 + 6 then Inr []
      else case SimpleAuthenticator_Open [] [] x of Inl Panic \<Rightarrow> Inl Panic | Inl err \<Rightarrow> Inr []
        | Inr out \<Rightarrow> read_frames ReadSegment out) \<noteq> Inl Panic" for x
    using SimpleAuthenticator_Open_safe [of x "[]"] safe_not_Panic [OF segments.read_frames_safe]
    by (cases "length x \<le> 6") (auto split: sum.splits go_error.splits)
  note r = KCPPacketReader_Read_def NewSimpleAuthenticator_def SimpleAuthenticator_NonceSize_def
    SimpleAuthenticator_Overhead_def Let_def
  show ?thesis
  proof (cases Header)
    case None
    with sec [of b] show ?thesis by (cases "length b \<le> 6") (simp_all add: r)
  next
    case (Some h)
    have "i32 (int (length b)) = int (length b)" using assms by simp
    with Some sec [of "drop (nat (Header_Size h)) b"] Header_Size_bounds(1) [of h] show ?thesis
      by (cases "length b - nat (Header_Size h) \<le> 6"; cases "int (length b) \<le> Header_Size h")
        (simp_all add: r)
  qed
qed

theorem KCPPacketReader_never_panics_witness:
  "KCPPacketReader_Read (Some NewSimpleAuthenticator) (Some NewWireguard) [1, 2, 3, 4, 5, 6, 7, 8, 9, 10, 11] \<noteq> Inl Panic"
  by (rule KCPPacketReader_never_panics) simp

end
