(* ===== verification/KcpConnection.thy ===== *)
theory KcpConnection
  imports KcpSending KcpReceiving KcpIO
begin

text \<open>
  \<^verbatim>\<open>transport/internet/kcp/connection.go\<close>: the connection, which joins the sending and the
  receiving worker, the round-trip estimator, the updaters and the closing handshake.

  The clock is an argument: \<open>current\<close> is what \<^verbatim>\<open>Elapsed()\<close> returns in the call. Segments handed to
  \<^verbatim>\<open>output\<close> are appended to \<open>c_sent\<close>. A notifier is the token in its channel; an updater is the flag
  whether its goroutine runs. \<^verbatim>\<open>go c.Terminate()\<close> is a pending call, executed by a later step.
\<close>

datatype State = StateActive | StateReadyToClose | StatePeerClosed | StateTerminating | StatePeerTerminating | StateTerminated

definition State_Is :: "State \<Rightarrow> State list \<Rightarrow> bool" where
  "State_Is s states \<longleftrightarrow> s \<in> set states"

section \<open>Updater\<close>

record Updater =
  up_interval :: u64
  up_running :: bool

definition NewUpdater :: "u32 \<Rightarrow> Updater" where
  "NewUpdater interval = \<lparr>up_interval = ucast interval * 1000000, up_running = False\<rparr>"

text \<open>\<^verbatim>\<open>WakeUp\<close>: takes the semaphore's token and starts \<^verbatim>\<open>run\<close>, or does nothing.\<close>

definition Updater_WakeUp :: "Updater \<Rightarrow> Updater" where
  "Updater_WakeUp u = u\<lparr>up_running := True\<rparr>"

definition Updater_SetInterval :: "Updater \<Rightarrow> u64 \<Rightarrow> Updater" where
  "Updater_SetInterval u d = u\<lparr>up_interval := d\<rparr>"

section \<open>Connection\<close>

record Connection =
  c_Conversation :: u16
  c_Config :: "Config option"
  c_state :: State
  c_stateBeginTime :: u32
  c_lastIncomingTime :: u32
  c_lastPingTime :: u32
  c_mss :: u32
  c_roundTrip :: RoundTripInfo
  c_receivingWorker :: ReceivingWorker
  c_sendingWorker :: SendingWorker
  c_dataInput :: bool
  c_dataOutput :: bool
  c_dataUpdater :: Updater
  c_pingUpdater :: Updater
  c_terminate_pending :: bool
  c_output_closed :: bool
  c_closed :: bool
  c_sent :: "Segment list"

definition NewConnection :: "u16 \<Rightarrow> int \<Rightarrow> Config option \<Rightarrow> Connection result" where
  "NewConnection conversation overhead config =
     bind_res (GetReceivingInFlightSize config) (\<lambda>receivingInFlight.
     bind_res (NewSendingWorker config) (\<lambda>sendingWorker.
       Inr \<lparr>c_Conversation = conversation, c_Config = config, c_state = StateActive, c_stateBeginTime = 0,
            c_lastIncomingTime = 0, c_lastPingTime = 0,
            c_mss = GetMTUValue config - word_of_int overhead - DataSegmentOverhead,
            c_roundTrip = \<lparr>rt_variation = 0, rt_srtt = 0, rt_rto = 100, rt_minRtt = GetTTIValue config,
                           rt_updatedTimestamp = 0\<rparr>,
            c_receivingWorker = NewReceivingWorker receivingInFlight, c_sendingWorker = sendingWorker,
            c_dataInput = False, c_dataOutput = False,
            c_dataUpdater = NewUpdater (GetTTIValue config),
            c_pingUpdater = Updater_WakeUp (NewUpdater 5000),
            c_terminate_pending = False, c_output_closed = False, c_closed = False, c_sent = []\<rparr>))"

text \<open>\<^verbatim>\<open>c.output.Write\<close>: a released writer refuses (its error is ignored by all callers).\<close>

definition output_Write :: "Connection \<Rightarrow> Segment list \<Rightarrow> Connection" where
  "output_Write c segs = (if c_output_closed c then c else c\<lparr>c_sent := c_sent c @ segs\<rparr>)"

definition isTerminating :: "Connection \<Rightarrow> bool" where
  "isTerminating c = State_Is (c_state c) [StateTerminating, StateTerminated]"

definition dataUpdater_shouldContinue :: "Connection \<Rightarrow> bool" where
  "dataUpdater_shouldContinue c \<longleftrightarrow> \<not> isTerminating c
     \<and> (SendingWorker_UpdateNecessary (c_sendingWorker c) \<or> ReceivingWorker_UpdateNecessary (c_receivingWorker c))"

definition pingUpdater_shouldContinue :: "Connection \<Rightarrow> bool" where
  "pingUpdater_shouldContinue c \<longleftrightarrow> c_state c \<noteq> StateTerminated"

definition SetState :: "u32 \<Rightarrow> State \<Rightarrow> Connection \<Rightarrow> Connection" where
  "SetState current state c =
     (let c = c\<lparr>c_state := state, c_stateBeginTime := current\<rparr>;
          closeWrite = (\<lambda>c. c\<lparr>c_sendingWorker := CloseWrite (c_sendingWorker c)\<rparr>);
          oneSecond = (\<lambda>c. c\<lparr>c_pingUpdater := Updater_SetInterval (c_pingUpdater c) 1000000000\<rparr>)
      in case state of
           StateActive \<Rightarrow> c
         | StateReadyToClose \<Rightarrow> c
         | StatePeerClosed \<Rightarrow> closeWrite c
         | StateTerminating \<Rightarrow> oneSecond (closeWrite c)
         | StatePeerTerminating \<Rightarrow> oneSecond (closeWrite c)
         | StateTerminated \<Rightarrow>
             let c = oneSecond (closeWrite c) in
             c\<lparr>c_dataUpdater := Updater_WakeUp (c_dataUpdater c),
               c_pingUpdater := Updater_WakeUp (c_pingUpdater c), c_terminate_pending := True\<rparr>)"

text \<open>\<^verbatim>\<open>Close\<close>: the error (\<open>None\<close> for nil) and the connection.\<close>

definition ErrClosedConnection :: go_error where "ErrClosedConnection = NewError ''Connection closed.''"
definition ErrIOTimeout :: go_error where "ErrIOTimeout = NewError ''Read/Write timeout''"

definition Connection_Close :: "u32 \<Rightarrow> Connection \<Rightarrow> go_error option \<times> Connection" where
  "Connection_Close current c =
     (let c = c\<lparr>c_dataInput := True, c_dataOutput := True\<rparr> in
      case c_state c of
        StateReadyToClose \<Rightarrow> (Some ErrClosedConnection, c)
      | StateTerminating \<Rightarrow> (Some ErrClosedConnection, c)
      | StateTerminated \<Rightarrow> (Some ErrClosedConnection, c)
      | StateActive \<Rightarrow> (None, SetState current StateReadyToClose c)
      | StatePeerClosed \<Rightarrow> (None, SetState current StateTerminating c)
      | StatePeerTerminating \<Rightarrow> (None, SetState current StateTerminated c))"

definition Terminate :: "Connection \<Rightarrow> Connection" where
  "Terminate c = c\<lparr>c_dataInput := True, c_dataOutput := True, c_closed := True,
     c_sendingWorker := SendingWorker_Release (c_sendingWorker c),
     c_receivingWorker := ReceivingWorker_Release (c_receivingWorker c),
     c_output_closed := True, c_terminate_pending := False\<rparr>"

definition OnPeerClosed :: "u32 \<Rightarrow> Connection \<Rightarrow> Connection" where
  "OnPeerClosed current c =
     (case c_state c of
        StateReadyToClose \<Rightarrow> SetState current StateTerminating c
      | StateActive \<Rightarrow> SetState current StatePeerClosed c
      | _ \<Rightarrow> c)"

definition HandleOption :: "u32 \<Rightarrow> SegmentOption \<Rightarrow> Connection \<Rightarrow> Connection" where
  "HandleOption current opt c =
     (if opt AND SegmentOptionClose = SegmentOptionClose then OnPeerClosed current c else c)"

text \<open>The three cases of the type switch in \<^verbatim>\<open>Input\<close>.\<close>

definition Input_data :: "u32 \<Rightarrow> DataSegment \<Rightarrow> Connection \<Rightarrow> Connection" where
  "Input_data current seg c =
     (let c = HandleOption current (ds_Option seg) c;
          c = c\<lparr>c_receivingWorker := ReceivingWorker_ProcessSegment (c_receivingWorker c) seg\<rparr>;
          c = (if IsDataAvailable (c_receivingWorker c) then c\<lparr>c_dataInput := True\<rparr> else c)
      in c\<lparr>c_dataUpdater := Updater_WakeUp (c_dataUpdater c)\<rparr>)"

definition Input_ack :: "u32 \<Rightarrow> AckSegment \<Rightarrow> Connection \<Rightarrow> Connection" where
  "Input_ack current seg c =
     (let c = HandleOption current (as_Option seg) c;
          (w, rt) = SendingWorker_ProcessSegment (c_sendingWorker c) (c_roundTrip c) current seg (rt_rto (c_roundTrip c))
      in c\<lparr>c_sendingWorker := w, c_roundTrip := rt, c_dataOutput := True,
           c_dataUpdater := Updater_WakeUp (c_dataUpdater c)\<rparr>)"

definition OnTerminate :: "u32 \<Rightarrow> Connection \<Rightarrow> Connection" where
  "OnTerminate current c =
     (case c_state c of
        StateActive \<Rightarrow> SetState current StatePeerTerminating c
      | StatePeerClosed \<Rightarrow> SetState current StatePeerTerminating c
      | StateReadyToClose \<Rightarrow> SetState current StateTerminating c
      | StateTerminating \<Rightarrow> SetState current StateTerminated c
      | _ \<Rightarrow> c)"

definition Input_cmd :: "u32 \<Rightarrow> CmdOnlySegment \<Rightarrow> Connection \<Rightarrow> Connection" where
  "Input_cmd current seg c =
     (let c = HandleOption current (cs_Option seg) c;
          c = (if cs_Cmd seg = CommandTerminate then OnTerminate current c else c);
          c = (if cs_Option seg = SegmentOptionClose \<or> cs_Cmd seg = CommandTerminate
               then c\<lparr>c_dataInput := True, c_dataOutput := True\<rparr> else c)
      in c\<lparr>c_sendingWorker := ProcessReceivingNext (c_sendingWorker c) (cs_ReceivingNext seg),
           c_receivingWorker := ProcessSendingNext (c_receivingWorker c) (cs_SendingNext seg),
           c_roundTrip := UpdatePeerRTO (c_roundTrip c) (cs_PeerRTO seg) current\<rparr>)"

fun Input_loop :: "u32 \<Rightarrow> Segment list \<Rightarrow> Connection \<Rightarrow> Connection" where
  "Input_loop current [] c = c"
| "Input_loop current (seg # segs) c =
     (if Segment_Conversation seg \<noteq> c_Conversation c then c
      else Input_loop current segs
        (case seg of DataSeg d \<Rightarrow> Input_data current d c | AckSeg a \<Rightarrow> Input_ack current a c
         | CmdSeg k \<Rightarrow> Input_cmd current k c))"

definition Connection_Input :: "u32 \<Rightarrow> Segment list \<Rightarrow> Connection \<Rightarrow> Connection" where
  "Connection_Input current segments c = Input_loop current segments (c\<lparr>c_lastIncomingTime := current\<rparr>)"

definition Connection_Ping :: "u32 \<Rightarrow> Command \<Rightarrow> Connection \<Rightarrow> Connection" where
  "Connection_Ping current cmd c =
     (let seg = NewCmdOnlySegment\<lparr>cs_Conv := c_Conversation c, cs_Cmd := cmd,
            cs_ReceivingNext := rw_nextNumber (c_receivingWorker c),
            cs_SendingNext := snd_firstUnacknowledged (c_sendingWorker c),
            cs_PeerRTO := rt_rto (c_roundTrip c),
            cs_Option := if c_state c = StateReadyToClose then SegmentOptionClose else 0\<rparr>
      in (output_Write c [CmdSeg seg])\<lparr>c_lastPingTime := current\<rparr>)"

text \<open>The last part of \<^verbatim>\<open>flush\<close>: acknowledgements, data, ping.\<close>

definition flush_output :: "u32 \<Rightarrow> Connection \<Rightarrow> Connection result" where
  "flush_output current c =
     (let closing = (c_state c = StateReadyToClose);
          (rw, acks) = ReceivingWorker_Flush (c_Conversation c) closing (rt_rto (c_roundTrip c)) (c_receivingWorker c) current;
          c = (output_Write c acks)\<lparr>c_receivingWorker := rw\<rparr>
      in bind_res (SendingWorker_Flush (c_Conversation c) closing (c_Config c) (rt_rto (c_roundTrip c))
                     (c_sendingWorker c) current) (\<lambda>(w, data, ping).
           let c = (output_Write c data)\<lparr>c_sendingWorker := w\<rparr>;
               c = (if ping then Connection_Ping current CommandPing c else c)
           in Inr (if current - c_lastPingTime c \<ge> 3000 then Connection_Ping current CommandPing c else c)))"

definition Connection_flush :: "u32 \<Rightarrow> Connection \<Rightarrow> Connection result" where
  "Connection_flush current c =
     (if c_state c = StateTerminated then Inr c
      else
        let c = (if c_state c = StateActive \<and> current - c_lastIncomingTime c \<ge> 30000
                 then snd (Connection_Close current c) else c);
            c = (if c_state c = StateReadyToClose \<and> SendingWorker_IsEmpty (c_sendingWorker c)
                 then SetState current StateTerminating c else c)
        in if c_state c = StateTerminating then
             let c = Connection_Ping current CommandTerminate c in
             Inr (if current - c_stateBeginTime c > 8000 then SetState current StateTerminated c else c)
           else
             let c = (if c_state c = StatePeerTerminating \<and> current - c_stateBeginTime c > 4000
                      then SetState current StateTerminating c else c);
                 c = (if c_state c = StateReadyToClose \<and> current - c_stateBeginTime c > 15000
                      then SetState current StateTerminating c else c)
             in flush_output current c)"

section \<open>Reading and writing\<close>

text \<open>One round of the reading loops: a result, or \<^verbatim>\<open>waitForDataInput\<close>.\<close>

datatype 'a io_round = Done 'a | Failed go_error | Wait

definition reads_closed :: "Connection \<Rightarrow> bool" where
  "reads_closed c = State_Is (c_state c) [StateReadyToClose, StateTerminating, StateTerminated]"

definition Connection_ReadMultiBuffer :: "Connection \<Rightarrow> MultiBuffer io_round \<times> Connection" where
  "Connection_ReadMultiBuffer c =
     (if reads_closed c then (Failed EOF, c)
      else
        let (mb, w) = ReceivingWorker_ReadMultiBuffer (c_receivingWorker c); c = c\<lparr>c_receivingWorker := w\<rparr> in
        if \<not> MultiBuffer_IsEmpty mb then (Done mb, c\<lparr>c_dataUpdater := Updater_WakeUp (c_dataUpdater c)\<rparr>)
        else if c_state c = StatePeerTerminating then (Failed EOF, c)
        else (Wait, c))"

definition Connection_Read :: "Connection \<Rightarrow> nat \<Rightarrow> (byte list io_round \<times> Connection) result" where
  "Connection_Read c n =
     (if reads_closed c then Inr (Failed EOF, c)
      else bind_res (ReceivingWorker_Read (c_receivingWorker c) n) (\<lambda>(xs, w).
        let c = c\<lparr>c_receivingWorker := w\<rparr> in
        Inr (if length xs > 0 then (Done xs, c\<lparr>c_dataUpdater := Updater_WakeUp (c_dataUpdater c)\<rparr>) else (Wait, c))))"

text \<open>
  \<^verbatim>\<open>writeMultiBufferInternal\<close> on the input \<open>inp\<close>, with the buffer \<open>b\<close> that waits to be pushed. It ends when
  the input is used up (\<open>WDone\<close>), when the connection is no longer active (\<open>WClosed\<close>), or it blocks in
  \<^verbatim>\<open>waitForDataOutput\<close> with the buffer and the input left (\<open>WBlocked\<close>). \<^verbatim>\<open>io.LimitReader\<close> reports the end
  of the input when the limit is zero.
\<close>

datatype write_outcome = WDone | WClosed | WBlocked Buffer "byte list"

definition limited_read :: "u32 \<Rightarrow> (byte list) io_Reader" where
  "limited_read mss inp n =
     (if mss = 0 \<or> inp = [] then ([], Some EOF, inp)
      else let m = min n (unat mss) in (take m inp, None, drop m inp))"

definition write_chunk :: "u32 \<Rightarrow> Buffer option \<Rightarrow> byte list \<Rightarrow> (Buffer \<times> byte list) option result" where
  "write_chunk mss pending inp =
     (case pending of
        Some b \<Rightarrow> Inr (Some (b, inp))
      | None \<Rightarrow> bind_res (Buffer_ReadFrom (limited_read mss) inp New) (\<lambda>(b, n, err, inp').
          Inr (if err \<noteq> None then None else Some (b, inp'))))"

function write_loop :: "Connection \<Rightarrow> Buffer option \<Rightarrow> byte list \<Rightarrow> (write_outcome \<times> Connection) result" where
  "write_loop c pending inp =
     (if c_state c \<noteq> StateActive then Inr (WClosed, c)
      else case write_chunk (c_mss c) pending inp of
             Inl e \<Rightarrow> Inl e
           | Inr None \<Rightarrow> Inr (WDone, c)
           | Inr (Some (b, inp')) \<Rightarrow>
               let (pushed, w) = SendingWorker_Push (c_sendingWorker c) b in
               if \<not> pushed then Inr (WBlocked b inp', c)
               else if pending = None \<and> length inp' \<ge> length inp then Inl Panic \<comment> \<open>not reachable: a read consumes input\<close>
               else write_loop (c\<lparr>c_sendingWorker := w\<rparr>) None inp')"
  by pat_completeness auto
termination
  by (relation "measures [\<lambda>(c, pending, inp). length inp + (if pending = None then 0 else 1)]")
    (auto simp: write_chunk_def split: option.splits)

declare write_loop.simps [simp del]

definition Connection_Write :: "Connection \<Rightarrow> byte list \<Rightarrow> (write_outcome \<times> Connection) result" where
  "Connection_Write c b = write_loop c None b"

definition Connection_SetReadDeadline :: "Connection \<Rightarrow> go_error option" where
  "Connection_SetReadDeadline c = (if c_state c \<noteq> StateActive then Some ErrClosedConnection else None)"

section \<open>The closing state machine\<close>

text \<open>The transitions between states, as the code makes them one at a time.\<close>

fun state_edge :: "State \<Rightarrow> State \<Rightarrow> bool" where
  "state_edge StateActive s = (s \<in> {StateReadyToClose, StatePeerClosed, StatePeerTerminating})"
| "state_edge StateReadyToClose s = (s = StateTerminating)"
| "state_edge StatePeerClosed s = (s \<in> {StateTerminating, StatePeerTerminating})"
| "state_edge StatePeerTerminating s = (s \<in> {StateTerminating, StateTerminated})"
| "state_edge StateTerminating s = (s = StateTerminated)"
| "state_edge StateTerminated s = False"

text \<open>The steps of a connection: every entry point, at any time and with any argument.\<close>

inductive conn_step :: "Connection \<Rightarrow> Connection \<Rightarrow> bool" where
  input: "conn_step c (Connection_Input current segs c)"
| update: "Connection_flush current c = Inr c' \<Longrightarrow> conn_step c c'"
| close: "Connection_Close current c = (err, c') \<Longrightarrow> conn_step c c'"
| terminate: "c_terminate_pending c \<Longrightarrow> conn_step c (Terminate c)"
| read_multi: "Connection_ReadMultiBuffer c = (r, c') \<Longrightarrow> conn_step c c'"
| read_bytes: "Connection_Read c n = Inr (r, c') \<Longrightarrow> conn_step c c'"
| write_bytes: "Connection_Write c xs = Inr (r, c') \<Longrightarrow> conn_step c c'"
| write_resume: "write_loop c (Some b) xs = Inr (r, c') \<Longrightarrow> conn_step c c'"

inductive_cases conn_stepE: "conn_step c c'"

lemma SetState_sel [simp]:
  "c_state (SetState t s c) = s" "c_stateBeginTime (SetState t s c) = t"
  "c_Config (SetState t s c) = c_Config c" "c_Conversation (SetState t s c) = c_Conversation c"
  "c_lastIncomingTime (SetState t s c) = c_lastIncomingTime c"
  by (cases s; simp add: SetState_def Let_def)+

lemma output_Write_sel [simp]:
  "c_state (output_Write c segs) = c_state c" "c_stateBeginTime (output_Write c segs) = c_stateBeginTime c"
  "c_Config (output_Write c segs) = c_Config c" "c_sendingWorker (output_Write c segs) = c_sendingWorker c"
  "c_receivingWorker (output_Write c segs) = c_receivingWorker c" "c_Conversation (output_Write c segs) = c_Conversation c"
  "c_roundTrip (output_Write c segs) = c_roundTrip c" "c_lastPingTime (output_Write c segs) = c_lastPingTime c"
  by (simp_all add: output_Write_def)

lemma Ping_sel [simp]:
  "c_state (Connection_Ping t cmd c) = c_state c" "c_stateBeginTime (Connection_Ping t cmd c) = c_stateBeginTime c"
  "c_Config (Connection_Ping t cmd c) = c_Config c"
  by (simp_all add: Connection_Ping_def Let_def)

abbreviation edges :: "State \<Rightarrow> State \<Rightarrow> bool" where
  "edges \<equiv> state_edge\<^sup>*\<^sup>*"

lemma HandleOption_edges: "edges (c_state c) (c_state (HandleOption t opt c))"
  by (cases "c_state c") (auto simp: HandleOption_def OnPeerClosed_def intro!: r_into_rtranclp)

lemma OnTerminate_edges: "edges (c_state c) (c_state (OnTerminate t c))"
  by (cases "c_state c") (auto simp: OnTerminate_def intro!: r_into_rtranclp)

lemma Input_seg_edges:
  "edges (c_state c) (c_state (Input_data t d c))" "edges (c_state c) (c_state (Input_ack t a c))"
  "edges (c_state c) (c_state (Input_cmd t k c))"
  using HandleOption_edges [of c t] rtranclp_trans [OF HandleOption_edges [of c t "cs_Option k"] OnTerminate_edges [of _ t]]
  by (auto simp: Input_data_def Input_ack_def Input_cmd_def Let_def split: prod.splits)

lemma Input_loop_edges: "edges (c_state c) (c_state (Input_loop t segs c))"
proof (induction t segs c rule: Input_loop.induct)
  case (2 t seg segs c)
  then show ?case
    using Input_seg_edges [of c t] by (cases seg) (auto intro: rtranclp_trans)
qed simp

lemma Close_edges: "edges (c_state c) (c_state (snd (Connection_Close t c)))"
  by (cases "c_state c") (auto simp: Connection_Close_def intro!: r_into_rtranclp)

lemma flush_output_sel:
  "flush_output t c = Inr c' \<Longrightarrow> c_state c' = c_state c \<and> c_stateBeginTime c' = c_stateBeginTime c \<and> c_Config c' = c_Config c"
  by (auto simp: flush_output_def Let_def bind_res_Inr_iff split: prod.splits)

lemma SetState_edges:
  "edges s (c_state c) \<Longrightarrow> (P \<Longrightarrow> state_edge (c_state c) s') \<Longrightarrow> edges s (c_state (if P then SetState t s' c else c))"
  by (auto intro: rtranclp.rtrancl_into_rtrancl)

lemma flush_edges:
  assumes "Connection_flush t c = Inr c'"
  shows "edges (c_state c) (c_state c')"
proof (cases "c_state c = StateTerminated")
  case True
  with assms show ?thesis by (simp add: Connection_flush_def)
next
  case False
  define c1 where "c1 = (if c_state c = StateActive \<and> t - c_lastIncomingTime c \<ge> 30000 then snd (Connection_Close t c) else c)"
  define c2 where "c2 = (if c_state c1 = StateReadyToClose \<and> SendingWorker_IsEmpty (c_sendingWorker c1)
      then SetState t StateTerminating c1 else c1)"
  define p where "p = Connection_Ping t CommandTerminate c2"
  define c3 where "c3 = (if c_state c2 = StatePeerTerminating \<and> t - c_stateBeginTime c2 > 4000
      then SetState t StateTerminating c2 else c2)"
  define c4 where "c4 = (if c_state c3 = StateReadyToClose \<and> t - c_stateBeginTime c3 > 15000
      then SetState t StateTerminating c3 else c3)"
  have "edges (c_state c) (c_state c1)" using Close_edges [of c t] unfolding c1_def by (cases "c_state c") auto
  then have e2: "edges (c_state c) (c_state c2)" unfolding c2_def by (rule SetState_edges) auto
  have "edges (c_state c) (c_state c3)" using e2 unfolding c3_def by (rule SetState_edges) auto
  then have e4: "edges (c_state c) (c_state c4)" unfolding c4_def by (rule SetState_edges) auto
  show ?thesis
  proof (cases "c_state c2 = StateTerminating")
    case True
    then have "c' = (if t - c_stateBeginTime p > 8000 then SetState t StateTerminated p else p)"
      using assms False unfolding Connection_flush_def Let_def c1_def [symmetric] c2_def [symmetric] p_def by simp
    moreover have "edges (c_state c) (c_state p)" using e2 by (simp add: p_def)
    ultimately show ?thesis using True by (auto simp: p_def intro: rtranclp.rtrancl_into_rtrancl)
  next
    case nt: False
    then have "flush_output t c4 = Inr c'"
      using assms False
      unfolding Connection_flush_def Let_def c1_def [symmetric] c2_def [symmetric] c3_def [symmetric] c4_def [symmetric]
      by simp
    with e4 show ?thesis using flush_output_sel by metis
  qed
qed

text \<open>One round of the writing loop that goes on, and the end of the loop.\<close>

definition pushes :: "Connection \<Rightarrow> Buffer option \<Rightarrow> byte list \<Rightarrow> Buffer \<Rightarrow> byte list \<Rightarrow> SendingWorker \<Rightarrow> bool" where
  "pushes c pending inp b inp' w \<longleftrightarrow> c_state c = StateActive
     \<and> write_chunk (c_mss c) pending inp = Inr (Some (b, inp')) \<and> SendingWorker_Push (c_sendingWorker c) b = (True, w)
     \<and> \<not> (pending = None \<and> length inp \<le> length inp')"

lemma write_loop_step: "pushes c pending inp b inp' w
    \<Longrightarrow> write_loop c pending inp = write_loop (c\<lparr>c_sendingWorker := w\<rparr>) None inp'"
  by (subst write_loop.simps) (auto simp: pushes_def)

lemma write_loop_stop:
  "\<nexists>b inp' w. pushes c pending inp b inp' w \<Longrightarrow> write_loop c pending inp = Inr (r, c') \<Longrightarrow> c' = c"
  by (subst (asm) write_loop.simps)
    (auto simp: pushes_def Let_def split: if_splits sum.splits option.splits prod.splits)

lemma write_loop_induct:
  assumes step: "\<And>c pending inp. (\<And>b inp' w. pushes c pending inp b inp' w
      \<Longrightarrow> P (c\<lparr>c_sendingWorker := w\<rparr>) None inp') \<Longrightarrow> P c pending inp"
  shows "P c pending inp"
proof (induction c pending inp rule: write_loop.induct)
  case (1 c pending inp)
  show ?case
  proof (rule step)
    fix b inp' w assume "pushes c pending inp b inp' w"
    then show "P (c\<lparr>c_sendingWorker := w\<rparr>) None inp'"
      by (intro "1.IH" [of "Some (b, inp')" "(b, inp')" b inp' "(True, w)" True w]) (auto simp: pushes_def)
  qed
qed

lemma write_loop_state: "write_loop c pending inp = Inr (r, c') \<Longrightarrow> c_state c' = c_state c \<and> c_mss c' = c_mss c"
proof (induction c pending inp rule: write_loop_induct)
  case (1 c pending inp)
  show ?case
  proof (cases "\<exists>b inp' w. pushes c pending inp b inp' w")
    case True
    then obtain b inp' w where p: "pushes c pending inp b inp' w" by blast
    with 1 write_loop_step [OF p] show ?thesis by fastforce
  next
    case False
    with write_loop_stop "1.prems" show ?thesis by blast
  qed
qed

lemma conn_step_edges: "conn_step c c' \<Longrightarrow> edges (c_state c) (c_state c')"
proof (induction rule: conn_step.induct)
  case (input c current segs)
  then show ?case using Input_loop_edges [of "c\<lparr>c_lastIncomingTime := current\<rparr>"] by (simp add: Connection_Input_def)
next
  case (close current c err c')
  then show ?case using Close_edges [of c current] by simp
qed (auto simp: flush_edges Terminate_def Connection_ReadMultiBuffer_def Connection_Read_def Connection_Write_def Let_def
    bind_res_Inr_iff dest: write_loop_state split: if_splits prod.splits)

text \<open>The order of the states along the edges.\<close>

fun state_rank :: "State \<Rightarrow> nat" where
  "state_rank StateActive = 0"
| "state_rank StateReadyToClose = 1"
| "state_rank StatePeerClosed = 1"
| "state_rank StatePeerTerminating = 2"
| "state_rank StateTerminating = 3"
| "state_rank StateTerminated = 4"

lemma state_edge_rank: "state_edge s t \<Longrightarrow> state_rank s < state_rank t"
  by (cases s) auto

lemma edges_rank: "edges s t \<Longrightarrow> s = t \<or> state_rank s < state_rank t"
  by (induction rule: rtranclp_induct) (auto dest: state_edge_rank)

section \<open>Flushing\<close>

lemma SendingWorker_Flush_total:
  assumes "GetSendingInFlightSize (Some cfg) = Inr n"
  shows "\<exists>r. SendingWorker_Flush conv closing (Some cfg) timeout w current = Inr r"
  using assms
  by (auto simp: SendingWorker_Flush_def congestion_def OnPacketLoss_def Let_def split: prod.splits option.splits)

lemma flush_output_total:
  assumes "c_Config c = Some cfg" "GetSendingInFlightSize (Some cfg) = Inr n"
  shows "\<exists>c'. flush_output current c = Inr c'"
proof -
  obtain rw acks where rw: "ReceivingWorker_Flush (c_Conversation c) (c_state c = StateReadyToClose) (rt_rto (c_roundTrip c))
      (c_receivingWorker c) current = (rw, acks)" by fastforce
  obtain w out ping where "SendingWorker_Flush (c_Conversation c) (c_state c = StateReadyToClose) (Some cfg)
      (rt_rto (c_roundTrip c)) (c_sendingWorker c) current = Inr (w, out, ping)"
    using SendingWorker_Flush_total [OF assms(2)] by (metis prod_cases3)
  with assms(1) rw show ?thesis by (simp add: flush_output_def Let_def)
qed

lemma flush_output_law:
  assumes "c_Config c = Some cfg" "GetSendingInFlightSize (Some cfg) = Inr n"
  obtains c' where "flush_output current c = Inr c'" "c_state c' = c_state c" "c_stateBeginTime c' = c_stateBeginTime c"
    "c_Config c' = c_Config c"
  using flush_output_total [OF assms, of current] flush_output_sel by metis

lemma Connection_Close_sel [simp]: "c_Config (snd (Connection_Close t c)) = c_Config c"
  by (cases "c_state c") (simp_all add: Connection_Close_def)

lemma flush_idle:
  assumes "c_Config c = Some cfg" "GetSendingInFlightSize (Some cfg) = Inr n"
    and "c_state c = StateActive" "t - c_lastIncomingTime c \<ge> 30000"
  obtains c' where "Connection_flush t c = Inr c'" "c_state c' \<in> {StateReadyToClose, StateTerminating}"
    "c_stateBeginTime c' = t" "c_Config c' = Some cfg"
proof -
  define c1 where "c1 = snd (Connection_Close t c)"
  have c1: "c_state c1 = StateReadyToClose" "c_stateBeginTime c1 = t" "c_Config c1 = Some cfg"
    using assms(1,3) by (simp_all add: c1_def Connection_Close_def)
  obtain c2 where "flush_output t c1 = Inr c2" "c_state c2 = c_state c1" "c_stateBeginTime c2 = c_stateBeginTime c1"
    "c_Config c2 = c_Config c1"
    by (rule flush_output_law [OF c1(3) assms(2)])
  note c2 = this
  show thesis
  proof (cases "SendingWorker_IsEmpty (c_sendingWorker c1)")
    case True
    with assms(3,4) c1 have "Connection_flush t c = Inr (Connection_Ping t CommandTerminate (SetState t StateTerminating c1))"
      by (simp add: Connection_flush_def Let_def flip: c1_def)
    with c1 show thesis using that by simp
  next
    case False
    with assms(3,4) c1 c2 have "Connection_flush t c = Inr c2"
      by (simp add: Connection_flush_def Let_def flip: c1_def)
    with c1 c2 show thesis using that by simp
  qed
qed

lemma flush_ready_to_close:
  assumes "c_Config c = Some cfg" "GetSendingInFlightSize (Some cfg) = Inr n"
    and "c_state c = StateReadyToClose" "t - c_stateBeginTime c > 15000"
  obtains c' where "Connection_flush t c = Inr c'" "c_state c' = StateTerminating" "c_stateBeginTime c' = t"
    "c_Config c' = Some cfg"
proof -
  define c1 where "c1 = SetState t StateTerminating c"
  have c1: "c_state c1 = StateTerminating" "c_stateBeginTime c1 = t" "c_Config c1 = Some cfg"
    using assms(1) by (simp_all add: c1_def)
  obtain c2 where "flush_output t c1 = Inr c2" "c_state c2 = c_state c1" "c_stateBeginTime c2 = c_stateBeginTime c1"
    "c_Config c2 = c_Config c1"
    by (rule flush_output_law [OF c1(3) assms(2)])
  then show thesis
    using that assms(1,3,4) c1
    by (cases "SendingWorker_IsEmpty (c_sendingWorker c)") (auto simp: Connection_flush_def c1_def Let_def)
qed

lemma flush_terminating:
  assumes "c_state c = StateTerminating" "t - c_stateBeginTime c > 8000"
  shows "\<exists>c'. Connection_flush t c = Inr c' \<and> c_state c' = StateTerminated \<and> c_terminate_pending c'"
  using assms by (simp add: Connection_flush_def Let_def SetState_def)

section \<open>Writing\<close>

lemma limited_ReadFrom_New:
  assumes "mss \<noteq> 0" "inp \<noteq> []"
  obtains b where "Buffer_ReadFrom (limited_read mss) inp New
      = Inr (b, length (take (min Size (unat mss)) inp), None, drop (min Size (unat mss)) inp)"
    "buffer_ok b" "content b = take (min Size (unat mss)) inp"
proof -
  let ?xs = "take (min Size (unat mss)) inp"
  let ?b = "New\<lparr>buf_v := overwrite (nat (buf_end New)) ?xs (buf_v New), buf_end := buf_end New + int (length ?xs)\<rparr>"
  have len: "length ?xs \<le> Size" by simp
  then have "i32 (int (length ?xs)) = int (length ?xs)" by (simp add: Size_def)
  with assms have "Buffer_ReadFrom (limited_read mss) inp New
      = Inr (?b, length ?xs, None, drop (min Size (unat mss)) inp)"
    by (simp add: Buffer_ReadFrom_def slice_def limited_read_def Let_def)
  with content_update_v [OF New_ok(1) _ refl, of ?xs] len show thesis using that [of ?b] by simp
qed

text \<open>What the write still holds when it stops: the buffer that was not pushed and the input left.\<close>

fun unwritten :: "write_outcome \<Rightarrow> byte list" where
  "unwritten (WBlocked b inp) = content b @ inp"
| "unwritten _ = []"

definition payload_of :: "DataSegment \<Rightarrow> byte list" where
  "payload_of seg = (case ds_payload seg of None \<Rightarrow> [] | Some b \<Rightarrow> content b)"

abbreviation conn_cache :: "Connection \<Rightarrow> DataSegment list" where
  "conn_cache c \<equiv> sw_cache (snd_window (c_sendingWorker c))"

lemma Push_sel:
  assumes "SendingWorker_Push w b = (True, w')"
  shows "sw_cache (snd_window w') = sw_cache (snd_window w)
      @ [NewDataSegment\<lparr>ds_Number := snd_nextNumber w, ds_payload := Some b\<rparr>]"
    and "snd_nextNumber w' = snd_nextNumber w + 1"
  using assms by (auto simp: SendingWorker_Push_def SendingWindow_Push_def split: if_splits)

lemma write_loop_law:
  assumes "c_state c = StateActive" "c_mss c \<noteq> 0"
    and "case pending of None \<Rightarrow> True | Some b \<Rightarrow> buffer_ok b \<and> content b \<noteq> [] \<and> length (content b) \<le> min Size (unat (c_mss c))"
  shows "\<exists>r c' new. write_loop c pending inp = Inr (r, c') \<and> conn_cache c' = conn_cache c @ new
    \<and> concat (map payload_of new) @ unwritten r = (case pending of None \<Rightarrow> [] | Some b \<Rightarrow> content b) @ inp
    \<and> (\<forall>seg \<in> set new. payload_of seg \<noteq> [] \<and> length (payload_of seg) \<le> min Size (unat (c_mss c)))
    \<and> (r = WDone \<or> (\<exists>b rest. r = WBlocked b rest \<and> buffer_ok b))"
  using assms
proof (induction c pending inp rule: write_loop_induct)
  case (1 c pending inp)
  let ?pend = "case pending of None \<Rightarrow> [] | Some b \<Rightarrow> content b"
  let ?m = "min Size (unat (c_mss c))"
  have mpos: "0 < ?m" using "1.prems"(2) by (simp add: Size_def unat_gt_0)
  show ?case
  proof (cases "pending = None \<and> inp = []")
    case True
    then have "write_chunk (c_mss c) pending inp = Inr None"
      by (simp add: write_chunk_def Buffer_ReadFrom_def slice_def limited_read_def)
    with True "1.prems"(1) have "write_loop c pending inp = Inr (WDone, c)" by (subst write_loop.simps) simp
    with True show ?thesis by (intro exI [of _ WDone] exI [of _ c] exI [of _ "[]"]) simp
  next
    case False
    obtain b inp' where chunk: "write_chunk (c_mss c) pending inp = Inr (Some (b, inp'))" "buffer_ok b" "content b \<noteq> []"
      "length (content b) \<le> ?m" "content b @ inp' = ?pend @ inp" "\<not> (pending = None \<and> length inp \<le> length inp')"
    proof (cases pending)
      case None
      with False have "inp \<noteq> []" by simp
      obtain b where b: "Buffer_ReadFrom (limited_read (c_mss c)) inp New = Inr (b, length (take ?m inp), None, drop ?m inp)"
        "buffer_ok b" "content b = take ?m inp"
        by (rule limited_ReadFrom_New [OF "1.prems"(2) \<open>inp \<noteq> []\<close>])
      have "\<not> length inp \<le> length (drop ?m inp)"
        using diff_less [of ?m "length inp"] \<open>inp \<noteq> []\<close> mpos unfolding length_drop not_le by blast
      with b None \<open>inp \<noteq> []\<close> mpos show thesis
        by (intro that [of b "drop ?m inp"]) (simp_all add: write_chunk_def min_def)
    next
      case (Some b)
      with "1.prems"(3) show thesis by (intro that [of b inp]) (simp_all add: write_chunk_def)
    qed
    obtain pushed w where push: "SendingWorker_Push (c_sendingWorker c) b = (pushed, w)" by fastforce
    show ?thesis
    proof (cases pushed)
      case True
      with chunk push "1.prems"(1) have p: "pushes c pending inp b inp' w" by (simp add: pushes_def)
      let ?c = "c\<lparr>c_sendingWorker := w\<rparr>"
      from "1.IH" [OF p] "1.prems"(1,2) obtain r c' new where IH: "write_loop ?c None inp' = Inr (r, c')"
        "conn_cache c' = conn_cache ?c @ new" "concat (map payload_of new) @ unwritten r = inp'"
        "\<forall>seg \<in> set new. payload_of seg \<noteq> [] \<and> length (payload_of seg) \<le> ?m"
        "r = WDone \<or> (\<exists>b rest. r = WBlocked b rest \<and> buffer_ok b)" by auto
      let ?seg = "NewDataSegment\<lparr>ds_Number := snd_nextNumber (c_sendingWorker c), ds_payload := Some b\<rparr>"
      have "payload_of ?seg = content b" by (simp add: payload_of_def)
      moreover have "conn_cache c' = conn_cache c @ ?seg # new"
        using IH(2) Push_sel(1) [of "c_sendingWorker c" b w] push True by simp
      moreover have "write_loop c pending inp = Inr (r, c')" using write_loop_step [OF p] IH(1) by simp
      ultimately show ?thesis using IH chunk(3-5)
        by (intro exI [of _ r] exI [of _ c'] exI [of _ "?seg # new"]) auto
    next
      case False
      with chunk push "1.prems"(1) have "write_loop c pending inp = Inr (WBlocked b inp', c)"
        by (subst write_loop.simps) simp
      with chunk show ?thesis by (intro exI [of _ "WBlocked b inp'"] exI [of _ c] exI [of _ "[]"]) simp
    qed
  qed
qed

section \<open>Properties\<close>


definition demo_config :: Config where
  "demo_config = \<lparr>cfg_Mtu = None, cfg_Tti = None, cfg_UplinkCapacity = None, cfg_DownlinkCapacity = None,
     cfg_Congestion = False, cfg_WriteBuffer = None, cfg_ReadBuffer = None\<rparr>"

definition demo_connection :: Connection where
  "demo_connection = projr (NewConnection 7 6 (Some demo_config))"

lemma demo_connection_sel:
  "c_state demo_connection = StateActive" "c_Config demo_connection = Some demo_config"
  "c_lastIncomingTime demo_connection = 0" "c_mss demo_connection = 1326"
  "sw_cache (snd_window (c_sendingWorker demo_connection)) = []"
  by (simp_all add: demo_connection_def NewConnection_def NewSendingWorker_def NewSendingWindow_def demo_config_def
      GetReceivingInFlightSize_def GetSendingInFlightSize_def GetSendingBufferSize_def in_flight_size_def div_u32_def GetMTUValue_def
      GetTTIValue_def GetUplinkCapacityValue_def GetDownlinkCapacityValue_def GetWriteBufferSize_def cfg_value_def
      DataSegmentOverhead_def)

lemma demo_config_size: "\<exists>n. GetSendingInFlightSize (Some demo_config) = Inr n"
  using in_flight_sizes [of "Some demo_config"]
  by (auto simp: demo_config_def GetMTUValue_def GetTTIValue_def cfg_value_def)




text \<open>
  C5: \<^verbatim>\<open>Write\<close> loses and duplicates nothing. On an active connection it terminates without a panic; it has
  cut a prefix of its input into segments of 1 to \<^verbatim>\<open>mss\<close> bytes, appended to the sending window in
  order, and what it has not pushed when it blocks is the rest of the input.
\<close>

theorem connection_write_partition:
  assumes "c_state c = StateActive" "c_mss c \<noteq> 0"
  shows "\<exists>r c' new. Connection_Write c xs = Inr (r, c') \<and> conn_cache c' = conn_cache c @ new
    \<and> concat (map payload_of new) @ unwritten r = xs
    \<and> (\<forall>seg \<in> set new. payload_of seg \<noteq> [] \<and> length (payload_of seg) \<le> unat (c_mss c))"
  using write_loop_law [OF assms, of None xs] by (fastforce simp: Connection_Write_def)

theorem connection_write_partition_witness:
  "\<exists>r c' new. Connection_Write demo_connection [1, 2, 3] = Inr (r, c') \<and> conn_cache c' = conn_cache demo_connection @ new
    \<and> concat (map payload_of new) @ unwritten r = [1, 2, 3]
    \<and> list_all (\<lambda>seg. payload_of seg \<noteq> [] \<and> length (payload_of seg) \<le> unat (c_mss demo_connection)) new"
  unfolding list_all_iff by (rule connection_write_partition) (simp_all add: demo_connection_sel)

end
