(* ===== verification/KcpSystem.thy ===== *)
theory KcpSystem
  imports KcpSending KcpReceiving
begin

text \<open>
  One direction of an mKCP connection as a closed system: a sending worker, a receiving worker and
  a network between them that may reorder, repeat and drop every segment. The steps are the
  operations of the two workers; the theorems combine their invariants into the end-to-end
  guarantees of the protocol: what is read is a prefix of what was written, nothing is lost, and
  when the sender has nothing left to acknowledge everything has been delivered.

  Segments are numbered with 32 bits; the runs considered push fewer than \<open>2 ^ 32\<close> segments minus the
  receiving window, so that a number stands for one segment.
\<close>

section \<open>The system\<close>

record kcp_sys =
  sys_tx :: SendingWorker
  sys_rx :: ReceivingWorker
  sys_data :: "DataSegment set"
  sys_acks :: "AckSegment set"
  sys_pings :: "u32 set"
  sys_n :: nat
  sys_k :: nat
  sys_out :: "byte list"

text \<open>
  \<open>sent\<close> is the sequence of payloads the application writes, \<open>sys_n\<close> counts those pushed so far,
  \<open>sys_k\<close> those delivered; \<open>sys_out\<close> is what has been read. The sets hold everything ever put on
  the wire in either direction, so that each of it can arrive any number of times, or never.
\<close>

inductive kcp_run :: "(nat \<Rightarrow> byte list) \<Rightarrow> Config option \<Rightarrow> u32 \<Rightarrow> kcp_sys \<Rightarrow> bool"
  for sent :: "nat \<Rightarrow> byte list" and config :: "Config option" and ws :: u32 where
  start: "NewSendingWorker config = Inr w \<Longrightarrow> kcp_run sent config ws
    \<lparr>sys_tx = w, sys_rx = NewReceivingWorker ws, sys_data = {}, sys_acks = {}, sys_pings = {},
     sys_n = 0, sys_k = 0, sys_out = []\<rparr>"
| push: "kcp_run sent config ws s \<Longrightarrow> SendingWorker_Push (sys_tx s) b = (True, w) \<Longrightarrow> buffer_ok b
    \<Longrightarrow> content b = sent (sys_n s) \<Longrightarrow> Suc (sys_n s) + unat ws < 4294967296
    \<Longrightarrow> kcp_run sent config ws (s\<lparr>sys_tx := w, sys_n := Suc (sys_n s)\<rparr>)"
| flush_data: "kcp_run sent config ws s
    \<Longrightarrow> SendingWorker_Flush conv closing config timeout (sys_tx s) current = Inr (w, out, ping)
    \<Longrightarrow> kcp_run sent config ws (s\<lparr>sys_tx := w, sys_data := sys_data s \<union> {d. DataSeg d \<in> set out}\<rparr>)"
| data_arrives: "kcp_run sent config ws s \<Longrightarrow> d \<in> sys_data s
    \<Longrightarrow> kcp_run sent config ws (s\<lparr>sys_rx := ReceivingWorker_ProcessSegment (sys_rx s) d\<rparr>)"
| read_multi: "kcp_run sent config ws s \<Longrightarrow> ReceivingWorker_ReadMultiBuffer (sys_rx s) = (mb, w)
    \<Longrightarrow> kcp_run sent config ws (s\<lparr>sys_rx := w, sys_k := sys_k s + unat (rw_nextNumber w - rw_nextNumber (sys_rx s)),
          sys_out := sys_out s @ mcontent mb\<rparr>)"
| read_bytes: "kcp_run sent config ws s \<Longrightarrow> ReceivingWorker_Read (sys_rx s) n = Inr (xs, w)
    \<Longrightarrow> kcp_run sent config ws (s\<lparr>sys_rx := w, sys_k := sys_k s + unat (rw_nextNumber w - rw_nextNumber (sys_rx s)),
          sys_out := sys_out s @ xs\<rparr>)"
| flush_acks: "kcp_run sent config ws s
    \<Longrightarrow> ReceivingWorker_Flush conv closing timeout (sys_rx s) current = (w, segs)
    \<Longrightarrow> kcp_run sent config ws (s\<lparr>sys_rx := w, sys_acks := sys_acks s \<union> {a. AckSeg a \<in> set segs}\<rparr>)"
| ack_arrives: "kcp_run sent config ws s \<Longrightarrow> a \<in> sys_acks s
    \<Longrightarrow> SendingWorker_ProcessSegment (sys_tx s) rt current a rto = (w, rt')
    \<Longrightarrow> kcp_run sent config ws (s\<lparr>sys_tx := w\<rparr>)"
| ping_sent: "kcp_run sent config ws s
    \<Longrightarrow> kcp_run sent config ws (s\<lparr>sys_pings := insert (rw_nextNumber (sys_rx s)) (sys_pings s)\<rparr>)"
| ping_arrives: "kcp_run sent config ws s \<Longrightarrow> p \<in> sys_pings s
    \<Longrightarrow> kcp_run sent config ws (s\<lparr>sys_tx := ProcessReceivingNext (sys_tx s) p\<rparr>)"
| sending_next: "kcp_run sent config ws s
    \<Longrightarrow> kcp_run sent config ws (s\<lparr>sys_rx := ProcessSendingNext (sys_rx s) number\<rparr>)"

section \<open>The invariant\<close>

text \<open>The indices of the segments the receiver has: delivered, or in its window.\<close>

definition received :: "ReceivingWorker \<Rightarrow> nat \<Rightarrow> nat set" where
  "received w k = {i. i < k \<or> rw_window w (of_nat i) \<noteq> None}"

definition sys_inv :: "(nat \<Rightarrow> byte list) \<Rightarrow> u32 \<Rightarrow> kcp_sys \<Rightarrow> bool" where
  "sys_inv sent ws s \<longleftrightarrow>
     tx_inv sent (sys_n s) (sys_tx s) \<and> rx_inv sent ws (sys_rx s) (sys_k s) (sys_out s)
     \<and> sys_n s + unat ws < 4294967296 \<and> sys_k s \<le> sys_n s
     \<and> window_inv sent (sys_k s) (sys_n s) (rw_window (sys_rx s))
     \<and> (\<forall>d \<in> sys_data s. number_of d < sys_n s \<and> carries sent (number_of d) d)
     \<and> (\<forall>x \<in> set (al_numbers (rw_acklist (sys_rx s))). unat x \<in> received (sys_rx s) (sys_k s))
     \<and> (\<forall>a \<in> sys_acks s. unat (as_ReceivingNext a) \<le> sys_k s
          \<and> (\<forall>x \<in> set (as_NumberList a). unat x \<in> received (sys_rx s) (sys_k s)))
     \<and> (\<forall>p \<in> sys_pings s. unat p \<le> sys_k s)
     \<and> (\<forall>i < sys_n s. i \<in> cached (sys_tx s) \<or> i \<in> received (sys_rx s) (sys_k s))"

text \<open>
  What the receiving operations have to provide: the window stays below \<open>n\<close>, nothing that was
  received is forgotten, and new entries of the acknowledgement list are received.
\<close>

definition rx_mono :: "(nat \<Rightarrow> byte list) \<Rightarrow> nat \<Rightarrow> ReceivingWorker \<Rightarrow> nat \<Rightarrow> ReceivingWorker \<Rightarrow> nat \<Rightarrow> bool" where
  "rx_mono sent n w k w' k' \<longleftrightarrow> k \<le> k' \<and> k' \<le> n \<and> window_inv sent k' n (rw_window w')
     \<and> (\<forall>i < 4294967296. i \<in> received w k \<longrightarrow> i \<in> received w' k')
     \<and> (\<forall>x \<in> set (al_numbers (rw_acklist w')). x \<in> set (al_numbers (rw_acklist w)) \<or> unat x \<in> received w' k')"

lemma sys_inv_rx:
  assumes "sys_inv sent ws s" "rx_mono sent (sys_n s) (sys_rx s) (sys_k s) w k"
    and "rx_inv sent ws w k out" "\<forall>a \<in> acks. unat (as_ReceivingNext a) \<le> k
          \<and> (\<forall>x \<in> set (as_NumberList a). unat x \<in> received w k)"
  shows "sys_inv sent ws (s\<lparr>sys_rx := w, sys_k := k, sys_out := out, sys_acks := sys_acks s \<union> acks\<rparr>)"
proof -
  have n: "sys_n s \<le> 4294967296" using assms(1) by (simp add: sys_inv_def)
  have u: "unat (x :: u32) < 4294967296" for x by (rule unat_u32)
  have keep: "i \<in> received (sys_rx s) (sys_k s) \<Longrightarrow> i < 4294967296 \<Longrightarrow> i \<in> received w k" for i
    using assms(2) by (simp add: rx_mono_def)
  show ?thesis
    using assms n u keep unfolding sys_inv_def rx_mono_def by (auto intro: order_trans)
qed

lemma window_read:
  assumes "rx_inv sent ws w k out" "window_inv sent k n (rw_window w)" "k \<le> n" "n < 4294967296"
    and "ReceivingWorker_ReadMultiBuffer w = (mb, w')" "rw_leftOver w = None"
  shows "\<exists>k'. rw_nextNumber w' = of_nat k' \<and> k \<le> k' \<and> k' \<le> n \<and> mcontent mb = concat (map sent [k..<k'])
    \<and> window_inv sent k' n (rw_window w') \<and> rw_window w' (of_nat k') = None
    \<and> (\<forall>i. k' \<le> i \<longrightarrow> i < 4294967296 \<longrightarrow> rw_window w' (of_nat i) = rw_window w (of_nat i))
    \<and> rw_acklist w' = rw_acklist w"
proof -
  obtain win m where loop: "ReadMultiBuffer_loop (rw_window w) (of_nat k) [] = (mb, win, m)"
    and w': "w' = w\<lparr>rw_window := win, rw_nextNumber := m\<rparr>"
    using assms(1,5,6) by (auto simp: ReceivingWorker_ReadMultiBuffer_def rx_inv_def split: prod.splits)
  have "n \<le> k + 4294967296" using assms(4) by simp
  from ReadMultiBuffer_loop_law [OF assms(2) this mb_ok_simps(1) loop] assms(3) w' show ?thesis by auto
qed

lemma rx_mono_read:
  assumes "rx_inv sent ws w k out" "window_inv sent k n (rw_window w)" "k \<le> n" "n < 4294967296"
    and "ReceivingWorker_ReadMultiBuffer w = (mb, w')"
  shows "rx_mono sent n w k w' (k + unat (rw_nextNumber w' - rw_nextNumber w))"
proof (cases "rw_leftOver w")
  case None
  from window_read [OF assms None] obtain k' where
    k': "rw_nextNumber w' = of_nat k'" "k \<le> k'" "k' \<le> n" "window_inv sent k' n (rw_window w')"
      "\<And>i. k' \<le> i \<Longrightarrow> i < 4294967296 \<Longrightarrow> rw_window w' (of_nat i) = rw_window w (of_nat i)"
      "rw_acklist w' = rw_acklist w" by blast
  have "k + unat (of_nat k' - of_nat k :: u32) = k'" using unat_diff_of_nat [of k k'] k'(2,3) assms(4) by simp
  moreover have "rw_nextNumber w = of_nat k" using assms(1) by (simp add: rx_inv_def)
  moreover have "i \<in> received w k \<Longrightarrow> i < 4294967296 \<Longrightarrow> i \<in> received w' k'" for i
    using k'(2) k'(5) [of i] by (cases "i < k'") (auto simp: received_def)
  ultimately show ?thesis using k' by (simp add: rx_mono_def)
next
  case (Some mb0)
  then have "w' = w\<lparr>rw_leftOver := None\<rparr>" using assms(5) by (simp add: ReceivingWorker_ReadMultiBuffer_def)
  with assms show ?thesis by (simp add: rx_mono_def received_def)
qed

lemma Read_ReadMultiBuffer:
  assumes "ReceivingWorker_Read w n = Inr (xs, w')"
  obtains mb v where "ReceivingWorker_ReadMultiBuffer w = (mb, v)" "rw_window w' = rw_window v"
    "rw_nextNumber w' = rw_nextNumber v" "rw_acklist w' = rw_acklist v"
proof -
  obtain mb v where "ReceivingWorker_ReadMultiBuffer w = (mb, v)" by fastforce
  with assms show thesis
    by (intro that [of mb v]) (auto simp: ReceivingWorker_Read_def bind_res_Inr_iff split: if_splits)
qed

lemma set_al_numbers_Clear: "acklist_ok l \<Longrightarrow> set (al_numbers (AckList_Clear l una)) \<subseteq> set (al_numbers l)"
proof -
  assume ok: "acklist_ok l"
  have fst: "al_numbers m = map fst (entries m)" if "acklist_ok m" for m
    using that by (simp add: entries_def acklist_ok_def)
  show ?thesis using AckList_Clear_law [OF ok, of una] fst [OF ok] fst [of "AckList_Clear l una"] by auto
qed

lemma rx_mono_segment:
  assumes inv: "sys_inv sent ws s" and d: "d \<in> sys_data s"
  shows "rx_mono sent (sys_n s) (sys_rx s) (sys_k s) (ReceivingWorker_ProcessSegment (sys_rx s) d) (sys_k s)"
    and "genuine sent (sys_k s) ws (number_of d) d"
proof -
  have nd: "number_of d < sys_n s" "carries sent (number_of d) d" and bound: "sys_n s + unat ws < 4294967296" "sys_k s \<le> sys_n s"
    and win: "window_inv sent (sys_k s) (sys_n s) (rw_window (sys_rx s))"
    and rx: "rx_inv sent ws (sys_rx s) (sys_k s) (sys_out s)"
    using inv d by (auto simp: sys_inv_def)
  have num: "ds_Number d = of_nat (number_of d)" by (simp add: number_of_def)
  then show g: "genuine sent (sys_k s) ws (number_of d) d" using nd bound by (simp add: genuine_def)
  let ?w = "sys_rx s" and ?k = "sys_k s"
  show "rx_mono sent (sys_n s) ?w ?k (ReceivingWorker_ProcessSegment ?w d) ?k"
  proof (cases "ds_Number d - rw_nextNumber ?w \<ge> rw_windowSize ?w")
    case True
    with win bound show ?thesis by (simp add: ReceivingWorker_ProcessSegment_def rx_mono_def)
  next
    case False
    have "?k \<le> number_of d"
      using u32_window [of "number_of d" ?k ws] False rx g by (simp add: rx_inv_def genuine_def not_le)
    then have "window_inv sent ?k (sys_n s) (rw_window (ReceivingWorker_ProcessSegment ?w d))"
      using win nd num False
      by (auto simp: ReceivingWorker_ProcessSegment_def ReceivingWindow_Set_def window_inv_def Let_def split: option.splits)
    moreover have "rw_window (ReceivingWorker_ProcessSegment ?w d) (ds_Number d) \<noteq> None"
      "\<And>x. rw_window ?w x \<noteq> None \<Longrightarrow> rw_window (ReceivingWorker_ProcessSegment ?w d) x \<noteq> None"
      using False by (auto simp: ReceivingWorker_ProcessSegment_def ReceivingWindow_Set_def Let_def split: option.splits)
    moreover have "set (al_numbers (rw_acklist (ReceivingWorker_ProcessSegment ?w d)))
        \<subseteq> insert (ds_Number d) (set (al_numbers (rw_acklist ?w)))"
      using False rx set_al_numbers_Clear [of "rw_acklist ?w" "ds_SendingNext d"]
      by (auto simp: ReceivingWorker_ProcessSegment_def AckList_Add_def Let_def rx_inv_def split: prod.splits)
    ultimately show ?thesis using bound(2) by (auto simp: rx_mono_def received_def)
  qed
qed

section \<open>The invariant holds in every run\<close>

lemma sys_inv_tx:
  assumes "sys_inv sent ws s" "tx_inv sent (sys_n s) w"
    and "\<forall>i < sys_n s. i \<in> cached (sys_tx s) \<longrightarrow> i \<in> cached w \<or> i \<in> received (sys_rx s) (sys_k s)"
    and "\<forall>d \<in> data. number_of d < sys_n s \<and> carries sent (number_of d) d"
  shows "sys_inv sent ws (s\<lparr>sys_tx := w, sys_data := sys_data s \<union> data\<rparr>)"
  using assms unfolding sys_inv_def by auto

lemma kcp_run_inv: "kcp_run sent config ws s \<Longrightarrow> sys_inv sent ws s"
proof (induction rule: kcp_run.induct)
  case (start w)
  then have "tx_inv sent 0 w"
    by (auto simp: NewSendingWorker_def bind_res_Inr_iff tx_inv_def NewSendingWindow_def)
  moreover have "rx_inv sent ws (NewReceivingWorker ws) 0 []" by (rule rx_rx_inv [OF rx.start])
  ultimately show ?case
    using unat_u32 [of ws]
    by (simp add: sys_inv_def NewReceivingWorker_def NewReceivingWindow_def window_inv_def NewAckList_def)
next
  case (push s b w)
  from push.IH have "tx_inv sent (sys_n s) (sys_tx s)" by (simp add: sys_inv_def)
  note law = SendingWorker_Push_law [OF this push.hyps(2-4)]
  have "Suc (sys_n s) < 4294967296" using push.hyps(5) by simp
  with law have l: "tx_inv sent (Suc (sys_n s)) w" "cached w = insert (sys_n s) (cached (sys_tx s))" by auto
  have "window_inv sent (sys_k s) (Suc (sys_n s)) (rw_window (sys_rx s))"
    using push.IH window_inv_mono [of sent "sys_k s" "sys_n s"] by (simp add: sys_inv_def)
  with push.IH push.hyps(5) l show ?case by (auto simp: sys_inv_def less_Suc_eq)
next
  case (flush_data s conv closing timeout current w out ping)
  from flush_data.IH have "tx_inv sent (sys_n s) (sys_tx s)" by (simp add: sys_inv_def)
  note law = SendingWorker_Flush_law [OF this flush_data.hyps(2)]
  show ?case using sys_inv_tx [OF flush_data.IH law(1), of "{d. DataSeg d \<in> set out}"] law(2,3) by fastforce
next
  case (data_arrives s d)
  note m = rx_mono_segment [OF data_arrives.IH data_arrives.hyps(2)]
  have "rx_inv sent ws (ReceivingWorker_ProcessSegment (sys_rx s) d) (sys_k s) (sys_out s)"
    using data_arrives.IH m(2) rx_inv_ProcessSegment by (simp add: sys_inv_def)
  from sys_inv_rx [OF data_arrives.IH m(1) this, of "{}"] show ?case by simp
next
  case (read_multi s mb w)
  from read_multi.IH have i: "rx_inv sent ws (sys_rx s) (sys_k s) (sys_out s)"
    "window_inv sent (sys_k s) (sys_n s) (rw_window (sys_rx s))" "sys_k s \<le> sys_n s" "sys_n s < 4294967296"
    by (simp_all add: sys_inv_def)
  from sys_inv_rx [OF read_multi.IH rx_mono_read [OF i read_multi.hyps(2)]
      rx_inv_ReadMultiBuffer(1) [OF i(1) read_multi.hyps(2)], of "{}"] show ?case by simp
next
  case (read_bytes s n xs w)
  from read_bytes.IH have i: "rx_inv sent ws (sys_rx s) (sys_k s) (sys_out s)"
    "window_inv sent (sys_k s) (sys_n s) (rw_window (sys_rx s))" "sys_k s \<le> sys_n s" "sys_n s < 4294967296"
    by (simp_all add: sys_inv_def)
  obtain mb v where v: "ReceivingWorker_ReadMultiBuffer (sys_rx s) = (mb, v)" "rw_window w = rw_window v"
    "rw_nextNumber w = rw_nextNumber v" "rw_acklist w = rw_acklist v"
    by (rule Read_ReadMultiBuffer [OF read_bytes.hyps(2)])
  from rx_mono_read [OF i v(1)] v(2-4)
  have "rx_mono sent (sys_n s) (sys_rx s) (sys_k s) w (sys_k s + unat (rw_nextNumber w - rw_nextNumber (sys_rx s)))"
    by (simp add: rx_mono_def received_def)
  from sys_inv_rx [OF read_bytes.IH this rx_inv_Read [OF i(1) read_bytes.hyps(2)], of "{}"] show ?case by simp
next
  case (flush_acks s conv closing timeout current w segs)
  obtain l out where l: "AckList_Flush (rw_acklist (sys_rx s)) current timeout = (l, out)" by fastforce
  with flush_acks.hyps(2) have w: "w = (sys_rx s)\<lparr>rw_acklist := l\<rparr>"
    "segs = map (ReceivingWorker_Write conv closing (sys_rx s)) out"
    by (simp_all add: ReceivingWorker_Flush_def)
  from flush_acks.IH have rx: "rx_inv sent ws (sys_rx s) (sys_k s) (sys_out s)" by (simp add: sys_inv_def)
  then have "acklist_ok (rw_acklist (sys_rx s))" by (simp add: rx_inv_def)
  note law = AckList_Flush_law [OF this l]
  have rx': "rx_inv sent ws w (sys_k s) (sys_out s)" using rx law(4) w by (simp add: rx_inv_def leftover_def)
  have mono: "rx_mono sent (sys_n s) (sys_rx s) (sys_k s) w (sys_k s)"
    using flush_acks.IH law(5) w by (simp add: rx_mono_def sys_inv_def received_def)
  have k: "unat (of_nat (sys_k s) :: u32) = sys_k s" using flush_acks.IH by (simp add: sys_inv_def unat_u32_of_nat)
  have "unat (as_ReceivingNext a) \<le> sys_k s \<and> (\<forall>x \<in> set (as_NumberList a). unat x \<in> received w (sys_k s))"
    if "AckSeg a \<in> set segs" for a
  proof -
    from that w obtain a0 where a0: "a0 \<in> set out" "AckSeg a = ReceivingWorker_Write conv closing (sys_rx s) a0" by auto
    then have a: "as_ReceivingNext a = rw_nextNumber (sys_rx s)" "as_NumberList a = as_NumberList a0"
      by (simp_all add: ReceivingWorker_Write_def)
    have "set (as_NumberList a0) \<subseteq> set (al_numbers (rw_acklist (sys_rx s)))"
      using law(3) a0(1) by (auto simp: reported_def)
    with flush_acks.IH a rx k w(1) show ?thesis by (auto simp: sys_inv_def rx_inv_def received_def)
  qed
  then have "\<forall>a \<in> {a. AckSeg a \<in> set segs}. unat (as_ReceivingNext a) \<le> sys_k s
      \<and> (\<forall>x \<in> set (as_NumberList a). unat x \<in> received w (sys_k s))" by blast
  from sys_inv_rx [OF flush_acks.IH mono rx' this] show ?case by simp
next
  case (ack_arrives s a rt current rto w rt')
  from ack_arrives.IH have "tx_inv sent (sys_n s) (sys_tx s)" by (simp add: sys_inv_def)
  note law = SendingWorker_ProcessSegment_law [OF this ack_arrives.hyps(3)]
  have a: "unat (as_ReceivingNext a) \<le> sys_k s" "\<forall>x \<in> set (as_NumberList a). unat x \<in> received (sys_rx s) (sys_k s)"
    using ack_arrives.IH ack_arrives.hyps(2) by (auto simp: sys_inv_def)
  have "i \<in> cached w \<or> i \<in> received (sys_rx s) (sys_k s)" if "i \<in> cached (sys_tx s)" for i
  proof (cases "unat (as_ReceivingNext a) \<le> i")
    case True
    with law(2) that a(2) show ?thesis by blast
  next
    case False
    with a(1) show ?thesis by (simp add: received_def)
  qed
  with sys_inv_tx [OF ack_arrives.IH law(1), of "{}"] show ?case by simp
next
  case (ping_sent s)
  then have "unat (rw_nextNumber (sys_rx s)) \<le> sys_k s"
    by (simp add: sys_inv_def rx_inv_def unat_u32_of_nat)
  with ping_sent.IH show ?case by (simp add: sys_inv_def)
next
  case (ping_arrives s p)
  from ping_arrives.IH have "tx_inv sent (sys_n s) (sys_tx s)" by (simp add: sys_inv_def)
  note law = ProcessReceivingNext_law [OF this, of p]
  have "unat p \<le> sys_k s" using ping_arrives by (simp add: sys_inv_def)
  then have "\<forall>i < sys_n s. i \<in> cached (sys_tx s) \<longrightarrow> i \<in> cached (ProcessReceivingNext (sys_tx s) p) \<or> i \<in> received (sys_rx s) (sys_k s)"
    unfolding law(2) by (auto simp: received_def)
  from sys_inv_tx [OF ping_arrives.IH law(1) this, of "{}"] show ?case by simp
next
  case (sending_next s number)
  have ok: "acklist_ok (rw_acklist (sys_rx s))" using sending_next.IH by (simp add: sys_inv_def rx_inv_def)
  have "rx_mono sent (sys_n s) (sys_rx s) (sys_k s) (ProcessSendingNext (sys_rx s) number) (sys_k s)"
    using sending_next.IH set_al_numbers_Clear [OF ok, of number]
    by (auto simp: rx_mono_def sys_inv_def received_def ProcessSendingNext_def)
  moreover have "rx_inv sent ws (ProcessSendingNext (sys_rx s) number) (sys_k s) (sys_out s)"
    using sending_next.IH AckList_Clear_law(1) [OF ok] by (simp add: sys_inv_def rx_inv_def ProcessSendingNext_def leftover_def)
  ultimately have "sys_inv sent ws (s\<lparr>sys_rx := ProcessSendingNext (sys_rx s) number, sys_k := sys_k s,
      sys_out := sys_out s, sys_acks := sys_acks s \<union> {}\<rparr>)"
    using sys_inv_rx [OF sending_next.IH] by blast
  then show ?case by simp
qed

section \<open>Properties\<close>

text \<open>
  C1: end to end, mKCP is a reliable byte stream. Whatever the network does with data segments,
  acknowledgements and pings, at every moment the bytes read at one end, followed by what the receiver
  still holds as left over and by the payloads not yet delivered, are the bytes written at the other
  end; and every segment pushed is in the sender's window (so that it is sent again) or has reached
  the receiver: nothing is lost, whatever was acknowledged.
\<close>

theorem kcp_reliable_stream:
  assumes "kcp_run sent config ws s"
  shows "concat (map sent [0..<sys_n s])
      = sys_out s @ mcontent (leftover (sys_rx s)) @ concat (map sent [sys_k s..<sys_n s])
    \<and> (\<forall>i < sys_n s. i \<in> cached (sys_tx s) \<or> i \<in> received (sys_rx s) (sys_k s))"
proof -
  from kcp_run_inv [OF assms] have inv: "sys_inv sent ws s" .
  then have "sys_out s @ mcontent (leftover (sys_rx s)) = concat (map sent [0..<sys_k s])" "sys_k s \<le> sys_n s"
    by (simp_all add: sys_inv_def rx_inv_def)
  moreover from this(2) have "[0..<sys_n s] = [0..<sys_k s] @ [sys_k s..<sys_n s]"
    using upt_add_eq_append [of 0 "sys_k s" "sys_n s - sys_k s"] by simp
  ultimately show ?thesis using inv by (simp add: sys_inv_def flip: append_assoc)
qed

theorem kcp_reliable_stream_witness:
  "\<exists>(s :: kcp_sys) w. NewSendingWorker None = Inr w \<and> sys_n s = 1 \<and>
     concat (map (\<lambda>i. [7 :: byte]) [0..<sys_n s])
       = sys_out s @ mcontent (leftover (sys_rx s)) @ concat (map (\<lambda>i. [7]) [sys_k s..<sys_n s])
     \<and> (0 \<in> cached (sys_tx s) \<or> 0 \<in> received (sys_rx s) (sys_k s))"
proof -
  obtain w where w: "NewSendingWorker None = Inr w" "snd_closed w = False" "snd_window w = NewSendingWindow"
    by (simp add: NewSendingWorker_def GetSendingInFlightSize_def GetSendingBufferSize_def in_flight_size_law div_u32_def
        GetMTUValue_def GetTTIValue_def cfg_value_def)
  let ?s = "\<lparr>sys_tx = w, sys_rx = NewReceivingWorker 8, sys_data = {}, sys_acks = {}, sys_pings = {},
     sys_n = 0, sys_k = 0, sys_out = []\<rparr>"
  have "kcp_run (\<lambda>i. [7]) None 8 ?s" by (rule kcp_run.start [OF w(1)])
  moreover obtain w' where "SendingWorker_Push (sys_tx ?s) (FromBytes [7]) = (True, w')"
    using w by (simp add: SendingWorker_Push_def SendingWindow_Len_def NewSendingWindow_def)
  ultimately have "kcp_run (\<lambda>i. [7]) None 8 (?s\<lparr>sys_tx := w', sys_n := Suc (sys_n ?s)\<rparr>)"
    by (rule kcp_run.push) (use FromBytes_ok [of "[7]"] in simp_all)
  from kcp_reliable_stream [OF this] w(1) show ?thesis 
    by (intro exI [of _ "?s\<lparr>sys_tx := w', sys_n := Suc (sys_n ?s)\<rparr>"] exI [of _ w]) simp
qed



end
