(* ===== verification/Pipe.thy ===== *)
theory Pipe
  imports Buf
begin

text \<open>
  Package \<^verbatim>\<open>transport/pipe\<close>, with the notifier and the done flag of \<^verbatim>\<open>common/signal\<close>: the bounded
  pipe between the inbound and the outbound side of every proxied connection.

  A nil \<^verbatim>\<open>data\<close> is \<open>None\<close>. The critical sections of the code are the atomic steps; the loops of the
  blocking calls are given by one round each, whose result is the return value, or that the caller
  waits. A notifier is the token in its channel of capacity one.
\<close>

section \<open>Notifier and done.Instance\<close>

type_synonym Notifier = bool

definition Notifier_Signal :: "Notifier \<Rightarrow> Notifier" where
  "Notifier_Signal n = True"

definition done_Close :: "bool \<Rightarrow> bool" where
  "done_Close d = True"

section \<open>The pipe\<close>

datatype pipe_state = popen | pclosed | perrord

record pipe =
  p_data :: "MultiBuffer option"
  p_readSignal :: Notifier
  p_writeSignal :: Notifier
  p_done :: bool
  p_limit :: int
  p_discardOverflow :: bool
  p_state :: pipe_state

datatype pipe_option = WithoutSizeLimit | WithSizeLimit int | DiscardOverflow

fun apply_option :: "pipe_option \<Rightarrow> pipe \<Rightarrow> pipe" where
  "apply_option WithoutSizeLimit p = p\<lparr>p_limit := - 1\<rparr>"
| "apply_option (WithSizeLimit limit) p = p\<lparr>p_limit := limit\<rparr>"
| "apply_option DiscardOverflow p = p\<lparr>p_discardOverflow := True\<rparr>"

definition pipe_New :: "pipe_option list \<Rightarrow> pipe" where
  "pipe_New opts = fold apply_option opts
     \<lparr>p_data = None, p_readSignal = False, p_writeSignal = False, p_done = False, p_limit = - 1,
      p_discardOverflow = False, p_state = popen\<rparr>"

text \<open>\<^verbatim>\<open>OptionsFromContext\<close>, for the per-connection buffer size of the policy.\<close>

definition OptionsFromContext :: "int \<Rightarrow> pipe_option list" where
  "OptionsFromContext perConnection =
     (if perConnection \<ge> 0 then [WithSizeLimit perConnection] else [WithoutSizeLimit])"

definition isFull :: "pipe \<Rightarrow> int \<Rightarrow> bool" where
  "isFull p curSize \<longleftrightarrow> p_limit p \<ge> 0 \<and> curSize > p_limit p"

definition errBufferFull :: go_error where "errBufferFull = NewError ''buffer full''"
definition errSlowDown :: go_error where "errSlowDown = NewError ''slow down''"
definition ErrReadTimeout :: go_error where "ErrReadTimeout = NewError ''IO timeout''"

definition pdata :: "pipe \<Rightarrow> MultiBuffer" where
  "pdata p = (case p_data p of None \<Rightarrow> [] | Some mb \<Rightarrow> mb)"

definition getState :: "pipe \<Rightarrow> bool \<Rightarrow> go_error option" where
  "getState p forRead =
     (case p_state p of
        popen \<Rightarrow> if \<not> forRead \<and> isFull p (MultiBuffer_Len (pdata p)) then Some errBufferFull else None
      | pclosed \<Rightarrow> if \<not> forRead then Some ClosedPipe
                  else if \<not> MultiBuffer_IsEmpty (pdata p) then None else Some EOF
      | perrord \<Rightarrow> Some ClosedPipe)"

definition readMultiBufferInternal :: "pipe \<Rightarrow> (MultiBuffer option \<times> go_error option) \<times> pipe" where
  "readMultiBufferInternal p =
     (case getState p True of
        Some err \<Rightarrow> ((None, Some err), p)
      | None \<Rightarrow> ((p_data p, None), p\<lparr>p_data := None\<rparr>))"

datatype 'a call = Return 'a | Blocked

text \<open>One round of \<^verbatim>\<open>ReadMultiBuffer\<close>: the data and the error, or waiting.\<close>

definition pipe_ReadMultiBuffer :: "pipe \<Rightarrow> (MultiBuffer option \<times> go_error option) call \<times> pipe" where
  "pipe_ReadMultiBuffer p =
     (let ((data, err), p') = readMultiBufferInternal p in
      if data \<noteq> None \<or> err \<noteq> None then (Return (data, err), p'\<lparr>p_writeSignal := Notifier_Signal (p_writeSignal p')\<rparr>)
      else (Blocked, p'))"

text \<open>\<^verbatim>\<open>ReadMultiBufferTimeout\<close>: the same round, but a wait may end with the timer (\<open>fired\<close>).\<close>

definition pipe_ReadMultiBufferTimeout :: "bool \<Rightarrow> pipe \<Rightarrow> (MultiBuffer option \<times> go_error option) call \<times> pipe" where
  "pipe_ReadMultiBufferTimeout fired p =
     (case pipe_ReadMultiBuffer p of
        (Blocked, p') \<Rightarrow> (if fired then Return (None, Some ErrReadTimeout) else Blocked, p')
      | r \<Rightarrow> r)"

definition pipe_writeMultiBufferInternal :: "pipe \<Rightarrow> MultiBuffer \<Rightarrow> go_error option \<times> pipe" where
  "pipe_writeMultiBufferInternal p mb =
     (case getState p False of
        Some err \<Rightarrow> (Some err, p)
      | None \<Rightarrow>
          (case p_data p of
             None \<Rightarrow> (None, p\<lparr>p_data := Some mb\<rparr>)
           | Some data \<Rightarrow> (Some errSlowDown, p\<lparr>p_data := Some (fst (MergeMulti data mb))\<rparr>)))"

text \<open>One round of \<^verbatim>\<open>WriteMultiBuffer\<close>.\<close>

definition pipe_WriteMultiBuffer :: "pipe \<Rightarrow> MultiBuffer \<Rightarrow> go_error option call \<times> pipe" where
  "pipe_WriteMultiBuffer p mb =
     (if MultiBuffer_IsEmpty mb then (Return None, p)
      else
        let (err, p) = pipe_writeMultiBufferInternal p mb;
            signalled = p\<lparr>p_readSignal := Notifier_Signal (p_readSignal p)\<rparr>
        in if err = None then (Return None, signalled)
           else if err = Some errSlowDown then (Return None, signalled)
           else if err = Some errBufferFull \<and> p_discardOverflow p then (Return None, p)
           else if err \<noteq> Some errBufferFull then (Return err, signalled)
           else (Blocked, p))"

definition pipe_Close :: "pipe \<Rightarrow> pipe" where
  "pipe_Close p =
     (if p_state p = pclosed \<or> p_state p = perrord then p
      else p\<lparr>p_state := pclosed, p_done := done_Close (p_done p)\<rparr>)"

definition pipe_Interrupt :: "pipe \<Rightarrow> pipe" where
  "pipe_Interrupt p =
     (if p_state p = pclosed \<or> p_state p = perrord then p
      else
        let p = p\<lparr>p_state := perrord\<rparr>;
            p = (if \<not> MultiBuffer_IsEmpty (pdata p) then p\<lparr>p_data := None\<rparr> else p)
        in p\<lparr>p_done := done_Close (p_done p)\<rparr>)"

section \<open>First in, first out\<close>

text \<open>
  Runs of a pipe with any number of readers and writers. \<open>W\<close> collects what accepted writes carried,
  \<open>R\<close> what reads returned. A write counts as accepted when its critical section stored it.
\<close>

definition stored :: "pipe \<Rightarrow> MultiBuffer \<Rightarrow> bool" where
  "stored p mb \<longleftrightarrow> \<not> MultiBuffer_IsEmpty mb \<and> getState p False = None"

inductive pipe_run :: "nat \<Rightarrow> pipe_option list \<Rightarrow> pipe \<Rightarrow> byte list \<Rightarrow> byte list \<Rightarrow> bool"
  for M :: nat and opts :: "pipe_option list" where
  start: "pipe_run M opts (pipe_New opts) [] []"
| reads: "pipe_run M opts p W R \<Longrightarrow> pipe_ReadMultiBuffer p = (r, p')
    \<Longrightarrow> pipe_run M opts p' W (R @ (case r of Return (Some mb, _) \<Rightarrow> mcontent mb | _ \<Rightarrow> []))"
| writes: "pipe_run M opts p W R \<Longrightarrow> mb_ok mb \<Longrightarrow> length (mcontent mb) \<le> M \<Longrightarrow> pipe_WriteMultiBuffer p mb = (r, p')
    \<Longrightarrow> pipe_run M opts p' (if stored p mb then W @ mcontent mb else W) R"
| closes: "pipe_run M opts p W R \<Longrightarrow> pipe_run M opts (pipe_Close p) W R"
| interrupts: "pipe_run M opts p W R \<Longrightarrow> pipe_run M opts (pipe_Interrupt p) W R"

definition pipe_limit :: "pipe_option list \<Rightarrow> int" where
  "pipe_limit opts = p_limit (pipe_New opts)"

definition pipe_inv :: "nat \<Rightarrow> int \<Rightarrow> pipe \<Rightarrow> byte list \<Rightarrow> byte list \<Rightarrow> bool" where
  "pipe_inv M limit p W R \<longleftrightarrow> mb_ok (pdata p) \<and> (\<forall>mb. p_data p = Some mb \<longrightarrow> mcontent mb \<noteq> []) \<and> p_limit p = limit
     \<and> (p_state p \<noteq> perrord \<longrightarrow> W = R @ mcontent (pdata p)) \<and> (\<exists>rest. W = R @ rest)
     \<and> (p_done p \<longleftrightarrow> p_state p \<noteq> popen) \<and> (p_state p = perrord \<longrightarrow> p_data p = None)
     \<and> (0 \<le> limit \<longrightarrow> length (mcontent (pdata p)) \<le> nat limit + M)"

lemma pipe_New_sel:
  "p_data (pipe_New opts) = None" "p_state (pipe_New opts) = popen" "p_done (pipe_New opts) = False"
  "p_readSignal (pipe_New opts) = False" "p_writeSignal (pipe_New opts) = False"
proof -
  have "p_data (apply_option opt p) = p_data p" "p_state (apply_option opt p) = p_state p" "p_done (apply_option opt p) = p_done p"
    "p_readSignal (apply_option opt p) = p_readSignal p" "p_writeSignal (apply_option opt p) = p_writeSignal p" for opt p
    by (cases opt; simp)+
  then have "p_data (fold apply_option opts p) = p_data p" "p_state (fold apply_option opts p) = p_state p"
    "p_done (fold apply_option opts p) = p_done p" "p_readSignal (fold apply_option opts p) = p_readSignal p"
    "p_writeSignal (fold apply_option opts p) = p_writeSignal p" for p
    by (induction opts arbitrary: p) simp_all
  then show "p_data (pipe_New opts) = None" "p_state (pipe_New opts) = popen" "p_done (pipe_New opts) = False"
    "p_readSignal (pipe_New opts) = False" "p_writeSignal (pipe_New opts) = False"
    by (simp_all add: pipe_New_def)
qed

lemma pdata_simps [simp]: "p_data p = None \<Longrightarrow> pdata p = []" "p_data p = Some mb \<Longrightarrow> pdata p = mb"
  by (simp_all add: pdata_def)

lemma pipe_inv_read:
  assumes "pipe_inv M limit p W R" "pipe_ReadMultiBuffer p = (r, p')"
  shows "pipe_inv M limit p' W (R @ (case r of Return (Some mb, _) \<Rightarrow> mcontent mb | _ \<Rightarrow> []))"
proof (cases "getState p True")
  case (Some err)
  with assms(2) have "r = Return (None, Some err)" "p' = p\<lparr>p_writeSignal := True\<rparr>"
    by (auto simp: pipe_ReadMultiBuffer_def readMultiBufferInternal_def Notifier_Signal_def)
  with assms(1) show ?thesis by (simp add: pipe_inv_def pdata_def)
next
  case None
  then have "p_state p \<noteq> perrord" by (auto simp: getState_def)
  with None assms show ?thesis
    by (cases "p_data p")
      (auto simp: pipe_ReadMultiBuffer_def readMultiBufferInternal_def Notifier_Signal_def pipe_inv_def pdata_def)
qed

lemma pipe_write_cases:
  assumes "pipe_WriteMultiBuffer p mb = (r, p')" "mb_ok mb"
  shows "if stored p mb then p' = p\<lparr>p_data := Some (pdata p @ mb), p_readSignal := True\<rparr> \<and> r = Return None
    else p' = p \<or> p' = p\<lparr>p_readSignal := True\<rparr>"
proof (cases "MultiBuffer_IsEmpty mb \<or> getState p False \<noteq> None")
  case True
  then have "\<not> stored p mb" by (auto simp: stored_def)
  with True assms show ?thesis
    by (auto simp: pipe_WriteMultiBuffer_def pipe_writeMultiBufferInternal_def Notifier_Signal_def Let_def split: if_splits)
next
  case False
  then have "stored p mb" by (simp add: stored_def)
  moreover have "p' = p\<lparr>p_data := Some (pdata p @ mb), p_readSignal := True\<rparr> \<and> r = Return None"
    using False assms(1)
    by (cases "p_data p") (auto simp: pipe_WriteMultiBuffer_def pipe_writeMultiBufferInternal_def Notifier_Signal_def
        MergeMulti_def Let_def)
  ultimately show ?thesis by simp
qed

lemma pipe_inv_write:
  assumes "pipe_inv M limit p W R" "mb_ok mb" "length (mcontent mb) \<le> M" "pipe_WriteMultiBuffer p mb = (r, p')"
    and "nat limit + M < 2147483648"
  shows "pipe_inv M limit p' (if stored p mb then W @ mcontent mb else W) R"
proof (cases "stored p mb")
  case True
  with pipe_write_cases [OF assms(4,2)] have p': "p' = p\<lparr>p_data := Some (pdata p @ mb), p_readSignal := True\<rparr>" by simp
  have st: "p_state p = popen" "\<not> isFull p (MultiBuffer_Len (pdata p))" "mcontent mb \<noteq> []"
    using True assms(2) by (auto simp: stored_def getState_def split: pipe_state.splits if_splits)
  have ok: "mb_ok (pdata p)" using assms(1) by (simp add: pipe_inv_def)
  have "length (mcontent (pdata p)) \<le> nat limit" if "0 \<le> limit"
  proof -
    have "length (mcontent (pdata p)) < 2147483648" using assms(1,5) that by (auto simp: pipe_inv_def)
    from MultiBuffer_Len_mcontent [OF ok this] st(2) assms(1) that show ?thesis
      by (auto simp: isFull_def pipe_inv_def)
  qed
  with p' st ok assms(1-3) True show ?thesis by (auto simp: pipe_inv_def pdata_def [of "_\<lparr>p_data := Some _, p_readSignal := True\<rparr>"])
next
  case False
  with pipe_write_cases [OF assms(4,2)] have "p' = p \<or> p' = p\<lparr>p_readSignal := True\<rparr>" by simp
  with False assms(1) show ?thesis by (auto simp: pipe_inv_def pdata_def)
qed

lemma pipe_inv_Close: "pipe_inv M limit p W R \<Longrightarrow> pipe_inv M limit (pipe_Close p) W R"
  by (auto simp: pipe_inv_def pipe_Close_def done_Close_def pdata_def)

lemma pipe_inv_Interrupt: "pipe_inv M limit p W R \<Longrightarrow> pipe_inv M limit (pipe_Interrupt p) W R"
  by (cases "p_data p") (auto simp: pipe_inv_def pipe_Interrupt_def done_Close_def pdata_def Let_def)

lemma pipe_run_inv:
  assumes "pipe_run M opts p W R" "nat (pipe_limit opts) + M < 2147483648"
  shows "pipe_inv M (pipe_limit opts) p W R"
  using assms(1)
proof (induction rule: pipe_run.induct)
  case start
  then show ?case using pipe_New_sel [of opts] by (simp add: pipe_inv_def pipe_limit_def)
next
  case (writes p W R mb r p')
  then show ?case using pipe_inv_write assms(2) by blast
qed (auto intro: pipe_inv_read pipe_inv_Close pipe_inv_Interrupt)

section \<open>Wake-ups\<close>

text \<open>
  The interleaving of one reader with any number of writers, at the granularity of the critical
  sections: a writer first stores its data and signals afterwards, outside the lock (\<open>pending\<close>
  counts the writers in between). \<open>waiting\<close> says that the reader is in its \<^verbatim>\<open>select\<close>, which it leaves by
  taking the token or because the pipe is done.
\<close>

inductive sched :: "pipe_option list \<Rightarrow> pipe \<Rightarrow> bool \<Rightarrow> nat \<Rightarrow> bool" for opts :: "pipe_option list" where
  start: "sched opts (pipe_New opts) False 0"
| try_read: "sched opts p False n \<Longrightarrow> pipe_ReadMultiBuffer p = (Return r, p') \<Longrightarrow> sched opts p' False n"
| block_read: "sched opts p False n \<Longrightarrow> pipe_ReadMultiBuffer p = (Blocked, p') \<Longrightarrow> sched opts p' True n"
| wake_signal: "sched opts p True n \<Longrightarrow> p_readSignal p \<Longrightarrow> sched opts (p\<lparr>p_readSignal := False\<rparr>) False n"
| wake_done: "sched opts p True n \<Longrightarrow> p_done p \<Longrightarrow> sched opts p False n"
| store: "sched opts p waiting n \<Longrightarrow> pipe_writeMultiBufferInternal p mb = (err, p') \<Longrightarrow> err = None \<or> err = Some errSlowDown
    \<Longrightarrow> sched opts p' waiting (Suc n)"
| signal: "sched opts p waiting (Suc n) \<Longrightarrow> sched opts (p\<lparr>p_readSignal := Notifier_Signal (p_readSignal p)\<rparr>) waiting n"
| close: "sched opts p waiting n \<Longrightarrow> sched opts (pipe_Close p) waiting n"
| interrupt: "sched opts p waiting n \<Longrightarrow> sched opts (pipe_Interrupt p) waiting n"

lemma sched_inv: "sched opts p waiting n \<Longrightarrow>
    (waiting \<and> p_data p \<noteq> None \<longrightarrow> p_readSignal p \<or> n > 0 \<or> p_done p) \<and> (p_state p \<noteq> popen \<longrightarrow> p_done p)"
proof (induction rule: sched.induct)
  case (store p waiting n mb err p')
  then show ?case
    by (auto simp: pipe_writeMultiBufferInternal_def errSlowDown_def split: option.splits)
next
  case (block_read p n p')
  then show ?case
    by (auto simp: pipe_ReadMultiBuffer_def readMultiBufferInternal_def split: option.splits if_splits)
next
  case (try_read p n r p')
  then show ?case
    by (auto simp: pipe_ReadMultiBuffer_def readMultiBufferInternal_def split: option.splits if_splits)
qed (auto simp: pipe_New_sel pipe_Close_def pipe_Interrupt_def done_Close_def Notifier_Signal_def Let_def)

section \<open>Properties\<close>

text \<open>
  C9: the pipe is a bounded queue of bytes. In every run, with whatever options and interleaving of
  reads, writes, \<^verbatim>\<open>Close\<close> and \<^verbatim>\<open>Interrupt\<close>, what has been read is a prefix of what has been written;
  unless the pipe was interrupted, the rest is exactly its content; and with a size limit the
  content never exceeds the limit by more than the size of one write.
\<close>

theorem pipe_fifo:
  assumes "pipe_run M opts p W R" "nat (pipe_limit opts) + M < 2147483648"
  shows "(\<exists>rest. W = R @ rest) \<and> (p_state p \<noteq> perrord \<longrightarrow> W = R @ mcontent (pdata p))
    \<and> (0 \<le> pipe_limit opts \<longrightarrow> length (mcontent (pdata p)) \<le> nat (pipe_limit opts) + M)"
  using pipe_run_inv [OF assms] by (simp add: pipe_inv_def)

theorem pipe_fifo_witness:
  "[1, 2 :: byte] = [] @ mcontent (pdata (snd (pipe_WriteMultiBuffer (pipe_New [WithSizeLimit 10]) [FromBytes [1, 2]])))
    \<and> length (mcontent (pdata (snd (pipe_WriteMultiBuffer (pipe_New [WithSizeLimit 10]) [FromBytes [1, 2]]))))
        \<le> nat (pipe_limit [WithSizeLimit 10]) + 5"
proof -
  let ?p = "pipe_New [WithSizeLimit 10]" and ?mb = "[FromBytes [1, 2 :: byte]]"
  have mb: "mb_ok ?mb" "mcontent ?mb = [1, 2]" using FromBytes_ok [of "[1, 2]"] by simp_all
  have st: "stored ?p ?mb"
    using mb by (simp add: stored_def getState_def isFull_def pipe_New_def MultiBuffer_Len_def pdata_def del: MultiBuffer_IsEmpty.simps)
  have "pipe_run 5 [WithSizeLimit 10] (snd (pipe_WriteMultiBuffer ?p ?mb)) (if stored ?p ?mb then [] @ mcontent ?mb else []) []"
    by (rule pipe_run.writes [OF pipe_run.start mb(1), where r = "fst (pipe_WriteMultiBuffer ?p ?mb)"])
      (use FromBytes_ok [of "[1, 2 :: byte]"] in simp_all)
  moreover have "p_state (snd (pipe_WriteMultiBuffer ?p ?mb)) \<noteq> perrord"
    by (simp add: pipe_WriteMultiBuffer_def pipe_writeMultiBufferInternal_def getState_def isFull_def pipe_New_def
        Notifier_Signal_def MultiBuffer_Len_def split: option.splits)
  ultimately show ?thesis using pipe_fifo [of 5 "[WithSizeLimit 10]"] st FromBytes_ok [of "[1, 2 :: byte]"]
    by (fastforce simp: pipe_limit_def pipe_New_def)
qed

text \<open>
  C10: \<^verbatim>\<open>Close\<close> lets the reader drain the pipe: after it, writes of data fail with \<^verbatim>\<open>io.ErrClosedPipe\<close> and
  change nothing but the signal, one read returns all the content, and every later read returns
  \<^verbatim>\<open>io.EOF\<close>. \<^verbatim>\<open>Interrupt\<close> discards the content: reads and writes fail with \<^verbatim>\<open>io.ErrClosedPipe\<close>.
\<close>

theorem pipe_close_and_interrupt:
  assumes "p_state p = popen" "p_data p = Some mb" "mb_ok mb" "mcontent mb \<noteq> []" "mb_ok mb'" "mcontent mb' \<noteq> []"
  shows "fst (pipe_WriteMultiBuffer (pipe_Close p) mb') = Return (Some ClosedPipe)
    \<and> pdata (snd (pipe_WriteMultiBuffer (pipe_Close p) mb')) = mb
    \<and> fst (pipe_ReadMultiBuffer (pipe_Close p)) = Return (Some mb, None)
    \<and> fst (pipe_ReadMultiBuffer (snd (pipe_ReadMultiBuffer (pipe_Close p)))) = Return (None, Some EOF)
    \<and> snd (pipe_ReadMultiBuffer (snd (pipe_ReadMultiBuffer (pipe_Close p)))) = snd (pipe_ReadMultiBuffer (pipe_Close p))
    \<and> fst (pipe_ReadMultiBuffer (pipe_Interrupt p)) = Return (None, Some ClosedPipe)
    \<and> fst (pipe_WriteMultiBuffer (pipe_Interrupt p) mb') = Return (Some ClosedPipe)
    \<and> pdata (pipe_Interrupt p) = []"
  using assms
  by (simp add: pipe_WriteMultiBuffer_def pipe_writeMultiBufferInternal_def pipe_ReadMultiBuffer_def
      readMultiBufferInternal_def getState_def pipe_Close_def pipe_Interrupt_def errSlowDown_def errBufferFull_def
      pdata_def Notifier_Signal_def)

theorem pipe_close_and_interrupt_witness:
  "let p = (pipe_New [])\<lparr>p_data := Some [FromBytes [1 :: byte]]\<rparr> in
    fst (pipe_WriteMultiBuffer (pipe_Close p) [FromBytes [2]]) = Return (Some ClosedPipe)
    \<and> pdata (snd (pipe_WriteMultiBuffer (pipe_Close p) [FromBytes [2]])) = [FromBytes [1]]
    \<and> fst (pipe_ReadMultiBuffer (pipe_Close p)) = Return (Some [FromBytes [1]], None)
    \<and> fst (pipe_ReadMultiBuffer (snd (pipe_ReadMultiBuffer (pipe_Close p)))) = Return (None, Some EOF)
    \<and> snd (pipe_ReadMultiBuffer (snd (pipe_ReadMultiBuffer (pipe_Close p)))) = snd (pipe_ReadMultiBuffer (pipe_Close p))
    \<and> fst (pipe_ReadMultiBuffer (pipe_Interrupt p)) = Return (None, Some ClosedPipe)
    \<and> fst (pipe_WriteMultiBuffer (pipe_Interrupt p) [FromBytes [2]]) = Return (Some ClosedPipe)
    \<and> pdata (pipe_Interrupt p) = []"
  unfolding Let_def
  by (rule pipe_close_and_interrupt) (use FromBytes_ok [of "[1]"] FromBytes_ok [of "[2]"] in \<open>simp_all add: pipe_New_sel\<close>)



end
