(* ===== verification/BufIO.thy ===== *)
theory BufIO
  imports Buf
begin

text \<open>
  Package \<^verbatim>\<open>common/buf\<close>, the readers (\<^verbatim>\<open>reader.go\<close>) and the copy loop (\<^verbatim>\<open>copy.go\<close>) that move
  MultiBuffers between the ends of a connection.

  What a \<^verbatim>\<open>buf.Reader\<close> that belongs to the environment (the link of a worker) will do is the list of
  MultiBuffers its \<^verbatim>\<open>ReadMultiBuffer\<close> will return and the error that ends it. The readers of the
  package itself are modelled by their code. The main result is that a \<^verbatim>\<open>BufferedReader\<close>, however
  the link cuts the stream into buffers, is read like the plain byte string that is still to come:
  this is what lets the parsers work on byte lists.
\<close>

section \<open>Readers\<close>

record Reader =
  rd_pending :: "MultiBuffer list"
  rd_err :: go_error

definition Reader_ReadMultiBuffer :: "Reader \<Rightarrow> MultiBuffer \<times> go_error option \<times> Reader" where
  "Reader_ReadMultiBuffer r =
     (case rd_pending r of
        [] \<Rightarrow> ([], Some (rd_err r), r)
      | mb # mbs \<Rightarrow> (mb, None, r\<lparr>rd_pending := mbs\<rparr>))"

text \<open>A nil \<^verbatim>\<open>*Buffer\<close> in a MultiBuffer: all operations treat it as an empty buffer.\<close>

definition nil_buffer :: Buffer where
  "nil_buffer = \<lparr>buf_v = [], buf_start = 0, buf_end = 0, buf_ownership = unmanaged, buf_Endpoint = None\<rparr>"

definition ReadBuffer :: "'r io_Reader \<Rightarrow> 'r \<Rightarrow> (Buffer option \<times> go_error option \<times> 'r) result" where
  "ReadBuffer read r =
     bind_res (Buffer_ReadFrom read r New) (\<lambda>(b, n, err, r').
       if n > 0 then Inr (Some b, err, r') else Inr (None, err, r'))"

definition SingleReader_ReadMultiBuffer ::
  "'r io_Reader \<Rightarrow> 'r \<Rightarrow> (MultiBuffer \<times> go_error option \<times> 'r) result" where
  "SingleReader_ReadMultiBuffer read r =
     bind_res (ReadBuffer read r) (\<lambda>(b, err, r').
       Inr ([case b of None \<Rightarrow> nil_buffer | Some b' \<Rightarrow> b'], err, r'))"

text \<open>The loop of \<^verbatim>\<open>readOneUDP\<close>, with the number of rounds that are left.\<close>

primrec readOneUDP_loop ::
  "nat \<Rightarrow> 'r io_Reader \<Rightarrow> 'r \<Rightarrow> Buffer \<Rightarrow> (Buffer option \<times> go_error option \<times> 'r) result" where
  "readOneUDP_loop 0 read r b = Inr (None, Some (NewError ''Reader returns too many empty payloads.''), r)"
| "readOneUDP_loop (Suc i) read r b =
     bind_res (Buffer_ReadFrom read r b) (\<lambda>(b', n, err, r').
       if \<not> Buffer_IsEmpty (Some b') then Inr (Some b', None, r')
       else case err of Some e \<Rightarrow> Inr (None, Some e, r')
            | None \<Rightarrow> readOneUDP_loop i read r' b')"

definition readOneUDP :: "'r io_Reader \<Rightarrow> 'r \<Rightarrow> (Buffer option \<times> go_error option \<times> 'r) result" where
  "readOneUDP read r = readOneUDP_loop 64 read r New"

definition PacketReader_ReadMultiBuffer ::
  "'r io_Reader \<Rightarrow> 'r \<Rightarrow> (MultiBuffer \<times> go_error option \<times> 'r) result" where
  "PacketReader_ReadMultiBuffer read r =
     bind_res (readOneUDP read r) (\<lambda>(b, err, r').
       case err of Some e \<Rightarrow> Inr ([], Some e, r')
       | None \<Rightarrow> Inr ([case b of None \<Rightarrow> nil_buffer | Some b' \<Rightarrow> b'], None, r'))"

section \<open>BufferedReader\<close>

text \<open>The code installs no splitter (nil, which means \<^verbatim>\<open>SplitBytes\<close>) or \<^verbatim>\<open>SplitFirstBytes\<close>.\<close>

datatype Spliter = Spliter_nil | Spliter_SplitFirstBytes

fun splitter_of :: "Spliter \<Rightarrow> MultiBuffer \<Rightarrow> nat \<Rightarrow> (MultiBuffer \<times> byte list) result" where
  "splitter_of Spliter_nil = SplitBytes"
| "splitter_of Spliter_SplitFirstBytes = SplitFirstBytes"

record BufferedReader =
  br_Reader :: Reader
  br_Buffer :: "MultiBuffer option"
  br_Spliter :: Spliter

definition br_mb :: "BufferedReader \<Rightarrow> MultiBuffer" where
  "br_mb r = (case br_Buffer r of None \<Rightarrow> [] | Some mb \<Rightarrow> mb)"

definition NewBufferedReader :: "Reader \<Rightarrow> BufferedReader" where
  "NewBufferedReader rd = \<lparr>br_Reader = rd, br_Buffer = None, br_Spliter = Spliter_nil\<rparr>"

definition BufferedBytes :: "BufferedReader \<Rightarrow> int" where
  "BufferedBytes r = MultiBuffer_Len (br_mb r)"

definition nil_if_empty :: "MultiBuffer \<Rightarrow> MultiBuffer option" where
  "nil_if_empty mb = (if MultiBuffer_IsEmpty mb then None else Some mb)"

definition BufferedReader_Read ::
  "BufferedReader \<Rightarrow> nat \<Rightarrow> (byte list \<times> go_error option \<times> BufferedReader) result" where
  "BufferedReader_Read r n =
     (let splitter = splitter_of (br_Spliter r) in
      if \<not> MultiBuffer_IsEmpty (br_mb r) then
        bind_res (splitter (br_mb r) n) (\<lambda>(buffer, xs).
          Inr (xs, None, r\<lparr>br_Buffer := nil_if_empty buffer\<rparr>))
      else
        case Reader_ReadMultiBuffer (br_Reader r) of
          (mb, Some e, rd) \<Rightarrow> Inr ([], Some e, r\<lparr>br_Reader := rd\<rparr>)
        | (mb, None, rd) \<Rightarrow>
            bind_res (splitter mb n) (\<lambda>(mb', xs).
              Inr (xs, None, if \<not> MultiBuffer_IsEmpty mb' then r\<lparr>br_Reader := rd, br_Buffer := Some mb'\<rparr>
                             else r\<lparr>br_Reader := rd\<rparr>)))"

definition BufferedReader_ReadByte :: "BufferedReader \<Rightarrow> (byte \<times> go_error option \<times> BufferedReader) result" where
  "BufferedReader_ReadByte r =
     bind_res (BufferedReader_Read r 1) (\<lambda>(xs, err, r'). Inr (case xs of [] \<Rightarrow> 0 | x # _ \<Rightarrow> x, err, r'))"

definition BufferedReader_ReadMultiBuffer ::
  "BufferedReader \<Rightarrow> MultiBuffer \<times> go_error option \<times> BufferedReader" where
  "BufferedReader_ReadMultiBuffer r =
     (if \<not> MultiBuffer_IsEmpty (br_mb r) then (br_mb r, None, r\<lparr>br_Buffer := None\<rparr>)
      else case Reader_ReadMultiBuffer (br_Reader r) of (mb, err, rd) \<Rightarrow> (mb, err, r\<lparr>br_Reader := rd\<rparr>))"

text \<open>The two halves of \<^verbatim>\<open>ReadAtMost\<close>: refilling the internal buffer, and cutting a part off it.\<close>

definition ReadAtMost_fill :: "BufferedReader \<Rightarrow> go_error option \<times> BufferedReader" where
  "ReadAtMost_fill r =
     (if MultiBuffer_IsEmpty (br_mb r) then
        case Reader_ReadMultiBuffer (br_Reader r) of (mb, err, rd) \<Rightarrow>
          if MultiBuffer_IsEmpty mb \<and> err \<noteq> None then (err, r\<lparr>br_Reader := rd\<rparr>)
          else (None, r\<lparr>br_Reader := rd, br_Buffer := Some mb\<rparr>)
      else (None, r))"

definition ReadAtMost :: "BufferedReader \<Rightarrow> int \<Rightarrow> (MultiBuffer \<times> go_error option \<times> BufferedReader) result" where
  "ReadAtMost r sz =
     (case ReadAtMost_fill r of
        (Some e, r1) \<Rightarrow> Inr ([], Some e, r1)
      | (None, r1) \<Rightarrow>
          bind_res (SplitSize (br_mb r1) sz) (\<lambda>(rb, mb).
            Inr (mb, None, r1\<lparr>br_Buffer := nil_if_empty rb\<rparr>)))"

text \<open>
  Every read that reports no error makes progress: it takes a MultiBuffer of the link, empties a
  buffer, or returns a byte. This orders the loops over a \<^verbatim>\<open>BufferedReader\<close>.
\<close>

lemma Buffer_Read_error:
  "Buffer_Read b n = Inl e \<Longrightarrow> e = Panic \<or> Buffer_IsEmpty (Some b)"
  by (cases "blen b = 0"; cases "slice (buf_start b) (buf_end b) (buf_v b)")
    (simp_all add: Buffer_Read_def Buffer_IsEmpty_def slice_def Let_def del: if_split split: if_splits)

lemma Buffer_Read_nonempty:
  assumes "Buffer_Read b n = Inr (xs, b')" "0 < n"
  shows "xs \<noteq> []"
proof -
  have ne: "blen b \<noteq> 0" using assms(1) by (auto simp: Buffer_Read_def)
  with assms(1) obtain src where src: "slice (buf_start b) (buf_end b) (buf_v b) = Inr src" "xs = take n src"
    by (cases "slice (buf_start b) (buf_end b) (buf_v b)") (simp_all add: Buffer_Read_def Let_def)
  have "src \<noteq> []"
  proof
    assume "src = []"
    with src(1) have "buf_end b = buf_start b" by (auto simp: slice_Inr_iff)
    with ne show False by (simp add: Buffer_Len_def)
  qed
  with src(2) assms(2) show ?thesis by simp
qed

lemma SplitBytes_Cons_cases:
  assumes "SplitBytes (b # mb) n = Inr (mb', xs)"
  obtains (skip) "SplitBytes mb n = Inr (mb', xs)"
    | (part) b' where "Buffer_Read b n = Inr (xs, b')" "mb' = b' # mb"
    | (whole) ys b' zs where "Buffer_Read b n = Inr (ys, b')" "SplitBytes mb (n - length ys) = Inr (mb', zs)" "xs = ys @ zs"
proof (cases "Buffer_Read b n")
  case (Inl e)
  with assms Buffer_Read_error [OF Inl] have "SplitBytes mb n = Inr (mb', xs)" by (cases e) simp_all
  then show thesis by (rule skip)
next
  case (Inr p)
  with assms part whole show thesis
    by (cases p) (auto simp: bind_res_Inr_iff split: if_splits)
qed

lemma SplitBytes_length: "SplitBytes mb n = Inr (mb', xs) \<Longrightarrow> length mb' \<le> length mb"
proof (induction mb arbitrary: n mb' xs)
  case (Cons b mb)
  from Cons.prems show ?case
    by (cases rule: SplitBytes_Cons_cases) (use Cons.IH in \<open>fastforce+\<close>)
qed simp

lemma SplitBytes_progress:
  assumes "SplitBytes mb n = Inr (mb', xs)" "0 < n" "mb \<noteq> []"
  shows "length mb' < length mb \<or> length mb' = length mb \<and> xs \<noteq> []"
proof -
  obtain b tl where mb: "mb = b # tl" using assms(3) by (cases mb) auto
  from assms(1) [unfolded mb] show ?thesis
  proof (cases rule: SplitBytes_Cons_cases)
    case skip
    from SplitBytes_length [OF this] mb show ?thesis by simp
  next
    case (part b')
    from Buffer_Read_nonempty [OF part(1) assms(2)] part mb show ?thesis by simp
  next
    case (whole ys b' zs)
    from SplitBytes_length [OF whole(2)] mb show ?thesis by simp
  qed
qed

lemma SplitFirstBytes_length:
  "SplitFirstBytes mb n = Inr (mb', xs) \<Longrightarrow> mb \<noteq> [] \<Longrightarrow> length mb' < length mb"
  by (cases mb) (auto simp: SplitFirstBytes_def SplitFirst_def bind_res_Inr_iff)

lemma br_mb_update [simp]:
  "br_mb (r\<lparr>br_Buffer := nil_if_empty mb\<rparr>) = (if MultiBuffer_IsEmpty mb then [] else mb)"
  "br_mb (r\<lparr>br_Buffer := None\<rparr>) = []" "br_mb (r\<lparr>br_Buffer := Some mb\<rparr>) = mb"
  "br_mb (r\<lparr>br_Reader := rd\<rparr>) = br_mb r"
  "br_mb (r\<lparr>br_Reader := rd, br_Buffer := Some mb\<rparr>) = mb"
  by (simp_all add: br_mb_def nil_if_empty_def)

lemma BufferedReader_Read_progress:
  assumes "BufferedReader_Read r n = Inr (xs, None, r')" "0 < n"
  shows "length (rd_pending (br_Reader r')) < length (rd_pending (br_Reader r))
     \<or> br_Reader r' = br_Reader r \<and> (length (br_mb r') < length (br_mb r) \<or> length (br_mb r') = length (br_mb r) \<and> xs \<noteq> [])"
proof (cases "MultiBuffer_IsEmpty (br_mb r)")
  case True
  with assms show ?thesis
    by (auto simp: BufferedReader_Read_def Reader_ReadMultiBuffer_def bind_res_Inr_iff split: list.splits if_splits)
next
  case False
  then have ne: "br_mb r \<noteq> []" by auto
  from False assms(1) obtain buffer where sp: "splitter_of (br_Spliter r) (br_mb r) n = Inr (buffer, xs)"
    and r': "r' = r\<lparr>br_Buffer := nil_if_empty buffer\<rparr>"
    by (auto simp: BufferedReader_Read_def bind_res_Inr_iff)
  have "length buffer < length (br_mb r) \<or> length buffer = length (br_mb r) \<and> xs \<noteq> []"
    using sp assms(2) ne by (cases "br_Spliter r") (auto dest: SplitBytes_progress SplitFirstBytes_length)
  then show ?thesis using ne r' by auto
qed

text \<open>\<^verbatim>\<open>io.ReadFull\<close> on a \<^verbatim>\<open>BufferedReader\<close>, with the bytes that have been read so far.\<close>

function br_ReadFull_loop ::
  "BufferedReader \<Rightarrow> nat \<Rightarrow> byte list \<Rightarrow> (byte list \<times> BufferedReader \<times> go_error option) result" where
  "br_ReadFull_loop r n acc =
     (if n \<le> length acc then Inr (acc, r, None)
      else case BufferedReader_Read r (n - length acc) of
             Inl e \<Rightarrow> Inl e
           | Inr (xs, None, r') \<Rightarrow> br_ReadFull_loop r' n (acc @ xs)
           | Inr (xs, Some e, r') \<Rightarrow>
               Inr (acc @ xs, r', if n \<le> length (acc @ xs) then None
                                  else Some (if e = EOF \<and> acc @ xs \<noteq> [] then UnexpectedEOF else e)))"
  by pat_completeness auto
termination
proof (relation "measures [\<lambda>(r, n, acc). length (rd_pending (br_Reader r)), \<lambda>(r, n, acc). length (br_mb r),
    \<lambda>(r, n, acc). n - length acc]", goal_cases)
  case (2 r n acc res xs p err r')
  then show ?case using BufferedReader_Read_progress [of r "n - length acc" xs r'] by (cases xs) auto
qed simp

declare br_ReadFull_loop.simps [simp del]

definition br_ReadFull :: "BufferedReader \<Rightarrow> nat \<Rightarrow> (byte list \<times> BufferedReader \<times> go_error option) result" where
  "br_ReadFull r n = br_ReadFull_loop r n []"

section \<open>The bytes that are still to come\<close>

definition br_cont :: "BufferedReader \<Rightarrow> byte list" where
  "br_cont r = mcontent (br_mb r) @ concat (map mcontent (rd_pending (br_Reader r)))"

definition rd_ok :: "Reader \<Rightarrow> bool" where
  "rd_ok rd \<longleftrightarrow> (\<forall>mb \<in> set (rd_pending rd). mb_ok mb \<and> mb_small mb)"

definition br_ok :: "BufferedReader \<Rightarrow> bool" where
  "br_ok r \<longleftrightarrow> mb_ok (br_mb r) \<and> mb_small (br_mb r) \<and> br_Spliter r = Spliter_nil \<and> rd_ok (br_Reader r)"

abbreviation br_err :: "BufferedReader \<Rightarrow> go_error" where
  "br_err r \<equiv> rd_err (br_Reader r)"

text \<open>The number of bytes and buffers to come orders the loops that read MultiBuffers.\<close>

definition br_weight :: "BufferedReader \<Rightarrow> nat" where
  "br_weight r = length (br_cont r) + length (br_mb r) + sum_list (map (\<lambda>mb. Suc (length mb)) (rd_pending (br_Reader r)))"

lemma Buffer_Read_small:
  assumes "buffer_ok b" "Buffer_Read b n = Inr (xs, b')"
  shows "length (content b') \<le> length (content b)"
proof -
  have "content b \<noteq> []"
  proof
    assume "content b = []"
    from Buffer_Read_empty [OF assms(1) this, of n] assms(2) show False by simp
  qed
  then obtain b'' where "Buffer_Read b n = Inr (take n (content b), b'')" "content b'' = drop n (content b)"
    using Buffer_Read_spec [OF assms(1)] by blast
  with assms(2) show ?thesis by simp
qed

lemma SplitBytes_small:
  "SplitBytes mb n = Inr (mb', xs) \<Longrightarrow> mb_ok mb \<Longrightarrow> mb_small mb \<Longrightarrow> mb_small mb'"
proof (induction mb arbitrary: n mb' xs)
  case (Cons b mb)
  from Cons.prems(2,3) have b: "buffer_ok b" "mb_ok mb" "length (content b) \<le> Size" "mb_small mb" by simp_all
  from Cons.prems(1) show ?case
  proof (cases rule: SplitBytes_Cons_cases)
    case (part b')
    with Buffer_Read_small [OF b(1) part(1)] b show ?thesis by simp
  next
    case (whole ys b' zs)
    from Cons.IH [OF whole(2) b(2,4)] show ?thesis .
  qed (rule Cons.IH [OF _ b(2,4)])
qed simp

lemma rd_ok_step:
  "rd_ok rd \<Longrightarrow> rd_pending rd = mb # mbs \<Longrightarrow> mb_ok mb \<and> mb_small mb \<and> rd_ok (rd\<lparr>rd_pending := mbs\<rparr>)"
  by (simp add: rd_ok_def)

lemma BufferedReader_Read_law:
  assumes "br_ok r"
  obtains (eof) "BufferedReader_Read r n = Inr ([], Some (br_err r), r)" "br_cont r = []"
  | (data) xs r' where "BufferedReader_Read r n = Inr (xs, None, r')" "br_cont r = xs @ br_cont r'"
      "length xs \<le> n" "br_ok r'" "br_err r' = br_err r" "br_weight r' \<le> br_weight r"
proof (cases "MultiBuffer_IsEmpty (br_mb r)")
  case False
  from assms SplitBytes_law [of "br_mb r" n] obtain mb' where
    mb': "SplitBytes (br_mb r) n = Inr (mb', take n (mcontent (br_mb r)))" "mb_ok mb'"
    "mcontent mb' = drop n (mcontent (br_mb r))" by (auto simp: br_ok_def)
  let ?r = "r\<lparr>br_Buffer := nil_if_empty mb'\<rparr>"
  have c: "br_cont r = take n (mcontent (br_mb r)) @ br_cont ?r" using mb' by (simp add: br_cont_def)
  then have "length (br_cont ?r) \<le> length (br_cont r)" by (metis length_append le_add2)
  then have "br_weight ?r \<le> br_weight r" using SplitBytes_length [OF mb'(1)] by (simp add: br_weight_def)
  with False assms mb' c SplitBytes_small [OF mb'(1)] show thesis
    by (intro data [of "take n (mcontent (br_mb r))" ?r]) (auto simp: BufferedReader_Read_def br_ok_def)
next
  case True
  then have e: "mcontent (br_mb r) = []" using assms by (simp add: br_ok_def)
  show thesis
  proof (cases "rd_pending (br_Reader r)")
    case Nil
    with True e show thesis
      by (intro eof) (simp_all add: BufferedReader_Read_def Reader_ReadMultiBuffer_def br_cont_def)
  next
    case (Cons mb mbs)
    let ?rd = "(br_Reader r)\<lparr>rd_pending := mbs\<rparr>"
    from assms Cons have ok: "mb_ok mb" "mb_small mb" "rd_ok ?rd" using rd_ok_step by (auto simp: br_ok_def)
    from SplitBytes_law [OF ok(1), of n] obtain mb' where
      mb': "SplitBytes mb n = Inr (mb', take n (mcontent mb))" "mb_ok mb'" "mcontent mb' = drop n (mcontent mb)" by auto
    let ?r = "if \<not> MultiBuffer_IsEmpty mb' then r\<lparr>br_Reader := ?rd, br_Buffer := Some mb'\<rparr> else r\<lparr>br_Reader := ?rd\<rparr>"
    have "BufferedReader_Read r n = Inr (take n (mcontent mb), None, ?r)"
      using True Cons mb' assms by (simp add: BufferedReader_Read_def Reader_ReadMultiBuffer_def br_ok_def)
    moreover have "br_ok ?r" "br_err ?r = br_err r"
      using assms ok mb' SplitBytes_small [OF mb'(1)] by (auto simp: br_ok_def)
    moreover have c: "br_cont r = take n (mcontent mb) @ br_cont ?r"
      using Cons e mb' by (auto simp: br_cont_def)
    moreover from c have "length (br_cont ?r) \<le> length (br_cont r)" by (metis length_append le_add2)
    then have "br_weight ?r \<le> br_weight r"
      using SplitBytes_length [OF mb'(1)] Cons by (auto simp: br_weight_def)
    ultimately show thesis by (intro data [of "take n (mcontent mb)" ?r]) simp_all
  qed
qed

text \<open>
  Reading exactly \<open>n\<close> bytes from a \<^verbatim>\<open>BufferedReader\<close> is reading them from the byte list that its
  link will deliver, when the link ends in \<^verbatim>\<open>EOF\<close>; the loop ends in every case.
\<close>

lemma br_ReadFull_loop_law:
  "br_ok r \<Longrightarrow> br_err r = EOF \<Longrightarrow>
     \<exists>r'. br_ReadFull_loop r n acc =
       Inr (acc @ take (n - length acc) (br_cont r), r',
            if n \<le> length (acc @ br_cont r) then None
            else Some (if acc @ br_cont r = [] then EOF else UnexpectedEOF))
     \<and> br_ok r' \<and> br_err r' = EOF \<and> br_cont r' = drop (n - length acc) (br_cont r) \<and> br_weight r' \<le> br_weight r"
proof (induction r n acc rule: br_ReadFull_loop.induct)
  case (1 r n acc)
  show ?case
  proof (cases "n \<le> length acc")
    case True
    with "1.prems" show ?thesis by (simp add: br_ReadFull_loop.simps)
  next
    case False
    from "1.prems"(1) show ?thesis
    proof (cases rule: BufferedReader_Read_law [of r "n - length acc"])
      case eof
      with False "1.prems" show ?thesis by (simp add: br_ReadFull_loop.simps)
    next
      case (data xs r')
      have IH: "\<exists>r''. br_ReadFull_loop r' n (acc @ xs) =
          Inr ((acc @ xs) @ take (n - length (acc @ xs)) (br_cont r'), r'',
            if n \<le> length ((acc @ xs) @ br_cont r') then None
            else Some (if (acc @ xs) @ br_cont r' = [] then EOF else UnexpectedEOF))
          \<and> br_ok r'' \<and> br_err r'' = EOF \<and> br_cont r'' = drop (n - length (acc @ xs)) (br_cont r')
          \<and> br_weight r'' \<le> br_weight r'"
        using "1.IH" [OF False data(1) refl refl refl] data "1.prems" by simp
      moreover have "br_ReadFull_loop r n acc = br_ReadFull_loop r' n (acc @ xs)"
        using False data(1) by (simp add: br_ReadFull_loop.simps [of r])
      ultimately show ?thesis using data(2,3,6) by (auto simp: add.assoc)
    qed
  qed
qed

lemma br_ReadFull_law:
  assumes "br_ok r" "br_err r = EOF"
  obtains r' where "br_ReadFull r n = (case ReadFull (br_cont r) n of (xs, rest, err) \<Rightarrow> Inr (xs, r', err))"
    "br_ok r'" "br_err r' = EOF" "br_cont r' = fst (snd (ReadFull (br_cont r) n))" "br_weight r' \<le> br_weight r"
  using br_ReadFull_loop_law [OF assms, of n "[]"] that by (auto simp: br_ReadFull_def ReadFull_def)

lemma ReadAtMost_fill_law:
  assumes "br_ok r"
  obtains (eof) "ReadAtMost_fill r = (Some (br_err r), r)" "br_cont r = []"
  | (data) r' where "ReadAtMost_fill r = (None, r')" "br_cont r' = br_cont r" "br_ok r'" "br_err r' = br_err r"
      "br_weight r' < br_weight r \<or> r' = r \<and> br_mb r' \<noteq> []"
proof (cases "MultiBuffer_IsEmpty (br_mb r)")
  case False
  then have "br_mb r \<noteq> []" by auto
  with False assms show thesis by (intro data [of r]) (simp_all add: ReadAtMost_fill_def)
next
  case True
  then have e: "mcontent (br_mb r) = []" using assms by (simp add: br_ok_def)
  show thesis
  proof (cases "rd_pending (br_Reader r)")
    case Nil
    with True e show thesis by (intro eof) (simp_all add: ReadAtMost_fill_def Reader_ReadMultiBuffer_def br_cont_def)
  next
    case (Cons mb mbs)
    let ?r = "r\<lparr>br_Reader := (br_Reader r)\<lparr>rd_pending := mbs\<rparr>, br_Buffer := Some mb\<rparr>"
    from assms Cons have "br_ok ?r" using rd_ok_step by (auto simp: br_ok_def)
    moreover have "br_cont ?r = br_cont r" using Cons e by (simp add: br_cont_def)
    moreover from this have "br_weight ?r < br_weight r" using Cons by (simp add: br_weight_def)
    ultimately show thesis using True Cons
      by (intro data [of ?r]) (simp_all add: ReadAtMost_fill_def Reader_ReadMultiBuffer_def)
  qed
qed

lemma ReadAtMost_law:
  assumes "br_ok r" "0 < sz" "sz \<le> 65535"
  obtains (eof) "ReadAtMost r sz = Inr ([], Some (br_err r), r)" "br_cont r = []"
  | (data) mb r' where "ReadAtMost r sz = Inr (mb, None, r')" "mb_ok mb" "br_cont r = mcontent mb @ br_cont r'"
      "int (length (mcontent mb)) \<le> sz" "br_ok r'" "br_err r' = br_err r" "br_weight r' < br_weight r"
  using assms(1)
proof (cases rule: ReadAtMost_fill_law)
  case eof
  then show thesis by (intro that(1)) (simp_all add: ReadAtMost_def)
next
  case (data r1)
  have "0 \<le> sz" "sz \<le> 1073741823" "mb_ok (br_mb r1)" "mb_small (br_mb r1)"
    using assms(2,3) data(3) by (simp_all add: br_ok_def)
  then obtain rest mb where sp: "SplitSize (br_mb r1) sz = Inr (rest, mb)" "mb_ok rest" "mb_ok mb"
    "mcontent mb @ mcontent rest = mcontent (br_mb r1)" "int (length (mcontent mb)) \<le> sz"
    "length rest \<le> length (br_mb r1)" "mb_small rest"
    "br_mb r1 \<noteq> [] \<Longrightarrow> length rest < length (br_mb r1) \<or> length (mcontent rest) < length (mcontent (br_mb r1))"
    using SplitSize_law [of "br_mb r1" sz] assms(2) by blast
  let ?r = "r1\<lparr>br_Buffer := nil_if_empty rest\<rparr>"
  have c: "mcontent (br_mb ?r) = mcontent rest" using sp(2) by simp
  have "br_cont r1 = mcontent mb @ br_cont ?r" using c sp(4) by (simp add: br_cont_def flip: append_assoc)
  then have w: "br_weight r1 + length (br_mb ?r) = br_weight ?r + length (mcontent mb) + length (br_mb r1)"
    by (simp add: br_weight_def)
  have "length (mcontent (br_mb r1)) = length (mcontent mb) + length (mcontent rest)"
    using sp(4) by (metis length_append)
  moreover have "length (br_mb ?r) \<le> length rest" by simp
  ultimately have "br_weight ?r \<le> br_weight r1" "br_mb r1 \<noteq> [] \<Longrightarrow> br_weight ?r < br_weight r1"
    using sp(6,8) w by linarith+
  with data(5) have "br_weight ?r < br_weight r" by auto
  with data sp c \<open>br_cont r1 = mcontent mb @ br_cont ?r\<close> show thesis
    by (intro that(2) [of mb ?r]) (auto simp: ReadAtMost_def br_ok_def)
qed

section \<open>Copy\<close>

datatype copy_option = UpdateActivity | CountSize

text \<open>What the handlers of a copy update: the token of an \<^verbatim>\<open>ActivityTimer\<close> and the \<^verbatim>\<open>int64\<close> of a \<^verbatim>\<open>SizeCounter\<close>.\<close>

record copy_ctx =
  ctx_updated :: bool
  ctx_Size :: u64

fun run_handler :: "MultiBuffer \<Rightarrow> copy_option \<Rightarrow> copy_ctx \<Rightarrow> copy_ctx" where
  "run_handler mb UpdateActivity c = c\<lparr>ctx_updated := True\<rparr>"
| "run_handler mb CountSize c = c\<lparr>ctx_Size := ctx_Size c + word_of_int (MultiBuffer_Len mb)\<rparr>"

text \<open>
  A \<^verbatim>\<open>buf.Writer\<close> is a function of its state and the MultiBuffer it is given. The loop ends when
  the reader or the writer reports an error; \<open>m\<close> is a measure that the reader decreases with every
  read, and the last branch is never taken (\<open>copyInternal_law\<close>).
\<close>

type_synonym 'w buf_Writer = "'w \<Rightarrow> MultiBuffer \<Rightarrow> go_error option \<times> 'w"
type_synonym 'r buf_Reader = "'r \<Rightarrow> (MultiBuffer \<times> go_error option \<times> 'r) result"

function copyInternal :: "('r \<Rightarrow> nat) \<Rightarrow> 'r buf_Reader \<Rightarrow> 'w buf_Writer \<Rightarrow> copy_option list
    \<Rightarrow> copy_ctx \<Rightarrow> 'r \<Rightarrow> 'w \<Rightarrow> (go_error \<times> copy_ctx \<times> 'r \<times> 'w) result" where
  "copyInternal m rd wr hs c r w =
     (case rd r of
        Inl e \<Rightarrow> Inl e
      | Inr (buffer, err, r') \<Rightarrow>
          let c' = (if MultiBuffer_IsEmpty buffer then c else fold (run_handler buffer) hs c) in
          case (if MultiBuffer_IsEmpty buffer then (None, w) else wr w buffer) of
            (Some werr, w') \<Rightarrow> Inr (WriteError werr, c', r', w')
          | (None, w') \<Rightarrow>
              (case err of
                 Some e \<Rightarrow> Inr (ReadError e, c', r', w')
               | None \<Rightarrow> if m r' < m r then copyInternal m rd wr hs c' r' w' else Inl Panic))"
  by pat_completeness auto
termination
  by (relation "measure (\<lambda>(m, rd, wr, hs, c, r, w). m r)") auto

declare copyInternal.simps [simp del]

definition Copy :: "('r \<Rightarrow> nat) \<Rightarrow> 'r buf_Reader \<Rightarrow> 'w buf_Writer \<Rightarrow> copy_option list
    \<Rightarrow> copy_ctx \<Rightarrow> 'r \<Rightarrow> 'w \<Rightarrow> (go_error option \<times> copy_ctx \<times> 'r \<times> 'w) result" where
  "Copy m rd wr hs c r w =
     bind_res (copyInternal m rd wr hs c r w) (\<lambda>(err, c', r', w').
       Inr (if Cause err \<noteq> EOF then Some err else None, c', r', w'))"

fun IsWriteError :: "go_error option \<Rightarrow> bool" where
  "IsWriteError (Some (WriteError e)) = True"
| "IsWriteError _ = False"

fun IsReadError :: "go_error option \<Rightarrow> bool" where
  "IsReadError (Some (ReadError e)) = True"
| "IsReadError _ = False"

text \<open>\<^verbatim>\<open>Discard\<close> swallows what it is given.\<close>

definition Discard :: "unit buf_Writer" where
  "Discard w mb = (None, w)"

text \<open>
  \<^verbatim>\<open>CopyOnceTimeout\<close>: \<open>timed\<close> is the \<^verbatim>\<open>ReadMultiBufferTimeout\<close> of the reader, if it has one.
\<close>

definition ErrNotTimeoutReader :: go_error where "ErrNotTimeoutReader = NewError ''not a TimeoutReader''"

definition CopyOnceTimeout ::
  "'r buf_Reader option \<Rightarrow> 'w buf_Writer \<Rightarrow> 'r \<Rightarrow> 'w \<Rightarrow> (go_error option \<times> 'r \<times> 'w) result" where
  "CopyOnceTimeout timed wr r w =
     (case timed of
        None \<Rightarrow> Inr (Some ErrNotTimeoutReader, r, w)
      | Some rd \<Rightarrow>
          bind_res (rd r) (\<lambda>(mb, err, r').
            case err of Some e \<Rightarrow> Inr (Some e, r', w)
            | None \<Rightarrow> (case wr w mb of (werr, w') \<Rightarrow> Inr (werr, r', w'))))"

section \<open>Sources of MultiBuffers\<close>

text \<open>
  \<open>run_wr wr w mbs\<close>: writing the MultiBuffers one after the other, when every write succeeds.
\<close>

fun run_wr :: "'w buf_Writer \<Rightarrow> 'w \<Rightarrow> MultiBuffer list \<Rightarrow> 'w option" where
  "run_wr wr w [] = Some w"
| "run_wr wr w (mb # mbs) = (case wr w mb of (None, w') \<Rightarrow> run_wr wr w' mbs | (Some e, w') \<Rightarrow> None)"

text \<open>
  The contract of a reader that delivers the bytes \<open>cont\<close> and then \<^verbatim>\<open>EOF\<close>. A framed reader works
  on a stream that goes on behind the frame: \<open>after\<close> is what follows, which is what is left of
  the stream (\<open>raw\<close>) when the reader reports the end. Every other read decreases the measure \<open>m\<close>.
\<close>

locale multi_source =
  fixes ok :: "'r \<Rightarrow> bool" and cont :: "'r \<Rightarrow> byte list" and after :: "'r \<Rightarrow> 'f" and raw :: "'r \<Rightarrow> 'f"
    and m :: "'r \<Rightarrow> nat" and rd :: "'r buf_Reader"
  assumes read_law: "ok r \<Longrightarrow> \<exists>mb err r'. rd r = Inr (mb, err, r') \<and> mb_ok mb
      \<and> (case err of
           None \<Rightarrow> ok r' \<and> m r' < m r \<and> after r' = after r \<and> cont r = mcontent mb @ cont r'
         | Some e \<Rightarrow> e = EOF \<and> mcontent mb = [] \<and> cont r = [] \<and> raw r' = after r)"
begin

definition copied :: "'w buf_Writer \<Rightarrow> 'r \<Rightarrow> 'w \<Rightarrow> go_error \<Rightarrow> 'r \<Rightarrow> 'w \<Rightarrow> bool" where
  "copied wr r w err r' w' \<longleftrightarrow>
     (\<exists>mbs. err = ReadError EOF \<and> raw r' = after r \<and> run_wr wr w mbs = Some w' \<and> concat (map mcontent mbs) = cont r)
   \<or> (\<exists>mbs mb e w1. err = WriteError e \<and> ok r' \<and> after r' = after r \<and> run_wr wr w mbs = Some w1
        \<and> wr w1 mb = (Some e, w') \<and> concat (map mcontent mbs) @ mcontent mb @ cont r' = cont r)"

lemma copied_skip:
  "copied wr r1 w err r' w' \<Longrightarrow> cont r = cont r1 \<Longrightarrow> after r = after r1 \<Longrightarrow> copied wr r w err r' w'"
  by (simp add: copied_def)

lemma copied_write:
  assumes "copied wr r1 w1 err r' w'" "cont r = mcontent mb @ cont r1" "after r = after r1" "wr w mb = (None, w1)"
  shows "copied wr r w err r' w'"
  using assms(1) unfolding copied_def
proof (elim disjE exE conjE, goal_cases)
  case (1 mbs)
  with assms(2-4) show ?case by (intro disjI1 exI [of _ "mb # mbs"]) simp
next
  case (2 mbs mb' e w2)
  with assms(2-4) show ?case by (intro disjI2 exI [of _ "mb # mbs"] exI [of _ mb']) auto
qed

lemma copyInternal_law:
  "ok r \<Longrightarrow> \<exists>err c' r' w'. copyInternal m rd wr hs c r w = Inr (err, c', r', w') \<and> copied wr r w err r' w'"
proof (induction r arbitrary: c w rule: measure_induct_rule [where f = m])
  case (less r)
  from read_law [OF less.prems] obtain mb err r' where
    r': "rd r = Inr (mb, err, r')" "mb_ok mb"
    "case err of None \<Rightarrow> ok r' \<and> m r' < m r \<and> after r' = after r \<and> cont r = mcontent mb @ cont r'
       | Some e \<Rightarrow> e = EOF \<and> mcontent mb = [] \<and> cont r = [] \<and> raw r' = after r" by blast
  show ?case
  proof (cases err)
    case (Some e)
    with r' have "copyInternal m rd wr hs c r w = Inr (ReadError EOF, c, r', w)"
      by (subst copyInternal.simps) simp
    moreover have "copied wr r w (ReadError EOF) r' w"
      unfolding copied_def using Some r'(3) by (intro disjI1 exI [of _ "[]"]) simp
    ultimately show ?thesis by blast
  next
    case None
    with r'(3) have n: "ok r'" "m r' < m r" "after r' = after r" "cont r = mcontent mb @ cont r'" by simp_all
    show ?thesis
    proof (cases "mcontent mb = []")
      case True
      with None r' n have "copyInternal m rd wr hs c r w = copyInternal m rd wr hs c r' w"
        by (subst copyInternal.simps) simp
      moreover have "cont r = cont r'" using True n(4) by simp
      ultimately show ?thesis using less.IH [OF n(2,1), of c w] copied_skip [OF _ _ n(3) [symmetric]] by fastforce
    next
      case False
      let ?c = "fold (run_handler mb) hs c"
      obtain werr w1 where w1: "wr w mb = (werr, w1)" by fastforce
      show ?thesis
      proof (cases werr)
        case (Some e)
        with False r' w1 have "copyInternal m rd wr hs c r w = Inr (WriteError e, ?c, r', w1)"
          by (subst copyInternal.simps) simp
        moreover have "copied wr r w (WriteError e) r' w1"
          unfolding copied_def using Some w1 n by (intro disjI2 exI [of _ "[]"] exI [of _ mb]) simp
        ultimately show ?thesis by blast
      next
        case None
        with False r' w1 \<open>err = None\<close> n have "copyInternal m rd wr hs c r w = copyInternal m rd wr hs ?c r' w1"
          by (subst copyInternal.simps) simp
        moreover from less.IH [OF n(2,1), of ?c w1] obtain err c' r2 w2 where
          "copyInternal m rd wr hs ?c r' w1 = Inr (err, c', r2, w2)" "copied wr r' w1 err r2 w2" by auto
        ultimately show ?thesis using copied_write [OF _ n(4) n(3) [symmetric]] w1 None by force
      qed
    qed
  qed
qed

text \<open>
  \<^verbatim>\<open>Copy\<close> returns nil, having written everything, or it returns the error of a write (nil again if
  that error is \<^verbatim>\<open>EOF\<close>), having written what came before.
\<close>

lemma Copy_law:
  assumes "ok r"
  obtains c' r' w' mbs where "Copy m rd wr hs c r w = Inr (None, c', r', w')" "raw r' = after r"
      "run_wr wr w mbs = Some w'" "concat (map mcontent mbs) = cont r"
    | c' r' w' mbs mb e w1 where "Copy m rd wr hs c r w = Inr (if Cause e \<noteq> EOF then Some (WriteError e) else None, c', r', w')"
      "ok r'" "after r' = after r" "run_wr wr w mbs = Some w1" "wr w1 mb = (Some e, w')"
      "concat (map mcontent mbs) @ mcontent mb @ cont r' = cont r"
proof -
  from copyInternal_law [OF assms, of wr hs c w] obtain err c' r' w' where
    res: "copyInternal m rd wr hs c r w = Inr (err, c', r', w')" "copied wr r w err r' w'" by blast
  from res(2) show thesis unfolding copied_def
  proof (elim disjE exE conjE, goal_cases)
    case (1 mbs)
    with res(1) show thesis by (intro that(1) [of c' r' w' mbs]) (simp_all add: Copy_def)
  next
    case (2 mbs mb e w1)
    with res(1) show thesis by (intro that(2) [of e c' r' w' mbs w1 mb]) (simp_all add: Copy_def)
  qed
qed

lemma Copy_never_fails:
  assumes "ok r" "\<And>w mb. fst (wr w mb) = None"
  obtains c' r' w' mbs where "Copy m rd wr hs c r w = Inr (None, c', r', w')" "raw r' = after r"
      "run_wr wr w mbs = Some w'" "concat (map mcontent mbs) = cont r"
  using assms(1)
proof (cases rule: Copy_law [of r wr hs c w])
  case (2 c' r' w' mbs mb e w1)
  then show thesis using assms(2) [of w1 mb] by simp
qed (rule that)

end

text \<open>A \<^verbatim>\<open>BufferedReader\<close> whose link ends in \<^verbatim>\<open>EOF\<close> is such a source.\<close>

lemma BufferedReader_ReadMultiBuffer_law:
  assumes "br_ok r" "br_err r = EOF"
  shows "\<exists>mb err r'. BufferedReader_ReadMultiBuffer r = (mb, err, r') \<and> mb_ok mb
    \<and> (case err of
         None \<Rightarrow> (br_ok r' \<and> br_err r' = EOF) \<and> br_weight r' < br_weight r \<and> br_cont r = mcontent mb @ br_cont r'
       | Some e \<Rightarrow> e = EOF \<and> mcontent mb = [] \<and> br_cont r = [])"
proof (cases "MultiBuffer_IsEmpty (br_mb r)")
  case False
  then have "br_mb r \<noteq> []" by auto
  with False assms show ?thesis
    by (simp add: BufferedReader_ReadMultiBuffer_def br_ok_def br_cont_def br_weight_def)
next
  case True
  then have e: "mcontent (br_mb r) = []" using assms by (simp add: br_ok_def)
  with True assms show ?thesis
    by (cases "rd_pending (br_Reader r)")
      (auto simp: BufferedReader_ReadMultiBuffer_def Reader_ReadMultiBuffer_def br_ok_def br_cont_def br_weight_def rd_ok_def)
qed

interpretation br_source: multi_source "\<lambda>r. br_ok r \<and> br_err r = EOF" br_cont "\<lambda>_. ()" "\<lambda>_. ()" br_weight
    "\<lambda>r. Inr (BufferedReader_ReadMultiBuffer r)"
proof
  fix r assume "br_ok r \<and> br_err r = EOF"
  then obtain mb err r' where r': "BufferedReader_ReadMultiBuffer r = (mb, err, r')" "mb_ok mb"
    "case err of
       None \<Rightarrow> (br_ok r' \<and> br_err r' = EOF) \<and> br_weight r' < br_weight r \<and> br_cont r = mcontent mb @ br_cont r'
     | Some e \<Rightarrow> e = EOF \<and> mcontent mb = [] \<and> br_cont r = []"
    using BufferedReader_ReadMultiBuffer_law [of r] by blast
  then show "\<exists>mb err r'. Inr (BufferedReader_ReadMultiBuffer r) = Inr (mb, err, r') \<and> mb_ok mb
      \<and> (case err of
           None \<Rightarrow> (br_ok r' \<and> br_err r' = EOF) \<and> br_weight r' < br_weight r \<and> () = () \<and> br_cont r = mcontent mb @ br_cont r'
         | Some e \<Rightarrow> e = EOF \<and> mcontent mb = [] \<and> br_cont r = [] \<and> () = ())"
    by (intro exI [of _ mb] exI [of _ err] exI [of _ r']) (cases err; simp)
qed

section \<open>Parsers on a BufferedReader\<close>

text \<open>\<^verbatim>\<open>Buffer.ReadFullFrom\<close> and \<^verbatim>\<open>serial.ReadUint16\<close>, reading from a \<^verbatim>\<open>BufferedReader\<close>.\<close>

definition br_ReadFullFrom :: "Buffer \<Rightarrow> BufferedReader \<Rightarrow> int \<Rightarrow> (Buffer \<times> BufferedReader \<times> go_error option) result" where
  "br_ReadFullFrom b r n =
     (let end' = i32 (buf_end b + n) in
      if end' > int (length (buf_v b)) then Inr (b, r, Some (NewError ''out of bound''))
      else bind_res (slice (buf_end b) end' (buf_v b)) (\<lambda>dst.
           bind_res (br_ReadFull r (length dst)) (\<lambda>(xs, r', err).
             Inr (b\<lparr>buf_v := overwrite (nat (buf_end b)) xs (buf_v b),
                    buf_end := i32 (buf_end b + int (length xs))\<rparr>, r', err))))"

definition br_read_full :: "Buffer \<Rightarrow> BufferedReader \<Rightarrow> int \<Rightarrow> (Buffer \<times> BufferedReader) result" where
  "br_read_full b r n =
     bind_res (br_ReadFullFrom b r n) (\<lambda>(b', r', err).
       case err of None \<Rightarrow> Inr (b', r') | Some e \<Rightarrow> Inl e)"

definition ReadUint16 :: "BufferedReader \<Rightarrow> (u16 \<times> BufferedReader) result" where
  "ReadUint16 r =
     bind_res (br_ReadFull r 2) (\<lambda>(xs, r', err).
       case err of Some e \<Rightarrow> Inl e | None \<Rightarrow> bind_res (Uint16 xs) (\<lambda>v. Inr (v, r')))"

lemma br_read_full_law:
  assumes "br_ok r" "br_err r = EOF"
  shows "case read_full b (br_cont r) n of
           Inl e \<Rightarrow> br_read_full b r n = Inl e
         | Inr (b', rest) \<Rightarrow> \<exists>r'. br_read_full b r n = Inr (b', r') \<and> br_ok r' \<and> br_err r' = EOF \<and> br_cont r' = rest"
proof (cases "slice (buf_end b) (i32 (buf_end b + n)) (buf_v b)")
  case (Inl e)
  then show ?thesis by (simp add: br_read_full_def br_ReadFullFrom_def read_full_def Buffer_ReadFullFrom_def Let_def)
next
  case (Inr dst)
  from assms obtain r' where "br_ReadFull r (length dst) =
      (case ReadFull (br_cont r) (length dst) of (xs, rest, err) \<Rightarrow> Inr (xs, r', err))"
    "br_ok r'" "br_err r' = EOF" "br_cont r' = fst (snd (ReadFull (br_cont r) (length dst)))"
    by (rule br_ReadFull_law)
  with Inr show ?thesis
    by (cases "ReadFull (br_cont r) (length dst)")
      (auto simp: br_read_full_def br_ReadFullFrom_def read_full_def Buffer_ReadFullFrom_def Let_def split: option.splits)
qed

lemma ReadUint16_law:
  assumes "br_ok r" "br_err r = EOF"
  shows "if 2 \<le> length (br_cont r)
         then \<exists>v r'. Uint16 (br_cont r) = Inr v \<and> ReadUint16 r = Inr (v, r') \<and> br_ok r' \<and> br_err r' = EOF
                \<and> br_cont r' = drop 2 (br_cont r)
         else ReadUint16 r = Inl (if br_cont r = [] then EOF else UnexpectedEOF)"
proof -
  from assms obtain r' where r': "br_ReadFull r 2 = (case ReadFull (br_cont r) 2 of (xs, rest, err) \<Rightarrow> Inr (xs, r', err))"
    "br_ok r'" "br_err r' = EOF" "br_cont r' = fst (snd (ReadFull (br_cont r) 2))"
    by (rule br_ReadFull_law)
  show ?thesis
  proof (cases "2 \<le> length (br_cont r)")
    case True
    then obtain x y zs where "br_cont r = x # y # zs"
      by (metis Suc_le_length_iff numeral_2_eq_2)
    with r' show ?thesis by (simp add: ReadUint16_def ReadFull_def numeral_2_eq_2)
  next
    case False
    with r' show ?thesis by (simp add: ReadUint16_def ReadFull_def)
  qed
qed

lemma ReadUint16_be16:
  assumes "br_ok r" "br_err r = EOF" "br_cont r = be16 v @ rest"
  obtains r' where "ReadUint16 r = Inr (v, r')" "br_ok r'" "br_err r' = EOF" "br_cont r' = rest"
  using ReadUint16_law [OF assms(1,2)] assms(3) by auto

section \<open>Properties\<close>


definition demo_link :: Reader where
  "demo_link = \<lparr>rd_pending = [[FromBytes [0]], [], [FromBytes [2, 7], FromBytes [8, 9]]], rd_err = EOF\<rparr>"

lemma demo_link_ok: "br_ok (NewBufferedReader demo_link)" "br_err (NewBufferedReader demo_link) = EOF"
  "br_cont (NewBufferedReader demo_link) = [0, 2, 7, 8, 9]"
  using FromBytes_ok [of "[0]"] FromBytes_ok [of "[2, 7]"] FromBytes_ok [of "[8, 9]"]
  by (simp_all add: br_ok_def rd_ok_def br_cont_def br_mb_def NewBufferedReader_def demo_link_def Size_def)




end
