(* ===== verification/Chunk.thy ===== *)
theory Chunk
  imports BufIO
begin

text \<open>
  Package \<^verbatim>\<open>common/crypto\<close>, file \<^verbatim>\<open>chunk.go\<close>: a byte stream cut into chunks, each after its size. The
  codec of the size is an interface (\<^verbatim>\<open>ChunkSizeDecoder\<close>, \<^verbatim>\<open>ChunkSizeEncoder\<close>), whose methods may
  keep a state; the plain codec writes two bytes. The reader works on a \<^verbatim>\<open>BufferedReader\<close> that
  it shares with its creator: mux reads one chunk of its link this way and goes on with the next
  frame.
\<close>

section \<open>Size codecs\<close>

record 'd ChunkSizeDecoder =
  dec_SizeBytes :: int
  dec_Decode :: "'d \<Rightarrow> byte list \<Rightarrow> (go_error + u16) \<times> 'd"

record 'e ChunkSizeEncoder =
  enc_SizeBytes :: int
  enc_Encode :: "'e \<Rightarrow> u16 \<Rightarrow> byte list \<Rightarrow> (byte list \<times> 'e) result"

definition PlainChunkSizeParser_SizeBytes :: int where
  "PlainChunkSizeParser_SizeBytes = 2"

definition PlainChunkSizeParser_Encode :: "u16 \<Rightarrow> byte list \<Rightarrow> byte list result" where
  "PlainChunkSizeParser_Encode sz b = bind_res (put 0 (be16 sz) b) (\<lambda>b'. slice 0 2 b')"

definition PlainChunkSizeParser_Decode :: "byte list \<Rightarrow> u16 result" where
  "PlainChunkSizeParser_Decode b = Uint16 b"

definition plain_decoder :: "unit ChunkSizeDecoder" where
  "plain_decoder = \<lparr>dec_SizeBytes = PlainChunkSizeParser_SizeBytes, dec_Decode = (\<lambda>d b. (PlainChunkSizeParser_Decode b, d))\<rparr>"

definition plain_encoder :: "unit ChunkSizeEncoder" where
  "plain_encoder = \<lparr>enc_SizeBytes = PlainChunkSizeParser_SizeBytes,
     enc_Encode = (\<lambda>d sz b. bind_res (PlainChunkSizeParser_Encode sz b) (\<lambda>b'. Inr (b', d)))\<rparr>"

section \<open>Reader\<close>

record 'd ChunkStreamReader =
  csr_sizeDecoder :: 'd
  csr_reader :: BufferedReader
  csr_leftOverSize :: int
  csr_maxNumChunk :: u32
  csr_numChunk :: u32

definition NewChunkStreamReaderWithChunkCount :: "'d \<Rightarrow> BufferedReader \<Rightarrow> u32 \<Rightarrow> 'd ChunkStreamReader" where
  "NewChunkStreamReaderWithChunkCount d r maxNumChunk =
     \<lparr>csr_sizeDecoder = d, csr_reader = r, csr_leftOverSize = 0, csr_maxNumChunk = maxNumChunk, csr_numChunk = 0\<rparr>"

definition NewChunkStreamReader :: "'d \<Rightarrow> BufferedReader \<Rightarrow> 'd ChunkStreamReader" where
  "NewChunkStreamReader d r = NewChunkStreamReaderWithChunkCount d r 0"

definition readSize :: "'d ChunkSizeDecoder \<Rightarrow> 'd ChunkStreamReader
    \<Rightarrow> ((go_error + u16) \<times> 'd ChunkStreamReader) result" where
  "readSize ops r =
     bind_res (br_ReadFull (csr_reader r) (nat (dec_SizeBytes ops))) (\<lambda>(buffer, rd, err).
       case err of
         Some e \<Rightarrow> Inr (Inl e, r\<lparr>csr_reader := rd\<rparr>)
       | None \<Rightarrow>
           (case dec_Decode ops (csr_sizeDecoder r) buffer of
              (Inl Panic, d) \<Rightarrow> Inl Panic
            | (v, d) \<Rightarrow> Inr (v, r\<lparr>csr_reader := rd, csr_sizeDecoder := d\<rparr>)))"

text \<open>The second half of \<^verbatim>\<open>ReadMultiBuffer\<close>, with \<open>sz\<close> bytes of the current chunk left.\<close>

definition read_chunk :: "'d ChunkStreamReader \<Rightarrow> int
    \<Rightarrow> (MultiBuffer \<times> go_error option \<times> 'd ChunkStreamReader) result" where
  "read_chunk r sz =
     bind_res (ReadAtMost (csr_reader r) sz) (\<lambda>(mb, err, rd).
       if \<not> MultiBuffer_IsEmpty mb
       then Inr (mb, None, r\<lparr>csr_leftOverSize := i32 (sz - MultiBuffer_Len mb), csr_reader := rd\<rparr>)
       else Inr ([], err, r\<lparr>csr_leftOverSize := sz, csr_reader := rd\<rparr>))"

definition ChunkStreamReader_ReadMultiBuffer :: "'d ChunkSizeDecoder \<Rightarrow> 'd ChunkStreamReader
    \<Rightarrow> (MultiBuffer \<times> go_error option \<times> 'd ChunkStreamReader) result" where
  "ChunkStreamReader_ReadMultiBuffer ops r =
     (if csr_leftOverSize r = 0 then
        let r1 = r\<lparr>csr_numChunk := csr_numChunk r + 1\<rparr> in
        if csr_maxNumChunk r1 > 0 \<and> csr_numChunk r1 > csr_maxNumChunk r1 then Inr ([], Some EOF, r1)
        else bind_res (readSize ops r1) (\<lambda>(v, r2).
               case v of
                 Inl e \<Rightarrow> Inr ([], Some e, r2)
               | Inr nextSize \<Rightarrow> if nextSize = 0 then Inr ([], Some EOF, r2) else read_chunk r2 (uint nextSize))
      else read_chunk r (csr_leftOverSize r))"

section \<open>Writer\<close>

text \<open>
  The loop of \<^verbatim>\<open>WriteMultiBuffer\<close>: slices of at most 8192 bytes, each after its size. The slices
  shrink the rest, so the last branch is not taken.
\<close>

function ChunkStreamWriter_loop :: "'e ChunkSizeEncoder \<Rightarrow> 'e \<Rightarrow> MultiBuffer \<Rightarrow> MultiBuffer
    \<Rightarrow> (MultiBuffer \<times> 'e) result" where
  "ChunkStreamWriter_loop ops e mb mb2Write =
     (case SplitSize mb 8192 of
        Inl err \<Rightarrow> Inl err
      | Inr (mb2, slc) \<Rightarrow>
          (case bind_res (Buffer_Extend New (enc_SizeBytes ops)) (\<lambda>(b, off).
                  bind_res (slice (int off) (int off + enc_SizeBytes ops) (buf_v b)) (\<lambda>dst.
                  bind_res (enc_Encode ops e (word_of_int (MultiBuffer_Len slc)) dst) (\<lambda>(enc, e').
                  bind_res (store off enc b) (\<lambda>b'. Inr (b', e'))))) of
             Inl err \<Rightarrow> Inl err
           | Inr (b, e') \<Rightarrow>
               let mb2Write' = mb2Write @ [b] @ slc in
               if MultiBuffer_IsEmpty mb2 then Inr (mb2Write', e')
               else if length mb2 < length mb \<or> length mb2 = length mb \<and> length (mcontent mb2) < length (mcontent mb)
               then ChunkStreamWriter_loop ops e' mb2 mb2Write' else Inl Panic))"
  by pat_completeness auto
termination
  by (relation "measures [\<lambda>(ops, e, mb, acc). length mb, \<lambda>(ops, e, mb, acc). length (mcontent mb)]") auto

declare ChunkStreamWriter_loop.simps [simp del]

definition ChunkStreamWriter_WriteMultiBuffer :: "'e ChunkSizeEncoder \<Rightarrow> 'w buf_Writer \<Rightarrow> 'e \<Rightarrow> 'w \<Rightarrow> MultiBuffer
    \<Rightarrow> (go_error option \<times> 'e \<times> 'w) result" where
  "ChunkStreamWriter_WriteMultiBuffer ops wr e w mb =
     bind_res (ChunkStreamWriter_loop ops e mb []) (\<lambda>(mb2Write, e').
       case wr w mb2Write of (err, w') \<Rightarrow> Inr (err, e', w'))"

section \<open>The chunked byte stream\<close>

text \<open>
  The reference decoder of the plain format, on byte lists: \<open>dechunk k bs\<close> reads at most \<open>k\<close> chunks
  up to a chunk of size zero and returns their bytes and what follows; \<open>chunked k bs\<close> says that no
  chunk is cut off.
\<close>

definition chunk_size :: "byte list \<Rightarrow> nat" where
  "chunk_size bs = (case Uint16 bs of Inr v \<Rightarrow> unat v | Inl e \<Rightarrow> 0)"

primrec dechunk :: "nat \<Rightarrow> byte list \<Rightarrow> byte list \<times> byte list" where
  "dechunk 0 bs = ([], bs)"
| "dechunk (Suc k) bs =
     (let n = chunk_size bs; tl = drop 2 bs in
      if n = 0 then ([], tl)
      else (take n tl @ fst (dechunk k (drop n tl)), snd (dechunk k (drop n tl))))"

primrec chunked :: "nat \<Rightarrow> byte list \<Rightarrow> bool" where
  "chunked 0 bs = True"
| "chunked (Suc k) bs \<longleftrightarrow> 2 \<le> length bs \<and> chunk_size bs \<le> length bs - 2
     \<and> (chunk_size bs = 0 \<or> chunked k (drop (chunk_size bs) (drop 2 bs)))"

lemma chunk_size_short: "length bs < 2 \<Longrightarrow> chunk_size bs = 0"
  by (cases bs rule: Uint16.cases) (auto simp: chunk_size_def)

lemma chunk_size_be16 [simp]: "chunk_size (be16 v @ bs) = unat v"
  by (simp add: chunk_size_def)

lemma budget_irrelevant:
  "length bs < k \<Longrightarrow> length bs < k' \<Longrightarrow> dechunk k bs = dechunk k' bs \<and> (chunked k bs \<longleftrightarrow> chunked k' bs)"
proof (induction k arbitrary: k' bs)
  case (Suc k)
  obtain j where j: "k' = Suc j" using Suc.prems(2) by (cases k') auto
  show ?case
  proof (cases "chunk_size bs = 0")
    case True
    then show ?thesis by (simp add: j)
  next
    case False
    then have "2 \<le> length bs" using chunk_size_short [of bs] by linarith
    then have "length (drop (chunk_size bs) (drop 2 bs)) < k" "length (drop (chunk_size bs) (drop 2 bs)) < j"
      using Suc.prems j by simp_all
    from Suc.IH [OF this] show ?thesis by (simp add: j Let_def)
  qed
qed simp

text \<open>What a reader of plain chunks will deliver, as a function of its state.\<close>

type_synonym plain_reader = "unit ChunkStreamReader"

definition csr_budget :: "plain_reader \<Rightarrow> byte list \<Rightarrow> nat" where
  "csr_budget r bs = (if csr_maxNumChunk r = 0 then Suc (length bs) else unat (csr_maxNumChunk r) - unat (csr_numChunk r))"

definition csr_tail :: "plain_reader \<Rightarrow> byte list" where
  "csr_tail r = drop (nat (csr_leftOverSize r)) (br_cont (csr_reader r))"

definition csr_cont :: "plain_reader \<Rightarrow> byte list" where
  "csr_cont r = take (nat (csr_leftOverSize r)) (br_cont (csr_reader r)) @ fst (dechunk (csr_budget r (csr_tail r)) (csr_tail r))"

definition csr_after :: "plain_reader \<Rightarrow> byte list \<times> bool" where
  "csr_after r = (snd (dechunk (csr_budget r (csr_tail r)) (csr_tail r)), True)"

definition br_raw :: "BufferedReader \<Rightarrow> byte list \<times> bool" where
  "br_raw r = (br_cont r, br_ok r \<and> br_err r = EOF)"

definition csr_raw :: "plain_reader \<Rightarrow> byte list \<times> bool" where
  "csr_raw r = br_raw (csr_reader r)"

definition csr_ok :: "plain_reader \<Rightarrow> bool" where
  "csr_ok r \<longleftrightarrow> br_ok (csr_reader r) \<and> br_err (csr_reader r) = EOF
     \<and> 0 \<le> csr_leftOverSize r \<and> csr_leftOverSize r \<le> 65535
     \<and> nat (csr_leftOverSize r) \<le> length (br_cont (csr_reader r))
     \<and> chunked (csr_budget r (csr_tail r)) (csr_tail r)
     \<and> (csr_maxNumChunk r = 0 \<or> unat (csr_numChunk r) \<le> unat (csr_maxNumChunk r) \<and> unat (csr_maxNumChunk r) < 4294967295)"

definition csr_weight :: "plain_reader \<Rightarrow> nat" where
  "csr_weight r = br_weight (csr_reader r)"

lemma read_chunk_law:
  assumes "csr_ok (r\<lparr>csr_leftOverSize := sz\<rparr>)" "0 < sz"
  shows "\<exists>mb r'. read_chunk r sz = Inr (mb, None, r') \<and> mb_ok mb \<and> csr_ok r' \<and> csr_weight r' < csr_weight r
    \<and> csr_after r' = csr_after (r\<lparr>csr_leftOverSize := sz\<rparr>) \<and> csr_cont (r\<lparr>csr_leftOverSize := sz\<rparr>) = mcontent mb @ csr_cont r'"
proof -
  let ?c = "br_cont (csr_reader r)"
  from assms have o: "br_ok (csr_reader r)" "br_err (csr_reader r) = EOF" "sz \<le> 65535" "nat sz \<le> length ?c"
    by (simp_all add: csr_ok_def)
  have "?c \<noteq> []" using assms(2) o(4) by auto
  from o(1) assms(2) o(3) show ?thesis
  proof (cases rule: ReadAtMost_law)
    case eof
    with \<open>?c \<noteq> []\<close> show ?thesis by simp
  next
    case (data mb rd)
    let ?n = "length (mcontent mb)"
    have n: "?n \<le> nat sz" using data(4) assms(2) by simp
    then have len: "MultiBuffer_Len mb = int ?n"
      using MultiBuffer_Len_mcontent [OF data(2)] o(3) by simp
    let ?r = "r\<lparr>csr_leftOverSize := sz - int ?n, csr_reader := rd\<rparr>"
    have sz: "nat (sz - int ?n) = nat sz - ?n" by (simp add: nat_diff_distrib)
    have br: "br_cont rd = drop ?n ?c" "mcontent mb = take ?n ?c" using data(3) by simp_all
    have tail: "csr_tail ?r = csr_tail (r\<lparr>csr_leftOverSize := sz\<rparr>)"
      using n by (simp add: csr_tail_def sz br(1))
    have budget: "csr_budget ?r bs = csr_budget (r\<lparr>csr_leftOverSize := sz\<rparr>) bs" for bs by (simp add: csr_budget_def)
    have ok: "csr_ok ?r"
      using assms(1) data(4-6) n o(3,4) tail budget by (simp add: csr_ok_def sz br(1) diff_le_mono)
    have "take (nat sz) ?c = take ?n ?c @ take (nat sz - ?n) (drop ?n ?c)"
      using n by (metis le_add_diff_inverse take_add)
    then have cont: "csr_cont (r\<lparr>csr_leftOverSize := sz\<rparr>) = mcontent mb @ csr_cont ?r"
      using br by (simp add: csr_cont_def tail budget sz)
    show ?thesis
    proof (cases "mcontent mb = []")
      case True
      with data have "read_chunk r sz = Inr ([], None, ?r)" by (simp add: read_chunk_def)
      with True ok cont tail budget data(7) show ?thesis by (simp add: csr_weight_def csr_after_def)
    next
      case False
      have "i32 (sz - int ?n) = sz - int ?n" using n o(3) assms(2) by simp
      with False data len have "read_chunk r sz = Inr (mb, None, ?r)" by (simp add: read_chunk_def)
      with ok cont tail budget data(2,7) show ?thesis by (simp add: csr_weight_def csr_after_def)
    qed
  qed
qed

lemma plain_decoder_update [simp]: "(r :: plain_reader)\<lparr>csr_reader := rd, csr_sizeDecoder := d\<rparr> = r\<lparr>csr_reader := rd\<rparr>"
  by (cases r) simp

lemma readSize_law:
  fixes r :: plain_reader
  assumes "br_ok (csr_reader r)" "br_err (csr_reader r) = EOF" "2 \<le> length (br_cont (csr_reader r))"
  obtains v rd where "readSize plain_decoder r = Inr (Inr v, r\<lparr>csr_reader := rd\<rparr>)" "unat v = chunk_size (br_cont (csr_reader r))"
    "br_ok rd" "br_err rd = EOF" "br_cont rd = drop 2 (br_cont (csr_reader r))" "br_weight rd \<le> br_weight (csr_reader r)"
proof -
  from assms(3) obtain x y zs where c: "br_cont (csr_reader r) = x # y # zs"
    by (metis Suc_le_length_iff numeral_2_eq_2)
  from assms(1,2) obtain rd where "br_ReadFull (csr_reader r) 2
      = (case ReadFull (br_cont (csr_reader r)) 2 of (xs, rest, err) \<Rightarrow> Inr (xs, rd, err))"
    "br_ok rd" "br_err rd = EOF" "br_cont rd = fst (snd (ReadFull (br_cont (csr_reader r)) 2))"
    "br_weight rd \<le> br_weight (csr_reader r)" by (rule br_ReadFull_law)
  then show thesis using that c
    by (simp add: readSize_def plain_decoder_def PlainChunkSizeParser_SizeBytes_def PlainChunkSizeParser_Decode_def
        ReadFull_def chunk_size_def numeral_2_eq_2)
qed

lemma unat_Suc_u32: "unat (w :: u32) < 4294967295 \<Longrightarrow> unat (w + 1) = Suc (unat w)"
  by (simp add: unat_word_ariths)

text \<open>A fresh chunk: the end of the last one, or a size and the chunk.\<close>

lemma ChunkStreamReader_next:
  assumes "csr_ok r" "csr_leftOverSize r = 0" "csr_budget r (csr_tail r) = Suc k"
    and "r1 = r\<lparr>csr_numChunk := csr_numChunk r + 1\<rparr>"
  shows "\<not> (csr_maxNumChunk r1 > 0 \<and> csr_numChunk r1 > csr_maxNumChunk r1)"
    "csr_maxNumChunk r = 0 \<or> unat (csr_maxNumChunk r1) - unat (csr_numChunk r1) = k"
    "csr_maxNumChunk r = 0 \<or> unat (csr_numChunk r1) \<le> unat (csr_maxNumChunk r1)"
proof -
  have "csr_maxNumChunk r = 0 \<or> unat (csr_numChunk r1) = Suc (unat (csr_numChunk r))
      \<and> unat (csr_maxNumChunk r) - unat (csr_numChunk r) = Suc k"
  proof (cases "csr_maxNumChunk r = 0")
    case False
    with assms(3) have "unat (csr_maxNumChunk r) - unat (csr_numChunk r) = Suc k" by (simp add: csr_budget_def)
    moreover from this have "unat (csr_numChunk r) < 4294967295" using assms(1) False by (auto simp: csr_ok_def)
    ultimately show ?thesis using assms(4) by (simp add: unat_Suc_u32)
  qed simp
  then show "\<not> (csr_maxNumChunk r1 > 0 \<and> csr_numChunk r1 > csr_maxNumChunk r1)"
    "csr_maxNumChunk r = 0 \<or> unat (csr_maxNumChunk r1) - unat (csr_numChunk r1) = k"
    "csr_maxNumChunk r = 0 \<or> unat (csr_numChunk r1) \<le> unat (csr_maxNumChunk r1)"
    using assms(4) by (auto simp: word_less_nat_alt)
qed

lemma ChunkStreamReader_law:
  assumes "csr_ok r"
  shows "\<exists>mb err r'. ChunkStreamReader_ReadMultiBuffer plain_decoder r = Inr (mb, err, r') \<and> mb_ok mb
      \<and> (case err of
           None \<Rightarrow> csr_ok r' \<and> csr_weight r' < csr_weight r \<and> csr_after r' = csr_after r \<and> csr_cont r = mcontent mb @ csr_cont r'
         | Some e \<Rightarrow> e = EOF \<and> mcontent mb = [] \<and> csr_cont r = [] \<and> csr_raw r' = csr_after r)"
proof (cases "csr_leftOverSize r = 0")
  case False
  then have "0 < csr_leftOverSize r" "r\<lparr>csr_leftOverSize := csr_leftOverSize r\<rparr> = r" using assms by (simp_all add: csr_ok_def)
  with read_chunk_law [of "csr_leftOverSize r" r] assms False show ?thesis
    by (fastforce simp: ChunkStreamReader_ReadMultiBuffer_def)
next
  case True
  define r1 where "r1 = r\<lparr>csr_numChunk := csr_numChunk r + 1\<rparr>"
  let ?c = "br_cont (csr_reader r)"
  have tail: "csr_tail r = ?c" using True by (simp add: csr_tail_def)
  show ?thesis
  proof (cases "csr_budget r ?c")
    case 0
    then have "csr_maxNumChunk r \<noteq> 0" "csr_numChunk r = csr_maxNumChunk r" "unat (csr_numChunk r) < 4294967295"
      using assms by (auto simp: csr_budget_def csr_ok_def word_unat_eq_iff split: if_splits)
    then have "csr_maxNumChunk r1 > 0 \<and> csr_numChunk r1 > csr_maxNumChunk r1"
      using unat_Suc_u32 [of "csr_numChunk r"] by (simp add: r1_def word_less_nat_alt unat_gt_0)
    then have "ChunkStreamReader_ReadMultiBuffer plain_decoder r = Inr ([], Some EOF, r1)"
      using True by (simp add: ChunkStreamReader_ReadMultiBuffer_def r1_def Let_def)
    with 0 True assms show ?thesis by (simp add: csr_cont_def csr_after_def csr_raw_def br_raw_def tail r1_def csr_ok_def)
  next
    case (Suc k)
    note nx = ChunkStreamReader_next [OF assms True Suc [folded tail] r1_def]
    from assms Suc tail have ch: "chunked (Suc k) ?c" "br_ok (csr_reader r1)" "br_err (csr_reader r1) = EOF"
      by (simp_all add: csr_ok_def r1_def)
    then have "2 \<le> length (br_cont (csr_reader r1))" by (simp add: r1_def)
    with ch(2,3) obtain v rd where rs: "readSize plain_decoder r1 = Inr (Inr v, r1\<lparr>csr_reader := rd\<rparr>)" "unat v = chunk_size ?c"
      "br_ok rd" "br_err rd = EOF" "br_cont rd = drop 2 ?c" "br_weight rd \<le> br_weight (csr_reader r)"
      using readSize_law [of r1] by (auto simp: r1_def)
    let ?r2 = "r1\<lparr>csr_reader := rd\<rparr>"
    have run: "ChunkStreamReader_ReadMultiBuffer plain_decoder r =
        (if v = 0 then Inr ([], Some EOF, ?r2) else read_chunk ?r2 (uint v))"
      unfolding ChunkStreamReader_ReadMultiBuffer_def Let_def r1_def [symmetric] using True nx(1) rs(1) by auto
    show ?thesis
    proof (cases "v = 0")
      case True
      then have "chunk_size ?c = 0" using rs(2) by simp
      with run True rs \<open>csr_leftOverSize r = 0\<close> Suc show ?thesis
        by (simp add: csr_cont_def csr_after_def csr_raw_def br_raw_def tail Let_def)
    next
      case False
      let ?n = "chunk_size ?c"
      let ?r3 = "?r2\<lparr>csr_leftOverSize := uint v\<rparr>"
      have "0 < unat v" using False by (metis unat_gt_0)
      then have n0: "0 < ?n" "?n \<le> 65535" using unat_u16 [of v] by (simp_all flip: rs(2))
      have vn: "uint v = int ?n" unfolding rs(2) [symmetric] by (rule uint_nat)
      with n0 have v: "uint v = int ?n" "0 < ?n" "?n \<le> 65535" "0 < uint v" by simp_all
      have n: "?n \<le> length ?c - 2" "chunked k (drop ?n (drop 2 ?c))" using ch(1) v(2) by simp_all
      have tail3: "csr_tail ?r3 = drop ?n (drop 2 ?c)" using v rs(5) by (simp add: csr_tail_def)
      have budget3: "dechunk (csr_budget ?r3 (csr_tail ?r3)) (csr_tail ?r3) = dechunk k (drop ?n (drop 2 ?c))
          \<and> chunked (csr_budget ?r3 (csr_tail ?r3)) (csr_tail ?r3)"
      proof (cases "csr_maxNumChunk r = 0")
        case True
        then have "k = length ?c" using Suc by (simp add: csr_budget_def)
        moreover have "2 \<le> length ?c" using ch(1) by simp
        ultimately have "length (drop ?n (drop 2 ?c)) < k" by simp
        with budget_irrelevant [OF this, of "Suc (length (drop ?n (drop 2 ?c)))"] n(2) True show ?thesis
          unfolding tail3 by (simp add: csr_budget_def r1_def)
      next
        case False
        with nx(2) n(2) show ?thesis unfolding tail3 by (simp add: csr_budget_def r1_def)
      qed
      have "csr_ok ?r3"
        using budget3 rs v n nx(3) assms by (auto simp: csr_ok_def r1_def)
      from read_chunk_law [OF this v(4)] obtain mb r' where
        rc: "read_chunk ?r2 (uint v) = Inr (mb, None, r')" "mb_ok mb" "csr_ok r'" "csr_weight r' < csr_weight ?r2"
        "csr_after r' = csr_after ?r3" "csr_cont ?r3 = mcontent mb @ csr_cont r'" by blast
      have "csr_cont ?r3 = csr_cont r" "csr_after ?r3 = csr_after r"
        using v rs(5) Suc budget3 \<open>csr_leftOverSize r = 0\<close> by (simp_all add: csr_cont_def csr_after_def tail Let_def)
      moreover have "csr_weight ?r2 \<le> csr_weight r" using rs(6) by (simp add: csr_weight_def)
      ultimately show ?thesis using run False rc by (intro exI [of _ mb] exI [of _ None] exI [of _ r']) simp
    qed
  qed
qed

interpretation chunk_source: multi_source csr_ok csr_cont csr_after csr_raw csr_weight
    "ChunkStreamReader_ReadMultiBuffer plain_decoder"
  by unfold_locales (rule ChunkStreamReader_law)

section \<open>What the writer puts on the wire\<close>

definition chunk_wire :: "byte list \<Rightarrow> byte list" where
  "chunk_wire d = be16 (of_nat (length d)) @ d"

text \<open>The header buffer of a chunk: the plain codec fills the two bytes of the extension.\<close>

lemma chunk_header:
  obtains b where "bind_res (Buffer_Extend New (enc_SizeBytes plain_encoder)) (\<lambda>(b, off).
                  bind_res (slice (int off) (int off + enc_SizeBytes plain_encoder) (buf_v b)) (\<lambda>dst.
                  bind_res (enc_Encode plain_encoder () v dst) (\<lambda>(enc, e').
                  bind_res (store off enc b) (\<lambda>b'. Inr (b', e'))))) = Inr (b, ())"
    "buffer_ok b" "content b = be16 v"
proof -
  let ?b = "New\<lparr>buf_v := overwrite (nat (buf_end New)) (be16 v) (buf_v New), buf_end := buf_end New + int (length (be16 v))\<rparr>"
  have "buffer_ok ?b" "content ?b = be16 v"
    using content_update_v [OF New_ok(1) _ refl, of "be16 v"] by (simp_all add: Size_def)
  moreover have "put 0 (be16 v) [0, 0] = Inr (be16 v)" "slice 0 2 (be16 v) = Inr (be16 v)"
    by (simp_all add: put_def overwrite_def slice_def be16_def)
  moreover have "slice 0 2 (replicate Size (0 :: byte)) = Inr [0, 0]"
    by (simp add: slice_def Size_def numeral_2_eq_2)
  ultimately show thesis
    using that [of ?b]
    by (simp add: Buffer_Extend_def plain_encoder_def PlainChunkSizeParser_SizeBytes_def PlainChunkSizeParser_Encode_def
        store_def put_def Size_def)
qed

lemma word_of_len: "n \<le> 8192 \<Longrightarrow> (word_of_int (int n) :: u16) = of_nat n"
  by simp

lemma ChunkStreamWriter_loop_law:
  "mb_ok mb \<Longrightarrow> mb_solid mb \<Longrightarrow> mb \<noteq> [] \<Longrightarrow> mb_ok acc \<Longrightarrow>
     \<exists>out ds. ChunkStreamWriter_loop plain_encoder () mb acc = Inr (out, ()) \<and> mb_ok out
       \<and> mcontent out = mcontent acc @ concat (map chunk_wire ds) \<and> concat ds = mcontent mb
       \<and> (\<forall>d \<in> set ds. d \<noteq> [] \<and> length d \<le> 8192)"
proof (induction plain_encoder "()" mb acc rule: ChunkStreamWriter_loop.induct)
  case (1 mb acc)
  have "(8192 :: int) \<le> int Size" by (simp add: Size_def)
  then obtain rest r where sp: "SplitSize mb 8192 = Inr (rest, r)" "mb_ok rest" "mb_ok r"
    "mcontent r @ mcontent rest = mcontent mb" "int (length (mcontent r)) \<le> 8192" "r \<noteq> []" "length rest \<le> length mb"
    "length rest < length mb \<or> length (mcontent rest) < length (mcontent mb)" "mb_solid rest" "mb_solid r"
    using SplitSize_law [OF "1.prems"(1), of 8192] "1.prems"(2,3) by simp blast
  define v where "v = (of_nat (length (mcontent r)) :: u16)"
  obtain b where b: "bind_res (Buffer_Extend New (enc_SizeBytes plain_encoder)) (\<lambda>(b, off).
                  bind_res (slice (int off) (int off + enc_SizeBytes plain_encoder) (buf_v b)) (\<lambda>dst.
                  bind_res (enc_Encode plain_encoder () v dst) (\<lambda>(enc, e').
                  bind_res (store off enc b) (\<lambda>b'. Inr (b', e'))))) = Inr (b, ())"
    "buffer_ok b" "content b = be16 v" by (rule chunk_header)
  have len: "word_of_int (MultiBuffer_Len r) = v"
    using MultiBuffer_Len_mcontent [OF sp(3)] sp(5) by (simp add: v_def)
  have r: "mcontent r \<noteq> []" using sp(6,10) by (cases r) auto
  let ?acc = "acc @ [b] @ r"
  have acc: "mb_ok ?acc" "mcontent ?acc = mcontent acc @ chunk_wire (mcontent r)"
    using "1.prems"(4) b sp(3) by (simp_all add: chunk_wire_def v_def)
  show ?case
  proof (cases "mcontent rest = []")
    case True
    then have "ChunkStreamWriter_loop plain_encoder () mb acc = Inr (?acc, ())"
      using sp(1,2) b(1) len by (subst ChunkStreamWriter_loop.simps) simp
    with True acc sp(4,5) r show ?thesis
      by (intro exI [of _ ?acc] exI [of _ "[mcontent r]"]) simp
  next
    case False
    have lt: "length rest < length mb \<or> length rest = length mb \<and> length (mcontent rest) < length (mcontent mb)"
      using sp(7,8) by auto
    have step: "ChunkStreamWriter_loop plain_encoder () mb acc = ChunkStreamWriter_loop plain_encoder () rest ?acc"
      using sp(1,2) b(1) len False lt by (subst ChunkStreamWriter_loop.simps) simp
    have ne: "\<not> MultiBuffer_IsEmpty rest" "rest \<noteq> []" using False sp(2) by auto
    have "\<exists>out ds. ChunkStreamWriter_loop plain_encoder () rest ?acc = Inr (out, ()) \<and> mb_ok out
       \<and> mcontent out = mcontent ?acc @ concat (map chunk_wire ds) \<and> concat ds = mcontent rest
       \<and> (\<forall>d \<in> set ds. d \<noteq> [] \<and> length d \<le> 8192)"
      using "1.hyps" [OF sp(1) refl b(1) [folded len] refl refl ne(1) lt] sp(2,9) ne(2) acc(1) by simp
    then obtain out ds where o: "ChunkStreamWriter_loop plain_encoder () rest ?acc = Inr (out, ())" "mb_ok out"
      "mcontent out = mcontent ?acc @ concat (map chunk_wire ds)" "concat ds = mcontent rest"
      "\<forall>d \<in> set ds. d \<noteq> [] \<and> length d \<le> 8192" by blast
    with step acc(2) sp(4,5) r show ?thesis
      by (intro exI [of _ out] exI [of _ "mcontent r # ds"]) simp
  qed
qed

lemma unat_len: "length d \<le> 65535 \<Longrightarrow> unat (of_nat (length d) :: u16) = length d"
  by (simp add: unat_of_nat)

lemma dechunk_wire:
  assumes "\<forall>d \<in> set ds. d \<noteq> [] \<and> length d \<le> 65535"
  shows "dechunk (length ds + k) (concat (map chunk_wire ds) @ bs) = (concat ds @ fst (dechunk k bs), snd (dechunk k bs))
    \<and> (chunked (length ds + k) (concat (map chunk_wire ds) @ bs) \<longleftrightarrow> chunked k bs)"
  using assms
proof (induction ds)
  case (Cons d ds)
  let ?tl = "concat (map chunk_wire ds) @ bs"
  have w: "concat (map chunk_wire (d # ds)) @ bs = be16 (of_nat (length d)) @ d @ ?tl" by (simp add: chunk_wire_def)
  have n: "chunk_size (be16 (of_nat (length d)) @ d @ ?tl) = length d" "length d \<noteq> 0"
    using Cons.prems unat_len [of d] by simp_all
  have dr: "drop 2 (be16 (of_nat (length d)) @ d @ ?tl) = d @ ?tl" by simp
  from Cons show ?case unfolding w using n dr by (simp add: Let_def)
qed simp

definition collect :: "byte list buf_Writer" where
  "collect w mb = (None, w @ mcontent mb)"

lemma run_wr_collect: "run_wr collect w mbs = Some (w @ concat (map mcontent mbs))"
  by (induction mbs arbitrary: w) (simp_all add: collect_def)

lemma ChunkStreamWriter_end: "\<exists>out. ChunkStreamWriter_loop plain_encoder () [] [] = Inr (out, ()) \<and> mcontent out = be16 0"
proof -
  obtain b where b: "bind_res (Buffer_Extend New (enc_SizeBytes plain_encoder)) (\<lambda>(b, off).
                  bind_res (slice (int off) (int off + enc_SizeBytes plain_encoder) (buf_v b)) (\<lambda>dst.
                  bind_res (enc_Encode plain_encoder () 0 dst) (\<lambda>(enc, e').
                  bind_res (store off enc b) (\<lambda>b'. Inr (b', e'))))) = Inr (b, ())"
    "buffer_ok b" "content b = be16 0" by (rule chunk_header)
  then show ?thesis
    by (subst ChunkStreamWriter_loop.simps) (simp add: SplitSize_def MultiBuffer_Len_def)
qed

section \<open>Properties\<close>



end
