(* ===== verification/MuxFrame.thy ===== *)
theory MuxFrame
  imports AddressParser Chunk
begin

text \<open>
  Package \<^verbatim>\<open>common/mux\<close>, the frames: \<^verbatim>\<open>frame.go\<close> (metadata of a frame), \<^verbatim>\<open>writer.go\<close> (the writer of
  one session) and \<^verbatim>\<open>reader.go\<close>, with \<^verbatim>\<open>common/bitmask\<close>. A mux connection is a sequence of frames; a
  frame is its metadata and, when the option says so, one chunk of data.
\<close>

section \<open>Bit masks\<close>

definition Byte_Has :: "byte \<Rightarrow> byte \<Rightarrow> bool" where
  "Byte_Has b bb \<longleftrightarrow> b AND bb \<noteq> 0"

definition Byte_Set :: "byte \<Rightarrow> byte \<Rightarrow> byte" where
  "Byte_Set b bb = b OR bb"

definition Byte_Clear :: "byte \<Rightarrow> byte \<Rightarrow> byte" where
  "Byte_Clear b bb = b AND NOT bb"

definition Byte_Toggle :: "byte \<Rightarrow> byte \<Rightarrow> byte" where
  "Byte_Toggle b bb = b XOR bb"

section \<open>Frame metadata\<close>

definition SessionStatusNew :: byte where "SessionStatusNew = 1"
definition SessionStatusKeep :: byte where "SessionStatusKeep = 2"
definition SessionStatusEnd :: byte where "SessionStatusEnd = 3"
definition SessionStatusKeepAlive :: byte where "SessionStatusKeepAlive = 4"

definition OptionData :: byte where "OptionData = 1"
definition OptionError :: byte where "OptionError = 2"

definition TargetNetworkTCP :: byte where "TargetNetworkTCP = 1"
definition TargetNetworkUDP :: byte where "TargetNetworkUDP = 2"

lemmas status_defs = SessionStatusNew_def SessionStatusKeep_def SessionStatusEnd_def SessionStatusKeepAlive_def

text \<open>The options of a call of \<^verbatim>\<open>NewAddressParser\<close>; \<^verbatim>\<open>AddressFamilyByte\<close> itself can panic.\<close>

definition family_byte :: "byte \<Rightarrow> AddressFamily \<Rightarrow> AddressOption" where
  "family_byte b f p = bind_res (AddressFamilyByte b f) (\<lambda>opt. opt p)"

definition addrParser :: AddressSerializer where
  "addrParser = projr (NewAddressParser
     [family_byte 1 AddressFamilyIPv4, family_byte 2 AddressFamilyDomain, family_byte 3 AddressFamilyIPv6, PortThenAddress])"

record FrameMetadata =
  fm_Target :: Destination
  fm_SessionID :: u16
  fm_Option :: byte
  fm_SessionStatus :: byte

abbreviation buf_wr :: "Buffer \<Rightarrow> byte list \<Rightarrow> Buffer result" where
  "buf_wr b xs \<equiv> map_sum id fst (Buffer_Write b xs)"

text \<open>\<^verbatim>\<open>common.Must\<close>: an error is a panic. \<open>ignore_error\<close> is a call whose error is not looked at.\<close>

definition must :: "'a result \<Rightarrow> 'a result" where
  "must r = (case r of Inl e \<Rightarrow> Inl Panic | Inr x \<Rightarrow> Inr x)"

definition ignore_error :: "'a result \<Rightarrow> 'a \<Rightarrow> 'a result" where
  "ignore_error r x = (case r of Inl e \<Rightarrow> if e = Panic then Inl Panic else Inr x | Inr y \<Rightarrow> Inr y)"

text \<open>
  The target of a new session, or the endpoint of the buffer. In the second case the errors are
  ignored: a domain that is too long leaves the port behind, which is written first.
\<close>

definition WriteTo_target :: "FrameMetadata \<Rightarrow> Buffer \<Rightarrow> Buffer result" where
  "WriteTo_target f b =
     (if fm_SessionStatus f = SessionStatusNew then
        bind_res (case dest_Network (fm_Target f) of
                    Network_TCP \<Rightarrow> must (Buffer_WriteByte b TargetNetworkTCP)
                  | Network_UDP \<Rightarrow> must (Buffer_WriteByte b TargetNetworkUDP)
                  | _ \<Rightarrow> Inr b) (\<lambda>b1.
          WriteAddressPort buf_wr addrParser b1 (dest_Address (fm_Target f)) (dest_Port (fm_Target f)))
      else case buf_Endpoint b of
        None \<Rightarrow> Inr b
      | Some ep \<Rightarrow>
          bind_res (ignore_error (Buffer_WriteByte b TargetNetworkUDP) b) (\<lambda>b1.
          bind_res (writePort buf_wr b1 (dest_Port ep)) (\<lambda>b2.
            ignore_error (WriteAddressPort buf_wr addrParser b1 (dest_Address ep) (dest_Port ep)) b2)))"

definition FrameMetadata_WriteTo :: "FrameMetadata \<Rightarrow> Buffer \<Rightarrow> Buffer result" where
  "FrameMetadata_WriteTo f b =
     bind_res (Buffer_Extend b 2) (\<lambda>(b1, lenBytes).
       let len0 = blen b1 in
       bind_res (Buffer_Extend b1 2) (\<lambda>(b2, sessionBytes).
       bind_res (store sessionBytes (be16 (fm_SessionID f)) b2) (\<lambda>b3.
       bind_res (must (Buffer_WriteByte b3 (fm_SessionStatus f))) (\<lambda>b4.
       bind_res (must (Buffer_WriteByte b4 (fm_Option f))) (\<lambda>b5.
       bind_res (WriteTo_target f b5) (\<lambda>b6.
         let len1 = blen b6 in
         store lenBytes (be16 (word_of_int (i32 (len1 - len0)))) b6))))))"

definition UnmarshalFromBuffer :: "FrameMetadata \<Rightarrow> Buffer \<Rightarrow> FrameMetadata result" where
  "UnmarshalFromBuffer f b =
     (if blen b < 4 then Inl (NewError ''insufficient buffer'')
      else bind_res (Buffer_BytesTo b 2) (\<lambda>bytes.
           bind_res (Uint16 bytes) (\<lambda>sid.
           bind_res (Buffer_Byte b 2) (\<lambda>status.
           bind_res (Buffer_Byte b 3) (\<lambda>opt.
             let f1 = f\<lparr>fm_SessionID := sid, fm_SessionStatus := status, fm_Option := opt,
                        fm_Target := (fm_Target f)\<lparr>dest_Network := Network_Unknown\<rparr>\<rparr> in
             if status = SessionStatusNew \<or> (status = SessionStatusKeep \<and> blen b \<noteq> 4) then
               if blen b < 8 then Inl (NewError ''insufficient buffer'')
               else bind_res (Buffer_Byte b 4) (\<lambda>network.
                    let b1 = Buffer_Advance b 5 in
                    bind_res (Buffer_Bytes b1) (\<lambda>input.
                    bind_res (with_base ''failed to parse address and port'' (ReadAddressPort addrParser None input))
                      (\<lambda>(addr, port, _).
                        if network = TargetNetworkTCP then Inr (f1\<lparr>fm_Target := TCPDestination addr port\<rparr>)
                        else if network = TargetNetworkUDP then Inr (f1\<lparr>fm_Target := UDPDestination addr port\<rparr>)
                        else Inl (NewError ''unknown network type''))))
             else Inr f1)))))"

definition FrameMetadata_Unmarshal :: "FrameMetadata \<Rightarrow> BufferedReader \<Rightarrow> (FrameMetadata \<times> BufferedReader) result" where
  "FrameMetadata_Unmarshal f reader =
     bind_res (ReadUint16 reader) (\<lambda>(metaLen, r1).
       if metaLen > 512 then Inl (NewError ''invalid metalen'')
       else bind_res (br_read_full New r1 (uint metaLen)) (\<lambda>(b, r2).
            bind_res (UnmarshalFromBuffer f b) (\<lambda>f'. Inr (f', r2))))"

section \<open>Writer\<close>

datatype TransferType = TransferTypeStream | TransferTypePacket

record mux_Writer =
  mw_dest :: Destination
  mw_id :: u16
  mw_followup :: bool
  mw_hasError :: bool
  mw_transferType :: TransferType

definition NewWriter :: "u16 \<Rightarrow> Destination \<Rightarrow> TransferType \<Rightarrow> mux_Writer" where
  "NewWriter sid dest tt = \<lparr>mw_dest = dest, mw_id = sid, mw_followup = False, mw_hasError = False, mw_transferType = tt\<rparr>"

definition NewResponseWriter :: "u16 \<Rightarrow> TransferType \<Rightarrow> mux_Writer" where
  "NewResponseWriter sid tt =
     \<lparr>mw_dest = Destination_zero, mw_id = sid, mw_followup = True, mw_hasError = False, mw_transferType = tt\<rparr>"

definition getNextFrameMeta :: "mux_Writer \<Rightarrow> FrameMetadata \<times> mux_Writer" where
  "getNextFrameMeta w =
     (let meta = \<lparr>fm_Target = mw_dest w, fm_SessionID = mw_id w, fm_Option = 0, fm_SessionStatus = 0\<rparr> in
      if mw_followup w then (meta\<lparr>fm_SessionStatus := SessionStatusKeep\<rparr>, w)
      else (meta\<lparr>fm_SessionStatus := SessionStatusNew\<rparr>, w\<lparr>mw_followup := True\<rparr>))"

text \<open>
  The operations below return the error of the call (nil is \<open>None\<close>) and the state of the underlying
  \<^verbatim>\<open>buf.Writer\<close>; \<open>split_error\<close> turns the error of a model function into such a value.
\<close>

definition split_error :: "'a result \<Rightarrow> ('a \<Rightarrow> (go_error option \<times> 'w) result) \<Rightarrow> 'w \<Rightarrow> (go_error option \<times> 'w) result" where
  "split_error r f w = (case r of Inl e \<Rightarrow> if e = Panic then Inl Panic else Inr (Some e, w) | Inr x \<Rightarrow> f x)"

definition writeMetaOnly :: "'w buf_Writer \<Rightarrow> mux_Writer \<Rightarrow> 'w \<Rightarrow> (go_error option \<times> mux_Writer \<times> 'w) result" where
  "writeMetaOnly wr w out =
     (case getNextFrameMeta w of (meta, w') \<Rightarrow>
        bind_res (split_error (FrameMetadata_WriteTo meta New) (\<lambda>b. Inr (wr out [b])) out) (\<lambda>(err, out').
          Inr (err, w', out')))"

definition writeMetaWithFrame :: "'w buf_Writer \<Rightarrow> FrameMetadata \<Rightarrow> MultiBuffer \<Rightarrow> 'w \<Rightarrow> (go_error option \<times> 'w) result" where
  "writeMetaWithFrame wr meta data out =
     (let frame = (case data of [b] \<Rightarrow> New\<lparr>buf_Endpoint := buf_Endpoint b\<rparr> | _ \<Rightarrow> New) in
      split_error (FrameMetadata_WriteTo meta frame) (\<lambda>frame1.
      split_error (WriteUint16 buf_wr frame1 (word_of_int (MultiBuffer_Len data))) (\<lambda>frame2.
        if length data + 1 > 64 * 1024 * 1024 then Inr (Some (NewError ''value too large''), out)
        else Inr (wr out (frame2 # data))) out) out)"

definition writeData :: "'w buf_Writer \<Rightarrow> mux_Writer \<Rightarrow> MultiBuffer \<Rightarrow> 'w \<Rightarrow> (go_error option \<times> mux_Writer \<times> 'w) result" where
  "writeData wr w mb out =
     (case getNextFrameMeta w of (meta, w') \<Rightarrow>
        bind_res (writeMetaWithFrame wr (meta\<lparr>fm_Option := Byte_Set (fm_Option meta) OptionData\<rparr>) mb out) (\<lambda>(err, out').
          Inr (err, w', out')))"

text \<open>One round of the loop of \<^verbatim>\<open>WriteMultiBuffer\<close>: the rest and the chunk that is written.\<close>

definition take_chunk :: "TransferType \<Rightarrow> MultiBuffer \<Rightarrow> (MultiBuffer \<times> MultiBuffer) result" where
  "take_chunk tt mb =
     (if tt = TransferTypeStream then SplitSize mb (8 * 1024)
      else case SplitFirst mb of (mb2, b) \<Rightarrow> Inr (mb2, case b of None \<Rightarrow> [nil_buffer] | Some b' \<Rightarrow> [b']))"

function Writer_loop :: "'w buf_Writer \<Rightarrow> mux_Writer \<Rightarrow> MultiBuffer \<Rightarrow> 'w \<Rightarrow> (go_error option \<times> mux_Writer \<times> 'w) result" where
  "Writer_loop wr w mb out =
     (if MultiBuffer_IsEmpty mb then Inr (None, w, out)
      else case take_chunk (mw_transferType w) mb of
             Inl e \<Rightarrow> Inl e
           | Inr (mb', chunk) \<Rightarrow>
               (case writeData wr w chunk out of
                  Inl e \<Rightarrow> Inl e
                | Inr (Some err, w', out') \<Rightarrow> Inr (Some err, w', out')
                | Inr (None, w', out') \<Rightarrow>
                    if length mb' < length mb \<or> length mb' = length mb \<and> length (mcontent mb') < length (mcontent mb)
                    then Writer_loop wr w' mb' out' else Inl Panic))"
  by pat_completeness auto
termination
  by (relation "measures [\<lambda>(wr, w, mb, out). length mb, \<lambda>(wr, w, mb, out). length (mcontent mb)]") auto

declare Writer_loop.simps [simp del]

definition Writer_WriteMultiBuffer :: "'w buf_Writer \<Rightarrow> mux_Writer \<Rightarrow> MultiBuffer \<Rightarrow> 'w
    \<Rightarrow> (go_error option \<times> mux_Writer \<times> 'w) result" where
  "Writer_WriteMultiBuffer wr w mb out =
     (if MultiBuffer_IsEmpty mb then writeMetaOnly wr w out else Writer_loop wr w mb out)"

definition Writer_Close :: "'w buf_Writer \<Rightarrow> mux_Writer \<Rightarrow> 'w \<Rightarrow> (go_error option \<times> 'w) result" where
  "Writer_Close wr w out =
     (let meta = \<lparr>fm_Target = Destination_zero, fm_SessionID = mw_id w,
                  fm_Option = (if mw_hasError w then Byte_Set 0 OptionError else 0), fm_SessionStatus = SessionStatusEnd\<rparr> in
      bind_res (must (FrameMetadata_WriteTo meta New)) (\<lambda>frame.
        Inr (None, snd (wr out [frame]))))"

section \<open>Reader\<close>

record mux_PacketReader =
  mp_reader :: BufferedReader
  mp_eof :: bool
  mp_dest :: Destination

definition NewPacketReader :: "BufferedReader \<Rightarrow> Destination \<Rightarrow> mux_PacketReader" where
  "NewPacketReader reader dest = \<lparr>mp_reader = reader, mp_eof = False, mp_dest = dest\<rparr>"

definition NewStreamReader :: "BufferedReader \<Rightarrow> unit ChunkStreamReader" where
  "NewStreamReader reader = NewChunkStreamReaderWithChunkCount () reader 1"

text \<open>
  \<^verbatim>\<open>ReadMultiBuffer\<close> of the packet reader. After an error of the size or of the payload the state of the
  underlying reader no longer matters: the link has ended.
\<close>

definition mux_PacketReader_ReadMultiBuffer ::
  "mux_PacketReader \<Rightarrow> (MultiBuffer \<times> go_error option \<times> mux_PacketReader) result" where
  "mux_PacketReader_ReadMultiBuffer r =
     (if mp_eof r then Inr ([], Some EOF, r)
      else case ReadUint16 (mp_reader r) of
             Inl e \<Rightarrow> if e = Panic then Inl Panic else Inr ([], Some e, r)
           | Inr (sz, r1) \<Rightarrow>
               if unat sz > Size then Inr ([], Some (NewError ''packet size too large''), r\<lparr>mp_reader := r1\<rparr>)
               else (case br_read_full New r1 (uint sz) of
                       Inl e \<Rightarrow> if e = Panic then Inl Panic else Inr ([], Some e, r\<lparr>mp_reader := r1\<rparr>)
                     | Inr (b, r2) \<Rightarrow>
                         Inr ([if dest_Network (mp_dest r) = Network_UDP then b\<lparr>buf_Endpoint := Some (mp_dest r)\<rparr> else b],
                              None, r\<lparr>mp_reader := r2, mp_eof := True\<rparr>)))"

section \<open>Filling the buffer of a frame\<close>

text \<open>A buffer with its window, its start and its endpoint, which the writes of a frame keep.\<close>

definition bstate :: "int \<Rightarrow> Destination option \<Rightarrow> Buffer \<Rightarrow> bool" where
  "bstate s ep b \<longleftrightarrow> buffer_ok b \<and> buf_start b = s \<and> buf_Endpoint b = ep"

lemma Buffer_Write_start: "Buffer_Write b xs = Inr (b', n) \<Longrightarrow> buf_start b' = buf_start b"
  by (auto simp: Buffer_Write_def bind_res_Inr_iff Let_def)

interpretation frame_sink: byte_sink "bstate s ep" content "\<lambda>b n. n \<le> room b" buf_wr for s ep
proof
  fix b and xs :: "byte list"
  assume b: "bstate s ep b" "length xs \<le> room b"
  then obtain b' where w: "Buffer_Write b xs = Inr (b', length xs)" "buffer_ok b'"
    "content b' = content b @ xs" "room b' = room b - length xs" "buf_Endpoint b' = buf_Endpoint b"
    using Buffer_Write_fits [of b xs] by (auto simp: bstate_def)
  with b Buffer_Write_start [OF w(1)] show "\<exists>b'. buf_wr b xs = Inr b' \<and> bstate s ep b'
      \<and> content b' = content b @ xs \<and> (\<forall>n. length xs + n \<le> room b \<longrightarrow> n \<le> room b')"
    by (auto simp: bstate_def)
qed simp

lemma Buffer_WriteByte_law:
  assumes "bstate s ep b" "1 \<le> room b"
  obtains b' where "Buffer_WriteByte b x = Inr b'" "bstate s ep b'" "content b' = content b @ [x]" "room b' = room b - 1"
proof -
  from assms(1) have ok: "buffer_ok b" by (simp add: bstate_def)
  then obtain st e where w: "buf_start b = int st" "buf_end b = int e" "st \<le> e" "e \<le> length (buf_v b)"
    "length (buf_v b) \<le> 1073741823" "room b = length (buf_v b) - e" by (elim buffer_okE)
  let ?b = "b\<lparr>buf_v := overwrite (nat (buf_end b)) [x] (buf_v b), buf_end := buf_end b + int (length [x])\<rparr>"
  have "(buf_v b)[e := x] = overwrite e [x] (buf_v b)"
    using w assms(2) by (simp add: overwrite_def upd_conv_take_nth_drop)
  then have "Buffer_WriteByte b x = Inr ?b"
    using ok assms(2) w by (simp add: Buffer_WriteByte_def index_def)
  moreover have "buffer_ok ?b" "content ?b = content b @ [x]" "room ?b = room b - 1"
    using content_update_v [OF ok, of "[x]" ?b] assms(2) by simp_all
  ultimately show thesis using that [of ?b] assms(1) by (simp add: bstate_def)
qed

lemma Buffer_Extend_bstate:
  assumes "bstate s ep b" "n \<le> room b"
  obtains b' zs where "Buffer_Extend b (int n) = Inr (b', nat s + length (content b))" "bstate s ep b'"
    "content b' = content b @ zs" "length zs = n" "room b' = room b - n"
proof -
  from assms(1) have ok: "buffer_ok b" by (simp add: bstate_def)
  then obtain st e where w: "buf_start b = int st" "buf_end b = int e" "st \<le> e" "e \<le> length (buf_v b)"
    "length (buf_v b) \<le> 1073741823" "room b = length (buf_v b) - e" "length (content b) = e - st" by (elim buffer_okE)
  define zs where "zs = take n (drop e (buf_v b))"
  have len: "length zs = n" using w assms(2) by (simp add: zs_def)
  have "overwrite e zs (buf_v b) = buf_v b"
    using len by (simp add: overwrite_def zs_def) (metis append_take_drop_id drop_drop add.commute)
  then have "b\<lparr>buf_end := buf_end b + int n\<rparr> = b\<lparr>buf_v := overwrite (nat (buf_end b)) zs (buf_v b), buf_end := buf_end b + int (length zs)\<rparr>"
    using w len by simp
  from content_update_v [OF ok _ this] len assms(2)
  have "buffer_ok (b\<lparr>buf_end := buf_end b + int n\<rparr>)" "content (b\<lparr>buf_end := buf_end b + int n\<rparr>) = content b @ zs"
    "room (b\<lparr>buf_end := buf_end b + int n\<rparr>) = room b - n" by simp_all
  moreover have "Buffer_Extend b (int n) = Inr (b\<lparr>buf_end := buf_end b + int n\<rparr>, e)"
    using w assms(2) by (simp add: Buffer_Extend_def Prelude.slice_def Let_def)
  moreover have "e = nat s + length (content b)" using w assms(1) by (auto simp: bstate_def)
  ultimately show thesis using that len assms(1) by (simp add: bstate_def)
qed

lemma store_law:
  assumes "bstate s ep b" "content b = pre @ ys @ post" "length xs = length ys" "off = nat s + length pre"
  obtains b' where "store off xs b = Inr b'" "bstate s ep b'" "content b' = pre @ xs @ post" "room b' = room b"
proof -
  from assms(1) have ok: "buffer_ok b" by (simp add: bstate_def)
  then obtain st e where w: "buf_start b = int st" "buf_end b = int e" "st \<le> e" "e \<le> length (buf_v b)"
    "length (buf_v b) \<le> 1073741823" "content b = take (e - st) (drop st (buf_v b))" "length (content b) = e - st"
    by (elim buffer_okE)
  define A Z where "A = take st (buf_v b)" and "Z = drop e (buf_v b)"
  have A: "length A = st" using w by (simp add: A_def)
  have "buf_v b = A @ take (e - st) (drop st (buf_v b)) @ drop (e - st) (drop st (buf_v b))"
    by (simp only: A_def append_take_drop_id)
  then have v: "buf_v b = A @ (pre @ ys @ post) @ Z" using w(3,6) assms(2) by (simp add: Z_def)
  let ?b = "b\<lparr>buf_v := A @ (pre @ xs @ post) @ Z\<rparr>"
  have off: "off = length (A @ pre)" using assms(1,4) w(1) A by (auto simp: bstate_def)
  have "store off xs b = Inr ?b"
    using put_split [OF off, of ys xs "post @ Z"] v assms(3) by (simp add: store_def)
  moreover have l: "length (pre @ xs @ post) = e - st" "length (buf_v ?b) = length (buf_v b)"
    using w(7) assms(2,3) v by simp_all
  have c: "content ?b = pre @ xs @ post" using w(1,2,3) l(1) A by (simp add: content_def)
  have "bstate s ep ?b" "room ?b = room b"
    using assms(1) w l(2) by (simp_all add: bstate_def buffer_ok_def room_def)
  with c calculation show thesis using that by blast
qed

section \<open>The wire format of a frame\<close>

lemma addrParser_eq:
  "addrParser = portFirstAddressParser
     \<lparr>ap_addrTypeMap = ((replicate 16 afInvalid)[1 := 0, 2 := 2, 3 := 1]),
      ap_addrByteMap = ((replicate 16 afInvalid)[0 := 1, 2 := 2, 1 := 3]), ap_typeParser = None\<rparr>"
  by (simp add: addrParser_def NewAddressParser_def family_byte_def AddressFamilyByte_def PortThenAddress_def family_defs
      word_le_nat_alt)

lemma addrParser_ok: "ap_ok (serializer_parser addrParser)"
  by (auto simp: addrParser_eq ap_ok_def family_defs afInvalid_def nth_list_update
      dest!: set_update_subset_insert [THEN subsetD])

definition net_byte :: "Network \<Rightarrow> byte list" where
  "net_byte n = (case n of Network_TCP \<Rightarrow> [TargetNetworkTCP] | Network_UDP \<Rightarrow> [TargetNetworkUDP] | _ \<Rightarrow> [])"

text \<open>A destination that can be sent: TCP or UDP, and an address that survives the serializer.\<close>

definition dest_ok :: "Destination \<Rightarrow> bool" where
  "dest_ok d \<longleftrightarrow> (dest_Network d = Network_TCP \<or> dest_Network d = Network_UDP)
     \<and> (case dest_Address d of None \<Rightarrow> False | Some a \<Rightarrow> sendable (serializer_parser addrParser) a)"

definition dest_wire :: "Destination \<Rightarrow> byte list" where
  "dest_wire d = net_byte (dest_Network d) @ address_port_wire addrParser (the (dest_Address d)) (dest_Port d)"

definition meta_body :: "FrameMetadata \<Rightarrow> Destination option \<Rightarrow> byte list" where
  "meta_body f ep = be16 (fm_SessionID f) @ [fm_SessionStatus f, fm_Option f] @
     (if fm_SessionStatus f = SessionStatusNew then dest_wire (fm_Target f)
      else case ep of None \<Rightarrow> [] | Some d \<Rightarrow> dest_wire (d\<lparr>dest_Network := Network_UDP\<rparr>))"

definition meta_wire :: "FrameMetadata \<Rightarrow> Destination option \<Rightarrow> byte list" where
  "meta_wire f ep = be16 (of_nat (length (meta_body f ep))) @ meta_body f ep"

definition meta_ok :: "FrameMetadata \<Rightarrow> Destination option \<Rightarrow> bool" where
  "meta_ok f ep \<longleftrightarrow> (if fm_SessionStatus f = SessionStatusNew then dest_ok (fm_Target f)
     else case ep of None \<Rightarrow> True | Some d \<Rightarrow> dest_ok (d\<lparr>dest_Network := Network_UDP\<rparr>))"

lemma length_address_wire:
  "sendable p a \<Longrightarrow> 2 \<le> length (address_wire p a) \<and> length (address_wire p a) \<le> 257"
  by (cases a) (auto simp: address_wire_def sendable_def domain_ok_def Suc_le_eq)

lemma length_dest_wire: "dest_ok d \<Longrightarrow> 5 \<le> length (dest_wire d) \<and> length (dest_wire d) \<le> 260"
  using length_address_wire
  by (fastforce simp: dest_ok_def dest_wire_def net_byte_def addrParser_eq split: option.splits)

lemma length_meta_body: "meta_ok f ep \<Longrightarrow> 4 \<le> length (meta_body f ep) \<and> length (meta_body f ep) \<le> 264"
  using length_dest_wire by (fastforce simp: meta_ok_def meta_body_def split: option.splits if_splits)

text \<open>The tail of the metadata: the target of a new session or the endpoint of the data.\<close>

lemma dest_wire_write:
  assumes "bstate s ep b" "dest_ok d" "length (dest_wire d) \<le> room b" "1 \<le> room b"
    and "dest_Network d = Network_TCP \<Longrightarrow> x = TargetNetworkTCP" "dest_Network d = Network_UDP \<Longrightarrow> x = TargetNetworkUDP"
  obtains b1 b2 where "Buffer_WriteByte b x = Inr b1"
    "WriteAddressPort buf_wr addrParser b1 (dest_Address d) (dest_Port d) = Inr b2"
    "bstate s ep b1" "bstate s ep b2" "content b2 = content b @ dest_wire d" "\<And>n. length (dest_wire d) + n \<le> room b \<Longrightarrow> n \<le> room b2"
    "2 \<le> room b1"
proof -
  from assms(2) obtain a where a: "dest_Address d = Some a" "sendable (serializer_parser addrParser) a"
    by (auto simp: dest_ok_def split: option.splits)
  have nb: "net_byte (dest_Network d) = [x]" using assms(2,5,6) by (auto simp: dest_ok_def net_byte_def)
  from Buffer_WriteByte_law [OF assms(1,4), of x] obtain b1 where
    b1: "Buffer_WriteByte b x = Inr b1" "bstate s ep b1" "content b1 = content b @ [x]" "room b1 = room b - 1" by blast
  let ?w = "address_port_wire addrParser a (dest_Port d)"
  have fits: "length ?w \<le> room b1" "2 \<le> length ?w"
    using assms(3,4) nb a b1(4) by (simp_all add: dest_wire_def addrParser_eq)
  from frame_sink.WriteAddressPort_law [OF b1(2) a(2) fits(1)] obtain b2 where
    "WriteAddressPort buf_wr addrParser b1 (Some a) (dest_Port d) = Inr b2" "bstate s ep b2" "content b2 = content b1 @ ?w"
    "\<forall>n. length ?w + n \<le> room b1 \<longrightarrow> n \<le> room b2" by blast
  with b1 a nb fits show thesis by (intro that [of b1 b2]) (simp_all add: dest_wire_def)
qed

lemma WriteTo_target_law:
  assumes "bstate s ep b" "meta_ok f ep" "length (meta_body f ep) \<le> room b + 4"
  obtains b' where "WriteTo_target f b = Inr b'" "bstate s ep b'"
    "be16 (fm_SessionID f) @ [fm_SessionStatus f, fm_Option f] @ content b' =
       be16 (fm_SessionID f) @ [fm_SessionStatus f, fm_Option f] @ content b @ drop 4 (meta_body f ep)"
    "room b + 4 \<le> room b' + length (meta_body f ep)"
proof (cases "fm_SessionStatus f = SessionStatusNew")
  case True
  let ?d = "fm_Target f"
  define x where "x = (if dest_Network ?d = Network_TCP then TargetNetworkTCP else TargetNetworkUDP)"
  have d: "dest_ok ?d" "drop 4 (meta_body f ep) = dest_wire ?d" "length (meta_body f ep) = 4 + length (dest_wire ?d)"
    using True assms(2) by (simp_all add: meta_ok_def meta_body_def be16_def)
  then have "1 \<le> room b"
    using assms(3) length_dest_wire [of ?d] by simp
  with assms(1,3) d obtain b1 b2 where w: "Buffer_WriteByte b x = Inr b1"
    "WriteAddressPort buf_wr addrParser b1 (dest_Address ?d) (dest_Port ?d) = Inr b2" "bstate s ep b2"
    "content b2 = content b @ dest_wire ?d" "\<And>n. length (dest_wire ?d) + n \<le> room b \<Longrightarrow> n \<le> room b2"
    by (elim dest_wire_write [of s ep b ?d x]) (simp_all add: x_def)
  have "WriteTo_target f b = Inr b2"
    using True w(1,2) d(1) by (auto simp: WriteTo_target_def dest_ok_def x_def must_def)
  moreover have "room b \<le> room b2 + length (dest_wire ?d)"
    using w(5) [of "room b - length (dest_wire ?d)"] assms(3) d(3) by simp
  ultimately show thesis using that w(3,4) d by simp
next
  case False
  show thesis
  proof (cases ep)
    case None
    with False assms show thesis
      by (intro that [of b]) (auto simp: WriteTo_target_def bstate_def meta_body_def be16_def)
  next
    case (Some e)
    let ?d = "e\<lparr>dest_Network := Network_UDP\<rparr>"
    have d: "dest_ok ?d" "drop 4 (meta_body f ep) = dest_wire ?d" "length (meta_body f ep) = 4 + length (dest_wire ?d)"
      using False Some assms(2) by (simp_all add: meta_ok_def meta_body_def be16_def)
    then have "1 \<le> room b"
      using assms(3) length_dest_wire [of ?d] by simp
    with assms(1,3) d obtain b1 b2 where w: "Buffer_WriteByte b TargetNetworkUDP = Inr b1"
      "WriteAddressPort buf_wr addrParser b1 (dest_Address ?d) (dest_Port ?d) = Inr b2" "bstate s ep b1" "bstate s ep b2"
      "content b2 = content b @ dest_wire ?d" "\<And>n. length (dest_wire ?d) + n \<le> room b \<Longrightarrow> n \<le> room b2" "2 \<le> room b1"
      by (elim dest_wire_write [of s ep b ?d TargetNetworkUDP]) simp_all
    obtain b3 where "writePort buf_wr b1 (dest_Port e) = Inr b3"
      using frame_sink.write_law [OF w(3), of "be16 (dest_Port e)"] w(7) by (auto simp: writePort_def WriteUint16_def)
    then have "WriteTo_target f b = Inr b2"
      using False Some w(1,2) assms(1) by (simp add: WriteTo_target_def bstate_def ignore_error_def)
    moreover have "room b \<le> room b2 + length (dest_wire ?d)"
      using w(6) [of "room b - length (dest_wire ?d)"] assms(3) d(3) by simp
    ultimately show thesis using that w(4,5) d by simp
  qed
qed

lemma meta_body_split:
  "meta_body f ep = be16 (fm_SessionID f) @ [fm_SessionStatus f, fm_Option f] @ drop 4 (meta_body f ep)"
  by (simp add: meta_body_def be16_def)

lemma FrameMetadata_WriteTo_law:
  assumes "bstate s ep b" "meta_ok f ep" "length (meta_wire f ep) \<le> room b"
  obtains b' where "FrameMetadata_WriteTo f b = Inr b'" "bstate s ep b'" "content b' = content b @ meta_wire f ep"
    "room b \<le> room b' + length (meta_wire f ep)"
proof -
  let ?body = "meta_body f ep"
  have len: "4 \<le> length ?body" "length ?body \<le> 264" using length_meta_body [OF assms(2)] by simp_all
  have room: "2 + length ?body \<le> room b" using assms(3) by (simp add: meta_wire_def)
  obtain b1 zs where b1: "Buffer_Extend b 2 = Inr (b1, nat s + length (content b))" "bstate s ep b1"
    "content b1 = content b @ zs" "length zs = 2" "room b1 = room b - 2"
    using Buffer_Extend_bstate [OF assms(1), of 2] room by auto
  have r1: "2 \<le> room b1" using room len b1(5) by simp
  obtain b2 ys where b2: "Buffer_Extend b1 2 = Inr (b2, nat s + length (content b1))" "bstate s ep b2"
    "content b2 = content b1 @ ys" "length ys = 2" "room b2 = room b - 4"
    using Buffer_Extend_bstate [OF b1(2), of 2] r1 b1(5) by auto
  obtain b3 where b3: "store (nat s + length (content b1)) (be16 (fm_SessionID f)) b2 = Inr b3" "bstate s ep b3"
    "content b3 = content b1 @ be16 (fm_SessionID f)" "room b3 = room b - 4"
    using store_law [OF b2(2), of "content b1" ys "[]" "be16 (fm_SessionID f)"] b2 by auto
  have r3: "1 \<le> room b3" using room len b3(4) by simp
  obtain b4 where b4: "Buffer_WriteByte b3 (fm_SessionStatus f) = Inr b4" "bstate s ep b4"
    "content b4 = content b3 @ [fm_SessionStatus f]" "room b4 = room b - 5"
    using Buffer_WriteByte_law [OF b3(2) r3, of "fm_SessionStatus f"] b3(4) by auto
  have r4: "1 \<le> room b4" using room len b4(4) by simp
  obtain b5 where b5: "Buffer_WriteByte b4 (fm_Option f) = Inr b5" "bstate s ep b5"
    "content b5 = content b4 @ [fm_Option f]" "room b5 = room b - 6"
    using Buffer_WriteByte_law [OF b4(2) r4, of "fm_Option f"] b4(4) by auto
  have "length ?body \<le> room b5 + 4" using b5(4) room len by simp
  from WriteTo_target_law [OF b5(2) assms(2) this] obtain b6 where b6: "WriteTo_target f b5 = Inr b6" "bstate s ep b6"
    "content b6 = content b5 @ drop 4 ?body" "room b5 + 4 \<le> room b6 + length ?body" by auto
  have c6: "content b6 = content b @ zs @ ?body"
    by (subst meta_body_split) (simp add: b6(3) b5(3) b4(3) b3(3) b1(3))
  let ?l = "be16 (of_nat (length ?body))"
  obtain b7 where b7: "store (nat s + length (content b)) ?l b6 = Inr b7" "bstate s ep b7" "content b7 = content b @ ?l @ ?body"
    "room b7 = room b6"
    using store_law [OF b6(2) c6, of ?l] b1(4) by auto
  have "blen b1 = int (length (content b) + 2)" "blen b6 = int (length (content b) + 2 + length ?body)"
    using b1(2,3,4) b6(2) c6 by (simp_all add: bstate_def)
  then have "word_of_int (i32 (blen b6 - blen b1)) = (of_nat (length ?body) :: u16)" using len by simp
  with b1(1) b2(1) b3(1) b4(1) b5(1) b6(1) b7(1) have "FrameMetadata_WriteTo f b = Inr b7"
    by (simp add: FrameMetadata_WriteTo_def must_def Let_def)
  with b7 b6(4) b5(4) room len show thesis by (intro that [of b7]) (simp_all add: meta_wire_def)
qed

text \<open>What a reader makes of the metadata, given the value it had before.\<close>

definition parsed :: "FrameMetadata \<Rightarrow> FrameMetadata \<Rightarrow> Destination option \<Rightarrow> FrameMetadata" where
  "parsed f0 f ep = f\<lparr>fm_Target :=
     (if fm_SessionStatus f = SessionStatusNew then fm_Target f
      else case ep of None \<Rightarrow> (fm_Target f0)\<lparr>dest_Network := Network_Unknown\<rparr>
           | Some d \<Rightarrow> d\<lparr>dest_Network := Network_UDP\<rparr>)\<rparr>"

lemma ReadAddressPort_dest:
  assumes "dest_ok d"
  obtains x a b where "dest_wire d = x # address_port_wire addrParser a (dest_Port d)" "dest_Address d = Some a"
    "ReadAddressPort addrParser None (address_port_wire addrParser a (dest_Port d)) = Inr (Some a, dest_Port d, b, [])"
    "x = TargetNetworkTCP \<and> d = TCPDestination (Some a) (dest_Port d) \<or> x = TargetNetworkUDP \<and> d = UDPDestination (Some a) (dest_Port d)"
proof -
  from assms obtain a where a: "dest_Address d = Some a" "sendable (serializer_parser addrParser) a"
    by (auto simp: dest_ok_def split: option.splits)
  have "length (address_port_wire addrParser a (dest_Port d)) \<le> room New"
    using length_dest_wire [OF assms] a by (simp add: dest_wire_def Size_def)
  with a(2) obtain b where "ReadAddressPort addrParser None (address_port_wire addrParser a (dest_Port d) @ []) = Inr (Some a, dest_Port d, b, [])"
    using ReadAddressPort_law [of New None addrParser a "dest_Port d" "[]"] by auto
  with a assms show thesis
    by (intro that [of "if dest_Network d = Network_TCP then TargetNetworkTCP else TargetNetworkUDP" a b])
      (auto simp: dest_ok_def dest_wire_def net_byte_def TCPDestination_def UDPDestination_def)
qed

lemma FrameMetadata_update [simp]:
  "(f0 :: FrameMetadata)\<lparr>fm_SessionID := fm_SessionID f, fm_SessionStatus := fm_SessionStatus f, fm_Option := fm_Option f, fm_Target := t\<rparr>
     = f\<lparr>fm_Target := t\<rparr>"
  by (cases f; cases f0) simp

lemma UnmarshalFromBuffer_law:
  assumes "buffer_ok b" "content b = meta_body f ep" "meta_ok f ep" "ep = None \<or> fm_SessionStatus f \<in> {SessionStatusNew, SessionStatusKeep}"
  shows "UnmarshalFromBuffer f0 b = Inr (parsed f0 f ep)"
proof -
  let ?body = "meta_body f ep"
  have len: "4 \<le> length ?body" using length_meta_body [OF assms(3)] by simp
  have bl: "blen b = int (length ?body)" using assms(1,2) by simp
  obtain tl where tl: "?body = be16 (fm_SessionID f) @ [fm_SessionStatus f, fm_Option f] @ tl" using meta_body_split by blast
  have "Buffer_BytesTo b 2 = Inr (be16 (fm_SessionID f))"
    using Buffer_BytesTo_spec [OF assms(1), of 2] assms(2) len tl by simp
  moreover have "Uint16 (be16 (fm_SessionID f)) = Inr (fm_SessionID f)" using Uint16_be16 [of _ "[]"] by simp
  moreover have "Buffer_Byte b 2 = Inr (fm_SessionStatus f)" "Buffer_Byte b 3 = Inr (fm_Option f)"
    using Buffer_Byte_nth [OF assms(1), of 2] Buffer_Byte_nth [OF assms(1), of 3] assms(2) len tl
    by (simp_all add: be16_def numeral_2_eq_2 numeral_3_eq_3)
  moreover have "\<not> blen b < 4" using len bl by simp
  ultimately have run: "UnmarshalFromBuffer f0 b = (let f1 = f\<lparr>fm_Target := (fm_Target f0)\<lparr>dest_Network := Network_Unknown\<rparr>\<rparr> in
      if fm_SessionStatus f = SessionStatusNew \<or> (fm_SessionStatus f = SessionStatusKeep \<and> blen b \<noteq> 4) then
               if blen b < 8 then Inl (NewError ''insufficient buffer'')
               else bind_res (Buffer_Byte b 4) (\<lambda>network.
                    let b1 = Buffer_Advance b 5 in
                    bind_res (Buffer_Bytes b1) (\<lambda>input.
                    bind_res (with_base ''failed to parse address and port'' (ReadAddressPort addrParser None input))
                      (\<lambda>(addr, port, _).
                        if network = TargetNetworkTCP then Inr (f1\<lparr>fm_Target := TCPDestination addr port\<rparr>)
                        else if network = TargetNetworkUDP then Inr (f1\<lparr>fm_Target := UDPDestination addr port\<rparr>)
                        else Inl (NewError ''unknown network type''))))
             else Inr f1)"
    by (simp only: UnmarshalFromBuffer_def if_False bind_res_simps FrameMetadata_update)
  have with_dest: ?thesis if d: "dest_ok d" "tl = dest_wire d" "fm_Target (parsed f0 f ep) = d"
    and cond: "fm_SessionStatus f = SessionStatusNew \<or> fm_SessionStatus f = SessionStatusKeep" for d
  proof -
    from d(1) obtain x a b' where x: "dest_wire d = x # address_port_wire addrParser a (dest_Port d)" "dest_Address d = Some a"
      "ReadAddressPort addrParser None (address_port_wire addrParser a (dest_Port d)) = Inr (Some a, dest_Port d, b', [])"
      "x = TargetNetworkTCP \<and> d = TCPDestination (Some a) (dest_Port d) \<or> x = TargetNetworkUDP \<and> d = UDPDestination (Some a) (dest_Port d)"
      by (rule ReadAddressPort_dest)
    have l: "length ?body = 4 + length (dest_wire d)" "5 \<le> length (dest_wire d)" using tl d(2) length_dest_wire [OF d(1)] by simp_all
    have b4: "Buffer_Byte b 4 = Inr x"
      using Buffer_Byte_nth [OF assms(1), of 4] assms(2) l tl d(2) x(1) by (simp add: be16_def)
    have b5: "buffer_ok (Buffer_Advance b 5)" "content (Buffer_Advance b 5) = address_port_wire addrParser a (dest_Port d)"
      using Buffer_Advance_spec(1,2) [OF assms(1), of 5] assms(2) l tl d(2) x(1) by (simp_all add: be16_def)
    have p: "parsed f0 f ep = f\<lparr>fm_Target := d\<rparr>" using d(3) by (simp add: parsed_def)
    have neq: "TargetNetworkTCP \<noteq> TargetNetworkUDP" by (simp add: TargetNetworkTCP_def TargetNetworkUDP_def)
    show ?thesis
      unfolding run p Let_def using cond bl l b4 b5 x(3,4) neq by auto
  qed
  consider (new) "fm_SessionStatus f = SessionStatusNew"
    | (keep) e where "fm_SessionStatus f = SessionStatusKeep" "ep = Some e" "fm_SessionStatus f \<noteq> SessionStatusNew"
    | (plain) "ep = None" "fm_SessionStatus f \<noteq> SessionStatusNew"
    using assms(4) by (cases ep; cases "fm_SessionStatus f = SessionStatusNew") auto
  then show ?thesis
  proof cases
    case new
    with tl assms(3) show ?thesis by (intro with_dest [of "fm_Target f"]) (simp_all add: meta_ok_def meta_body_def parsed_def)
  next
    case keep
    with tl assms(3) show ?thesis
      by (intro with_dest [of "e\<lparr>dest_Network := Network_UDP\<rparr>"]) (simp_all add: meta_ok_def meta_body_def parsed_def)
  next
    case plain
    then have "blen b = 4" using bl by (simp add: meta_body_def)
    with plain show ?thesis unfolding run by (simp add: parsed_def)
  qed
qed

lemma Unmarshal_law:
  assumes "br_ok r" "br_err r = EOF" "br_cont r = meta_wire f ep @ rest" "meta_ok f ep"
    and "ep = None \<or> fm_SessionStatus f \<in> {SessionStatusNew, SessionStatusKeep}"
  obtains r' where "FrameMetadata_Unmarshal f0 r = Inr (parsed f0 f ep, r')" "br_ok r'" "br_err r' = EOF" "br_cont r' = rest"
proof -
  let ?body = "meta_body f ep"
  have len: "length ?body \<le> 264" using length_meta_body [OF assms(4)] by simp
  let ?n = "of_nat (length ?body) :: u16"
  have n: "unat ?n = length ?body" using len by (simp add: unat_of_nat)
  have "br_cont r = be16 ?n @ ?body @ rest" using assms(3) by (simp add: meta_wire_def)
  with assms(1,2) obtain r1 where r1: "ReadUint16 r = Inr (?n, r1)" "br_ok r1" "br_err r1 = EOF" "br_cont r1 = ?body @ rest"
    by (rule ReadUint16_be16)
  have "uint ?n = int (unat ?n)" by (rule uint_nat)
  then have un: "uint ?n = int (length ?body)" by (simp only: n)
  obtain b where b: "read_full New (?body @ rest) (int (length ?body)) = Inr (b, rest)" "buffer_ok b" "content b = ?body"
    using read_full_append [OF New_ok(1), of ?body "int (length ?body)" rest] len by (auto simp: Size_def)
  from br_read_full_law [OF r1(2,3), of New "int (length ?body)"] b(1) r1(4) obtain r2 where
    r2: "br_read_full New r1 (int (length ?body)) = Inr (b, r2)" "br_ok r2" "br_err r2 = EOF" "br_cont r2 = rest" by auto
  have "\<not> ?n > 512" using n len by (simp add: word_less_nat_alt)
  with r1(1) r2(1) un UnmarshalFromBuffer_law [OF b(2,3) assms(4,5)]
  have "FrameMetadata_Unmarshal f0 r = Inr (parsed f0 f ep, r2)" by (simp add: FrameMetadata_Unmarshal_def)
  with r2 show thesis by (intro that)
qed

section \<open>What a session writer puts on the link\<close>

text \<open>A frame: its metadata, the endpoint of its data, and the data.\<close>

record frame =
  fr_meta :: FrameMetadata
  fr_ep :: "Destination option"
  fr_data :: "byte list option"

definition frame_wire :: "frame \<Rightarrow> byte list" where
  "frame_wire fr = meta_wire (fr_meta fr) (fr_ep fr) @ (case fr_data fr of None \<Rightarrow> [] | Some d \<Rightarrow> chunk_wire d)"

definition ep_ok :: "Destination option \<Rightarrow> bool" where
  "ep_ok ep = (case ep of None \<Rightarrow> True | Some d \<Rightarrow> dest_ok (d\<lparr>dest_Network := Network_UDP\<rparr>))"

definition data_frame :: "mux_Writer \<Rightarrow> Destination option \<times> byte list \<Rightarrow> frame" where
  "data_frame w p = \<lparr>fr_meta = \<lparr>fm_Target = mw_dest w, fm_SessionID = mw_id w, fm_Option = OptionData,
       fm_SessionStatus = (if mw_followup w then SessionStatusKeep else SessionStatusNew)\<rparr>,
     fr_ep = fst p, fr_data = Some (snd p)\<rparr>"

fun data_frames :: "mux_Writer \<Rightarrow> (Destination option \<times> byte list) list \<Rightarrow> frame list" where
  "data_frames w [] = []"
| "data_frames w (p # ps) = data_frame w p # data_frames (w\<lparr>mw_followup := True\<rparr>) ps"

definition writer_ok :: "mux_Writer \<Rightarrow> bool" where
  "writer_ok w \<longleftrightarrow> mw_followup w \<or> dest_ok (mw_dest w)"

lemma writer_ok_followup [simp]: "writer_ok (w\<lparr>mw_followup := True\<rparr>)"
  by (simp add: writer_ok_def)

lemma Byte_Set_0 [simp]: "Byte_Set 0 x = x"
  by (simp add: Byte_Set_def)

lemma meta_ok_data_frame: "writer_ok w \<Longrightarrow> ep_ok (fst p) \<Longrightarrow> meta_ok (fr_meta (data_frame w p)) (fr_ep (data_frame w p))"
  by (auto simp: meta_ok_def data_frame_def writer_ok_def ep_ok_def status_defs split: option.splits)

lemma getNextFrameMeta_data:
  "getNextFrameMeta w = (meta, w') \<Longrightarrow> meta\<lparr>fm_Option := Byte_Set (fm_Option meta) OptionData\<rparr> = fr_meta (data_frame w p)
     \<and> w' = w\<lparr>mw_followup := True\<rparr>"
  by (auto simp: getNextFrameMeta_def data_frame_def Let_def split: if_splits)

lemma writeMetaWithFrame_law:
  assumes "meta_ok meta ep" "mb_ok mb" "length (mcontent mb) \<le> 65535" "length mb + 1 \<le> 64 * 1024 * 1024"
    and "ep = (case mb of [b] \<Rightarrow> buf_Endpoint b | _ \<Rightarrow> None)"
  shows "writeMetaWithFrame collect meta mb out = Inr (None, out @ meta_wire meta ep @ chunk_wire (mcontent mb))"
proof -
  let ?frame = "case mb of [b] \<Rightarrow> New\<lparr>buf_Endpoint := buf_Endpoint b\<rparr> | _ \<Rightarrow> New"
  have fr: "?frame = New\<lparr>buf_Endpoint := ep\<rparr>" unfolding assms(5) by (auto split: list.splits simp: New_def)
  have b0: "bstate 0 ep (New\<lparr>buf_Endpoint := ep\<rparr>)" "content (New\<lparr>buf_Endpoint := ep\<rparr>) = []" "room (New\<lparr>buf_Endpoint := ep\<rparr>) = Size"
    using New_ok by (simp_all add: bstate_def buffer_ok_def content_def room_def)
  have len: "length (meta_wire meta ep) \<le> 266" using length_meta_body [OF assms(1)] by (simp add: meta_wire_def)
  then have "length (meta_wire meta ep) \<le> room (New\<lparr>buf_Endpoint := ep\<rparr>)" by (simp add: b0(3) Size_def)
  from FrameMetadata_WriteTo_law [OF b0(1) assms(1) this] obtain b1 where
    b1: "FrameMetadata_WriteTo meta (New\<lparr>buf_Endpoint := ep\<rparr>) = Inr b1" "bstate 0 ep b1" "content b1 = meta_wire meta ep"
    "Size \<le> room b1 + length (meta_wire meta ep)" unfolding b0(2,3) append_Nil by metis
  let ?n = "word_of_int (MultiBuffer_Len mb) :: u16"
  have n: "?n = of_nat (length (mcontent mb))" using MultiBuffer_Len_mcontent [OF assms(2)] assms(3) by simp
  have "2 \<le> room b1" using b1(4) len by (simp add: Size_def)
  with frame_sink.write_law [OF b1(2), of "be16 ?n"] obtain b2 where
    "buf_wr b1 (be16 ?n) = Inr b2" "content b2 = meta_wire meta ep @ be16 ?n" using b1(3) by auto
  then show ?thesis using b1(1) assms(4) n
    by (simp add: writeMetaWithFrame_def fr split_error_def WriteUint16_def collect_def chunk_wire_def)
qed

definition chunk_ep :: "MultiBuffer \<Rightarrow> Destination option" where
  "chunk_ep mb = (case mb of [b] \<Rightarrow> buf_Endpoint b | _ \<Rightarrow> None)"

definition eps_ok :: "MultiBuffer \<Rightarrow> bool" where
  "eps_ok mb \<longleftrightarrow> (\<forall>b \<in> set mb. ep_ok (buf_Endpoint b))"

lemma eps_ok_simps [simp]:
  "eps_ok []" "eps_ok (b # mb) \<longleftrightarrow> ep_ok (buf_Endpoint b) \<and> eps_ok mb" "eps_ok (mb @ mb') \<longleftrightarrow> eps_ok mb \<and> eps_ok mb'"
  by (auto simp: eps_ok_def)

lemma ep_ok_None [simp]: "ep_ok None" by (simp add: ep_ok_def)

lemma eps_ok_chunk_ep: "eps_ok mb \<Longrightarrow> ep_ok (chunk_ep mb)"
  by (auto simp: chunk_ep_def split: list.splits)

lemma writeData_law:
  assumes "writer_ok w" "mb_ok mb" "length (mcontent mb) \<le> 65535" "length mb + 1 \<le> 64 * 1024 * 1024" "eps_ok mb"
  shows "writeData collect w mb out =
    Inr (None, w\<lparr>mw_followup := True\<rparr>, out @ frame_wire (data_frame w (chunk_ep mb, mcontent mb)))"
proof -
  let ?p = "(chunk_ep mb, mcontent mb)"
  obtain meta w' where m: "getNextFrameMeta w = (meta, w')" by fastforce
  have "meta_ok (fr_meta (data_frame w ?p)) (chunk_ep mb)"
    using meta_ok_data_frame [OF assms(1), of ?p] eps_ok_chunk_ep [OF assms(5)] by (simp add: data_frame_def)
  from writeMetaWithFrame_law [OF this assms(2-4), of out] getNextFrameMeta_data [OF m, of ?p] m show ?thesis
    by (simp add: writeData_def chunk_ep_def frame_wire_def) (simp add: data_frame_def)
qed

lemma SplitSize_loop_length: "SplitSize_loop t sz mb = (rest, r) \<Longrightarrow> length r \<le> length mb"
  by (induction t sz mb arbitrary: rest r rule: SplitSize_loop.induct) (auto simp: Let_def split: if_splits prod.splits)

lemma SplitSize_endpoints:
  assumes "SplitSize mb sz = Inr (rest, r)" "eps_ok mb"
  shows "eps_ok rest \<and> eps_ok r"
proof (cases mb)
  case Nil
  with assms show ?thesis by (simp add: SplitSize_def)
next
  case (Cons b0 mb')
  have loop: "SplitSize_loop t sz m = (rest, r) \<Longrightarrow> eps_ok m \<Longrightarrow> eps_ok rest \<and> eps_ok r" for t m rest r
    by (induction t sz m arbitrary: rest r rule: SplitSize_loop.induct) (auto simp: Let_def split: if_splits prod.splits)
  show ?thesis
  proof (cases "blen b0 > sz")
    case True
    with assms(1) Cons obtain b' where "rest = Buffer_Advance b0 sz # mb'" "r = [b']" "buf_Endpoint b' = None"
      by (auto simp: SplitSize_def bind_res_Inr_iff Buffer_Extend_def store_def Let_def split: if_splits)
    with assms(2) Cons show ?thesis by (simp add: Buffer_Advance_def Let_def)
  next
    case False
    with assms Cons loop [of 0 mb rest r] show ?thesis by (simp add: SplitSize_def)
  qed
qed

lemma take_chunk_law:
  assumes "mb_ok mb" "mb_small mb" "eps_ok mb" "\<not> MultiBuffer_IsEmpty mb" "length mb + 1 \<le> 64 * 1024 * 1024"
  obtains mb' chunk where "take_chunk tt mb = Inr (mb', chunk)" "mb_ok mb'" "mb_small mb'" "eps_ok mb'" "mb_ok chunk" "eps_ok chunk"
    "mcontent chunk @ mcontent mb' = mcontent mb" "length (mcontent chunk) \<le> Size" "length chunk + 1 \<le> 64 * 1024 * 1024"
    "length mb' < length mb \<or> length mb' = length mb \<and> length (mcontent mb') < length (mcontent mb)"
proof (cases tt)
  case TransferTypeStream
  have ne: "mb \<noteq> []" using assms(4) by auto
  have sz: "(8192 :: int) \<le> int Size" by (simp add: Size_def)
  then obtain mb' chunk where sp: "SplitSize mb 8192 = Inr (mb', chunk)" "mb_ok mb'" "mb_ok chunk"
    "mcontent chunk @ mcontent mb' = mcontent mb" "int (length (mcontent chunk)) \<le> 8192" "length mb' \<le> length mb"
    "length mb' < length mb \<or> length (mcontent mb') < length (mcontent mb)" "mb_small mb'"
    using SplitSize_law [OF assms(1), of 8192] assms(2) ne by simp blast
  have "length chunk \<le> length mb"
    using sp(1) ne by (cases mb) (auto simp: SplitSize_def bind_res_Inr_iff Let_def split: if_splits prod.splits dest!: SplitSize_loop_length)
  moreover have "length mb' < length mb \<or> length mb' = length mb \<and> length (mcontent mb') < length (mcontent mb)"
    using sp(6,7) by linarith
  ultimately show thesis
    using TransferTypeStream sp sz SplitSize_endpoints [OF sp(1) assms(3)] assms(5)
    by (intro that [of mb' chunk]) (simp_all add: take_chunk_def)
next
  case TransferTypePacket
  then show thesis using assms by (cases mb) (auto intro!: that simp: take_chunk_def SplitFirst_def)
qed

lemma Writer_loop_law:
  "writer_ok w \<Longrightarrow> mb_ok mb \<Longrightarrow> mb_small mb \<Longrightarrow> eps_ok mb \<Longrightarrow> length mb + 1 \<le> 64 * 1024 * 1024 \<Longrightarrow>
     \<exists>ps w'. Writer_loop collect w mb out = Inr (None, w', out @ concat (map frame_wire (data_frames w ps)))
       \<and> w' = (if ps = [] then w else w\<lparr>mw_followup := True\<rparr>) \<and> concat (map snd ps) = mcontent mb
       \<and> (\<forall>p \<in> set ps. ep_ok (fst p) \<and> length (snd p) \<le> Size)"
proof (induction "collect :: byte list buf_Writer" w mb out rule: Writer_loop.induct)
  case (1 w mb out)
  show ?case
  proof (cases "MultiBuffer_IsEmpty mb")
    case True
    with "1.prems"(2) show ?thesis by (intro exI [of _ "[]"] exI [of _ w]) (simp add: Writer_loop.simps)
  next
    case False
    from take_chunk_law [OF "1.prems"(2,3,4) False "1.prems"(5), of "mw_transferType w"] obtain mb' chunk where
      tc: "take_chunk (mw_transferType w) mb = Inr (mb', chunk)" "mb_ok mb'" "mb_small mb'" "eps_ok mb'" "mb_ok chunk" "eps_ok chunk"
      "mcontent chunk @ mcontent mb' = mcontent mb" "length (mcontent chunk) \<le> Size" "length chunk + 1 \<le> 64 * 1024 * 1024"
      "length mb' < length mb \<or> length mb' = length mb \<and> length (mcontent mb') < length (mcontent mb)" by metis
    let ?w = "w\<lparr>mw_followup := True\<rparr>" and ?p = "(chunk_ep chunk, mcontent chunk)"
    let ?out = "out @ frame_wire (data_frame w ?p)"
    have wd: "writeData collect w chunk out = Inr (None, ?w, ?out)"
      using writeData_law [OF "1.prems"(1) tc(5) _ tc(9,6)] tc(8) by (simp add: Size_def)
    have "length mb' + 1 \<le> 64 * 1024 * 1024" using tc(10) "1.prems"(5) by auto
    with "1.hyps" [OF False tc(1) refl wd refl refl refl tc(10)] tc(2-4) obtain ps w' where
      ps: "Writer_loop collect ?w mb' ?out = Inr (None, w', ?out @ concat (map frame_wire (data_frames ?w ps)))"
      "w' = (if ps = [] then ?w else ?w\<lparr>mw_followup := True\<rparr>)"
      "concat (map snd ps) = mcontent mb'" "\<forall>p \<in> set ps. ep_ok (fst p) \<and> length (snd p) \<le> Size" by force
    have "w' = ?w" using ps(2) by simp
    have "Writer_loop collect w mb out = Writer_loop collect ?w mb' ?out"
      using False tc(1,10) wd by (subst Writer_loop.simps) simp
    with ps(1,3,4) \<open>w' = ?w\<close> tc(7,8) eps_ok_chunk_ep [OF tc(6)] show ?thesis
      by (intro exI [of _ "?p # ps"] exI [of _ ?w]) simp
  qed
qed

definition end_frame :: "mux_Writer \<Rightarrow> frame" where
  "end_frame w = \<lparr>fr_meta = \<lparr>fm_Target = Destination_zero, fm_SessionID = mw_id w,
       fm_Option = (if mw_hasError w then OptionError else 0), fm_SessionStatus = SessionStatusEnd\<rparr>, fr_ep = None, fr_data = None\<rparr>"

lemma WriteTo_New:
  assumes "meta_ok f None"
  obtains b where "FrameMetadata_WriteTo f New = Inr b" "content b = meta_wire f None"
proof -
  have "bstate 0 None New" by (simp add: bstate_def)
  moreover have "length (meta_wire f None) \<le> room New"
    using length_meta_body [OF assms] by (simp add: meta_wire_def Size_def)
  ultimately show thesis using FrameMetadata_WriteTo_law [OF _ assms] that by (metis New_ok(2) append_Nil)
qed

lemma Writer_Close_law: "Writer_Close collect w out = Inr (None, out @ frame_wire (end_frame w))"
proof -
  have "meta_ok (fr_meta (end_frame w)) None" by (simp add: meta_ok_def end_frame_def status_defs)
  then obtain b where "FrameMetadata_WriteTo (fr_meta (end_frame w)) New = Inr b" "content b = meta_wire (fr_meta (end_frame w)) None"
    by (rule WriteTo_New)
  then show ?thesis
    by (cases "mw_hasError w") (simp_all add: Writer_Close_def must_def collect_def frame_wire_def end_frame_def Let_def)
qed

section \<open>Reading the data of a frame\<close>

lemma NewStreamReader_ok:
  assumes "br_ok r" "br_err r = EOF" "br_cont r = chunk_wire d @ rest" "length d \<le> 65535"
  shows "csr_ok (NewStreamReader r)" "csr_cont (NewStreamReader r) = d" "csr_after (NewStreamReader r) = (rest, True)"
proof -
  let ?r = "NewStreamReader r"
  have sel: "csr_reader ?r = r" "csr_leftOverSize ?r = 0" "csr_maxNumChunk ?r = 1" "csr_numChunk ?r = 0" "csr_tail ?r = br_cont r"
    by (simp_all add: NewStreamReader_def NewChunkStreamReaderWithChunkCount_def csr_tail_def)
  have n: "chunk_size (br_cont r) = length d" "drop 2 (br_cont r) = d @ rest" "2 \<le> length (br_cont r)"
    using assms(3) unat_len [OF assms(4)] by (simp_all add: chunk_wire_def)
  have b: "csr_budget ?r bs = 1" for bs by (simp add: csr_budget_def sel)
  show "csr_ok ?r" using assms n by (simp add: csr_ok_def sel b) (simp add: chunk_wire_def)
  show "csr_cont ?r = d" "csr_after ?r = (rest, True)" using n by (simp_all add: csr_cont_def csr_after_def sel b Let_def)
qed

text \<open>The packet reader is a source of one packet.\<close>

definition mp_size :: "mux_PacketReader \<Rightarrow> nat" where
  "mp_size r = chunk_size (br_cont (mp_reader r))"

definition mp_ok :: "mux_PacketReader \<Rightarrow> bool" where
  "mp_ok r \<longleftrightarrow> br_ok (mp_reader r) \<and> br_err (mp_reader r) = EOF
     \<and> (mp_eof r \<or> 2 \<le> length (br_cont (mp_reader r)) \<and> mp_size r \<le> Size \<and> mp_size r \<le> length (br_cont (mp_reader r)) - 2)"

definition mp_cont :: "mux_PacketReader \<Rightarrow> byte list" where
  "mp_cont r = (if mp_eof r then [] else take (mp_size r) (drop 2 (br_cont (mp_reader r))))"

definition mp_raw :: "mux_PacketReader \<Rightarrow> byte list \<times> bool" where
  "mp_raw r = br_raw (mp_reader r)"

definition mp_after :: "mux_PacketReader \<Rightarrow> byte list \<times> bool" where
  "mp_after r = (if mp_eof r then mp_raw r else (drop (mp_size r) (drop 2 (br_cont (mp_reader r))), True))"

definition mp_weight :: "mux_PacketReader \<Rightarrow> nat" where
  "mp_weight r = (if mp_eof r then 0 else 1)"

lemma read_full_endpoint: "read_full b inp n = Inr (b', rest) \<Longrightarrow> buf_Endpoint b' = buf_Endpoint b"
  by (auto simp: read_full_def Buffer_ReadFullFrom_def bind_res_Inr_iff ReadFull_def Let_def split: if_splits option.splits)

lemma mux_PacketReader_law:
  assumes "mp_ok r" "\<not> mp_eof r"
  obtains b r' where "mux_PacketReader_ReadMultiBuffer r = Inr ([b], None, r')" "buffer_ok b" "content b = mp_cont r"
    "mp_ok r'" "mp_eof r'" "mp_raw r' = mp_after r" "buf_Endpoint b = (if dest_Network (mp_dest r) = Network_UDP then Some (mp_dest r) else None)"
proof -
  let ?c = "br_cont (mp_reader r)"
  from assms have o: "br_ok (mp_reader r)" "br_err (mp_reader r) = EOF" "2 \<le> length ?c" "mp_size r \<le> Size" "mp_size r \<le> length ?c - 2"
    by (simp_all add: mp_ok_def)
  from ReadUint16_law [OF o(1,2)] o(3) obtain v r1 where
    r1: "Uint16 ?c = Inr v" "ReadUint16 (mp_reader r) = Inr (v, r1)" "br_ok r1" "br_err r1 = EOF" "br_cont r1 = drop 2 ?c" by auto
  have v: "unat v = mp_size r" using r1(1) by (simp add: mp_size_def chunk_size_def)
  have "uint v = int (unat v)" by (rule uint_nat)
  then have u: "uint v = int (mp_size r)" by (simp only: v)
  let ?d = "take (mp_size r) (drop 2 ?c)"
  from read_full_law [OF New_ok(1), of "mp_size r" "drop 2 ?c"] o(4,5) obtain b where
    b: "read_full New (drop 2 ?c) (int (mp_size r)) = Inr (b, drop (mp_size r) (drop 2 ?c))" "buffer_ok b" "content b = ?d" by auto
  from br_read_full_law [OF r1(3,4), of New "int (mp_size r)"] b(1) r1(5) obtain r2 where
    r2: "br_read_full New r1 (int (mp_size r)) = Inr (b, r2)" "br_ok r2" "br_err r2 = EOF" "br_cont r2 = drop (mp_size r) (drop 2 ?c)"
    by auto
  have ep: "buf_Endpoint b = None"
    using read_full_endpoint [OF b(1)] by simp
  let ?b = "if dest_Network (mp_dest r) = Network_UDP then b\<lparr>buf_Endpoint := Some (mp_dest r)\<rparr> else b"
  have "mux_PacketReader_ReadMultiBuffer r = Inr ([?b], None, r\<lparr>mp_reader := r2, mp_eof := True\<rparr>)"
    using assms(2) r1(2) r2(1) u v o(4) by (simp add: mux_PacketReader_ReadMultiBuffer_def)
  moreover have "buffer_ok ?b" "content ?b = mp_cont r" using b(2,3) assms(2) by (simp_all add: buffer_ok_def content_def mp_cont_def)
  ultimately show thesis
    using r2 assms(2) ep by (intro that [of ?b "r\<lparr>mp_reader := r2, mp_eof := True\<rparr>"]) (simp_all add: mp_ok_def mp_after_def mp_raw_def br_raw_def)
qed

interpretation packet_source: multi_source mp_ok mp_cont mp_after mp_raw mp_weight mux_PacketReader_ReadMultiBuffer
proof
  fix r assume ok: "mp_ok r"
  show "\<exists>mb err r'. mux_PacketReader_ReadMultiBuffer r = Inr (mb, err, r') \<and> mb_ok mb
      \<and> (case err of
           None \<Rightarrow> mp_ok r' \<and> mp_weight r' < mp_weight r \<and> mp_after r' = mp_after r \<and> mp_cont r = mcontent mb @ mp_cont r'
         | Some e \<Rightarrow> e = EOF \<and> mcontent mb = [] \<and> mp_cont r = [] \<and> mp_raw r' = mp_after r)"
  proof (cases "mp_eof r")
    case True
    then show ?thesis by (simp add: mux_PacketReader_ReadMultiBuffer_def mp_cont_def mp_after_def)
  next
    case False
    from ok False obtain b r' where "mux_PacketReader_ReadMultiBuffer r = Inr ([b], None, r')" "buffer_ok b" "content b = mp_cont r"
      "mp_ok r'" "mp_eof r'" "mp_raw r' = mp_after r" by (rule mux_PacketReader_law)
    with False show ?thesis
      by (intro exI [of _ "[b]"] exI [of _ None] exI [of _ r']) (simp add: mp_weight_def mp_cont_def mp_after_def)
  qed
qed

lemma NewPacketReader_ok:
  assumes "br_ok r" "br_err r = EOF" "br_cont r = chunk_wire d @ rest" "length d \<le> Size"
  shows "mp_ok (NewPacketReader r dest)" "mp_cont (NewPacketReader r dest) = d" "mp_after (NewPacketReader r dest) = (rest, True)"
proof -
  have "length d \<le> 65535" using assms(4) by (simp add: Size_def)
  then have n: "mp_size (NewPacketReader r dest) = length d" "drop 2 (br_cont r) = d @ rest" "2 \<le> length (br_cont r)"
    using assms(3) unat_len [of d] by (simp_all add: mp_size_def NewPacketReader_def chunk_wire_def)
  then show "mp_ok (NewPacketReader r dest)" "mp_cont (NewPacketReader r dest) = d" "mp_after (NewPacketReader r dest) = (rest, True)"
    using assms by (simp_all add: mp_ok_def mp_cont_def mp_after_def) (simp_all add: NewPacketReader_def chunk_wire_def)
qed

section \<open>Malformed frames\<close>

lemma safe_UnmarshalFromBuffer:
  assumes "buffer_ok b"
  shows "safe (UnmarshalFromBuffer f b) (\<lambda>_. True)"
proof (cases "blen b < 4")
  case True
  then show ?thesis by (simp add: UnmarshalFromBuffer_def)
next
  case False
  then have len: "4 \<le> length (content b)" using assms by simp
  then obtain x y z u tl where c: "content b = x # y # z # u # tl"
    by (auto simp: numeral_eq_Suc Suc_le_length_iff)
  have to2: "Buffer_BytesTo b 2 = Inr [x, y]" using Buffer_BytesTo_spec [OF assms, of 2] c by (simp add: numeral_eq_Suc)
  have at: "Buffer_Byte b 2 = Inr z" "Buffer_Byte b 3 = Inr u"
    using Buffer_Byte_nth [OF assms, of 2] Buffer_Byte_nth [OF assms, of 3] c by (simp_all add: numeral_eq_Suc)
  have addr: "safe (ReadAddressPort addrParser None input) (\<lambda>_. True)" for input
    by (rule safe_mono [OF safe_ReadAddressPort [OF New_ok(1) _ _ addrParser_ok]]) (simp_all add: Size_def)
  have tail: "safe (Buffer_Byte b 4) (\<lambda>_. True)" "safe (Buffer_Bytes (Buffer_Advance b 5)) (\<lambda>_. True)" if "\<not> blen b < 8"
    using that assms Buffer_Byte_nth [OF assms, of 4] Buffer_Advance_spec(1,2) [OF assms, of 5] by simp_all
  show ?thesis
    unfolding UnmarshalFromBuffer_def to2 at using False
    by (auto simp: Let_def intro!: safe_bind [where P = "\<lambda>_. True"] addr tail)
qed

lemma safe_ReadUint16:
  "br_ok r \<Longrightarrow> br_err r = EOF \<Longrightarrow> safe (ReadUint16 r) (\<lambda>(v, r'). br_ok r' \<and> br_err r' = EOF)"
  using ReadUint16_law [of r] by (auto split: if_splits)

lemma safe_br_read_full:
  assumes "br_ok r" "br_err r = EOF" "n \<le> Size"
  shows "safe (br_read_full New r (int n)) (\<lambda>(b, r'). buffer_ok b \<and> br_ok r' \<and> br_err r' = EOF)"
proof -
  have "n \<le> room New" using assms(3) by simp
  from read_full_law [OF New_ok(1) this, of "br_cont r"] br_read_full_law [OF assms(1,2), of New "int n"]
  show ?thesis by (auto split: if_splits)
qed

section \<open>Properties\<close>

text \<open>
  C15: the metadata of a frame survives the trip. For every metadata that can be sent (a new session has
  a TCP or UDP destination, an endpoint is a UDP one), \<^verbatim>\<open>WriteTo\<close> appends its encoding to the buffer
  without a panic or an error, and \<^verbatim>\<open>Unmarshal\<close>, reading it from a link that cuts the stream in any way,
  returns the session id, status, option and destination that were written and leaves what follows.
\<close>

theorem mux_frame_roundtrip:
  assumes "bstate s ep b" "length (meta_wire f ep) \<le> room b" "meta_ok f ep"
    and "ep = None \<or> fm_SessionStatus f \<in> {SessionStatusNew, SessionStatusKeep}"
  shows "\<exists>b' wire. FrameMetadata_WriteTo f b = Inr b' \<and> content b' = content b @ wire
    \<and> (\<forall>r rest. br_ok r \<and> br_err r = EOF \<and> br_cont r = wire @ rest \<longrightarrow>
         (\<exists>r'. FrameMetadata_Unmarshal f0 r = Inr (parsed f0 f ep, r') \<and> br_cont r' = rest))"
proof -
  from assms(1,3,2) obtain b' where "FrameMetadata_WriteTo f b = Inr b'" "content b' = content b @ meta_wire f ep"
    by (rule FrameMetadata_WriteTo_law)
  moreover have "\<exists>r'. FrameMetadata_Unmarshal f0 r = Inr (parsed f0 f ep, r') \<and> br_cont r' = rest"
    if "br_ok r" "br_err r = EOF" "br_cont r = meta_wire f ep @ rest" for r rest
    using Unmarshal_law [OF that assms(3,4)] by metis
  ultimately show ?thesis by (intro exI [of _ b'] exI [of _ "meta_wire f ep"]) simp
qed

definition demo_meta :: FrameMetadata where
  "demo_meta = \<lparr>fm_Target = TCPDestination (Some (ipv4Address [127, 0, 0, 1])) 80, fm_SessionID = 5, fm_Option = OptionData,
     fm_SessionStatus = SessionStatusNew\<rparr>"

lemma demo_meta_ok: "meta_ok demo_meta None"
  by (simp add: meta_ok_def demo_meta_def dest_ok_def TCPDestination_def addrParser_eq sendable_def ap_knows_def family_defs)

theorem mux_frame_roundtrip_witness:
  "\<exists>b' wire. FrameMetadata_WriteTo demo_meta New = Inr b' \<and> content b' = wire"
proof -
  have "length (meta_wire demo_meta None) \<le> room New"
    using length_meta_body [OF demo_meta_ok] by (simp add: meta_wire_def Size_def)
  from mux_frame_roundtrip [OF _ this demo_meta_ok, of 0 demo_meta] show ?thesis by (auto simp: bstate_def)
qed



text \<open>
  C17: no peer can make the frame parser panic: whatever bytes the link delivers, in whatever pieces,
  \<^verbatim>\<open>Unmarshal\<close> returns metadata or an error.
\<close>

theorem mux_unmarshal_never_panics:
  assumes "br_ok r" "br_err r = EOF"
  shows "FrameMetadata_Unmarshal f r \<noteq> Inl Panic"
proof (rule safe_not_Panic)
  have rest: "safe (if metaLen > 512 then Inl (NewError ''invalid metalen'')
       else bind_res (br_read_full New r1 (uint metaLen)) (\<lambda>(b, r2).
            bind_res (UnmarshalFromBuffer f b) (\<lambda>f'. Inr (f', r2)))) (\<lambda>_. True)"
    if "br_ok r1" "br_err r1 = EOF" for metaLen :: u16 and r1
  proof (cases "metaLen > 512")
    case False
    then have n: "unat metaLen \<le> Size" by (simp add: word_less_nat_alt Size_def)
    have u: "uint metaLen = int (unat metaLen)" by (rule uint_nat)
    have "safe (br_read_full New r1 (uint metaLen)) (\<lambda>(b, r'). buffer_ok b \<and> br_ok r' \<and> br_err r' = EOF)"
      unfolding u by (rule safe_br_read_full [OF that n])
    then have "safe (bind_res (br_read_full New r1 (uint metaLen)) (\<lambda>(b, r2). bind_res (UnmarshalFromBuffer f b) (\<lambda>f'. Inr (f', r2)))) (\<lambda>_. True)"
      by (rule safe_bind) (auto intro!: safe_bind [OF safe_UnmarshalFromBuffer])
    with False show ?thesis by simp
  qed simp
  show "safe (FrameMetadata_Unmarshal f r) (\<lambda>_. True)"
    unfolding FrameMetadata_Unmarshal_def
    by (rule safe_bind [OF safe_ReadUint16 [OF assms]]) (use rest in auto)
qed

theorem mux_unmarshal_never_panics_witness:
  "FrameMetadata_Unmarshal demo_meta (NewBufferedReader demo_link) \<noteq> Inl Panic"
  by (rule mux_unmarshal_never_panics [OF demo_link_ok(1,2)])

end
