(* ===== verification/MuxSession.thy ===== *)
theory MuxSession
  imports MuxFrame
begin

text \<open>
  Package \<^verbatim>\<open>common/mux\<close>, the sessions (\<^verbatim>\<open>session.go\<close>) and the workers at both ends of a mux
  connection (\<^verbatim>\<open>client.go\<close>, \<^verbatim>\<open>server.go\<close>, \<^verbatim>\<open>endpoint.go\<close>).

  The readers and writers that a worker is given (the link of the connection, the links of its
  sessions) are opaque handles. What a worker does to them is the list of events it has caused; what
  they answer (a failed write, the link that the dispatcher returns, a cancelled context) is a
  function of the events so far, so that every behaviour of the environment is covered. The
  operations of the session manager, which hold its lock, are the atomic steps.
\<close>

section \<open>Sessions\<close>

datatype handle = LinkReader | LinkWriter | Input nat | Output nat

record Session =
  s_input :: handle
  s_output :: handle
  s_ID :: u16
  s_transferType :: TransferType
  s_endpoint :: Destination
  s_sendEndpoint :: int

record SessionManager =
  sm_sessions :: "u16 \<rightharpoonup> Session"
  sm_count :: u16
  sm_closed :: bool

definition NewSessionManager :: SessionManager where
  "NewSessionManager = \<lparr>sm_sessions = Map.empty, sm_count = 0, sm_closed = False\<rparr>"

definition sm_Size :: "SessionManager \<Rightarrow> int" where
  "sm_Size m = int (card (dom (sm_sessions m)))"

definition sm_Count :: "SessionManager \<Rightarrow> int" where
  "sm_Count m = uint (sm_count m)"

definition sm_Allocate :: "SessionManager \<Rightarrow> handle \<Rightarrow> handle \<Rightarrow> Session option \<times> SessionManager" where
  "sm_Allocate m inp outp =
     (if sm_closed m then (None, m)
      else let count' = sm_count m + 1;
               s = \<lparr>s_input = inp, s_output = outp, s_ID = count', s_transferType = TransferTypeStream,
                    s_endpoint = Destination_zero, s_sendEndpoint = 0\<rparr>
           in (Some s, m\<lparr>sm_count := count', sm_sessions := (sm_sessions m)(s_ID s \<mapsto> s)\<rparr>))"

definition sm_Add :: "SessionManager \<Rightarrow> Session \<Rightarrow> SessionManager" where
  "sm_Add m s = (if sm_closed m then m
     else m\<lparr>sm_count := sm_count m + 1, sm_sessions := (sm_sessions m)(s_ID s \<mapsto> s)\<rparr>)"

definition sm_Remove :: "SessionManager \<Rightarrow> u16 \<Rightarrow> SessionManager" where
  "sm_Remove m sid = (if sm_closed m then m else m\<lparr>sm_sessions := (sm_sessions m)(sid := None)\<rparr>)"

definition sm_Get :: "SessionManager \<Rightarrow> u16 \<Rightarrow> Session option" where
  "sm_Get m sid = (if sm_closed m then None else sm_sessions m sid)"

definition sm_CloseIfNoSession :: "SessionManager \<Rightarrow> bool \<times> SessionManager" where
  "sm_CloseIfNoSession m =
     (if sm_closed m then (True, m)
      else if sm_Size m \<noteq> 0 then (False, m)
      else (True, m\<lparr>sm_closed := True\<rparr>))"

text \<open>What happens to the handles; \<^verbatim>\<open>SessionManager.Close\<close> closes those of all sessions, in no particular order.\<close>

datatype mux_event =
    EvWrite handle MultiBuffer
  | EvClose handle
  | EvCloseAll "handle set"
  | EvInterrupt handle
  | EvDispatch Destination
  | EvGo Session

definition sm_Close :: "SessionManager \<Rightarrow> mux_event list \<Rightarrow> SessionManager \<times> mux_event list" where
  "sm_Close m log =
     (if sm_closed m then (m, log)
      else (m\<lparr>sm_closed := True, sm_sessions := Map.empty\<rparr>,
            log @ [EvCloseAll (s_input ` ran (sm_sessions m) \<union> s_output ` ran (sm_sessions m))]))"

definition Session_Close :: "Session \<Rightarrow> SessionManager \<Rightarrow> mux_event list \<Rightarrow> SessionManager \<times> mux_event list" where
  "Session_Close s m log = (sm_Remove m (s_ID s), log @ [EvClose (s_output s), EvClose (s_input s)])"

text \<open>\<^verbatim>\<open>Session.NewReader\<close>, and \<^verbatim>\<open>buf.Copy\<close> from the reader it returns.\<close>

datatype mux_reader = StreamRR "unit ChunkStreamReader" | PacketRR mux_PacketReader

definition Session_NewReader :: "Session \<Rightarrow> BufferedReader \<Rightarrow> Destination \<Rightarrow> mux_reader" where
  "Session_NewReader s reader dest =
     (if s_transferType s = TransferTypeStream then StreamRR (NewStreamReader reader)
      else PacketRR (NewPacketReader reader dest))"

definition no_ctx :: copy_ctx where
  "no_ctx = \<lparr>ctx_updated = False, ctx_Size = 0\<rparr>"

fun rr_Copy :: "'w buf_Writer \<Rightarrow> mux_reader \<Rightarrow> 'w \<Rightarrow> (go_error option \<times> mux_reader \<times> 'w) result" where
  "rr_Copy wr (StreamRR r) w =
     bind_res (Copy csr_weight (ChunkStreamReader_ReadMultiBuffer plain_decoder) wr [] no_ctx r w) (\<lambda>(err, _, r', w').
       Inr (err, StreamRR r', w'))"
| "rr_Copy wr (PacketRR r) w =
     bind_res (Copy mp_weight mux_PacketReader_ReadMultiBuffer wr [] no_ctx r w) (\<lambda>(err, _, r', w').
       Inr (err, PacketRR r', w'))"

fun rr_reader :: "mux_reader \<Rightarrow> BufferedReader" where
  "rr_reader (StreamRR r) = csr_reader r"
| "rr_reader (PacketRR r) = mp_reader r"

text \<open>\<^verbatim>\<open>buf.Copy(NewStreamReader(reader), buf.Discard)\<close> and \<^verbatim>\<open>buf.Copy(rr, buf.Discard)\<close>.\<close>

definition drain :: "mux_reader \<Rightarrow> (go_error option \<times> BufferedReader) result" where
  "drain rr = bind_res (rr_Copy Discard rr ()) (\<lambda>(err, rr', _). Inr (err, rr_reader rr'))"

definition discard_data :: "FrameMetadata \<Rightarrow> BufferedReader \<Rightarrow> (go_error option \<times> BufferedReader) result" where
  "discard_data meta reader =
     (if Byte_Has (fm_Option meta) OptionData then drain (StreamRR (NewStreamReader reader)) else Inr (None, reader))"

section \<open>The environment\<close>

record mux_env =
  env_fails :: "mux_event list \<Rightarrow> handle \<Rightarrow> go_error option"
  env_dispatch :: "mux_event list \<Rightarrow> Destination \<Rightarrow> go_error + (handle \<times> handle)"
  env_done :: "mux_event list \<Rightarrow> bool"

definition handle_writer :: "mux_env \<Rightarrow> handle \<Rightarrow> mux_event list buf_Writer" where
  "handle_writer env h log mb =
     (case env_fails env log h of Some e \<Rightarrow> (Some e, log) | None \<Rightarrow> (None, log @ [EvWrite h mb]))"

text \<open>Telling the peer to close a session: a response writer that is closed at once.\<close>

definition notify_closed :: "mux_env \<Rightarrow> u16 \<Rightarrow> mux_event list \<Rightarrow> mux_event list result" where
  "notify_closed env sid log =
     bind_res (Writer_Close (handle_writer env LinkWriter) (NewResponseWriter sid TransferTypeStream) log) (\<lambda>(_, log').
       Inr log')"

text \<open>
  The part of \<^verbatim>\<open>handleStatusKeep\<close> that client and server share: copying the data of a frame to the
  session, and closing the session when its writer fails.
\<close>

definition copy_to_session :: "mux_env \<Rightarrow> u16 \<Rightarrow> Session \<Rightarrow> mux_reader \<Rightarrow> SessionManager \<Rightarrow> mux_event list
    \<Rightarrow> (go_error option \<times> SessionManager \<times> mux_event list \<times> BufferedReader) result" where
  "copy_to_session env sid s rr m log =
     bind_res (rr_Copy (handle_writer env (s_output s)) rr log) (\<lambda>(err, rr1, log1).
       if err \<noteq> None \<and> IsWriteError err then
         bind_res (notify_closed env sid log1) (\<lambda>log2.
         bind_res (drain rr1) (\<lambda>(drainErr, reader').
           case Session_Close s m (log2 @ [EvInterrupt (s_input s)]) of (m', log3) \<Rightarrow>
             Inr (drainErr, m', log3, reader')))
       else Inr (err, m, log1, rr_reader rr1))"

text \<open>\<^verbatim>\<open>handleStatusEnd\<close> is the same at both ends.\<close>

definition end_session :: "FrameMetadata \<Rightarrow> SessionManager \<Rightarrow> mux_event list \<Rightarrow> SessionManager \<times> mux_event list" where
  "end_session meta m log =
     (case sm_Get m (fm_SessionID meta) of
        None \<Rightarrow> (m, log)
      | Some s \<Rightarrow>
          let log1 = (if Byte_Has (fm_Option meta) OptionError
                      then log @ [EvInterrupt (s_input s), EvInterrupt (s_output s)] else log)
          in Session_Close s m (log1 @ [EvInterrupt (s_input s)]))"

section \<open>Server\<close>

record ServerWorker =
  sv_sessionManager :: SessionManager
  sv_log :: "mux_event list"

definition NewServerWorker :: ServerWorker where
  "NewServerWorker = \<lparr>sv_sessionManager = NewSessionManager, sv_log = []\<rparr>"

definition server_handleStatusKeepAlive :: "FrameMetadata \<Rightarrow> ServerWorker \<Rightarrow> BufferedReader
    \<Rightarrow> (go_error option \<times> ServerWorker \<times> BufferedReader) result" where
  "server_handleStatusKeepAlive meta w reader =
     bind_res (discard_data meta reader) (\<lambda>(err, r'). Inr (err, w, r'))"

text \<open>
  \<^verbatim>\<open>handleStatusNew\<close>: dispatch the target, register the session, start the goroutine that answers,
  and copy the first data.
\<close>

definition server_handleStatusNew :: "mux_env \<Rightarrow> FrameMetadata \<Rightarrow> ServerWorker \<Rightarrow> BufferedReader
    \<Rightarrow> (go_error option \<times> ServerWorker \<times> BufferedReader) result" where
  "server_handleStatusNew env meta w reader =
     (let log1 = sv_log w @ [EvDispatch (fm_Target meta)] in
      case env_dispatch env (sv_log w) (fm_Target meta) of
        Inl e \<Rightarrow>
          bind_res (discard_data meta reader) (\<lambda>(_, r').
            Inr (Some (BaseError ''failed to dispatch request.'' e), w\<lparr>sv_log := log1\<rparr>, r'))
      | Inr (inp, outp) \<Rightarrow>
          let s = \<lparr>s_input = inp, s_output = outp, s_ID = fm_SessionID meta,
                   s_transferType = (if dest_Network (fm_Target meta) = Network_UDP then TransferTypePacket else TransferTypeStream),
                   s_endpoint = fm_Target meta, s_sendEndpoint = 0\<rparr>;
              m1 = sm_Add (sv_sessionManager w) s;
              log2 = log1 @ [EvGo s]
          in if \<not> Byte_Has (fm_Option meta) OptionData
             then Inr (None, w\<lparr>sv_sessionManager := m1, sv_log := log2\<rparr>, reader)
             else bind_res (rr_Copy (handle_writer env outp) (Session_NewReader s reader (fm_Target meta)) log2) (\<lambda>(err, rr1, log3).
               if err \<noteq> None then
                 bind_res (drain rr1) (\<lambda>(_, r').
                   case Session_Close s m1 (log3 @ [EvInterrupt inp]) of (m2, log4) \<Rightarrow>
                     Inr (None, w\<lparr>sv_sessionManager := m2, sv_log := log4\<rparr>, r'))
               else Inr (None, w\<lparr>sv_sessionManager := m1, sv_log := log3\<rparr>, rr_reader rr1)))"

text \<open>The update of \<^verbatim>\<open>sendEndpoint\<close> when a packet arrives with or without an address.\<close>

definition track_endpoint :: "FrameMetadata \<Rightarrow> Session \<Rightarrow> Session" where
  "track_endpoint meta s =
     (if s_transferType s = TransferTypePacket then
        if dest_Network (fm_Target meta) = Network_Unknown
        then (if s_sendEndpoint s = 0 then s\<lparr>s_sendEndpoint := - 1\<rparr> else s)
        else (if s_sendEndpoint s = - 1 then s\<lparr>s_sendEndpoint := 1\<rparr> else s)
      else s)"

definition sm_update :: "SessionManager \<Rightarrow> Session \<Rightarrow> SessionManager" where
  "sm_update m s = m\<lparr>sm_sessions := (sm_sessions m)(s_ID s \<mapsto> s)\<rparr>"

definition server_handleStatusKeep :: "mux_env \<Rightarrow> FrameMetadata \<Rightarrow> ServerWorker \<Rightarrow> BufferedReader
    \<Rightarrow> (go_error option \<times> ServerWorker \<times> BufferedReader) result" where
  "server_handleStatusKeep env meta w reader =
     (if \<not> Byte_Has (fm_Option meta) OptionData then Inr (None, w, reader)
      else case sm_Get (sv_sessionManager w) (fm_SessionID meta) of
             None \<Rightarrow>
               bind_res (notify_closed env (fm_SessionID meta) (sv_log w)) (\<lambda>log1.
               bind_res (drain (StreamRR (NewStreamReader reader))) (\<lambda>(err, r').
                 Inr (err, w\<lparr>sv_log := log1\<rparr>, r')))
           | Some s0 \<Rightarrow>
               let s = track_endpoint meta s0; m1 = sm_update (sv_sessionManager w) s in
               bind_res (copy_to_session env (fm_SessionID meta) s (Session_NewReader s reader (fm_Target meta)) m1 (sv_log w))
                 (\<lambda>(err, m2, log1, r'). Inr (err, w\<lparr>sv_sessionManager := m2, sv_log := log1\<rparr>, r')))"

definition server_handleStatusEnd :: "FrameMetadata \<Rightarrow> ServerWorker \<Rightarrow> BufferedReader
    \<Rightarrow> (go_error option \<times> ServerWorker \<times> BufferedReader) result" where
  "server_handleStatusEnd meta w reader =
     (case end_session meta (sv_sessionManager w) (sv_log w) of (m1, log1) \<Rightarrow>
        bind_res (discard_data meta reader) (\<lambda>(err, r').
          Inr (err, w\<lparr>sv_sessionManager := m1, sv_log := log1\<rparr>, r')))"

text \<open>The zero value of \<^verbatim>\<open>FrameMetadata\<close>.\<close>

definition zero_meta :: FrameMetadata where
  "zero_meta = \<lparr>fm_Target = Destination_zero, fm_SessionID = 0, fm_Option = 0, fm_SessionStatus = 0\<rparr>"

definition server_handle :: "mux_env \<Rightarrow> FrameMetadata \<Rightarrow> ServerWorker \<Rightarrow> BufferedReader
    \<Rightarrow> (go_error option \<times> ServerWorker \<times> BufferedReader) result" where
  "server_handle env meta w reader =
     (if fm_SessionStatus meta = SessionStatusKeepAlive then server_handleStatusKeepAlive meta w reader
      else if fm_SessionStatus meta = SessionStatusEnd then server_handleStatusEnd meta w reader
      else if fm_SessionStatus meta = SessionStatusNew then server_handleStatusNew env meta w reader
      else server_handleStatusKeep env meta w reader)"

definition handleFrame :: "mux_env \<Rightarrow> ServerWorker \<Rightarrow> BufferedReader
    \<Rightarrow> (go_error option \<times> ServerWorker \<times> BufferedReader) result" where
  "handleFrame env w reader =
     (case FrameMetadata_Unmarshal zero_meta reader of
        Inl e \<Rightarrow> if e = Panic then Inl Panic else Inr (Some (BaseError ''failed to read metadata'' e), w, reader)
      | Inr (meta, r1) \<Rightarrow>
          if fm_SessionStatus meta \<notin> {SessionStatusKeepAlive, SessionStatusEnd, SessionStatusNew, SessionStatusKeep}
          then Inr (Some (NewError ''unknown status''), w, r1)
          else bind_res (server_handle env meta w r1) (\<lambda>(err, w', r').
                 Inr (map_option (BaseError ''failed to process data'') err, w', r')))"

text \<open>
  \<^verbatim>\<open>run\<close>: frames until an error, or until the context is done; the deferred \<^verbatim>\<open>Close\<close> of the session
  manager ends it. Every frame consumes input, so the last branch is not taken.
\<close>

function server_loop :: "mux_env \<Rightarrow> ServerWorker \<Rightarrow> BufferedReader \<Rightarrow> (ServerWorker \<times> BufferedReader) result" where
  "server_loop env w reader =
     (if env_done env (sv_log w) then Inr (w, reader)
      else case handleFrame env w reader of
             Inl e \<Rightarrow> Inl e
           | Inr (Some err, w', r') \<Rightarrow>
               Inr (if Cause err \<noteq> EOF then w'\<lparr>sv_log := sv_log w' @ [EvInterrupt LinkReader]\<rparr> else w', r')
           | Inr (None, w', r') \<Rightarrow>
               if length (br_cont r') < length (br_cont reader) then server_loop env w' r' else Inl Panic)"
  by pat_completeness auto
termination
  by (relation "measure (\<lambda>(env, w, reader). length (br_cont reader))") auto

declare server_loop.simps [simp del]

definition server_run :: "mux_env \<Rightarrow> ServerWorker \<Rightarrow> Reader \<Rightarrow> ServerWorker result" where
  "server_run env w rd =
     bind_res (server_loop env w (NewBufferedReader rd)) (\<lambda>(w', _).
       case sm_Close (sv_sessionManager w') (sv_log w') of (m, log) \<Rightarrow>
         Inr (w'\<lparr>sv_sessionManager := m, sv_log := log\<rparr>))"

text \<open>
  The goroutine \<^verbatim>\<open>handle\<close> of a session: what arrives from the session's reader \<open>rd\<close> goes to the peer
  through a response writer; then the peer is told that the session ends and the session is
  closed. \<open>mux_writer\<close> is the session's \<^verbatim>\<open>Writer\<close> as a \<^verbatim>\<open>buf.Writer\<close>; a panic in it ends the copy.
\<close>

definition mux_writer :: "mux_env \<Rightarrow> (mux_Writer \<times> mux_event list) buf_Writer" where
  "mux_writer env st mb =
     (case Writer_WriteMultiBuffer (handle_writer env LinkWriter) (fst st) mb (snd st) of
        Inl e \<Rightarrow> (Some e, st)
      | Inr (err, w', log') \<Rightarrow> (err, (w', log')))"

definition strip_endpoint :: "Session \<Rightarrow> Buffer \<Rightarrow> Buffer" where
  "strip_endpoint s buffer =
     (case buf_Endpoint buffer of
        None \<Rightarrow> buffer
      | Some ep \<Rightarrow> if s_sendEndpoint s = - 1 \<or> ep = s_endpoint s then buffer\<lparr>buf_Endpoint := None\<rparr> else buffer)"

definition endpointWrapperWriter_WriteMultiBuffer :: "Session \<Rightarrow> 'w buf_Writer \<Rightarrow> 'w buf_Writer" where
  "endpointWrapperWriter_WriteMultiBuffer s wr w mb = wr w (map (strip_endpoint s) mb)"

definition server_handle_session :: "mux_env \<Rightarrow> Session \<Rightarrow> Reader \<Rightarrow> ServerWorker \<Rightarrow> ServerWorker result" where
  "server_handle_session env s rd w =
     bind_res (Copy br_weight (\<lambda>r. Inr (BufferedReader_ReadMultiBuffer r))
                 (endpointWrapperWriter_WriteMultiBuffer s (mux_writer env)) [] no_ctx (NewBufferedReader rd)
                 (NewResponseWriter (s_ID s) (s_transferType s), sv_log w)) (\<lambda>(err, _, _, mw, log1).
       if err = Some (WriteError Panic) then Inl Panic
       else bind_res (Writer_Close (handle_writer env LinkWriter) (if err \<noteq> None then mw\<lparr>mw_hasError := True\<rparr> else mw) log1) (\<lambda>(_, log2).
         case Session_Close s (sv_sessionManager w) log2 of (m, log3) \<Rightarrow>
           Inr (w\<lparr>sv_sessionManager := m, sv_log := log3\<rparr>)))"

section \<open>Client\<close>

record ClientStrategy =
  MaxConcurrency :: u32
  MaxConnection :: u32

record ClientWorker =
  cw_sessionManager :: SessionManager
  cw_done :: bool
  cw_strategy :: ClientStrategy
  cw_log :: "mux_event list"

definition NewClientWorker :: "ClientStrategy \<Rightarrow> ClientWorker" where
  "NewClientWorker strategy = \<lparr>cw_sessionManager = NewSessionManager, cw_done = False, cw_strategy = strategy, cw_log = []\<rparr>"

definition TotalConnections :: "ClientWorker \<Rightarrow> u32" where
  "TotalConnections w = word_of_int (sm_Count (cw_sessionManager w))"

definition ActiveConnections :: "ClientWorker \<Rightarrow> u32" where
  "ActiveConnections w = word_of_int (sm_Size (cw_sessionManager w))"

definition ClientWorker_Closed :: "ClientWorker \<Rightarrow> bool" where
  "ClientWorker_Closed w = cw_done w"

definition IsClosing :: "ClientWorker \<Rightarrow> bool" where
  "IsClosing w \<longleftrightarrow> MaxConnection (cw_strategy w) > 0 \<and> sm_Count (cw_sessionManager w) \<ge> uint (MaxConnection (cw_strategy w))"

definition ClientWorker_IsFull :: "ClientWorker \<Rightarrow> bool" where
  "ClientWorker_IsFull w \<longleftrightarrow>
     (if IsClosing w \<or> ClientWorker_Closed w then True
      else MaxConcurrency (cw_strategy w) > 0 \<and> sm_Size (cw_sessionManager w) \<ge> uint (MaxConcurrency (cw_strategy w)))"

text \<open>\<^verbatim>\<open>Dispatch\<close> of a link with the given reader and writer: whether it was taken.\<close>

definition ClientWorker_Dispatch :: "ClientWorker \<Rightarrow> handle \<Rightarrow> handle \<Rightarrow> bool \<times> ClientWorker" where
  "ClientWorker_Dispatch w inp outp =
     (if ClientWorker_IsFull w \<or> ClientWorker_Closed w then (False, w)
      else case sm_Allocate (cw_sessionManager w) inp outp of
             (None, m) \<Rightarrow> (False, w\<lparr>cw_sessionManager := m\<rparr>)
           | (Some s, m) \<Rightarrow> (True, w\<lparr>cw_sessionManager := m, cw_log := cw_log w @ [EvGo s]\<rparr>))"

text \<open>The two cases of \<^verbatim>\<open>monitor\<close>: the ticker, and the end of the worker.\<close>

definition monitor_tick :: "ClientWorker \<Rightarrow> ClientWorker" where
  "monitor_tick w =
     (if sm_Size (cw_sessionManager w) = 0
      then case sm_CloseIfNoSession (cw_sessionManager w) of
             (True, m) \<Rightarrow> w\<lparr>cw_sessionManager := m, cw_done := True\<rparr>
           | (False, m) \<Rightarrow> w\<lparr>cw_sessionManager := m\<rparr>
      else w)"

definition monitor_done :: "ClientWorker \<Rightarrow> ClientWorker" where
  "monitor_done w =
     (case sm_Close (cw_sessionManager w) (cw_log w) of (m, log1) \<Rightarrow>
        w\<lparr>cw_sessionManager := m, cw_log := log1 @ [EvClose LinkWriter, EvInterrupt LinkReader]\<rparr>)"

definition client_handleStatueKeepAlive :: "FrameMetadata \<Rightarrow> ClientWorker \<Rightarrow> BufferedReader
    \<Rightarrow> (go_error option \<times> ClientWorker \<times> BufferedReader) result" where
  "client_handleStatueKeepAlive meta w reader = bind_res (discard_data meta reader) (\<lambda>(err, r'). Inr (err, w, r'))"

definition client_handleStatusNew :: "FrameMetadata \<Rightarrow> ClientWorker \<Rightarrow> BufferedReader
    \<Rightarrow> (go_error option \<times> ClientWorker \<times> BufferedReader) result" where
  "client_handleStatusNew meta w reader = bind_res (discard_data meta reader) (\<lambda>(err, r'). Inr (err, w, r'))"

definition client_handleStatusKeep :: "mux_env \<Rightarrow> FrameMetadata \<Rightarrow> ClientWorker \<Rightarrow> BufferedReader
    \<Rightarrow> (go_error option \<times> ClientWorker \<times> BufferedReader) result" where
  "client_handleStatusKeep env meta w reader =
     (if \<not> Byte_Has (fm_Option meta) OptionData then Inr (None, w, reader)
      else case sm_Get (cw_sessionManager w) (fm_SessionID meta) of
             None \<Rightarrow>
               bind_res (notify_closed env (fm_SessionID meta) (cw_log w)) (\<lambda>log1.
               bind_res (drain (StreamRR (NewStreamReader reader))) (\<lambda>(err, r').
                 Inr (err, w\<lparr>cw_log := log1\<rparr>, r')))
           | Some s \<Rightarrow>
               bind_res (copy_to_session env (fm_SessionID meta) s (Session_NewReader s reader (fm_Target meta)) (cw_sessionManager w) (cw_log w))
                 (\<lambda>(err, m2, log1, r'). Inr (err, w\<lparr>cw_sessionManager := m2, cw_log := log1\<rparr>, r')))"

definition client_handleStatusEnd :: "FrameMetadata \<Rightarrow> ClientWorker \<Rightarrow> BufferedReader
    \<Rightarrow> (go_error option \<times> ClientWorker \<times> BufferedReader) result" where
  "client_handleStatusEnd meta w reader =
     (case end_session meta (cw_sessionManager w) (cw_log w) of (m1, log1) \<Rightarrow>
        bind_res (discard_data meta reader) (\<lambda>(err, r').
          Inr (err, w\<lparr>cw_sessionManager := m1, cw_log := log1\<rparr>, r')))"

definition client_handle :: "mux_env \<Rightarrow> FrameMetadata \<Rightarrow> ClientWorker \<Rightarrow> BufferedReader
    \<Rightarrow> (go_error option \<times> ClientWorker \<times> BufferedReader) result" where
  "client_handle env meta w reader =
     (if fm_SessionStatus meta = SessionStatusKeepAlive then client_handleStatueKeepAlive meta w reader
      else if fm_SessionStatus meta = SessionStatusEnd then client_handleStatusEnd meta w reader
      else if fm_SessionStatus meta = SessionStatusNew then client_handleStatusNew meta w reader
      else if fm_SessionStatus meta = SessionStatusKeep then client_handleStatusKeep env meta w reader
      else Inr (Some (NewError ''unknown status''), w, reader))"

text \<open>
  \<^verbatim>\<open>fetchOutput\<close>: frames until the link or a handler fails; the worker is done afterwards. The metadata
  of the last frame is the starting value for the next one.
\<close>

function fetchOutput_loop :: "mux_env \<Rightarrow> FrameMetadata \<Rightarrow> ClientWorker \<Rightarrow> BufferedReader \<Rightarrow> ClientWorker result" where
  "fetchOutput_loop env meta w reader =
     (case FrameMetadata_Unmarshal meta reader of
        Inl e \<Rightarrow> if e = Panic then Inl Panic else Inr w
      | Inr (meta', r1) \<Rightarrow>
          (case client_handle env meta' w r1 of
             Inl e \<Rightarrow> Inl e
           | Inr (Some err, w', r') \<Rightarrow> Inr w'
           | Inr (None, w', r') \<Rightarrow>
               if length (br_cont r') < length (br_cont reader) then fetchOutput_loop env meta' w' r' else Inl Panic))"
  by pat_completeness auto
termination
  by (relation "measure (\<lambda>(env, meta, w, reader). length (br_cont reader))") auto

declare fetchOutput_loop.simps [simp del]

definition fetchOutput :: "mux_env \<Rightarrow> ClientWorker \<Rightarrow> Reader \<Rightarrow> ClientWorker result" where
  "fetchOutput env w rd =
     bind_res (fetchOutput_loop env zero_meta w (NewBufferedReader rd)) (\<lambda>w'. Inr (w'\<lparr>cw_done := True\<rparr>))"

text \<open>
  The goroutine \<^verbatim>\<open>fetchInput\<close> of a session. \<open>timed\<close> is the \<^verbatim>\<open>ReadMultiBufferTimeout\<close> of the session's
  reader, if it has one.
\<close>

definition writeFirstPayload :: "mux_env \<Rightarrow> BufferedReader buf_Reader option \<Rightarrow> BufferedReader
    \<Rightarrow> mux_Writer \<times> mux_event list \<Rightarrow> (go_error option \<times> BufferedReader \<times> mux_Writer \<times> mux_event list) result" where
  "writeFirstPayload env timed reader st =
     bind_res (CopyOnceTimeout timed (mux_writer env) reader st) (\<lambda>(err, reader', st').
       if err = Some ErrNotTimeoutReader \<or> err = Some (NewError ''IO timeout'')
       then (case mux_writer env st' [] of (err', st'') \<Rightarrow> Inr (err', reader', st''))
       else Inr (err, reader', st'))"

definition fetchInput :: "mux_env \<Rightarrow> Session \<Rightarrow> Destination \<Rightarrow> BufferedReader buf_Reader option \<Rightarrow> BufferedReader
    \<Rightarrow> ClientWorker \<Rightarrow> ClientWorker result" where
  "fetchInput env s0 dest timed reader w =
     (let tt = (if dest_Network dest = Network_UDP then TransferTypePacket else TransferTypeStream);
          s = s0\<lparr>s_transferType := tt\<rparr>;
          m0 = (if sm_Get (cw_sessionManager w) (s_ID s) = Some s0 then sm_update (cw_sessionManager w) s else cw_sessionManager w);
          finish = (\<lambda>mw log. bind_res (Writer_Close (handle_writer env LinkWriter) mw log) (\<lambda>(_, log').
                      case Session_Close s m0 log' of (m, log'') \<Rightarrow>
                        Inr (w\<lparr>cw_sessionManager := m, cw_log := log''\<rparr>))) in
      bind_res (writeFirstPayload env timed reader (NewWriter (s_ID s) dest tt, cw_log w)) (\<lambda>(err, reader1, mw, log1).
        if err = Some Panic then Inl Panic
        else if err \<noteq> None then finish (mw\<lparr>mw_hasError := True\<rparr>) (log1 @ [EvInterrupt (s_input s)])
        else bind_res (Copy br_weight (\<lambda>r. Inr (BufferedReader_ReadMultiBuffer r)) (mux_writer env) [] no_ctx reader1 (mw, log1))
               (\<lambda>(err2, _, _, mw2, log2).
                 if err2 = Some (WriteError Panic) then Inl Panic
                 else if err2 \<noteq> None then finish (mw2\<lparr>mw_hasError := True\<rparr>) (log2 @ [EvInterrupt (s_input s)])
                 else finish mw2 log2)))"

section \<open>Picking a worker\<close>

text \<open>
  The list of workers of an \<^verbatim>\<open>IncrementalWorkerPicker\<close>. The factory is a parameter: the worker it
  creates, or its error.
\<close>

definition picker_cleanup :: "ClientWorker list \<Rightarrow> ClientWorker list" where
  "picker_cleanup workers = filter (\<lambda>w. \<not> ClientWorker_Closed w) workers"

definition picker_cleanupFunc :: "ClientWorker list \<Rightarrow> go_error option \<times> ClientWorker list" where
  "picker_cleanupFunc workers =
     (if workers = [] then (Some (NewError ''no worker''), workers) else (None, picker_cleanup workers))"

fun findAvailable_from :: "nat \<Rightarrow> ClientWorker list \<Rightarrow> int" where
  "findAvailable_from i [] = - 1"
| "findAvailable_from i (w # ws) = (if \<not> ClientWorker_IsFull w then int i else findAvailable_from (Suc i) ws)"

definition findAvailable :: "ClientWorker list \<Rightarrow> int" where
  "findAvailable workers = findAvailable_from 0 workers"

text \<open>\<^verbatim>\<open>pickInternal\<close>: the index of the worker that is picked and the new list, or the error of the factory.\<close>

definition pickInternal :: "(go_error + ClientWorker) \<Rightarrow> ClientWorker list \<Rightarrow> (go_error + nat \<times> bool) \<times> ClientWorker list" where
  "pickInternal create workers =
     (let idx = findAvailable workers; n = length workers in
      if idx \<ge> 0 then
        let workers' = (if n > 1 \<and> idx \<noteq> int n - 1
                        then workers[n - 1 := workers ! nat idx, nat idx := workers ! (n - 1)] else workers)
        in (Inr (nat idx, False), workers')
      else
        let workers1 = picker_cleanup workers in
        case create of
          Inl e \<Rightarrow> (Inl e, workers1)
        | Inr worker \<Rightarrow> (Inr (length workers1, True), workers1 @ [worker]))"

text \<open>
  \<^verbatim>\<open>ClientManager.Dispatch\<close>: up to sixteen picks, until a worker takes the link. \<open>create k\<close> is the answer of
  the factory to its \<open>k\<close>-th call.
\<close>

primrec ClientManager_Dispatch_loop :: "nat \<Rightarrow> (nat \<Rightarrow> go_error + ClientWorker) \<Rightarrow> nat \<Rightarrow> ClientWorker list \<Rightarrow> handle \<Rightarrow> handle
    \<Rightarrow> go_error option \<times> ClientWorker list" where
  "ClientManager_Dispatch_loop 0 create k workers inp outp =
     (Some (NewError ''unable to find an available mux client''), workers)"
| "ClientManager_Dispatch_loop (Suc i) create k workers inp outp =
     (case pickInternal (create k) workers of
        (Inl e, ws) \<Rightarrow> (Some e, ws)
      | (Inr (j, start), ws) \<Rightarrow>
          (case ClientWorker_Dispatch (ws ! j) inp outp of
             (True, w') \<Rightarrow> (None, ws[j := w'])
           | (False, w') \<Rightarrow> ClientManager_Dispatch_loop i create (if start then Suc k else k) (ws[j := w']) inp outp))"

definition ClientManager_Dispatch :: "(nat \<Rightarrow> go_error + ClientWorker) \<Rightarrow> ClientWorker list \<Rightarrow> handle \<Rightarrow> handle
    \<Rightarrow> go_error option \<times> ClientWorker list" where
  "ClientManager_Dispatch create workers inp outp = ClientManager_Dispatch_loop 16 create 0 workers inp outp"

end
