(* ===== verification/MuxSystem.thy ===== *)
theory MuxSystem
  imports MuxSession
begin

text \<open>
  A mux connection as a whole: the server worker, reading the bytes of the link in whatever pieces
  they arrive, refines an abstract demultiplexer on frames; session ids are never reused; a
  connection is found for every request as long as a worker has room.
\<close>

section \<open>Reading the data of a frame\<close>

fun rr_ok :: "mux_reader \<Rightarrow> byte list \<Rightarrow> byte list \<Rightarrow> bool" where
  "rr_ok (StreamRR r) d rest \<longleftrightarrow> csr_ok r \<and> csr_cont r = d \<and> csr_after r = (rest, True)"
| "rr_ok (PacketRR r) d rest \<longleftrightarrow> mp_ok r \<and> mp_cont r = d \<and> mp_after r = (rest, True)"

lemma rr_Copy_law:
  assumes "rr_ok rr d rest" "\<And>w mb. fst (wr w mb) = None"
  obtains rr' w' mbs where "rr_Copy wr rr w = Inr (None, rr', w')" "br_raw (rr_reader rr') = (rest, True)"
    "run_wr wr w mbs = Some w'" "concat (map mcontent mbs) = d"
proof (cases rr)
  case (StreamRR r)
  with assms(1) have r: "csr_ok r" "csr_cont r = d" "csr_after r = (rest, True)" by simp_all
  from r(1) assms(2) obtain c' r' w' mbs where
    "Copy csr_weight (ChunkStreamReader_ReadMultiBuffer plain_decoder) wr [] no_ctx r w = Inr (None, c', r', w')"
    "csr_raw r' = csr_after r" "run_wr wr w mbs = Some w'" "concat (map mcontent mbs) = csr_cont r"
    by (rule chunk_source.Copy_never_fails)
  with r StreamRR show thesis by (intro that [of "StreamRR r'" w' mbs]) (simp_all add: csr_raw_def)
next
  case (PacketRR r)
  with assms(1) have r: "mp_ok r" "mp_cont r = d" "mp_after r = (rest, True)" by simp_all
  from r(1) assms(2) obtain c' r' w' mbs where
    "Copy mp_weight mux_PacketReader_ReadMultiBuffer wr [] no_ctx r w = Inr (None, c', r', w')"
    "mp_raw r' = mp_after r" "run_wr wr w mbs = Some w'" "concat (map mcontent mbs) = mp_cont r"
    by (rule packet_source.Copy_never_fails)
  with r PacketRR show thesis by (intro that [of "PacketRR r'" w' mbs]) (simp_all add: mp_raw_def)
qed

lemma stream_rr_ok:
  "br_ok r \<Longrightarrow> br_err r = EOF \<Longrightarrow> br_cont r = chunk_wire d @ rest \<Longrightarrow> length d \<le> 65535 \<Longrightarrow> rr_ok (StreamRR (NewStreamReader r)) d rest"
  using NewStreamReader_ok by simp

lemma NewReader_rr_ok:
  assumes "br_ok r" "br_err r = EOF" "br_cont r = chunk_wire d @ rest" "length d \<le> Size"
  shows "rr_ok (Session_NewReader s r dest) d rest"
  using NewStreamReader_ok [OF assms(1-3)] NewPacketReader_ok [OF assms] assms(4)
  by (simp add: Session_NewReader_def Size_def)

lemma drain_law:
  assumes "rr_ok rr d rest"
  obtains r' where "drain rr = Inr (None, r')" "br_raw r' = (rest, True)"
proof -
  have "fst (Discard w mb) = None" for w mb by (simp add: Discard_def)
  with assms obtain rr' w' mbs where "rr_Copy Discard rr () = Inr (None, rr', w')" "br_raw (rr_reader rr') = (rest, True)"
    by (rule rr_Copy_law)
  then show thesis by (intro that [of "rr_reader rr'"]) (simp_all add: drain_def)
qed

text \<open>Frames as a well-behaved peer sends them.\<close>

definition frame_ok :: "frame \<Rightarrow> bool" where
  "frame_ok fr \<longleftrightarrow> meta_ok (fr_meta fr) (fr_ep fr)
     \<and> (fr_ep fr = None \<or> fm_SessionStatus (fr_meta fr) \<in> {SessionStatusNew, SessionStatusKeep})
     \<and> fm_SessionStatus (fr_meta fr) \<in> {SessionStatusKeepAlive, SessionStatusEnd, SessionStatusNew, SessionStatusKeep}
     \<and> (case fr_data fr of
          None \<Rightarrow> \<not> Byte_Has (fm_Option (fr_meta fr)) OptionData
        | Some d \<Rightarrow> Byte_Has (fm_Option (fr_meta fr)) OptionData \<and> length d \<le> Size)"

definition data_wire :: "byte list option \<Rightarrow> byte list" where
  "data_wire d = (case d of None \<Rightarrow> [] | Some xs \<Rightarrow> chunk_wire xs)"

definition data_of :: "frame \<Rightarrow> byte list" where
  "data_of fr = (case fr_data fr of None \<Rightarrow> [] | Some d \<Rightarrow> d)"

lemma discard_data_law:
  assumes "br_raw r = (data_wire d @ rest, True)"
    and "case d of None \<Rightarrow> \<not> Byte_Has (fm_Option meta) OptionData | Some xs \<Rightarrow> Byte_Has (fm_Option meta) OptionData \<and> length xs \<le> Size"
  obtains r' where "discard_data meta r = Inr (None, r')" "br_raw r' = (rest, True)"
proof (cases d)
  case None
  with assms show thesis by (intro that [of r]) (simp_all add: discard_data_def data_wire_def)
next
  case (Some xs)
  with assms have "rr_ok (StreamRR (NewStreamReader r)) xs rest"
    by (intro stream_rr_ok) (simp_all add: br_raw_def data_wire_def Size_def)
  then obtain r' where "drain (StreamRR (NewStreamReader r)) = Inr (None, r')" "br_raw r' = (rest, True)" by (rule drain_law)
  with Some assms show thesis by (intro that [of r']) (simp_all add: discard_data_def)
qed

section \<open>The bytes a session has received\<close>

definition delivered :: "handle \<Rightarrow> mux_event list \<Rightarrow> byte list" where
  "delivered h log = concat (map (\<lambda>e. case e of EvWrite h' mb \<Rightarrow> if h' = h then mcontent mb else [] | _ \<Rightarrow> []) log)"

lemma delivered_simps [simp]:
  "delivered h [] = []" "delivered h (log @ log') = delivered h log @ delivered h log'"
  "delivered h (EvWrite h' mb # log) = (if h' = h then mcontent mb else []) @ delivered h log"
  "delivered h (EvClose h' # log) = delivered h log" "delivered h (EvInterrupt h' # log) = delivered h log"
  "delivered h (EvGo s # log) = delivered h log" "delivered h (EvDispatch dst # log) = delivered h log"
  by (simp_all add: delivered_def)

lemma delivered_writes: "delivered h (map (EvWrite h') mbs) = (if h' = h then concat (map mcontent mbs) else [])"
  by (induction mbs) auto

text \<open>
  A benign environment: writes succeed, the dispatcher accepts every destination and returns a
  writer that has not been used before, the context is not cancelled.
\<close>

definition unused :: "handle \<Rightarrow> mux_event list \<Rightarrow> bool" where
  "unused h log \<longleftrightarrow> h \<noteq> LinkWriter \<and> (\<forall>s. EvGo s \<in> set log \<longrightarrow> s_output s \<noteq> h) \<and> (\<forall>mb. EvWrite h mb \<notin> set log)"

definition benign :: "mux_env \<Rightarrow> bool" where
  "benign env \<longleftrightarrow> (\<forall>log h. env_fails env log h = None) \<and> (\<forall>log. \<not> env_done env log)
     \<and> (\<forall>log d. \<exists>inp outp. env_dispatch env log d = Inr (inp, outp) \<and> unused outp log)"

lemma unused_delivered: "unused h log \<Longrightarrow> delivered h log = []"
  by (auto simp: unused_def delivered_def split: mux_event.splits)

lemma run_wr_handle: "benign env \<Longrightarrow> run_wr (handle_writer env h) log mbs = Some (log @ map (EvWrite h) mbs)"
  by (induction mbs arbitrary: log) (simp_all add: handle_writer_def benign_def)

lemma rr_Copy_handle:
  assumes "benign env" "rr_ok rr d rest"
  obtains rr' mbs where "rr_Copy (handle_writer env h) rr log = Inr (None, rr', log @ map (EvWrite h) mbs)"
    "br_raw (rr_reader rr') = (rest, True)" "concat (map mcontent mbs) = d"
proof -
  have "fst (handle_writer env h w mb) = None" for w mb using assms(1) by (simp add: handle_writer_def benign_def)
  with assms(2) obtain rr' w' mbs where "rr_Copy (handle_writer env h) rr log = Inr (None, rr', w')"
    "br_raw (rr_reader rr') = (rest, True)" "run_wr (handle_writer env h) log mbs = Some w'" "concat (map mcontent mbs) = d"
    by (rule rr_Copy_law)
  with run_wr_handle [OF assms(1)] show thesis by (intro that [of rr' mbs]) simp_all
qed

lemma notify_closed_law:
  assumes "benign env"
  obtains mb where "notify_closed env sid log = Inr (log @ [EvWrite LinkWriter mb])"
proof -
  let ?w = "NewResponseWriter sid TransferTypeStream"
  have "meta_ok (fr_meta (end_frame ?w)) None" by (simp add: meta_ok_def end_frame_def status_defs)
  then obtain b where "FrameMetadata_WriteTo (fr_meta (end_frame ?w)) New = Inr b" by (rule WriteTo_New)
  with assms show thesis
    by (intro that [of "[b]"]) (simp add: notify_closed_def Writer_Close_def end_frame_def NewResponseWriter_def must_def
        handle_writer_def benign_def)
qed

section \<open>The abstract demultiplexer\<close>

text \<open>For every open session, the bytes it has received; \<open>spec_step\<close> says what a frame does to them.\<close>

type_synonym demux = "u16 \<rightharpoonup> byte list"

definition spec_step :: "frame \<Rightarrow> demux \<Rightarrow> demux" where
  "spec_step fr a =
     (let sid = fm_SessionID (fr_meta fr); status = fm_SessionStatus (fr_meta fr) in
      if status = SessionStatusNew then a(sid \<mapsto> data_of fr)
      else if status = SessionStatusKeep then (case a sid of None \<Rightarrow> a | Some x \<Rightarrow> a(sid \<mapsto> x @ data_of fr))
      else if status = SessionStatusEnd then a(sid := None)
      else a)"

definition sv_abs :: "ServerWorker \<Rightarrow> demux" where
  "sv_abs w sid = map_option (\<lambda>s. delivered (s_output s) (sv_log w)) (sm_sessions (sv_sessionManager w) sid)"

definition used_output :: "handle \<Rightarrow> mux_event list \<Rightarrow> bool" where
  "used_output h log \<longleftrightarrow> h \<noteq> LinkWriter \<and> (\<exists>s. EvGo s \<in> set log \<and> s_output s = h)"

lemma used_output_append [simp]: "used_output h log \<Longrightarrow> used_output h (log @ log')"
  by (auto simp: used_output_def)

lemma unused_not_used: "unused h log \<Longrightarrow> used_output h' log \<Longrightarrow> h' \<noteq> h"
  by (auto simp: unused_def used_output_def)

definition sv_inv :: "ServerWorker \<Rightarrow> bool" where
  "sv_inv w \<longleftrightarrow> \<not> sm_closed (sv_sessionManager w)
     \<and> (\<forall>sid s. sm_sessions (sv_sessionManager w) sid = Some s \<longrightarrow> s_ID s = sid \<and> used_output (s_output s) (sv_log w))
     \<and> (\<forall>sid sid' s s'. sm_sessions (sv_sessionManager w) sid = Some s \<longrightarrow> sm_sessions (sv_sessionManager w) sid' = Some s'
          \<longrightarrow> sid \<noteq> sid' \<longrightarrow> s_output s \<noteq> s_output s')"

lemma sv_invD:
  assumes "sv_inv w" "sm_sessions (sv_sessionManager w) sid = Some s"
  shows "s_ID s = sid" "used_output (s_output s) (sv_log w)" "s_output s \<noteq> LinkWriter"
    "sm_sessions (sv_sessionManager w) sid' = Some s' \<Longrightarrow> sid \<noteq> sid' \<Longrightarrow> s_output s' \<noteq> s_output s"
  using assms by (auto simp: sv_inv_def used_output_def)

text \<open>Events that write to no session leave the abstraction as it is.\<close>

lemma sv_log_only:
  assumes "sv_inv w" "\<And>h. h \<noteq> LinkWriter \<Longrightarrow> delivered h evs = []"
  shows "sv_inv (w\<lparr>sv_log := sv_log w @ evs\<rparr>)" "sv_abs (w\<lparr>sv_log := sv_log w @ evs\<rparr>) = sv_abs w"
proof -
  show "sv_inv (w\<lparr>sv_log := sv_log w @ evs\<rparr>)" using assms(1) by (auto simp: sv_inv_def)
  show "sv_abs (w\<lparr>sv_log := sv_log w @ evs\<rparr>) = sv_abs w"
  proof (rule ext)
    fix sid show "sv_abs (w\<lparr>sv_log := sv_log w @ evs\<rparr>) sid = sv_abs w sid"
      using sv_invD(3) [OF assms(1), of sid] assms(2)
      by (cases "sm_sessions (sv_sessionManager w) sid") (simp_all add: sv_abs_def)
  qed
qed

text \<open>Data for an open session.\<close>

lemma sv_write:
  assumes "sv_inv w" "sm_sessions (sv_sessionManager w) sid = Some s" "s_output s' = s_output s" "s_ID s' = sid"
    and "w' = w\<lparr>sv_sessionManager := sm_update (sv_sessionManager w) s', sv_log := sv_log w @ map (EvWrite (s_output s)) mbs\<rparr>"
  shows "sv_inv w'" "sv_abs w' = (sv_abs w)(sid \<mapsto> delivered (s_output s) (sv_log w) @ concat (map mcontent mbs))"
proof -
  show "sv_inv w'" unfolding sv_inv_def
  proof (intro conjI allI impI)
    show "\<not> sm_closed (sv_sessionManager w')" using assms(1,5) by (simp add: sv_inv_def sm_update_def)
  next
    fix i t assume "sm_sessions (sv_sessionManager w') i = Some t"
    then show "s_ID t = i" "used_output (s_output t) (sv_log w')"
      using assms sv_invD(1,2) [OF assms(1)] by (auto simp: sm_update_def split: if_splits)
  next
    fix i i' t t' assume "sm_sessions (sv_sessionManager w') i = Some t" "sm_sessions (sv_sessionManager w') i' = Some t'" "i \<noteq> i'"
    then show "s_output t \<noteq> s_output t'"
      using assms sv_invD(4) [OF assms(1)] by (auto simp: sm_update_def split: if_splits)
  qed
  show "sv_abs w' = (sv_abs w)(sid \<mapsto> delivered (s_output s) (sv_log w) @ concat (map mcontent mbs))"
  proof (rule ext)
    fix i show "sv_abs w' i = ((sv_abs w)(sid \<mapsto> delivered (s_output s) (sv_log w) @ concat (map mcontent mbs))) i"
      using sv_invD(4) [OF assms(1,2), of i] assms(3-5)
      by (cases "sm_sessions (sv_sessionManager w) i") (auto simp: sv_abs_def sm_update_def delivered_writes)
  qed
qed

text \<open>A new session.\<close>

lemma sv_open:
  assumes "sv_inv w" "unused (s_output s) (sv_log w)" "s_ID s = sid" "delivered (s_output s) evs = d" "\<And>h. h \<noteq> s_output s \<Longrightarrow> delivered h evs = []"
    and "EvGo s \<in> set evs" "w' = w\<lparr>sv_sessionManager := sm_Add (sv_sessionManager w) s, sv_log := sv_log w @ evs\<rparr>"
  shows "sv_inv w'" "sv_abs w' = (sv_abs w)(sid \<mapsto> d)"
proof -
  have nc: "\<not> sm_closed (sv_sessionManager w)" using assms(1) by (simp add: sv_inv_def)
  have m: "sm_sessions (sv_sessionManager w') = (sm_sessions (sv_sessionManager w))(sid \<mapsto> s)"
    using nc assms(3,7) by (simp add: sm_Add_def)
  have log: "sv_log w' = sv_log w @ evs" using assms(7) by simp
  have used: "used_output (s_output s) (sv_log w')" using assms(2,6,7) by (auto simp: used_output_def unused_def)
  have other: "s_output t \<noteq> s_output s" if "sm_sessions (sv_sessionManager w) i = Some t" for i t
    using unused_not_used [OF assms(2) sv_invD(2) [OF assms(1) that]] .
  show "sv_inv w'" unfolding sv_inv_def
  proof (intro conjI allI impI)
    show "\<not> sm_closed (sv_sessionManager w')" using nc assms(7) by (simp add: sm_Add_def)
  next
    fix i t assume "sm_sessions (sv_sessionManager w') i = Some t"
    then show "s_ID t = i" "used_output (s_output t) (sv_log w')"
      using used assms(3) sv_invD(1,2) [OF assms(1)] unfolding m log by (auto split: if_splits)
  next
    fix i i' t t' assume "sm_sessions (sv_sessionManager w') i = Some t" "sm_sessions (sv_sessionManager w') i' = Some t'" "i \<noteq> i'"
    then show "s_output t \<noteq> s_output t'"
      using other sv_invD(4) [OF assms(1)] by (fastforce simp: m split: if_splits)
  qed
  show "sv_abs w' = (sv_abs w)(sid \<mapsto> d)"
  proof (rule ext)
    fix i show "sv_abs w' i = ((sv_abs w)(sid \<mapsto> d)) i"
      using other [of i] assms(4,5) unused_delivered [OF assms(2)]
      by (cases "sm_sessions (sv_sessionManager w) i") (auto simp: sv_abs_def m log)
  qed
qed

lemma sv_remove:
  assumes "sv_inv w" "\<And>h. delivered h evs = []"
    and "w' = w\<lparr>sv_sessionManager := sm_Remove (sv_sessionManager w) sid, sv_log := sv_log w @ evs\<rparr>"
  shows "sv_inv w'" "sv_abs w' = (sv_abs w)(sid := None)"
  using assms by (auto simp: sv_inv_def sm_Remove_def sv_abs_def)

section \<open>The server refines the demultiplexer\<close>

lemma meta_parsed [simp]:
  "fm_SessionID (parsed f0 f ep) = fm_SessionID f" "fm_Option (parsed f0 f ep) = fm_Option f"
  "fm_SessionStatus (parsed f0 f ep) = fm_SessionStatus f"
  by (simp_all add: parsed_def)

lemma handle_new:
  assumes "benign env" "sv_inv w" "br_raw r = (data_wire d @ rest, True)"
    and "case d of None \<Rightarrow> \<not> Byte_Has (fm_Option meta) OptionData | Some xs \<Rightarrow> Byte_Has (fm_Option meta) OptionData \<and> length xs \<le> Size"
  obtains w' r' where "server_handleStatusNew env meta w r = Inr (None, w', r')" "sv_inv w'" "br_raw r' = (rest, True)"
    "sv_abs w' = (sv_abs w)(fm_SessionID meta \<mapsto> (case d of None \<Rightarrow> [] | Some xs \<Rightarrow> xs))"
proof -
  from assms(1) obtain inp outp where disp: "env_dispatch env (sv_log w) (fm_Target meta) = Inr (inp, outp)" "unused outp (sv_log w)"
    unfolding benign_def by blast
  define s where "s = \<lparr>s_input = inp, s_output = outp, s_ID = fm_SessionID meta,
     s_transferType = (if dest_Network (fm_Target meta) = Network_UDP then TransferTypePacket else TransferTypeStream),
     s_endpoint = fm_Target meta, s_sendEndpoint = 0\<rparr>"
  have s: "s_output s = outp" "s_ID s = fm_SessionID meta" by (simp_all add: s_def)
  let ?evs = "[EvDispatch (fm_Target meta), EvGo s]"
  let ?m = "sm_Add (sv_sessionManager w) s"
  show thesis
  proof (cases d)
    case None
    let ?w = "w\<lparr>sv_sessionManager := ?m, sv_log := sv_log w @ ?evs\<rparr>"
    have "server_handleStatusNew env meta w r = Inr (None, ?w, r)"
      using None assms(4) disp(1) by (simp add: server_handleStatusNew_def s_def Let_def)
    with None assms(3) sv_open [OF assms(2) _ s(2), of ?evs "[]" ?w] disp(2) s(1) show thesis
      by (intro that [of ?w r]) (simp_all add: data_wire_def)
  next
    case (Some xs)
    with assms(3,4) have "rr_ok (Session_NewReader s r (fm_Target meta)) xs rest"
      by (intro NewReader_rr_ok) (simp_all add: br_raw_def data_wire_def)
    with assms(1) obtain rr' mbs where rr: "rr_Copy (handle_writer env outp) (Session_NewReader s r (fm_Target meta)) (sv_log w @ ?evs)
        = Inr (None, rr', (sv_log w @ ?evs) @ map (EvWrite outp) mbs)"
      "br_raw (rr_reader rr') = (rest, True)" "concat (map mcontent mbs) = xs" by (rule rr_Copy_handle)
    let ?w = "w\<lparr>sv_sessionManager := ?m, sv_log := sv_log w @ (?evs @ map (EvWrite outp) mbs)\<rparr>"
    have "server_handleStatusNew env meta w r = Inr (None, ?w, rr_reader rr')"
      using Some assms(4) disp(1) rr(1) by (simp add: server_handleStatusNew_def Let_def flip: s_def)
    with Some rr(2,3) sv_open [OF assms(2) _ s(2), of "?evs @ map (EvWrite outp) mbs" xs ?w] disp(2) s(1) show thesis
      by (intro that [of ?w "rr_reader rr'"]) (simp_all add: delivered_writes)
  qed
qed

lemma handle_keep:
  assumes "benign env" "sv_inv w" "br_raw r = (data_wire d @ rest, True)"
    and "case d of None \<Rightarrow> \<not> Byte_Has (fm_Option meta) OptionData | Some xs \<Rightarrow> Byte_Has (fm_Option meta) OptionData \<and> length xs \<le> Size"
  obtains w' r' where "server_handleStatusKeep env meta w r = Inr (None, w', r')" "sv_inv w'" "br_raw r' = (rest, True)"
    "sv_abs w' = (case sv_abs w (fm_SessionID meta) of None \<Rightarrow> sv_abs w
       | Some x \<Rightarrow> (sv_abs w)(fm_SessionID meta \<mapsto> x @ (case d of None \<Rightarrow> [] | Some xs \<Rightarrow> xs)))"
proof (cases d)
  case None
  with assms show thesis
    by (intro that [of w r]) (auto simp: server_handleStatusKeep_def data_wire_def fun_eq_iff split: option.splits)
next
  case (Some xs)
  let ?sid = "fm_SessionID meta"
  have nc: "\<not> sm_closed (sv_sessionManager w)" using assms(2) by (simp add: sv_inv_def)
  show thesis
  proof (cases "sm_sessions (sv_sessionManager w) ?sid")
    case None
    obtain mb where nt: "notify_closed env ?sid (sv_log w) = Inr (sv_log w @ [EvWrite LinkWriter mb])"
      using notify_closed_law [OF assms(1)] by blast
    have "rr_ok (StreamRR (NewStreamReader r)) xs rest"
      using Some assms(3,4) by (intro stream_rr_ok) (simp_all add: br_raw_def data_wire_def Size_def)
    then obtain r' where dr: "drain (StreamRR (NewStreamReader r)) = Inr (None, r')" "br_raw r' = (rest, True)" by (rule drain_law)
    let ?w = "w\<lparr>sv_log := sv_log w @ [EvWrite LinkWriter mb]\<rparr>"
    have "server_handleStatusKeep env meta w r = Inr (None, ?w, r')"
      using Some assms(4) None nt dr(1) by (simp add: server_handleStatusKeep_def sm_Get_def)
    with dr(2) None sv_log_only [OF assms(2), of "[EvWrite LinkWriter mb]"] show thesis
      by (intro that [of ?w r']) (simp_all add: sv_abs_def)
  next
    case (Some s)
    define s' where "s' = track_endpoint meta s"
    have s': "s_output s' = s_output s" "s_ID s' = ?sid"
      using sv_invD(1) [OF assms(2) Some] by (simp_all add: s'_def track_endpoint_def)
    from \<open>d = Some xs\<close> assms(3,4) have "rr_ok (Session_NewReader s' r (fm_Target meta)) xs rest"
      by (intro NewReader_rr_ok) (simp_all add: br_raw_def data_wire_def)
    with assms(1) obtain rr' mbs where rr: "rr_Copy (handle_writer env (s_output s')) (Session_NewReader s' r (fm_Target meta)) (sv_log w)
        = Inr (None, rr', sv_log w @ map (EvWrite (s_output s')) mbs)"
      "br_raw (rr_reader rr') = (rest, True)" "concat (map mcontent mbs) = xs" by (rule rr_Copy_handle)
    let ?w = "w\<lparr>sv_sessionManager := sm_update (sv_sessionManager w) s', sv_log := sv_log w @ map (EvWrite (s_output s)) mbs\<rparr>"
    have "server_handleStatusKeep env meta w r = Inr (None, ?w, rr_reader rr')"
      using \<open>d = Some xs\<close> assms(4) Some nc rr(1) s'(1)
      by (simp add: server_handleStatusKeep_def sm_Get_def copy_to_session_def flip: s'_def)
    with rr(2,3) Some \<open>d = Some xs\<close> sv_write [OF assms(2) Some s', of ?w mbs] show thesis
      by (intro that [of ?w "rr_reader rr'"]) (simp_all add: sv_abs_def)
  qed
qed

lemma handle_end:
  assumes "sv_inv w" "br_raw r = (data_wire d @ rest, True)"
    and "case d of None \<Rightarrow> \<not> Byte_Has (fm_Option meta) OptionData | Some xs \<Rightarrow> Byte_Has (fm_Option meta) OptionData \<and> length xs \<le> Size"
  obtains w' r' where "server_handleStatusEnd meta w r = Inr (None, w', r')" "sv_inv w'" "br_raw r' = (rest, True)"
    "sv_abs w' = (sv_abs w)(fm_SessionID meta := None)"
proof -
  let ?sid = "fm_SessionID meta"
  from assms(2,3) obtain r' where r': "discard_data meta r = Inr (None, r')" "br_raw r' = (rest, True)" by (rule discard_data_law)
  have nc: "\<not> sm_closed (sv_sessionManager w)" using assms(1) by (simp add: sv_inv_def)
  obtain evs where evs: "end_session meta (sv_sessionManager w) (sv_log w) = (sm_Remove (sv_sessionManager w) ?sid, sv_log w @ evs)"
    "\<And>h. delivered h evs = []"
  proof (cases "sm_sessions (sv_sessionManager w) ?sid")
    case None
    then have "sm_Remove (sv_sessionManager w) ?sid = sv_sessionManager w" using nc by (simp add: sm_Remove_def fun_upd_idem)
    with None show thesis by (intro that [of "[]"]) (simp_all add: end_session_def sm_Get_def)
  next
    case (Some s)
    with sv_invD(1) [OF assms(1) Some] nc show thesis
      by (intro that [of "(if Byte_Has (fm_Option meta) OptionError then [EvInterrupt (s_input s), EvInterrupt (s_output s)] else [])
            @ [EvInterrupt (s_input s), EvClose (s_output s), EvClose (s_input s)]"])
        (simp_all add: end_session_def sm_Get_def Session_Close_def)
  qed
  let ?w = "w\<lparr>sv_sessionManager := sm_Remove (sv_sessionManager w) ?sid, sv_log := sv_log w @ evs\<rparr>"
  have "server_handleStatusEnd meta w r = Inr (None, ?w, r')" using evs(1) r'(1) by (simp add: server_handleStatusEnd_def)
  with r'(2) sv_remove [OF assms(1) evs(2), of ?w ?sid] show thesis by (intro that [of ?w r']) simp_all
qed

lemma handleFrame_refines:
  assumes "benign env" "sv_inv w" "frame_ok fr" "br_raw r = (frame_wire fr @ rest, True)"
  obtains w' r' where "handleFrame env w r = Inr (None, w', r')" "sv_inv w'" "sv_abs w' = spec_step fr (sv_abs w)" "br_raw r' = (rest, True)"
proof -
  let ?f = "fr_meta fr" and ?d = "fr_data fr"
  have ok: "meta_ok ?f (fr_ep fr)" "fr_ep fr = None \<or> fm_SessionStatus ?f \<in> {SessionStatusNew, SessionStatusKeep}"
    and st: "fm_SessionStatus ?f \<in> {SessionStatusKeepAlive, SessionStatusEnd, SessionStatusNew, SessionStatusKeep}"
    using assms(3) by (simp_all add: frame_ok_def)
  have r: "br_ok r" "br_err r = EOF" "br_cont r = meta_wire ?f (fr_ep fr) @ data_wire ?d @ rest"
    using assms(4) by (simp_all add: br_raw_def frame_wire_def data_wire_def)
  from Unmarshal_law [OF r ok, of zero_meta] obtain r1 where
    um: "FrameMetadata_Unmarshal zero_meta r = Inr (parsed zero_meta ?f (fr_ep fr), r1)" and
    r1: "br_raw r1 = (data_wire ?d @ rest, True)" by (auto simp: br_raw_def)
  define meta where "meta = parsed zero_meta ?f (fr_ep fr)"
  have m: "fm_SessionStatus meta = fm_SessionStatus ?f" "fm_SessionID meta = fm_SessionID ?f" by (simp_all add: meta_def)
  have d: "case ?d of None \<Rightarrow> \<not> Byte_Has (fm_Option meta) OptionData | Some xs \<Rightarrow> Byte_Has (fm_Option meta) OptionData \<and> length xs \<le> Size"
    using assms(3) by (simp add: frame_ok_def meta_def split: option.splits)
  have hf: "handleFrame env w r = bind_res (server_handle env meta w r1) (\<lambda>(err, w', r').
      Inr (map_option (BaseError ''failed to process data'') err, w', r'))"
    using um st m(1) by (auto simp: handleFrame_def meta_def)
  obtain w' r' where h: "server_handle env meta w r1 = Inr (None, w', r')" "sv_inv w'" "br_raw r' = (rest, True)"
    "sv_abs w' = spec_step fr (sv_abs w)"
  proof -
    consider (new) "fm_SessionStatus ?f = SessionStatusNew" | (keep) "fm_SessionStatus ?f = SessionStatusKeep"
      | (fin) "fm_SessionStatus ?f = SessionStatusEnd" | (alive) "fm_SessionStatus ?f = SessionStatusKeepAlive" using st by auto
    then show thesis
    proof cases
      case new
      from assms(1,2) r1 d obtain w' r' where "server_handleStatusNew env meta w r1 = Inr (None, w', r')" "sv_inv w'" "br_raw r' = (rest, True)"
        "sv_abs w' = (sv_abs w)(fm_SessionID meta \<mapsto> (case ?d of None \<Rightarrow> [] | Some xs \<Rightarrow> xs))" by (rule handle_new)
      with new m show thesis by (intro that [of w' r']) (simp_all add: server_handle_def spec_step_def data_of_def status_defs)
    next
      case keep
      from assms(1,2) r1 d obtain w' r' where "server_handleStatusKeep env meta w r1 = Inr (None, w', r')" "sv_inv w'" "br_raw r' = (rest, True)"
        "sv_abs w' = (case sv_abs w (fm_SessionID meta) of None \<Rightarrow> sv_abs w
           | Some x \<Rightarrow> (sv_abs w)(fm_SessionID meta \<mapsto> x @ (case ?d of None \<Rightarrow> [] | Some xs \<Rightarrow> xs)))" by (rule handle_keep)
      with keep m show thesis
        by (intro that [of w' r']) (simp_all add: server_handle_def spec_step_def data_of_def status_defs Let_def split: option.splits)
    next
      case fin
      from assms(2) r1 d obtain w' r' where "server_handleStatusEnd meta w r1 = Inr (None, w', r')" "sv_inv w'" "br_raw r' = (rest, True)"
        "sv_abs w' = (sv_abs w)(fm_SessionID meta := None)" by (rule handle_end)
      with fin m show thesis by (intro that [of w' r']) (simp_all add: server_handle_def spec_step_def status_defs)
    next
      case alive
      from r1 d obtain r' where "discard_data meta r1 = Inr (None, r')" "br_raw r' = (rest, True)" by (rule discard_data_law)
      with alive m assms(2) show thesis
        by (intro that [of w r']) (simp_all add: server_handle_def server_handleStatusKeepAlive_def spec_step_def status_defs)
    qed
  qed
  with hf show thesis by (intro that [of w' r']) simp_all
qed

lemma handleFrame_eof:
  assumes "br_raw r = ([], True)"
  shows "handleFrame env w r = Inr (Some (BaseError ''failed to read metadata'' EOF), w, r)"
proof -
  have "br_ok r" "br_err r = EOF" "br_cont r = []" using assms by (simp_all add: br_raw_def)
  with ReadUint16_law [of r] have "ReadUint16 r = Inl EOF" by simp
  then show ?thesis by (simp add: handleFrame_def FrameMetadata_Unmarshal_def)
qed

lemma length_frame_wire: "0 < length (frame_wire fr)"
  by (simp add: frame_wire_def meta_wire_def)

lemma server_loop_refines:
  assumes "benign env"
  shows "sv_inv w \<Longrightarrow> \<forall>fr \<in> set frs. frame_ok fr \<Longrightarrow> br_raw r = (concat (map frame_wire frs), True) \<Longrightarrow>
     \<exists>w' r'. server_loop env w r = Inr (w', r') \<and> sv_inv w' \<and> sv_abs w' = fold spec_step frs (sv_abs w)"
proof (induction frs arbitrary: w r)
  case Nil
  then have "br_raw r = ([], True)" by simp
  from handleFrame_eof [OF this, of env w] Nil assms show ?case
    by (subst server_loop.simps) (simp add: benign_def)
next
  case (Cons fr frs)
  then have "frame_ok fr" "br_raw r = (frame_wire fr @ concat (map frame_wire frs), True)" by simp_all
  with assms Cons.prems(1) obtain w1 r1 where s: "handleFrame env w r = Inr (None, w1, r1)" "sv_inv w1"
    "sv_abs w1 = spec_step fr (sv_abs w)" "br_raw r1 = (concat (map frame_wire frs), True)"
    by (rule handleFrame_refines)
  have "length (br_cont r1) < length (br_cont r)"
    using s(4) Cons.prems(3) length_frame_wire [of fr] by (simp add: br_raw_def)
  then have "server_loop env w r = server_loop env w1 r1"
    using s(1) assms by (subst server_loop.simps) (simp add: benign_def)
  with Cons.IH [OF s(2) _ s(4)] Cons.prems(2) s(3) show ?case by simp
qed

section \<open>The frames of one session\<close>

abbreviation frame_id :: "frame \<Rightarrow> u16" where
  "frame_id fr \<equiv> fm_SessionID (fr_meta fr)"

lemma spec_step_other: "frame_id fr \<noteq> sid \<Longrightarrow> spec_step fr a sid = a sid"
  by (auto simp: spec_step_def Let_def split: option.splits)

lemma spec_step_local: "a sid = b sid \<Longrightarrow> spec_step fr a sid = spec_step fr b sid"
  by (auto simp: spec_step_def Let_def split: option.splits)

lemma fold_spec_local: "a sid = b sid \<Longrightarrow> fold spec_step frs a sid = fold spec_step (filter (\<lambda>fr. frame_id fr = sid) frs) b sid"
proof (induction frs arbitrary: a b)
  case (Cons fr frs)
  show ?case
  proof (cases "frame_id fr = sid")
    case True
    with Cons.IH [of "spec_step fr a" "spec_step fr b"] spec_step_local [of a sid b fr, OF Cons.prems] show ?thesis by simp
  next
    case False
    then have "spec_step fr a sid = b sid" using spec_step_other Cons.prems by simp
    with Cons.IH [of "spec_step fr a" b] False show ?thesis by simp
  qed
qed simp

lemma fold_spec_keep:
  "mw_followup w \<Longrightarrow> a (mw_id w) = Some x \<Longrightarrow> fold spec_step (data_frames w ps) a (mw_id w) = Some (x @ concat (map snd ps))"
proof (induction ps arbitrary: a x)
  case (Cons p ps)
  have "w\<lparr>mw_followup := True\<rparr> = w" using Cons.prems(1) by simp
  moreover have "spec_step (data_frame w p) a (mw_id w) = Some (x @ snd p)"
    using Cons.prems by (simp add: spec_step_def data_frame_def data_of_def status_defs)
  ultimately show ?case using Cons.IH [OF Cons.prems(1)] by simp
qed simp

lemma fold_spec_session:
  assumes "\<not> mw_followup w" "ps \<noteq> []"
  shows "fold spec_step (data_frames w ps) a (mw_id w) = Some (concat (map snd ps))"
proof -
  obtain p qs where ps: "ps = p # qs" using assms(2) by (cases ps) auto
  have "spec_step (data_frame w p) a (mw_id w) = Some (snd p)"
    using assms(1) by (simp add: spec_step_def data_frame_def data_of_def status_defs)
  with fold_spec_keep [of "w\<lparr>mw_followup := True\<rparr>" "spec_step (data_frame w p) a" "snd p" qs] ps show ?thesis by simp
qed

text \<open>An environment in which everything succeeds; its dispatcher numbers the links afresh.\<close>

fun handle_index :: "handle \<Rightarrow> nat" where
  "handle_index (Input n) = n"
| "handle_index (Output n) = n"
| "handle_index _ = 0"

fun event_index :: "mux_event \<Rightarrow> nat" where
  "event_index (EvWrite h mb) = handle_index h"
| "event_index (EvGo s) = handle_index (s_output s)"
| "event_index _ = 0"

definition fresh_index :: "mux_event list \<Rightarrow> nat" where
  "fresh_index log = Suc (sum_list (map event_index log))"

definition benign_env :: mux_env where
  "benign_env = \<lparr>env_fails = (\<lambda>log h. None),
     env_dispatch = (\<lambda>log d. Inr (Input (fresh_index log), Output (fresh_index log))), env_done = (\<lambda>log. False)\<rparr>"

lemma fresh_index: "e \<in> set log \<Longrightarrow> event_index e < fresh_index log"
  by (simp add: fresh_index_def less_Suc_eq_le member_le_sum_list)

lemma benign_benign_env: "benign benign_env"
proof -
  have "unused (Output (fresh_index log)) log" for log
    using fresh_index [of _ log] unfolding unused_def by (metis event_index.simps(1,2) handle.distinct(9) handle_index.simps(2) less_irrefl)
  then show ?thesis by (simp add: benign_def benign_env_def)
qed

section \<open>Session ids\<close>

fun go_session :: "mux_event \<Rightarrow> Session list" where
  "go_session (EvGo s) = [s]"
| "go_session _ = []"

definition gos :: "mux_event list \<Rightarrow> Session list" where
  "gos log = concat (map go_session log)"

lemma gos_simps [simp]: "gos [] = []" "gos (log @ log') = gos log @ gos log'" "gos (e # log) = go_session e @ gos log"
  by (simp_all add: gos_def)

lemma copyInternal_inv:
  assumes "\<And>w mb. P w \<Longrightarrow> P (snd (wr w mb))"
  shows "copyInternal m rd wr hs c r w = Inr (err, c', r', w') \<Longrightarrow> P w \<Longrightarrow> P w'"
  using assms
proof (induction m rd wr hs c r w rule: copyInternal.induct)
  case (1 m rd wr hs c r w)
  obtain buffer er r1 where rd: "rd r = Inr (buffer, er, r1)"
    using "1.prems"(1) by (subst (asm) copyInternal.simps) (auto split: sum.splits)
  obtain we w1 where we: "(if MultiBuffer_IsEmpty buffer then (None, w) else wr w buffer) = (we, w1)" by fastforce
  have P1: "P w1" using we "1.prems"(2) "1.prems"(3) [of w buffer] by (auto split: if_splits)
  show ?case
  proof (cases "we = None \<and> er = None \<and> m r1 < m r")
    case True
    with "1.prems"(1) rd we show ?thesis
      using "1.IH" [OF rd refl refl refl we [symmetric]] P1 "1.prems"(3) by (subst (asm) copyInternal.simps) (simp add: Let_def)
  next
    case False
    with "1.prems"(1) rd we P1 show ?thesis
      by (subst (asm) copyInternal.simps) (auto simp: Let_def split: option.splits if_splits)
  qed
qed

lemma rr_Copy_gos:
  assumes "rr_Copy (handle_writer env h) rr log = Inr (err, rr', log')"
  shows "gos log' = gos log"
proof -
  have "gos (snd (handle_writer env h l mb)) = gos log" if "gos l = gos log" for l mb
    using that by (simp add: handle_writer_def split: option.splits)
  then have inv: "gos l' = gos log" if "copyInternal m rd (handle_writer env h) hs c r log = Inr (e, c', r', l')"
    for m :: "'r \<Rightarrow> nat" and rd hs c r e c' r' l'
    using copyInternal_inv [of "\<lambda>l. gos l = gos log", OF _ that] by blast
  show ?thesis
  proof (cases rr)
    case (StreamRR r)
    with assms show ?thesis by (auto simp: bind_res_Inr_iff Copy_def intro: inv)
  next
    case (PacketRR r)
    with assms show ?thesis by (auto simp: bind_res_Inr_iff Copy_def intro: inv)
  qed
qed

lemma notify_closed_gos: "notify_closed env sid log = Inr log' \<Longrightarrow> gos log' = gos log"
  by (auto simp: notify_closed_def Writer_Close_def bind_res_Inr_iff handle_writer_def Let_def split: option.splits)

text \<open>What the handlers of frames may do to the sessions: only remove some.\<close>

definition shrinks :: "SessionManager \<times> mux_event list \<Rightarrow> SessionManager \<times> mux_event list \<Rightarrow> bool" where
  "shrinks x y \<longleftrightarrow> sm_count (fst y) = sm_count (fst x) \<and> sm_closed (fst y) = sm_closed (fst x) \<and> dom (sm_sessions (fst y)) \<subseteq> dom (sm_sessions (fst x)) \<and> gos (snd y) = gos (snd x)"

lemma Session_Close_shrinks: "gos log = gos log0 \<Longrightarrow> shrinks (m, log0) (Session_Close s m log)"
  by (auto simp: shrinks_def Session_Close_def sm_Remove_def)

lemma copy_to_session_shrinks:
  assumes "copy_to_session env sid s rr m log = Inr (err, m', log', r')"
  shows "shrinks (m, log) (m', log')"
proof -
  from assms obtain e rr1 log1 where c: "rr_Copy (handle_writer env (s_output s)) rr log = Inr (e, rr1, log1)"
    by (auto simp: copy_to_session_def bind_res_Inr_iff)
  note g = rr_Copy_gos [OF c]
  show ?thesis
  proof (cases "e \<noteq> None \<and> IsWriteError e")
    case True
    with assms c obtain log2 where "notify_closed env sid log1 = Inr log2"
      "(m', log') = Session_Close s m (log2 @ [EvInterrupt (s_input s)])"
      by (cases "Session_Close s m (log2 @ [EvInterrupt (s_input s)])")
        (auto simp: copy_to_session_def bind_res_Inr_iff Session_Close_def)
    with notify_closed_gos [of env sid log1 log2] g Session_Close_shrinks [of "log2 @ [EvInterrupt (s_input s)]" log m s]
    show ?thesis by simp
  next
    case False
    with assms c g show ?thesis by (auto simp: copy_to_session_def shrinks_def)
  qed
qed

lemma client_handle_shrinks:
  assumes "client_handle env meta w r = Inr (err, w', r')"
  shows "shrinks (cw_sessionManager w, cw_log w) (cw_sessionManager w', cw_log w')
    \<and> cw_strategy w' = cw_strategy w \<and> cw_done w' = cw_done w"
proof -
  have refl: "shrinks (m, l) (m, l)" for m l by (simp add: shrinks_def)
  have fin: "shrinks (cw_sessionManager w, cw_log w) (end_session meta (cw_sessionManager w) (cw_log w))"
    by (auto simp: end_session_def refl Let_def intro!: Session_Close_shrinks split: option.splits)
  show ?thesis
    using assms fin
    by (auto simp: client_handle_def client_handleStatueKeepAlive_def client_handleStatusEnd_def client_handleStatusNew_def
        client_handleStatusKeep_def bind_res_Inr_iff refl dest!: copy_to_session_shrinks notify_closed_gos
        split: if_splits option.splits prod.splits) (auto simp: shrinks_def)
qed

text \<open>
  The life of a client worker: requests, frames from the link, the ticker and the end of its monitor, and
  the sessions that close when their input ends.
\<close>

inductive client_reach :: "ClientStrategy \<Rightarrow> ClientWorker \<Rightarrow> bool" for st where
  start: "client_reach st (NewClientWorker st)"
| dispatch: "client_reach st w \<Longrightarrow> ClientWorker_Dispatch w inp outp = (b, w') \<Longrightarrow> client_reach st w'"
| frame: "client_reach st w \<Longrightarrow> client_handle env meta w r = Inr (err, w', r') \<Longrightarrow> client_reach st w'"
| tick: "client_reach st w \<Longrightarrow> client_reach st (monitor_tick w)"
| finish: "client_reach st w \<Longrightarrow> cw_done w \<Longrightarrow> client_reach st (monitor_done w)"
| link_closed: "client_reach st w \<Longrightarrow> client_reach st (w\<lparr>cw_done := True\<rparr>)"
| input_end: "client_reach st w \<Longrightarrow> Session_Close s (cw_sessionManager w) (cw_log w) = (m, log)
    \<Longrightarrow> client_reach st (w\<lparr>cw_sessionManager := m, cw_log := log\<rparr>)"

definition ids_inv :: "ClientStrategy \<Rightarrow> ClientWorker \<Rightarrow> bool" where
  "ids_inv st w \<longleftrightarrow> cw_strategy w = st \<and> unat (sm_count (cw_sessionManager w)) \<le> unat (MaxConnection st)
     \<and> dom (sm_sessions (cw_sessionManager w)) \<subseteq> set (map s_ID (gos (cw_log w)))
     \<and> map s_ID (gos (cw_log w)) = map of_nat [1..<Suc (unat (sm_count (cw_sessionManager w)))]"

lemma ids_inv_mono:
  assumes "ids_inv st w" "sm_count (cw_sessionManager w') = sm_count (cw_sessionManager w)"
    "dom (sm_sessions (cw_sessionManager w')) \<subseteq> dom (sm_sessions (cw_sessionManager w))"
    "gos (cw_log w') = gos (cw_log w)" "cw_strategy w' = cw_strategy w"
  shows "ids_inv st w'"
  using assms(1) subset_trans [OF assms(3)] unfolding ids_inv_def assms(2,4,5) by blast

lemma ids_inv_shrinks:
  "ids_inv st w \<Longrightarrow> shrinks (cw_sessionManager w, cw_log w) (cw_sessionManager w', cw_log w') \<Longrightarrow> cw_strategy w' = cw_strategy w
    \<Longrightarrow> ids_inv st w'"
  by (erule ids_inv_mono) (simp_all add: shrinks_def)

lemma Dispatch_ids_inv:
  assumes "ids_inv st w" "0 < MaxConnection st" "unat (MaxConnection st) \<le> 65535" "ClientWorker_Dispatch w inp outp = (b, w')"
  shows "ids_inv st w'"
proof (cases "ClientWorker_IsFull w \<or> ClientWorker_Closed w \<or> sm_closed (cw_sessionManager w)")
  case True
  with assms(1,4) show ?thesis by (auto simp: ClientWorker_Dispatch_def sm_Allocate_def split: if_splits)
next
  case False
  let ?c = "sm_count (cw_sessionManager w)"
  have st: "cw_strategy w = st" using assms(1) by (simp add: ids_inv_def)
  have "uint ?c < uint (MaxConnection st)"
    using False assms(2) st by (auto simp: ClientWorker_IsFull_def IsClosing_def sm_Count_def split: if_splits)
  moreover have "uint ?c = int (unat ?c)" "uint (MaxConnection st) = int (unat (MaxConnection st))" by (rule uint_nat)+
  ultimately have lt: "unat ?c < unat (MaxConnection st)" by linarith
  then have suc: "unat (?c + 1) = Suc (unat ?c)" using assms(3) by (simp add: unat_word_ariths)
  define c where "c = ?c"
  from False assms(4) have w': "cw_strategy w' = cw_strategy w" "sm_count (cw_sessionManager w') = c + 1"
    "dom (sm_sessions (cw_sessionManager w')) = insert (c + 1) (dom (sm_sessions (cw_sessionManager w)))"
    "map s_ID (gos (cw_log w')) = map s_ID (gos (cw_log w)) @ [c + 1]"
    by (auto simp: ClientWorker_Dispatch_def sm_Allocate_def Let_def c_def)
  have ids: "dom (sm_sessions (cw_sessionManager w)) \<subseteq> set (map s_ID (gos (cw_log w)))"
    "map s_ID (gos (cw_log w)) = map of_nat [1..<Suc (unat c)]" using assms(1) unfolding ids_inv_def c_def by blast+
  have "map of_nat [1..<Suc (unat (c + 1))] = map of_nat [1..<Suc (unat c)] @ [c + 1]"
    using suc by (simp add: c_def)
  moreover have "unat (c + 1) \<le> unat (MaxConnection st)" using suc lt by (simp add: c_def)
  moreover have "insert (c + 1) (dom (sm_sessions (cw_sessionManager w))) \<subseteq> set (map s_ID (gos (cw_log w)) @ [c + 1])"
    using ids(1) by auto
  ultimately show ?thesis unfolding ids_inv_def w' ids(2) using st by (simp only: ids(2) simp_thms)
qed

lemma client_reach_ids_inv:
  assumes "0 < MaxConnection st" "unat (MaxConnection st) \<le> 65535"
  shows "client_reach st w \<Longrightarrow> ids_inv st w"
proof (induction rule: client_reach.induct)
  case start
  then show ?case by (simp add: ids_inv_def NewClientWorker_def NewSessionManager_def)
next
  case (dispatch w inp outp b w')
  from Dispatch_ids_inv [OF dispatch.IH assms dispatch.hyps(2)] show ?case .
next
  case (frame w env meta r err w' r')
  from ids_inv_shrinks [OF frame.IH] client_handle_shrinks [OF frame.hyps(2)] show ?case by blast
next
  case (tick w)
  from tick.IH show ?case
    by (rule ids_inv_mono) (auto simp: monitor_tick_def sm_CloseIfNoSession_def)
next
  case (finish w)
  from finish.IH show ?case by (rule ids_inv_mono) (auto simp: monitor_done_def sm_Close_def)
next
  case (link_closed w)
  from link_closed.IH show ?case by (rule ids_inv_mono) simp_all
next
  case (input_end w s m log)
  from input_end.IH show ?case
    using Session_Close_shrinks [of "cw_log w" "cw_log w" "cw_sessionManager w" s] input_end.hyps(2)
    by (rule_tac ids_inv_shrinks) simp_all
qed

section \<open>Finding a worker\<close>

text \<open>A worker whose session manager is closed is done.\<close>

definition worker_ok :: "ClientWorker \<Rightarrow> bool" where
  "worker_ok w \<longleftrightarrow> (sm_closed (cw_sessionManager w) \<longrightarrow> cw_done w)"

lemma Dispatch_available: "worker_ok w \<Longrightarrow> \<not> ClientWorker_IsFull w \<Longrightarrow> fst (ClientWorker_Dispatch w inp outp)"
  by (auto simp: worker_ok_def ClientWorker_Dispatch_def ClientWorker_IsFull_def ClientWorker_Closed_def sm_Allocate_def Let_def split: if_splits)

lemma client_reach_worker_ok: "client_reach st w \<Longrightarrow> worker_ok w"
proof (induction rule: client_reach.induct)
  case (dispatch w inp outp b w')
  then show ?case by (auto simp: worker_ok_def ClientWorker_Dispatch_def sm_Allocate_def Let_def split: if_splits)
next
  case (frame w env meta r err w' r')
  then show ?case using client_handle_shrinks [OF frame.hyps(2)] by (simp add: worker_ok_def shrinks_def)
next
  case (input_end w s m log)
  then show ?case by (auto simp: worker_ok_def Session_Close_def sm_Remove_def)
qed (auto simp: worker_ok_def NewClientWorker_def NewSessionManager_def monitor_tick_def sm_CloseIfNoSession_def monitor_done_def sm_Close_def)

lemma NewClientWorker_available: "\<not> ClientWorker_IsFull (NewClientWorker st)"
  by (simp add: ClientWorker_IsFull_def IsClosing_def ClientWorker_Closed_def NewClientWorker_def NewSessionManager_def sm_Count_def
      sm_Size_def uint_0_iff word_gt_0)

lemma Dispatch_takes:
  assumes "worker_ok w" "\<not> ClientWorker_IsFull w"
  obtains w' s where "ClientWorker_Dispatch w inp outp = (True, w')" "cw_log w' = cw_log w @ [EvGo s]" "s_input s = inp" "s_output s = outp"
  using Dispatch_available [OF assms, of inp outp]
  by (auto simp: ClientWorker_Dispatch_def sm_Allocate_def Let_def intro!: that split: if_splits)

lemma Dispatch_full: "ClientWorker_IsFull w \<Longrightarrow> ClientWorker_Dispatch w inp outp = (False, w)"
  by (simp add: ClientWorker_Dispatch_def)

lemma findAvailable_from_Some:
  "\<exists>w \<in> set ws. \<not> ClientWorker_IsFull w \<Longrightarrow>
     \<exists>k < length ws. findAvailable_from i ws = int (i + k) \<and> \<not> ClientWorker_IsFull (ws ! k)"
proof (induction ws arbitrary: i)
  case (Cons w ws)
  show ?case
  proof (cases "ClientWorker_IsFull w")
    case True
    with Cons.prems Cons.IH [of "Suc i"] obtain k where
      "k < length ws" "findAvailable_from (Suc i) ws = int (Suc i + k)" "\<not> ClientWorker_IsFull (ws ! k)" by auto
    with True show ?thesis by (intro exI [of _ "Suc k"]) simp
  qed (intro exI [of _ 0], simp)
qed simp

text \<open>Whenever a worker is available, \<^verbatim>\<open>pickInternal\<close> returns the last one and moves an available one to the end.\<close>

lemma pickInternal_available:
  assumes "\<exists>w \<in> set workers. \<not> ClientWorker_IsFull w"
  obtains k ws where "pickInternal create workers = (Inr (k, False), ws)" "k < length ws" "ws ! k = last workers"
    "ws \<noteq> []" "\<not> ClientWorker_IsFull (last ws)" "set ws = set workers"
proof -
  let ?n = "length workers"
  from findAvailable_from_Some [OF assms, of 0] obtain k where
    k: "k < ?n" "findAvailable workers = int k" "\<not> ClientWorker_IsFull (workers ! k)" by (auto simp: findAvailable_def)
  define ws where "ws = (if ?n > 1 \<and> int k \<noteq> int ?n - 1 then workers[?n - 1 := workers ! k, k := workers ! (?n - 1)] else workers)"
  have n: "?n - 1 < ?n" "workers \<noteq> []" using k(1) by auto
  have pick: "pickInternal create workers = (Inr (k, False), ws)" using k(2) by (simp add: pickInternal_def ws_def Let_def)
  show thesis
  proof (cases "k = ?n - 1")
    case True
    then have "ws = workers" using k(1) by (simp add: ws_def of_nat_diff)
    then show thesis using that [OF pick] k True n by (simp add: last_conv_nth)
  next
    case False
    then have "?n > 1 \<and> int k \<noteq> int ?n - 1" using k(1) by linarith
    then have ws: "ws = workers[?n - 1 := workers ! k, k := workers ! (?n - 1)]" unfolding ws_def by (rule if_P)
    have "length ws = ?n" "ws \<noteq> []" using n(2) by (simp_all add: ws)
    moreover have "set ws = set workers" unfolding ws using n(1) k(1) by (rule set_swap)
    moreover have "ws ! k = last workers" using k(1) n(2) by (simp add: ws last_conv_nth)
    moreover have "last ws = workers ! k" using n False k(1) by (simp add: ws last_conv_nth nth_list_update)
    ultimately show thesis using that [OF pick] k(1,3) by simp
  qed
qed

section \<open>Properties\<close>

text \<open>
  C12: a mux connection demultiplexes correctly. Let any number of sessions send their frames, interleaved
  in any order, over a link that cuts the byte stream into buffers in any way. When the environment is
  benign, the server's loop processes all frames, without a panic, up to the end of the link, and
  reaches a state that is exactly what the abstract demultiplexer computes from the frames; and a session
  whose frames are those of a session writer (with \<open>mux_writer_frames\<close>: those of the MultiBuffers written
  to it) has passed on precisely the bytes that were written, in order, whatever the others sent.
\<close>

theorem mux_demultiplexes:
  assumes "benign env" "rd_ok rd" "rd_err rd = EOF" "\<forall>fr \<in> set frs. frame_ok fr"
    and "concat (map mcontent (rd_pending rd)) = concat (map frame_wire frs)"
  shows "\<exists>w r. server_loop env NewServerWorker (NewBufferedReader rd) = Inr (w, r)
    \<and> sv_abs w = fold spec_step frs Map.empty
    \<and> (\<forall>sid dest tt ps. filter (\<lambda>fr. frame_id fr = sid) frs = data_frames (NewWriter sid dest tt) ps \<and> ps \<noteq> [] \<longrightarrow>
         (\<exists>s. sm_Get (sv_sessionManager w) sid = Some s \<and> delivered (s_output s) (sv_log w) = concat (map snd ps)))"
proof -
  have "sv_inv NewServerWorker" "sv_abs NewServerWorker = Map.empty"
    by (simp_all add: sv_inv_def sv_abs_def NewServerWorker_def NewSessionManager_def fun_eq_iff)
  moreover have "br_raw (NewBufferedReader rd) = (concat (map frame_wire frs), True)"
    using assms(2,3,5) by (simp add: br_raw_def br_ok_def br_cont_def br_mb_def NewBufferedReader_def)
  ultimately obtain w r where w: "server_loop env NewServerWorker (NewBufferedReader rd) = Inr (w, r)" "sv_inv w"
    "sv_abs w = fold spec_step frs Map.empty"
    using server_loop_refines [OF assms(1) _ assms(4)] by metis
  have "\<exists>s. sm_Get (sv_sessionManager w) sid = Some s \<and> delivered (s_output s) (sv_log w) = concat (map snd ps)"
    if "filter (\<lambda>fr. frame_id fr = sid) frs = data_frames (NewWriter sid dest tt) ps" "ps \<noteq> []" for sid dest tt ps
  proof -
    have "sv_abs w sid = Some (concat (map snd ps))"
      using fold_spec_local [of Map.empty sid Map.empty frs] fold_spec_session [OF _ that(2), of "NewWriter sid dest tt"] that(1) w(3)
      by (simp add: NewWriter_def)
    with w(2) show ?thesis by (auto simp: sv_abs_def sm_Get_def sv_inv_def)
  qed
  with w show ?thesis by blast
qed

theorem mux_demultiplexes_witness:
  "\<exists>w r. server_loop benign_env NewServerWorker (NewBufferedReader
       \<lparr>rd_pending = [[FromBytes (frame_wire \<lparr>fr_meta = demo_meta, fr_ep = None, fr_data = Some [42]\<rparr>)]], rd_err = EOF\<rparr>) = Inr (w, r)
    \<and> sv_abs w = fold spec_step [\<lparr>fr_meta = demo_meta, fr_ep = None, fr_data = Some [42]\<rparr>] Map.empty"
proof -
  let ?fr = "\<lparr>fr_meta = demo_meta, fr_ep = None, fr_data = Some [42 :: byte]\<rparr>"
  have l: "length (frame_wire ?fr) \<le> Size"
    using length_meta_body [OF demo_meta_ok] by (simp add: frame_wire_def meta_wire_def chunk_wire_def Size_def)
  then have b: "buffer_ok (FromBytes (frame_wire ?fr))" "content (FromBytes (frame_wire ?fr)) = frame_wire ?fr"
    using FromBytes_ok [of "frame_wire ?fr"] by (simp_all add: Size_def)
  have ok: "frame_ok ?fr"
    using demo_meta_ok by (simp add: frame_ok_def Size_def) (simp add: demo_meta_def Byte_Has_def OptionData_def)
  from mux_demultiplexes [OF benign_benign_env, of "\<lparr>rd_pending = [[FromBytes (frame_wire ?fr)]], rd_err = EOF\<rparr>" "[?fr]"]
  show ?thesis using l b ok by (auto simp: rd_ok_def)
qed

text \<open>One pick of \<^verbatim>\<open>ClientManager.Dispatch\<close> that finds a worker.\<close>

lemma Dispatch_loop_takes:
  assumes "pickInternal (create k) workers = (Inr (j, b), ws)" "j < length ws" "worker_ok (ws ! j)" "\<not> ClientWorker_IsFull (ws ! j)"
  shows "\<exists>ws' w s. ClientManager_Dispatch_loop (Suc i) create k workers inp outp = (None, ws')
    \<and> w \<in> set ws' \<and> last (cw_log w) = EvGo s \<and> s_input s = inp \<and> s_output s = outp"
proof -
  obtain w' s where d: "ClientWorker_Dispatch (ws ! j) inp outp = (True, w')" "cw_log w' = cw_log (ws ! j) @ [EvGo s]"
    "s_input s = inp" "s_output s = outp" using Dispatch_takes [OF assms(3,4)] .
  have "w' \<in> set (ws[j := w'])" using assms(2) by (rule set_update_memI)
  with d assms(1) show ?thesis by (intro exI [of _ "ws[j := w']"] exI [of _ w'] exI [of _ s]) simp
qed



text \<open>
  C13: the client manager finds a worker. As long as its factory delivers a fresh worker when asked, or some
  worker of the pool is not full, \<^verbatim>\<open>ClientManager.Dispatch\<close> does not fail: some worker of the pool, which may
  hold any reachable workers, busy, closing or closed ones included, starts a session for the link. (Two
  of the sixteen attempts are enough.)
\<close>

theorem mux_dispatch_finds_worker:
  assumes "\<forall>w \<in> set workers. client_reach st w"
    and "(\<exists>w \<in> set workers. \<not> ClientWorker_IsFull w) \<or> create 0 = Inr (NewClientWorker st)"
  shows "\<exists>ws w s. ClientManager_Dispatch create workers inp outp = (None, ws)
    \<and> w \<in> set ws \<and> last (cw_log w) = EvGo s \<and> s_input s = inp \<and> s_output s = outp"
proof (cases "\<exists>w \<in> set workers. \<not> ClientWorker_IsFull w")
  case True
  have ok: "worker_ok w" if "w \<in> set workers" for w using assms(1) that client_reach_worker_ok by blast
  have d: "ClientManager_Dispatch create workers inp outp = ClientManager_Dispatch_loop (Suc (Suc 14)) create 0 workers inp outp"
    by (simp add: ClientManager_Dispatch_def eval_nat_numeral)
  obtain k ws where p: "pickInternal (create 0) workers = (Inr (k, False), ws)" "k < length ws" "ws ! k = last workers"
    "ws \<noteq> []" "\<not> ClientWorker_IsFull (last ws)" "set ws = set workers" using pickInternal_available [OF True] .
  have ok1: "worker_ok (ws ! k)" using ok p(2,6) nth_mem by blast
  show ?thesis
  proof (cases "ClientWorker_IsFull (ws ! k)")
    case False
    then show ?thesis unfolding d by (rule Dispatch_loop_takes [of create 0, OF p(1,2) ok1])
  next
    case full: True
    have "\<exists>w \<in> set ws. \<not> ClientWorker_IsFull w" using True p(6) by simp
    then obtain k' ws' where q: "pickInternal (create 0) ws = (Inr (k', False), ws')" "k' < length ws'" "ws' ! k' = last ws"
      "set ws' = set ws" by (rule pickInternal_available)
    have "worker_ok (ws' ! k')" using ok p(6) q(2,4) nth_mem by blast
    moreover have "\<not> ClientWorker_IsFull (ws' ! k')" using p(5) q(3) by simp
    moreover have "ClientManager_Dispatch_loop (Suc (Suc 14)) create 0 workers inp outp = ClientManager_Dispatch_loop (Suc 14) create 0 ws inp outp"
      using p(1) Dispatch_full [OF full] by (subst ClientManager_Dispatch_loop.simps) (simp del: ClientManager_Dispatch_loop.simps)
    ultimately show ?thesis
      using Dispatch_loop_takes [of create 0, OF q(1,2), of 14 inp outp] unfolding d by metis
  qed
next
  case False
  then have "findAvailable_from 0 workers = - 1"
  proof -
    have "findAvailable_from i ws = - 1" if "\<forall>w \<in> set ws. ClientWorker_IsFull w" for i ws
      using that by (induction ws arbitrary: i) simp_all
    with False show ?thesis by blast
  qed
  with False assms(2) have p: "pickInternal (create 0) workers = (Inr (length (picker_cleanup workers), True), picker_cleanup workers @ [NewClientWorker st])"
    by (simp add: pickInternal_def findAvailable_def Let_def)
  have d: "ClientManager_Dispatch create workers inp outp = ClientManager_Dispatch_loop (Suc 15) create 0 workers inp outp"
    by (simp add: ClientManager_Dispatch_def eval_nat_numeral)
  show ?thesis unfolding d
    by (rule Dispatch_loop_takes [of create 0, OF p])
      (simp_all add: client_reach_worker_ok [OF client_reach.start] NewClientWorker_available)
qed

theorem mux_dispatch_finds_worker_witness:
  "\<exists>ws w s. ClientManager_Dispatch (\<lambda>_. Inl EOF) [NewClientWorker \<lparr>MaxConcurrency = 8, MaxConnection = 128\<rparr>] LinkReader LinkWriter = (None, ws)
    \<and> w \<in> set ws \<and> last (cw_log w) = EvGo s \<and> s_input s = LinkReader \<and> s_output s = LinkWriter"
  by (rule mux_dispatch_finds_worker [where st = "\<lparr>MaxConcurrency = 8, MaxConnection = 128\<rparr>"])
    (simp_all add: client_reach.start NewClientWorker_available)

text \<open>
  \<^verbatim>\<open>IncrementalWorkerPicker.pickInternal\<close> does not return the worker it found available. Whenever some
  worker is available, it returns the worker that was last in the list, full or not, and moves the
  available one to the end, where the next pick finds it.
\<close>

theorem mux_picker_returns_last:
  assumes "\<exists>w \<in> set workers. \<not> ClientWorker_IsFull w"
  shows "\<exists>k ws. pickInternal create workers = (Inr (k, False), ws) \<and> ws ! k = last workers
    \<and> \<not> ClientWorker_IsFull (last ws) \<and> set ws = set workers"
  using pickInternal_available [OF assms, of create] by metis

theorem mux_picker_returns_last_witness:
  "\<exists>k ws. pickInternal (Inl EOF) [NewClientWorker \<lparr>MaxConcurrency = 8, MaxConnection = 128\<rparr>, (NewClientWorker \<lparr>MaxConcurrency = 8, MaxConnection = 128\<rparr>)\<lparr>cw_done := True\<rparr>] = (Inr (k, False), ws)
    \<and> ClientWorker_IsFull (ws ! k)"
proof -
  let ?ws = "[NewClientWorker \<lparr>MaxConcurrency = 8, MaxConnection = 128\<rparr>, (NewClientWorker \<lparr>MaxConcurrency = 8, MaxConnection = 128\<rparr>)\<lparr>cw_done := True\<rparr>]"
  have "\<exists>w \<in> set ?ws. \<not> ClientWorker_IsFull w" by (simp add: NewClientWorker_available)
  from mux_picker_returns_last [OF this, of "Inl EOF"] obtain k ws where
    "pickInternal (Inl EOF) ?ws = (Inr (k, False), ws)" "ws ! k = last ?ws" by blast
  moreover have "ClientWorker_IsFull (last ?ws)" by (simp add: ClientWorker_IsFull_def ClientWorker_Closed_def)
  ultimately show ?thesis by metis
qed

end
