(* ===== verification/StrMatcher.thy ===== *)
theory StrMatcher
  imports Prelude "HOL-Library.Sublist"
begin

text \<open>
  Package \<^verbatim>\<open>common/strmatcher\<close>: the matchers of \<^verbatim>\<open>matchers.go\<close>, the matcher groups for full, domain and
  substring patterns, the simple group, and the \<^verbatim>\<open>LinearIndexMatcher\<close> that combines them. The interface
  \<^verbatim>\<open>MatcherGroup\<close> is the locale \<open>matcher_group\<close>: a group that has been built from matchers with their
  values answers which of them match.

  A compiled regular expression is its source and its \<^verbatim>\<open>MatchString\<close>; \<^verbatim>\<open>regexp.Compile\<close> and the Punycode
  conversion are parameters of the functions that use them.
\<close>

section \<open>The string functions of the standard library\<close>

definition dot :: byte where
  "dot = 46"

definition HasPrefix :: "gostring \<Rightarrow> gostring \<Rightarrow> bool" where
  "HasPrefix s p \<longleftrightarrow> take (length p) s = p"

definition HasSuffix :: "gostring \<Rightarrow> gostring \<Rightarrow> bool" where
  "HasSuffix s p \<longleftrightarrow> length p \<le> length s \<and> drop (length s - length p) s = p"

definition Contains :: "gostring \<Rightarrow> gostring \<Rightarrow> bool" where
  "Contains s p \<longleftrightarrow> list_ex (\<lambda>j. HasPrefix (drop j s) p) [0..<Suc (length s)]"

fun LastIndex_upto :: "gostring \<Rightarrow> gostring \<Rightarrow> nat \<Rightarrow> int" where
  "LastIndex_upto s p 0 = (if HasPrefix s p then 0 else - 1)"
| "LastIndex_upto s p (Suc j) = (if HasPrefix (drop (Suc j) s) p then int (Suc j) else LastIndex_upto s p j)"

definition LastIndex :: "gostring \<Rightarrow> gostring \<Rightarrow> int" where
  "LastIndex s p = LastIndex_upto s p (length s)"

lemma HasPrefix_prefix: "HasPrefix s p \<longleftrightarrow> prefix p s"
  by (metis HasPrefix_def append_eq_conv_conj append_take_drop_id prefix_def)

lemma HasSuffix_suffix: "HasSuffix s p \<longleftrightarrow> suffix p s"
  by (metis HasSuffix_def append_take_drop_id append_eq_conv_conj length_append add_diff_cancel_right' le_add2 suffix_def)

lemma Contains_sublist: "Contains s p \<longleftrightarrow> sublist p s"
proof
  assume "Contains s p"
  then obtain j where "HasPrefix (drop j s) p" unfolding Contains_def list_ex_iff by blast
  then obtain r where "drop j s = p @ r" by (auto simp: HasPrefix_prefix prefix_def)
  then show "sublist p s" by (metis append_take_drop_id sublist_appendI)
next
  assume "sublist p s"
  then obtain a b where s: "s = a @ p @ b" by (auto simp: sublist_def)
  then show "Contains s p" by (auto simp: Contains_def list_ex_iff HasPrefix_def intro!: bexI [of _ "length a"])
qed

lemma LastIndex_upto_neg: "LastIndex_upto s p n = - 1 \<longleftrightarrow> (\<forall>j\<le>n. \<not> HasPrefix (drop j s) p)"
proof (induction n)
  case (Suc n)
  have "int (Suc n) \<noteq> - 1" by simp
  with Suc show ?case by (auto simp: le_Suc_eq)
qed simp

lemma LastIndex_upto_pos: "LastIndex_upto s p n \<noteq> - 1 \<Longrightarrow> \<exists>j\<le>n. LastIndex_upto s p n = int j \<and> HasPrefix (drop j s) p"
  by (induction n) (auto split: if_splits)

lemma LastIndex_neg: "LastIndex s p = - 1 \<longleftrightarrow> \<not> Contains s p"
  by (auto simp: LastIndex_def LastIndex_upto_neg Contains_def list_ex_iff less_Suc_eq_le)

lemma LastIndex_pos:
  assumes "LastIndex s p \<noteq> - 1"
  obtains j where "LastIndex s p = int j" "j + length p \<le> length s" "Contains s p"
proof -
  obtain j where j: "j \<le> length s" "LastIndex s p = int j" "HasPrefix (drop j s) p"
    using LastIndex_upto_pos [of s p "length s"] assms by (auto simp: LastIndex_def)
  then have "length p \<le> length (drop j s)" by (metis HasPrefix_def length_take min.cobounded1)
  moreover have "Contains s p" using assms LastIndex_neg by blast
  ultimately show thesis using j that by simp
qed

section \<open>Matchers\<close>

datatype Type = Full | Domain | Substr | Regex

datatype Matcher =
    FullMatcher gostring
  | DomainMatcher gostring
  | SubstrMatcher gostring
  | RegexMatcher gostring "gostring \<Rightarrow> bool"

fun Matcher_Type :: "Matcher \<Rightarrow> Type" where
  "Matcher_Type (FullMatcher p) = Full"
| "Matcher_Type (DomainMatcher p) = Domain"
| "Matcher_Type (SubstrMatcher p) = Substr"
| "Matcher_Type (RegexMatcher p f) = Regex"

fun Pattern :: "Matcher \<Rightarrow> gostring" where
  "Pattern (FullMatcher p) = p"
| "Pattern (DomainMatcher p) = p"
| "Pattern (SubstrMatcher p) = p"
| "Pattern (RegexMatcher p f) = p"

fun Matcher_Match :: "Matcher \<Rightarrow> gostring \<Rightarrow> bool" where
  "Matcher_Match (FullMatcher p) s \<longleftrightarrow> p = s"
| "Matcher_Match (DomainMatcher p) s \<longleftrightarrow>
     (if \<not> HasSuffix s p then False else length s = length p \<or> s ! (length s - length p - 1) = dot)"
| "Matcher_Match (SubstrMatcher p) s \<longleftrightarrow> Contains s p"
| "Matcher_Match (RegexMatcher p f) s \<longleftrightarrow> f s"

fun Type_index :: "Type \<Rightarrow> nat" where
  "Type_index Full = 0"
| "Type_index Domain = 1"
| "Type_index Substr = 2"
| "Type_index Regex = 3"

lemma Type_index_eq: "Type_index t = 0 \<longleftrightarrow> t = Full" "Type_index t = 1 \<longleftrightarrow> t = Domain" "Type_index t = 2 \<longleftrightarrow> t = Substr"
  by (cases t; simp)+

text \<open>\<^verbatim>\<open>DomainMatcher.Match\<close> in terms of suffixes.\<close>

lemma Domain_Match_suffix: "Matcher_Match (DomainMatcher p) s \<longleftrightarrow> p = s \<or> suffix (dot # p) s"
proof -
  have "suffix (dot # p) s \<longleftrightarrow> suffix p s \<and> length s \<noteq> length p \<and> s ! (length s - length p - 1) = dot"
  proof
    assume "suffix p s \<and> length s \<noteq> length p \<and> s ! (length s - length p - 1) = dot"
    then obtain a where s: "s = a @ p" "a \<noteq> []" "s ! (length s - length p - 1) = dot" by (auto simp: suffix_def)
    then have "last a = dot" by (simp add: nth_append last_conv_nth)
    then have "a = butlast a @ [dot]" using s(2) by (metis append_butlast_last_id)
    then show "suffix (dot # p) s" using s(1) by (metis append.assoc append_Cons append_Nil suffix_def)
  qed (auto simp: suffix_def nth_append)
  moreover have "p = s \<longleftrightarrow> suffix p s \<and> length s = length p" by (auto simp: suffix_def)
  ultimately show ?thesis unfolding Matcher_Match.simps HasSuffix_suffix by argo
qed

text \<open>\<^verbatim>\<open>ToDomain\<close>: the scan of the bytes, and the loop around it. \<open>ToASCII\<close> is \<^verbatim>\<open>idna.Punycode.ToASCII\<close>.\<close>

definition LDH :: "byte \<Rightarrow> bool" where
  "LDH c \<longleftrightarrow> 65 \<le> c \<and> c \<le> 90 \<or> 97 \<le> c \<and> c \<le> 122 \<or> 48 \<le> c \<and> c \<le> 57 \<or> c = 45 \<or> c = dot"

fun ToDomain_scan :: "gostring \<Rightarrow> bool result" where
  "ToDomain_scan [] = Inr True"
| "ToDomain_scan (c # cs) =
     (if c \<ge> 128 then Inr False
      else if LDH c then ToDomain_scan cs
      else Inl (NewError ''pattern string does not conform to Letter-Digit-Hyphen (LDH) subset''))"

partial_function (option) ToDomain :: "(gostring \<Rightarrow> gostring result) \<Rightarrow> gostring \<Rightarrow> gostring result option" where
  "ToDomain ToASCII pattern =
     (case ToDomain_scan pattern of
        Inl e \<Rightarrow> Some (Inl e)
      | Inr isASCII \<Rightarrow>
          if isASCII then Some (Inr pattern)
          else (case ToASCII pattern of
                  Inl e \<Rightarrow> Some (Inl e)
                | Inr pattern' \<Rightarrow> ToDomain ToASCII pattern'))"

definition Type_New :: "(gostring \<Rightarrow> (gostring \<Rightarrow> bool) result) \<Rightarrow> (gostring \<Rightarrow> gostring result) \<Rightarrow> Type \<Rightarrow> gostring
    \<Rightarrow> Matcher result option" where
  "Type_New Compile ToASCII t pattern =
     (case t of
        Full \<Rightarrow> Some (Inr (FullMatcher pattern))
      | Substr \<Rightarrow> Some (Inr (SubstrMatcher pattern))
      | Domain \<Rightarrow> map_option (\<lambda>r. bind_res r (\<lambda>p. Inr (DomainMatcher p))) (ToDomain ToASCII pattern)
      | Regex \<Rightarrow> Some (bind_res (Compile pattern) (\<lambda>f. Inr (RegexMatcher pattern f))))"

definition NewDomainPattern :: "(gostring \<Rightarrow> (gostring \<Rightarrow> bool) result) \<Rightarrow> (gostring \<Rightarrow> gostring result) \<Rightarrow> Type \<Rightarrow> gostring
    \<Rightarrow> Matcher result option" where
  "NewDomainPattern Compile ToASCII t pattern =
     (case t of
        Full \<Rightarrow> map_option (\<lambda>r. bind_res r (\<lambda>p. Inr (FullMatcher p))) (ToDomain ToASCII pattern)
      | Substr \<Rightarrow> map_option (\<lambda>r. bind_res r (\<lambda>p. Inr (SubstrMatcher p))) (ToDomain ToASCII pattern)
      | Domain \<Rightarrow> map_option (\<lambda>r. bind_res r (\<lambda>p. Inr (DomainMatcher p))) (ToDomain ToASCII pattern)
      | Regex \<Rightarrow> Some (bind_res (Compile pattern) (\<lambda>f. Inr (RegexMatcher pattern f))))"

definition CompositeMatches :: "u32 list list \<Rightarrow> u32 list" where
  "CompositeMatches matches =
     (case matches of [] \<Rightarrow> [] | [m] \<Rightarrow> m | _ \<Rightarrow> foldl (@) [] matches)"

definition CompositeMatchesReverse :: "u32 list list \<Rightarrow> u32 list" where
  "CompositeMatchesReverse matches =
     (case matches of [] \<Rightarrow> [] | [m] \<Rightarrow> m | _ \<Rightarrow> foldl (@) [] (rev matches))"

lemma foldl_append_concat: "foldl (@) xs xss = xs @ concat xss"
  by (induction xss arbitrary: xs) simp_all

lemma CompositeMatches_concat [simp]: "CompositeMatches ms = concat ms"
  by (auto simp: CompositeMatches_def foldl_append_concat split: list.splits)

lemma CompositeMatchesReverse_concat [simp]: "CompositeMatchesReverse ms = concat (rev ms)"
  by (auto simp: CompositeMatchesReverse_def foldl_append_concat split: list.splits)

section \<open>The interface of a matcher group\<close>

text \<open>
  A group is built from matchers with their values, in order. \<open>accepts\<close> says which matchers it takes,
  \<open>input_ok\<close> which inputs it is meant for. \<open>None\<close> is a call that does not return.
\<close>

locale matcher_group =
  fixes build :: "(Matcher \<times> u32) list \<Rightarrow> 'g option"
    and MatchAny :: "'g \<Rightarrow> gostring \<Rightarrow> bool"
    and Match :: "'g \<Rightarrow> gostring \<Rightarrow> u32 list option"
    and accepts :: "(Matcher \<times> u32) list \<Rightarrow> bool"
    and input_ok :: "gostring \<Rightarrow> bool"
  assumes build_returns: "accepts ms \<Longrightarrow> \<exists>g. build ms = Some g"
    and MatchAny_law: "accepts ms \<Longrightarrow> build ms = Some g \<Longrightarrow> input_ok s
          \<Longrightarrow> MatchAny g s \<longleftrightarrow> (\<exists>m v. (m, v) \<in> set ms \<and> Matcher_Match m s)"
    and Match_law: "accepts ms \<Longrightarrow> build ms = Some g \<Longrightarrow> input_ok s
          \<Longrightarrow> \<exists>vs. Match g s = Some vs \<and> set vs = {v. \<exists>m. (m, v) \<in> set ms \<and> Matcher_Match m s}"
begin

lemma MatchAny_iff_Match:
  assumes "accepts ms" "build ms = Some g" "input_ok s"
  shows "\<exists>vs. Match g s = Some vs \<and> (MatchAny g s \<longleftrightarrow> vs \<noteq> [])"
proof -
  obtain vs where vs: "Match g s = Some vs" "set vs = {v. \<exists>m. (m, v) \<in> set ms \<and> Matcher_Match m s}"
    using Match_law [OF assms] by blast
  have "MatchAny g s \<longleftrightarrow> set vs \<noteq> {}" unfolding MatchAny_law [OF assms] vs(2) by auto
  with vs(1) show ?thesis by simp
qed

lemma no_false_answers:
  assumes "accepts ms" "build ms = Some g" "input_ok s" "Match g s = Some vs" "v \<in> set vs"
  shows "\<exists>m. (m, v) \<in> set ms \<and> Matcher_Match m s"
  using Match_law [OF assms(1-3)] assms(4,5) by auto

end

section \<open>Full matchers\<close>

type_synonym FullMatcherGroup = "gostring \<rightharpoonup> u32 list"

definition NewFullMatcherGroup :: FullMatcherGroup where
  "NewFullMatcherGroup = Map.empty"

text \<open>Reading a Go map at a missing key gives the zero value, here the nil slice.\<close>

definition map_get :: "('k \<rightharpoonup> 'a list) \<Rightarrow> 'k \<Rightarrow> 'a list" where
  "map_get m k = (case m k of None \<Rightarrow> [] | Some v \<Rightarrow> v)"

definition AddFullMatcher :: "FullMatcherGroup \<Rightarrow> gostring \<Rightarrow> u32 \<Rightarrow> FullMatcherGroup" where
  "AddFullMatcher g domain v = g(domain \<mapsto> map_get g domain @ [v])"

definition full_Match :: "FullMatcherGroup \<Rightarrow> gostring \<Rightarrow> u32 list" where
  "full_Match g s = map_get g s"

definition full_MatchAny :: "FullMatcherGroup \<Rightarrow> gostring \<Rightarrow> bool" where
  "full_MatchAny g s \<longleftrightarrow> g s \<noteq> None"

definition full_build :: "(Matcher \<times> u32) list \<Rightarrow> FullMatcherGroup" where
  "full_build ms = foldl (\<lambda>g (m, v). AddFullMatcher g (Pattern m) v) NewFullMatcherGroup ms"

definition values_of :: "(Matcher \<times> u32) list \<Rightarrow> (Matcher \<Rightarrow> bool) \<Rightarrow> u32 list" where
  "values_of ms P = map snd (filter (\<lambda>(m, v). P m) ms)"

lemma values_of_simps [simp]:
  "values_of [] P = []"
  "values_of (ms @ [(m, v)]) P = values_of ms P @ (if P m then [v] else [])"
  by (simp_all add: values_of_def)

lemma set_values_of: "set (values_of ms P) = {v. \<exists>m. (m, v) \<in> set ms \<and> P m}"
  by (force simp: values_of_def)

lemma values_of_nonempty: "values_of ms P \<noteq> [] \<longleftrightarrow> (\<exists>m v. (m, v) \<in> set ms \<and> P m)"
  by (force simp: values_of_def filter_empty_conv)

lemma full_build_law:
  "map_get (full_build ms) s = values_of ms (\<lambda>m. Pattern m = s)" "full_build ms s \<noteq> None \<longleftrightarrow> map_get (full_build ms) s \<noteq> []"
proof (induction ms rule: rev_induct)
  case Nil
  { case 1 show ?case by (simp add: full_build_def NewFullMatcherGroup_def map_get_def) }
  { case 2 show ?case by (simp add: full_build_def NewFullMatcherGroup_def map_get_def) }
next
  case (snoc x ms)
  obtain m v where x: "x = (m, v)" by fastforce
  have step: "full_build (ms @ [x]) = (full_build ms)(Pattern m \<mapsto> map_get (full_build ms) (Pattern m) @ [v])"
    by (simp add: full_build_def x AddFullMatcher_def)
  { case 1 show ?case using snoc(1) unfolding step by (simp add: x map_get_def) }
  { case 2 show ?case using snoc(2) unfolding step by (simp add: x map_get_def) }
qed

definition full_only :: "(Matcher \<times> u32) list \<Rightarrow> bool" where
  "full_only ms \<longleftrightarrow> list_all (\<lambda>(m, v). Matcher_Type m = Full) ms"

lemma full_match_iff: "Matcher_Type m = Full \<Longrightarrow> Matcher_Match m s \<longleftrightarrow> Pattern m = s"
  by (cases m) auto

lemma values_of_cong: "(\<And>m v. (m, v) \<in> set ms \<Longrightarrow> P m \<longleftrightarrow> Q m) \<Longrightarrow> values_of ms P = values_of ms Q"
  unfolding values_of_def by (auto intro!: arg_cong [where f = "map snd"] filter_cong)

lemma full_Match_law: "full_only ms \<Longrightarrow> full_Match (full_build ms) s = values_of ms (\<lambda>m. Matcher_Match m s)"
  unfolding full_Match_def full_build_law(1) full_only_def list_all_iff
  by (rule values_of_cong) (auto simp: full_match_iff)

lemma full_MatchAny_law: "full_only ms \<Longrightarrow> full_MatchAny (full_build ms) s \<longleftrightarrow> values_of ms (\<lambda>m. Matcher_Match m s) \<noteq> []"
  using full_Match_law [of ms s] unfolding full_MatchAny_def full_build_law(2) full_Match_def by simp

interpretation full_group: matcher_group "\<lambda>ms. Some (full_build ms)" full_MatchAny "\<lambda>g s. Some (full_Match g s)" full_only "\<lambda>s. True"
  by unfold_locales (auto simp: full_MatchAny_law values_of_nonempty full_Match_law set_values_of, blast)

section \<open>Simple groups\<close>

type_synonym SimpleMatcherGroup = "(Matcher \<times> u32) list"

definition simple_AddMatcher :: "SimpleMatcherGroup \<Rightarrow> Matcher \<Rightarrow> u32 \<Rightarrow> SimpleMatcherGroup" where
  "simple_AddMatcher g m v = g @ [(m, v)]"

definition simple_Match :: "SimpleMatcherGroup \<Rightarrow> gostring \<Rightarrow> u32 list" where
  "simple_Match g s = foldl (\<lambda>result (m, v). if Matcher_Match m s then result @ [v] else result) [] g"

fun simple_MatchAny :: "SimpleMatcherGroup \<Rightarrow> gostring \<Rightarrow> bool" where
  "simple_MatchAny [] s = False"
| "simple_MatchAny ((m, v) # g) s = (if Matcher_Match m s then True else simple_MatchAny g s)"

definition simple_build :: "(Matcher \<times> u32) list \<Rightarrow> SimpleMatcherGroup" where
  "simple_build ms = foldl (\<lambda>g (m, v). simple_AddMatcher g m v) [] ms"

lemma simple_build_id: "simple_build ms = ms"
  by (induction ms rule: rev_induct) (auto simp: simple_build_def simple_AddMatcher_def)

lemma simple_Match_law: "simple_Match g s = values_of g (\<lambda>m. Matcher_Match m s)"
  by (induction g rule: rev_induct) (auto simp: simple_Match_def)

lemma simple_MatchAny_law: "simple_MatchAny g s \<longleftrightarrow> (\<exists>m v. (m, v) \<in> set g \<and> Matcher_Match m s)"
  by (induction g s rule: simple_MatchAny.induct) auto

interpretation simple_group: matcher_group "\<lambda>ms. Some (simple_build ms)" simple_MatchAny "\<lambda>g s. Some (simple_Match g s)" "\<lambda>ms. True" "\<lambda>s. True"
  by unfold_locales (auto simp: simple_build_id simple_Match_law simple_MatchAny_law set_values_of)

section \<open>Domain matchers\<close>

text \<open>
  A trie over the labels of domain names, from the last label to the first. \<^verbatim>\<open>scan_label\<close> is the inner loop
  that looks for the label that ends before \<open>i\<close>: the label, and the position of the dot before it.
\<close>

datatype trieNode = TrieNode (tn_values: "u32 list") (tn_children: "(gostring \<Rightarrow> trieNode option) option")

definition new_trieNode :: trieNode where
  "new_trieNode = TrieNode [] None"

fun scan_label :: "gostring \<Rightarrow> nat \<Rightarrow> nat \<Rightarrow> gostring \<times> nat" where
  "scan_label s i 0 = (if s ! 0 = dot then take (i - 1) (drop 1 s) else take i s, 0)"
| "scan_label s i (Suc j) =
     (if s ! Suc j = dot then (take (i - (Suc j + 1)) (drop (Suc j + 1) s), Suc j) else scan_label s i j)"

lemma scan_label_le: "snd (scan_label s i j) \<le> j"
  by (induction j) (auto simp: le_Suc_eq)

definition child :: "trieNode \<Rightarrow> gostring \<Rightarrow> trieNode option" where
  "child node part = (case tn_children node of None \<Rightarrow> None | Some ch \<Rightarrow> ch part)"

definition put_child :: "trieNode \<Rightarrow> gostring \<Rightarrow> trieNode \<Rightarrow> trieNode" where
  "put_child node part next =
     TrieNode (tn_values node)
       (Some ((case tn_children node of None \<Rightarrow> Map.empty | Some ch \<Rightarrow> ch)(part \<mapsto> next)))"

function AddDomain_loop :: "gostring \<Rightarrow> u32 \<Rightarrow> nat \<Rightarrow> trieNode \<Rightarrow> trieNode" where
  "AddDomain_loop pattern v i node =
     (if i = 0 then TrieNode (tn_values node @ [v]) (tn_children node)
      else let (part, i') = scan_label pattern i (i - 1);
               next = (case child node part of None \<Rightarrow> new_trieNode | Some n \<Rightarrow> n)
           in put_child node part (AddDomain_loop pattern v i' next))"
  by pat_completeness auto
termination
proof (relation "measure (\<lambda>(pattern, v, i, node). i)", goal_cases)
  case (2 pattern v i node x part i' nxt)
  then have "i' = snd (scan_label pattern i (i - 1))" by (metis snd_conv)
  with 2 scan_label_le [of pattern i "i - 1"] show ?case by simp
qed simp

definition AddDomainMatcher :: "trieNode \<Rightarrow> gostring \<Rightarrow> u32 \<Rightarrow> trieNode" where
  "AddDomainMatcher root pattern v = AddDomain_loop pattern v (length pattern) root"

function domain_Match_loop :: "gostring \<Rightarrow> nat \<Rightarrow> trieNode \<Rightarrow> u32 list list \<Rightarrow> u32 list list" where
  "domain_Match_loop s i node matches =
     (if i = 0 then matches
      else let (part, i') = scan_label s i (i - 1) in
           case child node part of
             None \<Rightarrow> matches
           | Some n \<Rightarrow>
               let matches' = (if length (tn_values n) > 0 then matches @ [tn_values n] else matches)
               in if tn_children n = None then matches' else domain_Match_loop s i' n matches')"
  by pat_completeness auto
termination
proof (relation "measure (\<lambda>(s, i, node, matches). i)", goal_cases)
  case (2 s i node matches x part i' n matches')
  then have "i' = snd (scan_label s i (i - 1))" by (metis snd_conv)
  with 2 scan_label_le [of s i "i - 1"] show ?case by simp
qed simp

definition domain_Match :: "trieNode \<Rightarrow> gostring \<Rightarrow> u32 list" where
  "domain_Match root s = CompositeMatchesReverse (domain_Match_loop s (length s) root [])"

function domain_MatchAny_loop :: "gostring \<Rightarrow> nat \<Rightarrow> trieNode \<Rightarrow> bool" where
  "domain_MatchAny_loop s i node =
     (if i = 0 then False
      else let (part, i') = scan_label s i (i - 1) in
           case child node part of
             None \<Rightarrow> False
           | Some n \<Rightarrow>
               if length (tn_values n) > 0 then True
               else if tn_children n = None then False else domain_MatchAny_loop s i' n)"
  by pat_completeness auto
termination
proof (relation "measure (\<lambda>(s, i, node). i)", goal_cases)
  case (2 s i node x part i' n)
  then have "i' = snd (scan_label s i (i - 1))" by (metis snd_conv)
  with 2 scan_label_le [of s i "i - 1"] show ?case by simp
qed simp

definition domain_MatchAny :: "trieNode \<Rightarrow> gostring \<Rightarrow> bool" where
  "domain_MatchAny root s = domain_MatchAny_loop s (length s) root"

declare AddDomain_loop.simps [simp del] domain_Match_loop.simps [simp del] domain_MatchAny_loop.simps [simp del]

definition domain_build :: "(Matcher \<times> u32) list \<Rightarrow> trieNode" where
  "domain_build ms = foldl (\<lambda>g (m, v). AddDomainMatcher g (Pattern m) v) new_trieNode ms"

subsection \<open>Labels\<close>

function labels :: "gostring \<Rightarrow> nat \<Rightarrow> gostring list" where
  "labels s i = (if i = 0 then [] else let (part, i') = scan_label s i (i - 1) in part # labels s i')"
  by pat_completeness auto
termination
proof (relation "measure snd", goal_cases)
  case (2 s i x part i')
  then have "i' = snd (scan_label s i (i - 1))" by (metis snd_conv)
  with 2 scan_label_le [of s i "i - 1"] show ?case by simp
qed simp

declare labels.simps [simp del]

lemma scan_label_none: "\<forall>m\<le>j. s ! m \<noteq> dot \<Longrightarrow> scan_label s i j = (take i s, 0)"
  by (induction j) auto

lemma scan_label_found:
  "k \<le> j \<Longrightarrow> s ! k = dot \<Longrightarrow> \<forall>m. k < m \<and> m \<le> j \<longrightarrow> s ! m \<noteq> dot
    \<Longrightarrow> scan_label s i j = (take (i - (k + 1)) (drop (k + 1) s), k)"
proof (induction j)
  case (Suc j)
  then show ?case by (cases "k = Suc j") auto
qed simp

lemma labels_0 [simp]: "labels s 0 = []"
  by (simp add: labels.simps)

lemma labels_last:
  assumes "0 < i" "i \<le> length s" "dot \<notin> set (take i s)"
  shows "labels s i = [take i s]"
proof -
  have "s ! m \<noteq> dot" if "m \<le> i - 1" for m
  proof -
    have "m < length (take i s)" "take i s ! m = s ! m" using that assms(1,2) by simp_all
    with assms(3) nth_mem show ?thesis by metis
  qed
  with scan_label_none [of "i - 1" s i] show ?thesis using assms(1) by (subst labels.simps) simp
qed

lemma labels_step:
  assumes "i \<le> length s" "take i s = x @ dot # l" "dot \<notin> set l"
  shows "labels s i = l # labels s (length x)"
proof -
  have i: "i = length x + 1 + length l" using arg_cong [OF assms(2), of length] assms(1) by simp
  have nth: "s ! m = (x @ dot # l) ! m" if "m < i" for m using that by (metis assms(2) nth_take)
  have "take (i - (length x + 1)) (drop (length x + 1) s) = drop (length x + 1) (take i s)" by (simp only: drop_take)
  also have "\<dots> = l" by (simp add: assms(2))
  finally have l: "take (i - (length x + 1)) (drop (length x + 1) s) = l" .
  have "s ! m \<noteq> dot" if "length x < m" "m \<le> i - 1" for m
  proof -
    have "s ! m = (dot # l) ! (m - length x)" using nth [of m] that i by (simp add: nth_append)
    moreover have "(dot # l) ! (m - length x) = l ! (m - length x - 1)" "m - length x - 1 < length l"
      using that i by (simp_all add: nth_Cons')
    ultimately have "s ! m \<in> set l" by simp
    then show ?thesis using assms(3) by metis
  qed
  then have "scan_label s i (i - 1) = (l, length x)"
    using scan_label_found [of "length x" "i - 1" s i] nth [of "length x"] i l by simp
  then show ?thesis using i by (subst labels.simps) simp
qed

lemma last_dot:
  assumes "dot \<in> set s"
  obtains x l where "s = x @ dot # l" "dot \<notin> set l"
  using split_list_last [OF assms] by blast

lemma last_dot_unique: "y @ dot # l' = z @ dot # l \<Longrightarrow> dot \<notin> set l' \<Longrightarrow> dot \<notin> set l \<Longrightarrow> y = z \<and> l' = l"
  by (auto simp: append_eq_append_conv2 Cons_eq_append_conv append_eq_Cons_conv)

text \<open>
  The labels of a pattern that does not start with a dot are the first labels of an input iff the input is the pattern or ends with
  a dot and the pattern.
\<close>

definition domain_suffix :: "gostring \<Rightarrow> gostring \<Rightarrow> bool" where
  "domain_suffix p s \<longleftrightarrow> s = p \<or> suffix (dot # p) s"

lemma labels_prefix:
  assumes "i \<le> length p" "take i p \<noteq> []" "hd (take i p) \<noteq> dot" "k \<le> length s"
  shows "prefix (labels p i) (labels s k) \<longleftrightarrow> domain_suffix (take i p) (take k s)"
  using assms
proof (induction i arbitrary: k rule: less_induct)
  case (less i)
  let ?p = "take i p" and ?s = "take k s"
  have i: "0 < i" using less.prems(2) by auto
  consider "?s = []" | "?s \<noteq> []" "dot \<notin> set ?s" | y l' where "?s = y @ dot # l'" "dot \<notin> set l'" by (metis last_dot)
  note s_cases = this
  show ?case
  proof (cases "dot \<in> set ?p")
    case False
    have lp: "labels p i = [?p]" using labels_last [OF i less.prems(1) False] .
    from s_cases show ?thesis
    proof cases
      case 1
      then have "k = 0" using less.prems(4) by auto
      then show ?thesis using less.prems(2) by (auto simp: lp domain_suffix_def)
    next
      case 2
      then have "labels s k = [?s]" using labels_last less.prems(4) by (metis bot_nat_0.not_eq_extremum take_eq_Nil)
      then show ?thesis using 2(2) by (auto simp: lp domain_suffix_def suffix_def)
    next
      case (3 y l')
      have "domain_suffix ?p ?s \<longleftrightarrow> l' = ?p"
      proof
        assume d: "domain_suffix ?p ?s"
        moreover have "?s \<noteq> ?p" using False 3(1) by (metis in_set_conv_decomp)
        ultimately have "suffix (dot # ?p) ?s" by (simp add: domain_suffix_def)
        then obtain z where "y @ dot # l' = z @ dot # ?p" unfolding 3(1) by (auto simp: suffix_def)
        with 3(2) False show "l' = ?p" using last_dot_unique by blast
      qed (auto simp: 3(1) domain_suffix_def suffix_def)
      then show ?thesis using labels_step [OF less.prems(4) 3] by (auto simp: lp)
    qed
  next
    case True
    obtain x l where x: "?p = x @ dot # l" "dot \<notin> set l" using last_dot [OF True] .
    have lp: "labels p i = l # labels p (length x)" using labels_step [OF less.prems(1) x] .
    have lx: "length x < i" "length x \<le> length p" using arg_cong [OF x(1), of length] less.prems(1) by auto
    have tx: "take (length x) p = x"
      using arg_cong [OF x(1), of "take (length x)"] lx(1) by (simp add: min_def)
    have x_ok: "x \<noteq> []" "hd x \<noteq> dot" using less.prems(3) x(1) by (auto simp: hd_append split: if_splits)
    have ne: "labels p (length x) \<noteq> []" using x_ok(1) by (subst labels.simps) (auto split: prod.split)
    from s_cases show ?thesis
    proof cases
      case 1
      then have "k = 0" using less.prems(4) by auto
      then show ?thesis using less.prems(2) by (auto simp: lp domain_suffix_def)
    next
      case 2
      then have "labels s k = [?s]" using labels_last less.prems(4) by (metis bot_nat_0.not_eq_extremum take_eq_Nil)
      moreover have "\<not> domain_suffix ?p ?s" using 2(2) True by (auto simp: domain_suffix_def suffix_def)
      ultimately show ?thesis using ne by (auto simp: lp)
    next
      case (3 y l')
      have ls: "labels s k = l' # labels s (length y)" using labels_step [OF less.prems(4) 3] .
      have ly: "length y \<le> length s" "take (length y) s = y"
        using arg_cong [OF 3(1), of length] arg_cong [OF 3(1), of "take (length y)"] by (auto simp: min_def split: if_splits)
      have "domain_suffix ?p ?s \<longleftrightarrow> l = l' \<and> domain_suffix x y"
      proof
        assume d: "domain_suffix ?p ?s"
        then obtain z where z: "y @ dot # l' = z @ x @ dot # l" "z = [] \<or> (\<exists>z'. z = z' @ [dot])"
          unfolding 3(1) x(1) by (auto simp: domain_suffix_def suffix_def)
        then have "y = z @ x \<and> l' = l" using 3(2) x(2) last_dot_unique [of y l' "z @ x" l] by simp
        then show "l = l' \<and> domain_suffix x y" using z(2) by (auto simp: domain_suffix_def suffix_def)
      qed (auto simp: 3(1) x(1) domain_suffix_def suffix_def)
      then show ?thesis using less.IH [OF lx, of "length y"] x_ok ly by (auto simp: lp ls tx)
    qed
  qed
qed

lemma domain_match_iff: "Matcher_Match (DomainMatcher p) s \<longleftrightarrow> domain_suffix p s"
proof (cases "suffix p s")
  case True
  then obtain z where s: "s = z @ p" by (auto simp: suffix_def)
  show ?thesis
  proof (cases z rule: rev_cases)
    case Nil
    with s True show ?thesis by (auto simp: HasSuffix_suffix domain_suffix_def)
  next
    case (snoc z' c)
    with s True show ?thesis by (auto simp: HasSuffix_suffix domain_suffix_def nth_append suffix_def)
  qed
next
  case False
  then show ?thesis by (auto simp: HasSuffix_suffix domain_suffix_def dest: suffix_ConsD)
qed

subsection \<open>The trie\<close>

text \<open>The values at the node that a list of labels leads to.\<close>

fun trie_get :: "trieNode \<Rightarrow> gostring list \<Rightarrow> u32 list" where
  "trie_get n [] = tn_values n"
| "trie_get n (l # ls) = (case child n l of None \<Rightarrow> [] | Some n' \<Rightarrow> trie_get n' ls)"

lemma child_put [simp]: "child (put_child n l n') l' = (if l' = l then Some n' else child n l')"
  by (auto simp: child_def put_child_def split: option.splits)

lemma tn_values_put [simp]: "tn_values (put_child n l n') = tn_values n"
  by (simp add: put_child_def)

lemma trie_get_new [simp]: "trie_get new_trieNode ls = []"
  by (cases ls) (simp_all add: new_trieNode_def child_def)

lemma AddDomain_law:
  "trie_get (AddDomain_loop p v i n) ls = trie_get n ls @ (if ls = labels p i then [v] else [])"
proof (induction p v i n arbitrary: ls rule: AddDomain_loop.induct)
  case (1 p v i n)
  show ?case
  proof (cases "i = 0")
    case True
    then show ?thesis by (subst AddDomain_loop.simps) (cases ls, simp_all add: child_def)
  next
    case False
    obtain l i' where l: "scan_label p i (i - 1) = (l, i')" by fastforce
    have lab: "labels p i = l # labels p i'" using False l by (subst labels.simps) simp
    have step: "AddDomain_loop p v i n = put_child n l (AddDomain_loop p v i' (case child n l of None \<Rightarrow> new_trieNode | Some n \<Rightarrow> n))"
      using False l by (subst AddDomain_loop.simps) simp
    note IH = "1.IH" [OF False l [symmetric] refl refl]
    show ?thesis
    proof (cases ls)
      case (Cons l' ls')
      then show ?thesis unfolding step lab by (auto simp: IH split: option.splits)
    qed (simp add: step lab)
  qed
qed

lemma domain_build_law:
  "trie_get (domain_build ms) ls = values_of ms (\<lambda>m. labels (Pattern m) (length (Pattern m)) = ls)"
  by (induction ms rule: rev_induct)
    (auto simp: domain_build_def AddDomainMatcher_def AddDomain_law)

text \<open>What the loops of \<^verbatim>\<open>Match\<close> and \<^verbatim>\<open>MatchAny\<close> collect: the values at the nodes of the labels of the input.\<close>

fun trie_path :: "trieNode \<Rightarrow> gostring list \<Rightarrow> u32 list list" where
  "trie_path n [] = []"
| "trie_path n (l # ls) =
     (case child n l of None \<Rightarrow> [] | Some n' \<Rightarrow> (if tn_values n' = [] then [] else [tn_values n']) @ trie_path n' ls)"

lemma trie_path_leaf: "tn_children n = None \<Longrightarrow> trie_path n ls = []"
  by (cases ls) (simp_all add: child_def)

lemma domain_Match_loop_law: "domain_Match_loop s i n ms = ms @ trie_path n (labels s i)"
proof (induction s i n ms rule: domain_Match_loop.induct)
  case (1 s i n ms)
  show ?case
  proof (cases "i = 0")
    case False
    obtain l i' where l: "scan_label s i (i - 1) = (l, i')" by fastforce
    have lab: "labels s i = l # labels s i'" using False l by (subst labels.simps) simp
    show ?thesis
    proof (cases "child n l")
      case None
      then show ?thesis using False l by (subst domain_Match_loop.simps) (simp add: lab)
    next
      case (Some n')
      note IH = "1.IH" [OF False l [symmetric] refl Some refl]
      show ?thesis using False l Some IH
        by (subst domain_Match_loop.simps) (cases "tn_children n' = None", auto simp: lab trie_path_leaf)
    qed
  qed (simp add: domain_Match_loop.simps)
qed

lemma domain_MatchAny_loop_law: "domain_MatchAny_loop s i n \<longleftrightarrow> trie_path n (labels s i) \<noteq> []"
proof (induction s i n rule: domain_MatchAny_loop.induct)
  case (1 s i n)
  show ?case
  proof (cases "i = 0")
    case False
    obtain l i' where l: "scan_label s i (i - 1) = (l, i')" by fastforce
    have lab: "labels s i = l # labels s i'" using False l by (subst labels.simps) simp
    show ?thesis
    proof (cases "child n l")
      case None
      then show ?thesis using False l by (subst domain_MatchAny_loop.simps) (simp add: lab)
    next
      case (Some n')
      note IH = "1.IH" [OF False l [symmetric] refl Some]
      show ?thesis using False l Some IH
        by (subst domain_MatchAny_loop.simps) (cases "tn_children n' = None", auto simp: lab trie_path_leaf)
    qed
  qed (simp add: domain_MatchAny_loop.simps)
qed

lemma trie_path_get: "trie_path n ls = filter (\<lambda>vs. vs \<noteq> []) (map (\<lambda>k. trie_get n (take k ls)) [1..<Suc (length ls)])"
proof (induction ls arbitrary: n)
  case (Cons l ls)
  have up: "[1..<Suc (length (l # ls))] = 1 # map Suc [1..<Suc (length ls)]"
    by (simp add: upt_conv_Cons map_Suc_upt del: upt_Suc)
  show ?case
  proof (cases "child n l")
    case None
    then show ?thesis unfolding up by (simp add: comp_def del: upt_Suc)
  next
    case (Some n')
    then show ?thesis unfolding up by (simp add: comp_def Cons.IH del: upt_Suc)
  qed
qed simp

definition domain_only :: "(Matcher \<times> u32) list \<Rightarrow> bool" where
  "domain_only ms \<longleftrightarrow> list_all (\<lambda>(m, v). Matcher_Type m = Domain \<and> Pattern m \<noteq> [] \<and> hd (Pattern m) \<noteq> dot) ms"

lemma prefix_take_iff: "ys \<noteq> [] \<Longrightarrow> prefix ys xs \<longleftrightarrow> (\<exists>k. 1 \<le> k \<and> k \<le> length xs \<and> ys = take k xs)"
proof
  assume "ys \<noteq> []" "prefix ys xs"
  then show "\<exists>k. 1 \<le> k \<and> k \<le> length xs \<and> ys = take k xs"
    by (intro exI [of _ "length ys"]) (auto simp: prefix_def Suc_le_eq)
qed (auto simp: take_is_prefix)

lemma labels_nonempty: "0 < i \<Longrightarrow> labels s i \<noteq> []"
  by (subst labels.simps) (simp split: prod.split)

lemma domain_only_match:
  assumes "domain_only ms" "(m, v) \<in> set ms"
  shows "Matcher_Match m s \<longleftrightarrow> (\<exists>k \<in> set [1..<Suc (length (labels s (length s)))].
    labels (Pattern m) (length (Pattern m)) = take k (labels s (length s)))"
proof -
  obtain p where m: "m = DomainMatcher p" "p \<noteq> []" "hd p \<noteq> dot"
    using assms by (cases m) (auto simp: domain_only_def list_all_iff)
  have "Matcher_Match m s \<longleftrightarrow> prefix (labels p (length p)) (labels s (length s))"
    unfolding m(1) domain_match_iff using labels_prefix [of "length p" p "length s" s] m(2,3) by simp
  also have "\<dots> \<longleftrightarrow> (\<exists>k \<in> set [1..<Suc (length (labels s (length s)))]. labels p (length p) = take k (labels s (length s)))"
    using prefix_take_iff [OF labels_nonempty [of "length p" p], of "labels s (length s)"] m(2) by (auto simp del: upt_Suc)
  finally show ?thesis by (simp only: m(1) Pattern.simps)
qed

lemma domain_Match_law:
  assumes "domain_only ms"
  shows "set (domain_Match (domain_build ms) s) = {v. \<exists>m. (m, v) \<in> set ms \<and> Matcher_Match m s}"
proof -
  let ?L = "labels s (length s)"
  have "set (domain_Match (domain_build ms) s)
    = (\<Union>k \<in> set [1..<Suc (length ?L)]. set (values_of ms (\<lambda>m. labels (Pattern m) (length (Pattern m)) = take k ?L)))"
    unfolding domain_Match_def domain_Match_loop_law CompositeMatchesReverse_concat trie_path_get domain_build_law
    by (auto simp del: upt_Suc)
  also have "\<dots> = {v. \<exists>m. (m, v) \<in> set ms \<and> Matcher_Match m s}"
    unfolding set_values_of using domain_only_match [OF assms, of _ _ s] by blast
  finally show ?thesis .
qed

lemma domain_MatchAny_law: "domain_MatchAny g s \<longleftrightarrow> domain_Match g s \<noteq> []"
  unfolding domain_MatchAny_def domain_MatchAny_loop_law domain_Match_def domain_Match_loop_law trie_path_get
  by (auto simp: concat_eq_Nil_conv filter_empty_conv simp del: upt_Suc)

interpretation domain_group: matcher_group "\<lambda>ms. Some (domain_build ms)" domain_MatchAny "\<lambda>g s. Some (domain_Match g s)"
  domain_only "\<lambda>s. True"
proof
  fix ms g s assume a: "domain_only ms" "Some (domain_build ms) = Some g"
  then have "set (domain_Match g s) = {v. \<exists>m. (m, v) \<in> set ms \<and> Matcher_Match m s}" using domain_Match_law by auto
  then show "domain_MatchAny g s \<longleftrightarrow> (\<exists>m v. (m, v) \<in> set ms \<and> Matcher_Match m s)"
    "\<exists>vs. Some (domain_Match g s) = Some vs \<and> set vs = {v. \<exists>m. (m, v) \<in> set ms \<and> Matcher_Match m s}"
    unfolding domain_MatchAny_law by (auto simp flip: set_empty)
qed simp

section \<open>Substring matchers\<close>

record SubstrMatcherGroup =
  sg_patterns :: "gostring list"
  sg_values :: "u32 list"

definition new_SubstrMatcherGroup :: SubstrMatcherGroup where
  "new_SubstrMatcherGroup = \<lparr>sg_patterns = [], sg_values = []\<rparr>"

definition AddSubstrMatcher :: "SubstrMatcherGroup \<Rightarrow> gostring \<Rightarrow> u32 \<Rightarrow> SubstrMatcherGroup" where
  "AddSubstrMatcher g p v = g\<lparr>sg_patterns := sg_patterns g @ [p], sg_values := sg_values g @ [v]\<rparr>"

text \<open>The entries for the occurrences of the \<open>i\<close>-th pattern, from the last one on.\<close>

partial_function (option) substr_loop :: "gostring \<Rightarrow> gostring \<Rightarrow> nat \<Rightarrow> int \<Rightarrow> u32 list \<Rightarrow> u32 list option" where
  "substr_loop s p i j result =
     (if j = - 1 then Some result
      else substr_loop s p i (LastIndex (take (nat j) s) p)
             (result @ [push_bit 16 (of_int j) OR (of_nat i AND 0xffff)]))"

fun substr_entries :: "gostring \<Rightarrow> nat \<Rightarrow> gostring list \<Rightarrow> u32 list \<Rightarrow> u32 list option" where
  "substr_entries s i [] result = Some result"
| "substr_entries s i (p # ps) result =
     (case substr_loop s p i (LastIndex s p) result of
        None \<Rightarrow> None
      | Some result' \<Rightarrow> substr_entries s (Suc i) ps result')"

definition substr_sort :: "u32 list \<Rightarrow> u32 list" where
  "substr_sort result =
     (case result of
        [] \<Rightarrow> []
      | [a] \<Rightarrow> [a]
      | [a, b] \<Rightarrow> if a > b then [b, a] else [a, b]
      | _ \<Rightarrow> sort result)"

text \<open>\<open>None\<close> is a call that runs forever, or an index out of range.\<close>

fun substr_values :: "u32 list \<Rightarrow> u32 list \<Rightarrow> u32 list option" where
  "substr_values vs [] = Some []"
| "substr_values vs (e # es) =
     (let k = unat (e AND 0xffff) in
      if k < length vs then map_option (\<lambda>r. vs ! k # r) (substr_values vs es) else None)"

definition substr_Match :: "SubstrMatcherGroup \<Rightarrow> gostring \<Rightarrow> u32 list option" where
  "substr_Match g s =
     (case substr_entries s 0 (sg_patterns g) [] of
        None \<Rightarrow> None
      | Some result \<Rightarrow> substr_values (sg_values g) (substr_sort result))"

fun substr_MatchAny_loop :: "gostring list \<Rightarrow> gostring \<Rightarrow> bool" where
  "substr_MatchAny_loop [] s = False"
| "substr_MatchAny_loop (p # ps) s = (if Contains s p then True else substr_MatchAny_loop ps s)"

definition substr_MatchAny :: "SubstrMatcherGroup \<Rightarrow> gostring \<Rightarrow> bool" where
  "substr_MatchAny g s = substr_MatchAny_loop (sg_patterns g) s"

definition substr_build :: "(Matcher \<times> u32) list \<Rightarrow> SubstrMatcherGroup" where
  "substr_build ms = foldl (\<lambda>g (m, v). AddSubstrMatcher g (Pattern m) v) new_SubstrMatcherGroup ms"

lemma substr_build_law: "substr_build ms = \<lparr>sg_patterns = map (Pattern \<circ> fst) ms, sg_values = map snd ms\<rparr>"
  by (induction ms rule: rev_induct) (auto simp: substr_build_def new_SubstrMatcherGroup_def AddSubstrMatcher_def)

lemma substr_MatchAny_loop_law: "substr_MatchAny_loop ps s \<longleftrightarrow> (\<exists>p \<in> set ps. Contains s p)"
  by (induction ps) auto

lemma substr_sort_law: "substr_sort es = sort es"
  by (cases es rule: remdups_adj.cases) (auto simp: substr_sort_def split: list.splits)

lemma entry_low: "(push_bit 16 x OR (y AND 0xffff)) AND 0xffff = (y :: u32) AND 0xffff"
proof -
  have low: "z AND 0xffff = take_bit 16 z" for z :: u32 by (simp add: take_bit_eq_mask mask_eq_exp_minus_1)
  show ?thesis unfolding low by (simp add: take_bit_push_bit)
qed

lemma Collect_Suc: "{f (i + k) |k. k < Suc n \<and> P k} = (if P 0 then {f i} else {}) \<union> {f (Suc i + k) |k. k < n \<and> P (Suc k)}"
proof -
  have "{k. k < Suc n \<and> P k} = (if P 0 then {0} else {}) \<union> Suc ` {k. k < n \<and> P (Suc k)}"
    by (auto simp: image_iff less_Suc_eq_0_disj)
  then have "(\<lambda>k. f (i + k)) ` {k. k < Suc n \<and> P k} = (if P 0 then {f i} else {}) \<union> (\<lambda>k. f (Suc i + k)) ` {k. k < n \<and> P (Suc k)}"
    by (simp add: image_Un image_image)
  then show ?thesis by (simp add: setcompr_eq_image)
qed

lemma substr_loop_law:
  assumes "p \<noteq> []" "j = - 1 \<or> (\<exists>n. j = int n)"
  shows "\<exists>es. substr_loop s p i j result = Some (result @ es) \<and> (es = [] \<longleftrightarrow> j = - 1)
    \<and> (\<forall>e \<in> set es. e AND 0xffff = of_nat i AND 0xffff)"
  using assms(2)
proof (induction "nat j" arbitrary: j result rule: less_induct)
  case less
  show ?case
  proof (cases "j = - 1")
    case True
    then show ?thesis by (subst substr_loop.simps) simp
  next
    case False
    then obtain n where n: "j = int n" using less.prems by blast
    let ?j = "LastIndex (take n s) p" and ?e = "push_bit 16 (of_int j) OR (of_nat i AND 0xffff)"
    have "\<exists>es. substr_loop s p i ?j (result @ [?e]) = Some ((result @ [?e]) @ es) \<and> (\<forall>e \<in> set es. e AND 0xffff = of_nat i AND 0xffff)"
    proof (cases "?j = - 1")
      case True
      then show ?thesis by (subst substr_loop.simps) simp
    next
      case False
      then obtain n' where n': "?j = int n'" "n' + length p \<le> length (take n s)" by (rule LastIndex_pos)
      then have "nat ?j < nat j" using assms(1) n by (cases p) auto
      from less.hyps [OF this] n'(1) show ?thesis by blast
    qed
    then show ?thesis using False n by (subst substr_loop.simps) (auto simp: entry_low)
  qed
qed

lemma substr_entries_law:
  assumes "[] \<notin> set ps"
  shows "\<exists>es. substr_entries s i ps result = Some (result @ es)
    \<and> (\<lambda>e. e AND 0xffff) ` set es = {of_nat (i + k) AND 0xffff |k. k < length ps \<and> Contains s (ps ! k)}"
  using assms
proof (induction ps arbitrary: i result)
  case (Cons p ps)
  have "LastIndex s p = - 1 \<or> (\<exists>n. LastIndex s p = int n)" by (metis LastIndex_pos)
  with substr_loop_law [of p "LastIndex s p" s i result] Cons.prems obtain es where
    es: "substr_loop s p i (LastIndex s p) result = Some (result @ es)" "es = [] \<longleftrightarrow> LastIndex s p = - 1"
    "\<forall>e \<in> set es. e AND 0xffff = of_nat i AND 0xffff" by auto
  obtain es' where es': "substr_entries s (Suc i) ps (result @ es) = Some ((result @ es) @ es')"
    "(\<lambda>e. e AND 0xffff) ` set es' = {of_nat (Suc i + k) AND 0xffff |k. k < length ps \<and> Contains s (ps ! k)}"
    using Cons.IH [of "Suc i" "result @ es"] Cons.prems by auto
  have "(\<lambda>e. e AND 0xffff) ` set es = (if Contains s p then {of_nat i AND 0xffff} else {})"
    using es(2,3) by (cases es) (auto simp: LastIndex_neg)
  moreover have "{of_nat (i + k) AND 0xffff |k. k < length (p # ps) \<and> Contains s ((p # ps) ! k)}
    = (if Contains s p then {of_nat i AND 0xffff :: u32} else {}) \<union> {of_nat (Suc i + k) AND 0xffff |k. k < length ps \<and> Contains s (ps ! k)}"
    using Collect_Suc [of "\<lambda>n. of_nat n AND 0xffff" i "length ps" "\<lambda>k. Contains s ((p # ps) ! k)"] by simp
  ultimately have "(\<lambda>e. e AND 0xffff) ` set (es @ es') = {of_nat (i + k) AND 0xffff |k. k < length (p # ps) \<and> Contains s ((p # ps) ! k)}"
    using es'(2) by (simp only: set_append image_Un)
  with es(1) es'(1) show ?case by (intro exI [of _ "es @ es'"]) simp
qed simp

lemma substr_values_law:
  "\<forall>e \<in> set es. unat (e AND 0xffff) < length vs \<Longrightarrow> substr_values vs es = Some (map (\<lambda>e. vs ! unat (e AND 0xffff)) es)"
  by (induction es) (auto simp: Let_def)

definition substr_only :: "(Matcher \<times> u32) list \<Rightarrow> bool" where
  "substr_only ms \<longleftrightarrow> list_all (\<lambda>(m, v). Matcher_Type m = Substr \<and> Pattern m \<noteq> []) ms \<and> length ms \<le> 65536"

lemma unat_low: "k < 65536 \<Longrightarrow> unat (of_nat k AND 0xffff :: u32) = k"
proof -
  assume k: "k < 65536"
  have "(of_nat k AND 0xffff :: u32) = take_bit 16 (of_nat k)" by (simp add: take_bit_eq_mask mask_eq_exp_minus_1)
  also have "\<dots> = of_nat k" using k by (simp add: take_bit_of_nat take_bit_nat_eq_self)
  finally show ?thesis using k by (simp add: unat_of_nat)
qed

lemma substr_match_iff: "Matcher_Type m = Substr \<Longrightarrow> Matcher_Match m s \<longleftrightarrow> Contains s (Pattern m)"
  by (cases m) auto

lemma substr_Match_law:
  assumes "substr_only ms"
  shows "\<exists>vs. substr_Match (substr_build ms) s = Some vs \<and> set vs = {v. \<exists>m. (m, v) \<in> set ms \<and> Matcher_Match m s}"
proof -
  let ?ps = "map (Pattern \<circ> fst) ms" and ?vs = "map snd ms" and ?low = "\<lambda>e :: u32. e AND 0xffff"
  let ?K = "{k. k < length ms \<and> Contains s (?ps ! k)}"
  have "[] \<notin> set ?ps" using assms by (auto simp: substr_only_def list_all_iff)
  from substr_entries_law [OF this, of s 0 "[]"] obtain es where
    es: "substr_entries s 0 ?ps [] = Some es" "?low ` set es = (\<lambda>k. of_nat k AND 0xffff) ` ?K"
    by (auto simp: setcompr_eq_image)
  have low: "unat (of_nat k AND 0xffff :: u32) = k" if "k \<in> ?K" for k
    using that assms by (intro unat_low) (auto simp: substr_only_def)
  have "(\<lambda>k. unat (of_nat k AND 0xffff :: u32)) ` ?K = (\<lambda>k. k) ` ?K" using low by (intro image_cong refl)
  then have un: "unat ` ?low ` set es = ?K" unfolding es(2) by (simp only: image_image image_ident)
  have "unat (?low e) < length ?vs" if "e \<in> set es" for e
  proof -
    have "unat (?low e) \<in> ?K" using that unfolding un [symmetric] by (intro imageI)
    then show ?thesis by simp
  qed
  then have match: "substr_Match (substr_build ms) s = Some (map (\<lambda>e. ?vs ! unat (?low e)) (sort es))"
    by (simp add: substr_Match_def substr_build_law es(1) substr_sort_law substr_values_law)
  have "set (map (\<lambda>e. ?vs ! unat (?low e)) (sort es)) = (\<lambda>k. ?vs ! k) ` ?K"
    unfolding un [symmetric] image_image by (simp only: set_map set_sort)
  also have "\<dots> = {v. \<exists>m. (m, v) \<in> set ms \<and> Matcher_Match m s}"
  proof -
    have "Matcher_Match (fst (ms ! k)) s \<longleftrightarrow> Contains s (Pattern (fst (ms ! k)))" if "k < length ms" for k
      using assms nth_mem [OF that] by (intro substr_match_iff) (cases "ms ! k", auto simp: substr_only_def list_all_iff)
    then have K: "?K = {k. k < length ms \<and> Matcher_Match (fst (ms ! k)) s}" by auto
    show ?thesis
    proof (intro set_eqI iffI)
      fix v assume "v \<in> (\<lambda>k. ?vs ! k) ` ?K"
      then obtain k where "k < length ms" "Matcher_Match (fst (ms ! k)) s" "v = snd (ms ! k)" unfolding K by auto
      then have "(fst (ms ! k), v) \<in> set ms" "Matcher_Match (fst (ms ! k)) s" by simp_all
      then show "v \<in> {v. \<exists>m. (m, v) \<in> set ms \<and> Matcher_Match m s}" by blast
    next
      fix v assume "v \<in> {v. \<exists>m. (m, v) \<in> set ms \<and> Matcher_Match m s}"
      then obtain m k where "k < length ms" "ms ! k = (m, v)" "Matcher_Match m s" by (auto simp: in_set_conv_nth)
      then show "v \<in> (\<lambda>k. ?vs ! k) ` ?K" unfolding K by (intro image_eqI [of _ _ k]) simp_all
    qed
  qed
  finally show ?thesis using match by blast
qed

lemma substr_MatchAny_law:
  assumes "substr_only ms"
  shows "substr_MatchAny (substr_build ms) s \<longleftrightarrow> (\<exists>m v. (m, v) \<in> set ms \<and> Matcher_Match m s)"
proof -
  have "Matcher_Match m s \<longleftrightarrow> Contains s (Pattern m)" if "(m, v) \<in> set ms" for m v
    using assms that by (intro substr_match_iff) (auto simp: substr_only_def list_all_iff)
  then show ?thesis by (force simp: substr_MatchAny_def substr_build_law substr_MatchAny_loop_law)
qed

interpretation substr_group: matcher_group "\<lambda>ms. Some (substr_build ms)" substr_MatchAny substr_Match substr_only "\<lambda>s. True"
  by unfold_locales (auto simp: substr_MatchAny_law dest: substr_Match_law, blast)

text \<open>With an empty pattern \<^verbatim>\<open>LastIndex\<close> always returns the length of the input, and the loop never ends.\<close>

lemma LastIndex_empty: "LastIndex s [] = int (length s)"
  by (cases s) (simp_all add: LastIndex_def HasPrefix_def)

lemma substr_loop_empty: "substr_loop s [] i (int (length s)) result = None"
proof -
  have "\<not> (p = [] \<and> j = int (length s))" if "substr_loop s p i j result = Some y" for p j y
    by (rule substr_loop.raw_induct [OF _ that, of "\<lambda>s p i j result y. \<not> (p = [] \<and> j = int (length s))"])
      (fastforce simp: LastIndex_empty split: if_splits)
  then show ?thesis by (metis not_None_eq)
qed

section \<open>The linear index matcher\<close>

record LinearIndexMatcher =
  lin_count :: u32
  lin_full :: "FullMatcherGroup option"
  lin_domain :: "trieNode option"
  lin_substr :: "SubstrMatcherGroup option"
  lin_regex :: "SimpleMatcherGroup option"

definition NewLinearIndexMatcher :: LinearIndexMatcher where
  "NewLinearIndexMatcher = \<lparr>lin_count = 0, lin_full = None, lin_domain = None, lin_substr = None, lin_regex = None\<rparr>"

definition or_new :: "'g option \<Rightarrow> 'g \<Rightarrow> 'g" where
  "or_new g new = (case g of None \<Rightarrow> new | Some g \<Rightarrow> g)"

definition lin_Add :: "LinearIndexMatcher \<Rightarrow> Matcher \<Rightarrow> u32 \<times> LinearIndexMatcher" where
  "lin_Add g matcher =
     (let g = g\<lparr>lin_count := lin_count g + 1\<rparr>; index = lin_count g in
      (index,
       case matcher of
         FullMatcher p \<Rightarrow> g\<lparr>lin_full := Some (AddFullMatcher (or_new (lin_full g) NewFullMatcherGroup) p index)\<rparr>
       | DomainMatcher p \<Rightarrow> g\<lparr>lin_domain := Some (AddDomainMatcher (or_new (lin_domain g) new_trieNode) p index)\<rparr>
       | SubstrMatcher p \<Rightarrow> g\<lparr>lin_substr := Some (AddSubstrMatcher (or_new (lin_substr g) new_SubstrMatcherGroup) p index)\<rparr>
       | _ \<Rightarrow> g\<lparr>lin_regex := Some (simple_AddMatcher (or_new (lin_regex g) []) matcher index)\<rparr>))"

definition lin_Build :: "LinearIndexMatcher \<Rightarrow> go_error option" where
  "lin_Build g = None"

definition nonempty :: "u32 list \<Rightarrow> u32 list list" where
  "nonempty matches = (if length matches > 0 then [matches] else [])"

definition lin_Match :: "LinearIndexMatcher \<Rightarrow> gostring \<Rightarrow> u32 list option" where
  "lin_Match g s =
     (let result = (case lin_full g of None \<Rightarrow> [] | Some f \<Rightarrow> nonempty (full_Match f s));
          result = result @ (case lin_domain g of None \<Rightarrow> [] | Some d \<Rightarrow> nonempty (domain_Match d s)) in
      case (case lin_substr g of None \<Rightarrow> Some [] | Some u \<Rightarrow> map_option nonempty (substr_Match u s)) of
        None \<Rightarrow> None
      | Some ms \<Rightarrow>
          Some (CompositeMatches (result @ ms @ (case lin_regex g of None \<Rightarrow> [] | Some r \<Rightarrow> nonempty (simple_Match r s)))))"

definition lin_MatchAny :: "LinearIndexMatcher \<Rightarrow> gostring \<Rightarrow> bool" where
  "lin_MatchAny g s =
     (if (case lin_full g of None \<Rightarrow> False | Some f \<Rightarrow> full_MatchAny f s) then True
      else if (case lin_domain g of None \<Rightarrow> False | Some d \<Rightarrow> domain_MatchAny d s) then True
      else if (case lin_substr g of None \<Rightarrow> False | Some u \<Rightarrow> substr_MatchAny u s) then True
      else (case lin_regex g of None \<Rightarrow> False | Some r \<Rightarrow> simple_MatchAny r s))"

definition lin_Size :: "LinearIndexMatcher \<Rightarrow> u32" where
  "lin_Size g = lin_count g"

definition lin_build :: "Matcher list \<Rightarrow> LinearIndexMatcher" where
  "lin_build ms = foldl (\<lambda>g m. snd (lin_Add g m)) NewLinearIndexMatcher ms"

text \<open>The matchers with their indices, and those of one type.\<close>

definition indexed :: "Matcher list \<Rightarrow> (Matcher \<times> u32) list" where
  "indexed ms = zip ms (map of_nat [1..<Suc (length ms)])"

definition of_type :: "Type \<Rightarrow> Matcher list \<Rightarrow> (Matcher \<times> u32) list" where
  "of_type t ms = filter (\<lambda>(m, v). Matcher_Type m = t) (indexed ms)"

definition group_of :: "((Matcher \<times> u32) list \<Rightarrow> 'g) \<Rightarrow> (Matcher \<times> u32) list \<Rightarrow> 'g option" where
  "group_of build ms = (if ms = [] then None else Some (build ms))"

lemma indexed_snoc: "indexed (ms @ [m]) = indexed ms @ [(m, of_nat (Suc (length ms)))]"
proof -
  have "[1..<Suc (length (ms @ [m]))] = [1..<Suc (length ms)] @ [Suc (length ms)]" by simp
  then show ?thesis by (simp only: indexed_def map_append) (simp del: upt_Suc)
qed

lemma of_type_snoc:
  "of_type t (ms @ [m]) = of_type t ms @ (if Matcher_Type m = t then [(m, of_nat (Suc (length ms)))] else [])"
  "of_type t [] = []"
  by (simp_all add: of_type_def indexed_snoc) (simp add: indexed_def)

lemma or_new_group_of:
  assumes "\<And>ms m v. build (ms @ [(m, v)]) = add (build ms) m v" "build [] = new"
  shows "Some (add (or_new (group_of build ms) new) m v) = group_of build (ms @ [(m, v)])"
  using assms by (auto simp: or_new_def group_of_def)

lemma lin_build_law:
  "lin_build ms = \<lparr>lin_count = of_nat (length ms), lin_full = group_of full_build (of_type Full ms),
     lin_domain = group_of domain_build (of_type Domain ms), lin_substr = group_of substr_build (of_type Substr ms),
     lin_regex = group_of simple_build (of_type Regex ms)\<rparr>"
proof (induction ms rule: rev_induct)
  case Nil
  then show ?case by (simp add: lin_build_def NewLinearIndexMatcher_def of_type_snoc group_of_def)
next
  case (snoc m ms)
  have step: "lin_build (ms @ [m]) = snd (lin_Add (lin_build ms) m)" by (simp add: lin_build_def)
  have c: "(of_nat (length ms) + 1 :: u32) = of_nat (Suc (length ms))" by simp
  have full: "Some (AddFullMatcher (or_new (group_of full_build xs) NewFullMatcherGroup) p v) = group_of full_build (xs @ [(FullMatcher p, v)])" for xs p v
    using or_new_group_of [of full_build "\<lambda>g m v. AddFullMatcher g (Pattern m) v" NewFullMatcherGroup xs "FullMatcher p" v] by (simp add: full_build_def)
  have domain: "Some (AddDomainMatcher (or_new (group_of domain_build xs) new_trieNode) p v) = group_of domain_build (xs @ [(DomainMatcher p, v)])" for xs p v
    using or_new_group_of [of domain_build "\<lambda>g m v. AddDomainMatcher g (Pattern m) v" new_trieNode xs "DomainMatcher p" v] by (simp add: domain_build_def)
  have substr: "Some (AddSubstrMatcher (or_new (group_of substr_build xs) new_SubstrMatcherGroup) p v) = group_of substr_build (xs @ [(SubstrMatcher p, v)])" for xs p v
    using or_new_group_of [of substr_build "\<lambda>g m v. AddSubstrMatcher g (Pattern m) v" new_SubstrMatcherGroup xs "SubstrMatcher p" v] by (simp add: substr_build_def)
  have regex: "Some (simple_AddMatcher (or_new (group_of simple_build xs) []) m v) = group_of simple_build (xs @ [(m, v)])" for xs m v
    using or_new_group_of [of simple_build simple_AddMatcher "[]" xs m v] by (simp add: simple_build_def)
  show ?case unfolding step snoc.IH lin_Add_def Let_def
    by (cases m) (simp_all add: of_type_snoc c full domain substr regex del: of_nat_Suc)
qed

lemma concat_nonempty [simp]: "concat (nonempty ms) = ms"
  by (simp add: nonempty_def)

lemma of_type_set: "(m, v) \<in> set (of_type t ms) \<longleftrightarrow> (m, v) \<in> set (indexed ms) \<and> Matcher_Type m = t"
  by (auto simp: of_type_def)

lemma indexed_mem: "(m, v) \<in> set (indexed ms) \<Longrightarrow> m \<in> set ms"
  by (auto simp: indexed_def dest: set_zip_leftD)

lemma set_indexed: "(m, v) \<in> set (indexed ms) \<longleftrightarrow> (\<exists>k < length ms. m = ms ! k \<and> v = of_nat (Suc k))"
  by (auto simp: indexed_def set_zip simp del: upt_Suc of_nat_Suc)

text \<open>
  Patterns that all matchers agree on: domain patterns are not empty and do not start with a dot, substring
  patterns are not empty, and there are at most 65536 of the latter.
\<close>

definition pattern_ok :: "Matcher \<Rightarrow> bool" where
  "pattern_ok m \<longleftrightarrow>
     (case m of DomainMatcher p \<Rightarrow> p \<noteq> [] \<and> hd p \<noteq> dot | SubstrMatcher p \<Rightarrow> p \<noteq> [] | _ \<Rightarrow> True)"

definition lin_accepts :: "Matcher list \<Rightarrow> bool" where
  "lin_accepts ms \<longleftrightarrow> list_all pattern_ok ms \<and> length (of_type Substr ms) \<le> 65536"

lemma pattern_okD: "pattern_ok m \<Longrightarrow> Matcher_Type m = Domain \<Longrightarrow> Pattern m \<noteq> [] \<and> hd (Pattern m) \<noteq> dot"
  "pattern_ok m \<Longrightarrow> Matcher_Type m = Substr \<Longrightarrow> Pattern m \<noteq> []"
  by (cases m; simp add: pattern_ok_def)+

lemma lin_accepts_groups:
  assumes "lin_accepts ms"
  shows "full_only (of_type Full ms)" "domain_only (of_type Domain ms)" "substr_only (of_type Substr ms)"
proof -
  have ok: "pattern_ok m" if "(m, v) \<in> set (indexed ms)" for m v
    using that assms indexed_mem by (auto simp: lin_accepts_def list_all_iff)
  show "full_only (of_type Full ms)" by (auto simp: full_only_def list_all_iff of_type_set)
  show "domain_only (of_type Domain ms)" using ok pattern_okD(1) by (auto simp: domain_only_def list_all_iff of_type_set)
  show "substr_only (of_type Substr ms)"
    using ok pattern_okD(2) assms by (auto simp: substr_only_def list_all_iff of_type_set lin_accepts_def)
qed

definition matching :: "Type \<Rightarrow> Matcher list \<Rightarrow> gostring \<Rightarrow> u32 set" where
  "matching t ms s = {v. \<exists>m. (m, v) \<in> set (indexed ms) \<and> Matcher_Type m = t \<and> Matcher_Match m s}"

lemma matching_of_type: "{v. \<exists>m. (m, v) \<in> set (of_type t ms) \<and> Matcher_Match m s} = matching t ms s"
  by (auto simp: matching_def of_type_set)

lemma lin_Match_parts:
  assumes "lin_accepts ms"
  obtains f d u r where "lin_Match (lin_build ms) s = Some (f @ d @ u @ r)" "set f = matching Full ms s"
    "set d = matching Domain ms s" "set u = matching Substr ms s" "set r = matching Regex ms s"
    "lin_MatchAny (lin_build ms) s \<longleftrightarrow> f @ d @ u @ r \<noteq> []"
proof -
  note ok = lin_accepts_groups [OF assms]
  obtain u where u: "substr_Match (substr_build (of_type Substr ms)) s = Some u" "set u = matching Substr ms s"
    using substr_Match_law [OF ok(3), of s] unfolding matching_of_type by blast
  let ?f = "full_Match (full_build (of_type Full ms)) s" and ?d = "domain_Match (domain_build (of_type Domain ms)) s"
    and ?r = "simple_Match (simple_build (of_type Regex ms)) s"
  have sets: "set ?f = matching Full ms s" "set ?d = matching Domain ms s" "set ?r = matching Regex ms s"
    using full_Match_law [OF ok(1)] domain_Match_law [OF ok(2)] matching_of_type
    by (simp_all add: set_values_of simple_Match_law simple_build_id)
  have none: "matching t ms s = {}" if "of_type t ms = []" for t using that matching_of_type [of t ms s] by simp
  have f: "concat (case group_of full_build (of_type Full ms) of None \<Rightarrow> [] | Some f \<Rightarrow> nonempty (full_Match f s)) = ?f"
    using sets(1) none [of Full] by (cases "of_type Full ms = []") (auto simp: group_of_def)
  have d: "concat (case group_of domain_build (of_type Domain ms) of None \<Rightarrow> [] | Some d \<Rightarrow> nonempty (domain_Match d s)) = ?d"
    using sets(2) none [of Domain] by (cases "of_type Domain ms = []") (auto simp: group_of_def)
  have r: "concat (case group_of simple_build (of_type Regex ms) of None \<Rightarrow> [] | Some r \<Rightarrow> nonempty (simple_Match r s)) = ?r"
    using sets(3) none [of Regex] by (cases "of_type Regex ms = []") (auto simp: group_of_def)
  obtain us where us: "(case group_of substr_build (of_type Substr ms) of None \<Rightarrow> Some [] | Some u \<Rightarrow> map_option nonempty (substr_Match u s)) = Some us"
    "concat us = u" using u none [of Substr] by (cases "of_type Substr ms = []") (auto simp: group_of_def)
  have "lin_Match (lin_build ms) s = Some (?f @ ?d @ u @ ?r)"
    by (simp add: lin_Match_def lin_build_law Let_def us f d r)
  moreover have "lin_MatchAny (lin_build ms) s \<longleftrightarrow> ?f @ ?d @ u @ ?r \<noteq> []"
  proof -
    have 1: "(case group_of full_build (of_type Full ms) of None \<Rightarrow> False | Some f \<Rightarrow> full_MatchAny f s) \<longleftrightarrow> ?f \<noteq> []"
      using full_MatchAny_law [OF ok(1), of s] full_Match_law [OF ok(1), of s] by (simp add: group_of_def)
    have 2: "(case group_of domain_build (of_type Domain ms) of None \<Rightarrow> False | Some f \<Rightarrow> domain_MatchAny f s) \<longleftrightarrow> ?d \<noteq> []"
      using sets(2) none [of Domain] by (cases "of_type Domain ms = []") (auto simp: group_of_def domain_MatchAny_law)
    have 3: "(case group_of substr_build (of_type Substr ms) of None \<Rightarrow> False | Some f \<Rightarrow> substr_MatchAny f s) \<longleftrightarrow> u \<noteq> []"
      using u(2) substr_MatchAny_law [OF ok(3), of s] none [of Substr] unfolding matching_of_type [symmetric]
      by (auto simp: group_of_def simp flip: set_empty)
    have 4: "(case group_of simple_build (of_type Regex ms) of None \<Rightarrow> False | Some f \<Rightarrow> simple_MatchAny f s) \<longleftrightarrow> ?r \<noteq> []"
      by (simp add: group_of_def simple_MatchAny_law simple_build_id simple_Match_law values_of_nonempty)
    show ?thesis by (simp add: lin_MatchAny_def lin_build_law 1 2 3 4)
  qed
  ultimately show thesis using that sets u(2) by blast
qed

lemma matching_all:
  "matching Full ms s \<union> (matching Domain ms s \<union> (matching Substr ms s \<union> matching Regex ms s))
    = {v. \<exists>m. (m, v) \<in> set (indexed ms) \<and> Matcher_Match m s}"
proof -
  have "Matcher_Type m = Full \<or> Matcher_Type m = Domain \<or> Matcher_Type m = Substr \<or> Matcher_Type m = Regex" for m
    by (cases m) auto
  then show ?thesis unfolding matching_def by blast
qed

lemma indexed_any: "{v. \<exists>m. (m, v) \<in> set (indexed ms) \<and> Matcher_Match m s} \<noteq> {} \<longleftrightarrow> (\<exists>m \<in> set ms. Matcher_Match m s)"
  unfolding set_indexed using list_ex_length [of "\<lambda>m. Matcher_Match m s" ms] by (auto simp: list_ex_iff simp del: of_nat_Suc)

lemma lin_MatchAny_matchers:
  assumes "lin_accepts ms"
  shows "lin_MatchAny (lin_build ms) s \<longleftrightarrow> (\<exists>m \<in> set ms. Matcher_Match m s)"
proof -
  obtain f d u r where l: "lin_Match (lin_build ms) s = Some (f @ d @ u @ r)" "set f = matching Full ms s"
    "set d = matching Domain ms s" "set u = matching Substr ms s" "set r = matching Regex ms s"
    "lin_MatchAny (lin_build ms) s \<longleftrightarrow> f @ d @ u @ r \<noteq> []" by (rule lin_Match_parts [OF assms])
  have "f @ d @ u @ r \<noteq> [] \<longleftrightarrow> set (f @ d @ u @ r) \<noteq> {}" by (simp only: set_empty)
  then show ?thesis unfolding l(6) set_append l(2-5) matching_all indexed_any .
qed

section \<open>Properties\<close>

text \<open>
  C21: the linear index matcher meets the specification of \<^verbatim>\<open>IndexMatcher\<close>. After adding any matchers whose
  patterns are sensible, \<^verbatim>\<open>MatchAny\<close> tells whether one of them matches the input, \<^verbatim>\<open>Match\<close> returns, and what it returns are the
  indices of exactly the matchers that match, those of full matchers before those of domain matchers,
  then substring matchers, then regular expressions.
\<close>

theorem linear_index_matcher_correct:
  assumes "list_all pattern_ok ms" "length (of_type Substr ms) \<le> 65536"
  shows "(lin_MatchAny (lin_build ms) s \<longleftrightarrow> (\<exists>m \<in> set ms. Matcher_Match m s))
    \<and> (\<exists>f d u r. lin_Match (lin_build ms) s = Some (f @ d @ u @ r) \<and> set f = matching Full ms s \<and> set d = matching Domain ms s
        \<and> set u = matching Substr ms s \<and> set r = matching Regex ms s
        \<and> set (f @ d @ u @ r) = {of_nat (Suc k) |k. k < length ms \<and> Matcher_Match (ms ! k) s})"
proof -
  obtain f d u r where l: "lin_Match (lin_build ms) s = Some (f @ d @ u @ r)" "set f = matching Full ms s"
    "set d = matching Domain ms s" "set u = matching Substr ms s" "set r = matching Regex ms s"
    "lin_MatchAny (lin_build ms) s \<longleftrightarrow> f @ d @ u @ r \<noteq> []" using lin_Match_parts [of ms s] assms unfolding lin_accepts_def by blast
  have set: "set (f @ d @ u @ r) = {v. \<exists>m. (m, v) \<in> set (indexed ms) \<and> Matcher_Match m s}"
    unfolding set_append l(2-5) by (rule matching_all)
  also have "\<dots> = {of_nat (Suc k) |k. k < length ms \<and> Matcher_Match (ms ! k) s}" unfolding set_indexed by blast
  finally have idx: "set (f @ d @ u @ r) = {of_nat (Suc k) |k. k < length ms \<and> Matcher_Match (ms ! k) s}" .
  have "f @ d @ u @ r \<noteq> [] \<longleftrightarrow> set (f @ d @ u @ r) \<noteq> {}" by (simp only: set_empty)
  also have "\<dots> \<longleftrightarrow> (\<exists>m \<in> set ms. Matcher_Match m s)" unfolding idx using list_ex_length [of "\<lambda>m. Matcher_Match m s" ms] by (simp add: list_ex_iff del: of_nat_Suc)
  finally have "lin_MatchAny (lin_build ms) s \<longleftrightarrow> (\<exists>m \<in> set ms. Matcher_Match m s)" using l(6) by simp
  with l(1-5) idx show ?thesis by (intro conjI exI) assumption+
qed

theorem linear_index_matcher_correct_witness:
  "lin_MatchAny (lin_build [FullMatcher (bytes_of ''a.b''), DomainMatcher (bytes_of ''b'')]) (bytes_of ''x.b'')"
proof -
  let ?ms = "[FullMatcher (bytes_of ''a.b''), DomainMatcher (bytes_of ''b'')]"
  have "list_all pattern_ok ?ms" "length (of_type Substr ?ms) \<le> 65536"
    by (simp_all add: pattern_ok_def bytes_of_def dot_def of_type_def indexed_def)
  from linear_index_matcher_correct [OF this, of "bytes_of ''x.b''"]
  show ?thesis by (simp add: HasSuffix_def bytes_of_def dot_def)
qed

text \<open>
  C36: \<^verbatim>\<open>SubstrMatcherGroup.Match\<close> returns on every input exactly when no pattern is the empty string; with an empty pattern
  it runs forever (whenever the entries for the patterns before it are found).
\<close>

theorem substr_match_returns:
  assumes "length ms \<le> 65536" "list_all (\<lambda>(m, v). Matcher_Type m = Substr) ms"
  shows "substr_Match (substr_build ms) s = None \<longleftrightarrow> (\<exists>v. (SubstrMatcher [], v) \<in> set ms)"
proof -
  have sub: "m = SubstrMatcher (Pattern m)" if "(m, v) \<in> set ms" for m v
    using that assms(2) by (cases m) (auto simp: list_all_iff)
  show ?thesis
  proof
    assume none: "substr_Match (substr_build ms) s = None"
    then have "\<not> substr_only ms" using substr_Match_law [of ms s] by auto
    then obtain m v where "(m, v) \<in> set ms" "Pattern m = []" using assms by (auto simp: substr_only_def list_all_iff)
    with sub show "\<exists>v. (SubstrMatcher [], v) \<in> set ms" by metis
  next
    assume "\<exists>v. (SubstrMatcher [], v) \<in> set ms"
    then have "[] \<in> set (map (Pattern \<circ> fst) ms)" by force
    then have "substr_entries s i (map (Pattern \<circ> fst) ms) result = None" for i result
    proof (induction "map (Pattern \<circ> fst) ms" arbitrary: ms i result)
      case (Cons p ps)
      then obtain m ms' where ms: "ms = m # ms'" "ps = map (Pattern \<circ> fst) ms'" "p = Pattern (fst m)" by auto
      show ?case
      proof (cases "p = []")
        case True
        then show ?thesis using substr_loop_empty [of s i result] by (simp add: ms LastIndex_empty)
      next
        case False
        then have "[] \<in> set (map (Pattern \<circ> fst) ms')" using Cons.prems by (auto simp: ms)
        with Cons.hyps(1) [OF ms(2)] show ?thesis by (auto simp: ms split: option.splits)
      qed
    qed simp
    then show "substr_Match (substr_build ms) s = None" by (simp add: substr_Match_def substr_build_law)
  qed
qed

theorem substr_match_returns_witness:
  "substr_Match (substr_build [(SubstrMatcher [], 1)]) [97] = None"
  using substr_match_returns [of "[(SubstrMatcher [], 1)]" "[97]"] by simp

lemma ToDomain_scan_law: "ToDomain_scan s = Inr True \<Longrightarrow> list_all LDH s" "list_all (\<lambda>c. c < 128) s \<Longrightarrow> ToDomain_scan s \<noteq> Inr False"
  by (induction s rule: ToDomain_scan.induct) (auto split: if_splits)

text \<open>
  C37: \<^verbatim>\<open>ToDomain\<close> returns, and what it accepts consists of letters, digits, hyphens and dots only, whenever the
  Punycode conversion produces ASCII (as it is documented to do).
\<close>

theorem ToDomain_LDH:
  assumes "\<And>p q. ToASCII p = Inr q \<Longrightarrow> list_all (\<lambda>c. c < 128) q"
  shows "\<exists>r. ToDomain ToASCII pattern = Some r \<and> (case r of Inl e \<Rightarrow> True | Inr p \<Rightarrow> list_all LDH p)"
proof -
  have ascii: "\<exists>r. ToDomain ToASCII p = Some r \<and> (case r of Inl e \<Rightarrow> True | Inr p \<Rightarrow> list_all LDH p)"
    if "ToDomain_scan p \<noteq> Inr False" for p
    using that ToDomain_scan_law(1) [of p] by (subst ToDomain.simps) (auto split: sum.splits)
  show ?thesis
  proof (cases "ToDomain_scan pattern = Inr False")
    case True
    show ?thesis
    proof (cases "ToASCII pattern")
      case (Inr q)
      have "\<exists>r. ToDomain ToASCII q = Some r \<and> (case r of Inl e \<Rightarrow> True | Inr p \<Rightarrow> list_all LDH p)"
        using ascii [of q] ToDomain_scan_law(2) [OF assms [OF Inr]] by blast
      with True Inr show ?thesis by (subst ToDomain.simps) simp
    qed (use True in \<open>subst ToDomain.simps, simp\<close>)
  qed (rule ascii)
qed

theorem ToDomain_LDH_witness:
  "\<exists>r. ToDomain (\<lambda>p. Inr (filter (\<lambda>c. c < 128) p)) [200, 97] = Some r \<and> (case r of Inl e \<Rightarrow> True | Inr p \<Rightarrow> list_all LDH p)"
  by (rule ToDomain_LDH) (auto simp: list_all_iff)

end
