(* ===== verification/Mph.thy ===== *)
theory Mph
  imports StrMatcher "HOL-Library.Mapping"
begin

text \<open>
  \<^verbatim>\<open>common/strmatcher/matchergroup_mph.go\<close> and \<^verbatim>\<open>indexmatcher_mph.go\<close>: the minimal perfect hash table for
  full and domain patterns (Rabin-Karp over the labels, then hash, displace and compress), and the index matcher the
  router uses by default, composed of that table, the Aho-Corasick automaton and a list of regular expressions.

  \<open>strhash\<close> is the hash function of the Go runtime and \<open>unicode\<close> the part of \<^verbatim>\<open>strings.ToLower\<close> for strings that
  are not ASCII; both are parameters, and nothing is assumed of either. Indices of rules are \<^verbatim>\<open>uint32\<close>. The
  order of equally large buckets, which \<^verbatim>\<open>sort.Slice\<close> leaves open, is that of \<open>sort_key\<close>; the answers do not depend
  on it.
\<close>

section \<open>The table\<close>

definition lower :: "byte \<Rightarrow> byte" where
  "lower c = (if 65 \<le> c \<and> c \<le> 90 then c + 32 else c)"

definition ToLower :: "(gostring \<Rightarrow> gostring) \<Rightarrow> gostring \<Rightarrow> gostring" where
  "ToLower unicode s = (if list_all (\<lambda>c. c < 128) s then map lower s else unicode s)"

definition PrimeRK :: u32 where
  "PrimeRK = 16777619"

definition RollingHash :: "u32 \<Rightarrow> gostring \<Rightarrow> u32" where
  "RollingHash hash input = fold (\<lambda>c hash. hash * PrimeRK + ucast c) (rev input) hash"

definition MemHash :: "(gostring \<Rightarrow> u64 \<Rightarrow> u64) \<Rightarrow> u32 \<Rightarrow> gostring \<Rightarrow> u32" where
  "MemHash strhash seed input = ucast (strhash input (ucast seed))"

record mphRuleInfo =
  ri_rollingHash :: u32
  ri_matchers :: "u32 list list"

record MphMatcherGroup =
  mp_rules :: "gostring list"
  mp_values :: "u32 list list"
  mp_level0 :: "u32 list"
  mp_level0Mask :: u32
  mp_level1 :: "u32 list"
  mp_level1Mask :: u32
  mp_ruleInfos :: "(gostring, mphRuleInfo) mapping option"

definition NewMphMatcherGroup :: MphMatcherGroup where
  "NewMphMatcherGroup = \<lparr>mp_rules = [[]], mp_values = [[]], mp_level0 = [], mp_level0Mask = 0, mp_level1 = [], mp_level1Mask = 0,
     mp_ruleInfos = Some Mapping.empty\<rparr>"

definition mph_addPattern :: "u32 \<Rightarrow> gostring \<Rightarrow> gostring \<Rightarrow> Type \<Rightarrow> u32 \<Rightarrow> MphMatcherGroup \<Rightarrow> (u32 \<times> MphMatcherGroup) result" where
  "mph_addPattern suffixHash suffixPattern pattern t v g =
     (case mp_ruleInfos g of
        None \<Rightarrow> Inl Panic
      | Some ruleInfos \<Rightarrow>
          let fullPattern = pattern @ suffixPattern;
              (info, g) = (case Mapping.lookup ruleInfos fullPattern of
                 Some info \<Rightarrow> (info, g)
               | None \<Rightarrow> (\<lparr>ri_rollingHash = RollingHash suffixHash pattern, ri_matchers = [[], []]\<rparr>,
                          g\<lparr>mp_rules := mp_rules g @ [fullPattern], mp_values := mp_values g @ [[]]\<rparr>));
              info = info\<lparr>ri_matchers := (ri_matchers info)[Type_index t := ri_matchers info ! Type_index t @ [v]]\<rparr>
          in Inr (ri_rollingHash info, g\<lparr>mp_ruleInfos := Some (Mapping.update fullPattern info ruleInfos)\<rparr>))"

definition mph_AddFullMatcher :: "(gostring \<Rightarrow> gostring) \<Rightarrow> gostring \<Rightarrow> u32 \<Rightarrow> MphMatcherGroup \<Rightarrow> MphMatcherGroup result" where
  "mph_AddFullMatcher unicode p v g =
     bind_res (mph_addPattern 0 [] (ToLower unicode p) Full v g) (\<lambda>(hash, g). Inr g)"

definition mph_AddDomainMatcher :: "(gostring \<Rightarrow> gostring) \<Rightarrow> gostring \<Rightarrow> u32 \<Rightarrow> MphMatcherGroup \<Rightarrow> MphMatcherGroup result" where
  "mph_AddDomainMatcher unicode p v g =
     bind_res (mph_addPattern 0 [] (ToLower unicode p) Domain v g) (\<lambda>(hash, g).
     bind_res (mph_addPattern hash (ToLower unicode p) [dot] Domain v g) (\<lambda>(hash, g). Inr g))"

fun bit_len :: "nat \<Rightarrow> nat" where
  "bit_len n = (if n = 0 then 0 else Suc (bit_len (n div 2)))"

declare bit_len.simps [simp del]

definition LeadingZeros :: "nat \<Rightarrow> nat" where
  "LeadingZeros v = 64 - bit_len v"

definition nextPow2 :: "nat \<Rightarrow> nat" where
  "nextPow2 v = (if v \<le> 1 then 1 else unat (drop_bit (LeadingZeros v) (- 1 :: u64) + 1))"

text \<open>The loop of \<^verbatim>\<open>Build\<close> that fills the buckets and the values. A missing key reads as the zero value.\<close>

definition ruleInfo_at :: "(gostring, mphRuleInfo) mapping \<Rightarrow> gostring \<Rightarrow> mphRuleInfo" where
  "ruleInfo_at ruleInfos p = (case Mapping.lookup ruleInfos p of Some info \<Rightarrow> info | None \<Rightarrow> \<lparr>ri_rollingHash = 0, ri_matchers = [[], []]\<rparr>)"

definition bucket_step :: "(gostring, mphRuleInfo) mapping \<Rightarrow> gostring list \<Rightarrow> u32 \<Rightarrow> nat \<Rightarrow> u32 list list \<times> u32 list list
    \<Rightarrow> u32 list list \<times> u32 list list" where
  "bucket_step ruleInfos rules level0Mask ruleIdx st =
     (case st of (buckets, vals) \<Rightarrow>
        let ruleInfo = ruleInfo_at ruleInfos (rules ! ruleIdx);
            bucketIdx = unat (ri_rollingHash ruleInfo AND level0Mask)
        in (buckets[bucketIdx := buckets ! bucketIdx @ [of_nat ruleIdx]],
            vals[ruleIdx := ri_matchers ruleInfo ! Type_index Full @ ri_matchers ruleInfo ! Type_index Domain]))"

text \<open>One pass over a bucket with one seed: whether it collided, and the table afterwards.\<close>

fun place_bucket :: "(u32 \<Rightarrow> nat) \<Rightarrow> u32 list \<Rightarrow> bool list \<Rightarrow> u32 list \<Rightarrow> nat list \<Rightarrow> bool \<times> bool list \<times> u32 list \<times> nat list" where
  "place_bucket slot [] occupied level1 hashedBucket = (False, occupied, level1, hashedBucket)"
| "place_bucket slot (ruleIdx # rest) occupied level1 hashedBucket =
     (let memHash = slot ruleIdx in
      if occupied ! memHash then
        (True, fold (\<lambda>hash occ. occ[hash := False]) hashedBucket occupied, fold (\<lambda>hash l. l[hash := 0]) hashedBucket level1, [])
      else place_bucket slot rest (occupied[memHash := True]) (level1[memHash := ruleIdx]) (hashedBucket @ [memHash]))"

text \<open>The search for the seed of a bucket, which may not end.\<close>

partial_function (option) seed_loop :: "(u32 \<Rightarrow> u32 \<Rightarrow> nat) \<Rightarrow> u32 list \<Rightarrow> u32 \<Rightarrow> bool list \<Rightarrow> u32 list \<Rightarrow> nat list
    \<Rightarrow> (u32 \<times> bool list \<times> u32 list) option" where
  "seed_loop slot bucket seed occupied level1 hashedBucket =
     (if length hashedBucket = length bucket then Some (seed, occupied, level1)
      else let r = place_bucket (slot seed) bucket occupied level1 hashedBucket
           in seed_loop slot bucket (if fst r then seed + 1 else seed) (fst (snd r)) (fst (snd (snd r))) (snd (snd (snd r))))"

fun place_buckets :: "(u32 \<Rightarrow> u32 \<Rightarrow> nat) \<Rightarrow> u32 list list \<Rightarrow> nat list \<Rightarrow> u32 list \<Rightarrow> bool list \<Rightarrow> u32 list
    \<Rightarrow> (u32 list \<times> u32 list) option" where
  "place_buckets slot buckets [] level0 occupied level1 = Some (level0, level1)"
| "place_buckets slot buckets (bucketIdx # rest) level0 occupied level1 =
     (case seed_loop slot (buckets ! bucketIdx) 0 occupied level1 [] of
        None \<Rightarrow> None
      | Some (seed, occupied, level1) \<Rightarrow> place_buckets slot buckets rest (level0[bucketIdx := seed]) occupied level1)"

definition mem_slot :: "(gostring \<Rightarrow> u64 \<Rightarrow> u64) \<Rightarrow> gostring list \<Rightarrow> u32 \<Rightarrow> u32 \<Rightarrow> u32 \<Rightarrow> nat" where
  "mem_slot strhash rules level1Mask seed ruleIdx = unat (MemHash strhash seed (rules ! unat ruleIdx) AND level1Mask)"

definition mph_Build :: "(gostring \<Rightarrow> u64 \<Rightarrow> u64) \<Rightarrow> MphMatcherGroup \<Rightarrow> MphMatcherGroup result option" where
  "mph_Build strhash g =
     (case mp_ruleInfos g of
        None \<Rightarrow> Some (Inl Panic)
      | Some ruleInfos \<Rightarrow>
          let ruleCount = Mapping.size ruleInfos;
              level0 = replicate (nextPow2 (ruleCount div 4)) 0;
              level0Mask = of_nat (length level0 - 1);
              level1 = replicate (nextPow2 ruleCount) 0;
              level1Mask = of_nat (length level1 - 1);
              (buckets, vals) = fold (bucket_step ruleInfos (mp_rules g) level0Mask) [1..<length (mp_rules g)]
                                  (replicate (length level0) [], mp_values g);
              bucketIdxs = sort_key (\<lambda>b. - int (length (buckets ! b))) [0..<length buckets]
          in map_option (\<lambda>(level0, level1). Inr (g\<lparr>mp_values := vals, mp_level0 := level0, mp_level0Mask := level0Mask,
                 mp_level1 := level1, mp_level1Mask := level1Mask, mp_ruleInfos := None\<rparr>))
               (place_buckets (mem_slot strhash (mp_rules g) level1Mask) buckets bucketIdxs level0
                  (replicate (length level1) False) level1))"

definition mph_Lookup :: "(gostring \<Rightarrow> u64 \<Rightarrow> u64) \<Rightarrow> MphMatcherGroup \<Rightarrow> u32 \<Rightarrow> gostring \<Rightarrow> nat" where
  "mph_Lookup strhash g rollingHash input =
     (let i0 = unat (rollingHash AND mp_level0Mask g);
          seed = mp_level0 g ! i0;
          i1 = unat (MemHash strhash seed input AND mp_level1Mask g);
          n = unat (mp_level1 g ! i1)
      in if mp_rules g ! n = input then n else 0)"

text \<open>The loops of \<^verbatim>\<open>Match\<close> and \<^verbatim>\<open>MatchAny\<close>, over the input from its last byte on; \<open>suf\<close> is \<^verbatim>\<open>input[i+1:]\<close>.\<close>

fun mph_Match_loop :: "(gostring \<Rightarrow> u64 \<Rightarrow> u64) \<Rightarrow> MphMatcherGroup \<Rightarrow> gostring \<Rightarrow> gostring \<Rightarrow> u32 \<Rightarrow> u32 list list
    \<Rightarrow> u32 \<times> u32 list list" where
  "mph_Match_loop strhash g [] suf hash matches = (hash, matches)"
| "mph_Match_loop strhash g (c # cs) suf hash matches =
     (let hash = hash * PrimeRK + ucast c;
          matches = (if c = dot then
                       let mphIdx = mph_Lookup strhash g hash (c # suf)
                       in if mphIdx \<noteq> 0 then matches @ [mp_values g ! mphIdx] else matches
                     else matches)
      in mph_Match_loop strhash g cs (c # suf) hash matches)"

definition mph_Match :: "(gostring \<Rightarrow> u64 \<Rightarrow> u64) \<Rightarrow> MphMatcherGroup \<Rightarrow> gostring \<Rightarrow> u32 list" where
  "mph_Match strhash g input =
     (let (hash, matches) = mph_Match_loop strhash g (rev input) [] 0 [];
          mphIdx = mph_Lookup strhash g hash input;
          matches = (if mphIdx \<noteq> 0 then matches @ [mp_values g ! mphIdx] else matches)
      in CompositeMatchesReverse matches)"

fun mph_MatchAny_loop :: "(gostring \<Rightarrow> u64 \<Rightarrow> u64) \<Rightarrow> MphMatcherGroup \<Rightarrow> gostring \<Rightarrow> gostring \<Rightarrow> u32 \<Rightarrow> bool" where
  "mph_MatchAny_loop strhash g [] suf hash \<longleftrightarrow> mph_Lookup strhash g hash suf \<noteq> 0"
| "mph_MatchAny_loop strhash g (c # cs) suf hash \<longleftrightarrow>
     (let hash = hash * PrimeRK + ucast c
      in if c = dot \<and> mph_Lookup strhash g hash (c # suf) \<noteq> 0 then True
         else mph_MatchAny_loop strhash g cs (c # suf) hash)"

definition mph_MatchAny :: "(gostring \<Rightarrow> u64 \<Rightarrow> u64) \<Rightarrow> MphMatcherGroup \<Rightarrow> gostring \<Rightarrow> bool" where
  "mph_MatchAny strhash g input = mph_MatchAny_loop strhash g (rev input) [] 0"

section \<open>Powers of two and masks\<close>

lemma bit_len_bounds: "n < 2 ^ bit_len n" "n \<noteq> 0 \<Longrightarrow> 2 ^ bit_len n \<le> 2 * n"
proof (induction n rule: bit_len.induct)
  case (1 n)
  { case 1 show ?case using "1.IH"(1) by (subst bit_len.simps) (cases "n = 0", auto) }
  { case 2
    show ?case
    proof (cases "n div 2 = 0")
      case True
      with 2 have "n = 1" by simp
      then show ?thesis by (simp add: bit_len.simps)
    next
      case False
      then show ?thesis using "1.IH"(2) 2 by (subst bit_len.simps) (auto simp: dest!: "1.IH"(2))
    qed }
qed

lemma nextPow2_law:
  assumes "v < 2 ^ 31"
  shows "\<exists>k \<le> 31. nextPow2 v = 2 ^ k"
proof (cases "v \<le> 1")
  case True
  then show ?thesis by (intro exI [of _ 0]) (simp add: nextPow2_def)
next
  case False
  have "2 ^ bit_len v \<le> 2 * v" using bit_len_bounds(2) [of v] False by simp
  then have "(2 :: nat) ^ bit_len v < 2 ^ 32" using assms by simp
  then have k: "bit_len v \<le> 31" using power_less_imp_less_exp [of "2 :: nat" "bit_len v" 32] by simp
  have m: "(- 1 :: u64) = mask 64" by (simp add: mask_eq_exp_minus_1)
  have "drop_bit (LeadingZeros v) (- 1 :: u64) = mask (bit_len v)"
    unfolding m LeadingZeros_def using k by (intro bit_word_eqI) (auto simp: bit_drop_bit_eq bit_mask_iff)
  then have "drop_bit (LeadingZeros v) (- 1 :: u64) + 1 = 2 ^ bit_len v" by (simp add: mask_eq_exp_minus_1)
  moreover have "unat (of_nat (2 ^ bit_len v) :: u64) = 2 ^ bit_len v" using \<open>2 ^ bit_len v < 2 ^ 32\<close> by (simp only: unat_of_nat) simp
  ultimately show ?thesis using k False by (intro exI [of _ "bit_len v"]) (simp add: nextPow2_def)
qed

lemma and_mask_less: "k \<le> 31 \<Longrightarrow> unat (w AND of_nat (2 ^ k - 1) :: u32) < 2 ^ k"
proof -
  assume k: "k \<le> 31"
  have "(of_nat (2 ^ k - 1) :: u32) = mask k" by (simp add: of_nat_diff mask_eq_exp_minus_1)
  then have "w AND of_nat (2 ^ k - 1) = take_bit k w" by (simp add: take_bit_eq_mask)
  then show ?thesis by (simp add: unsigned_take_bit_eq)
qed

lemma RollingHash_append: "RollingHash h (a @ b) = RollingHash (RollingHash h b) a"
  by (simp add: RollingHash_def)

lemma RollingHash_Cons: "RollingHash h s * PrimeRK + ucast c = RollingHash h (c # s)"
  by (simp add: RollingHash_def)

section \<open>Adding patterns\<close>

text \<open>The rules of a matcher, and the values registered for a rule.\<close>

fun mph_words :: "(gostring \<Rightarrow> gostring) \<Rightarrow> Matcher \<Rightarrow> gostring list" where
  "mph_words unicode (FullMatcher p) = [ToLower unicode p]"
| "mph_words unicode (DomainMatcher p) = [ToLower unicode p, dot # ToLower unicode p]"
| "mph_words unicode (SubstrMatcher p) = []"
| "mph_words unicode (RegexMatcher p f) = []"

definition mph_acc :: "(gostring \<Rightarrow> gostring) \<Rightarrow> (Matcher \<times> u32) list \<Rightarrow> gostring \<Rightarrow> Type \<Rightarrow> u32 list" where
  "mph_acc unicode ms x t = values_of ms (\<lambda>m. Matcher_Type m = t \<and> x \<in> set (mph_words unicode m))"

definition info_of :: "(gostring \<Rightarrow> Type \<Rightarrow> u32 list) \<Rightarrow> gostring \<Rightarrow> mphRuleInfo" where
  "info_of acc x = \<lparr>ri_rollingHash = RollingHash 0 x, ri_matchers = [acc x Full, acc x Domain]\<rparr>"

text \<open>The state while patterns are added; \<open>acc\<close> are the values registered for the rules.\<close>

definition has_rule :: "(gostring \<Rightarrow> Type \<Rightarrow> u32 list) \<Rightarrow> gostring \<Rightarrow> bool" where
  "has_rule acc x \<longleftrightarrow> acc x Full \<noteq> [] \<or> acc x Domain \<noteq> []"

definition mph_inv :: "(gostring \<Rightarrow> Type \<Rightarrow> u32 list) \<Rightarrow> MphMatcherGroup \<Rightarrow> bool" where
  "mph_inv acc g \<longleftrightarrow> (\<exists>infos xs. mp_ruleInfos g = Some infos \<and> mp_rules g = [] # xs \<and> distinct xs \<and> length (mp_values g) = Suc (length xs)
     \<and> (\<forall>x. Mapping.lookup infos x = (if x \<in> set xs then Some (info_of acc x) else None))
     \<and> (\<forall>x. x \<in> set xs \<longleftrightarrow> has_rule acc x))"

definition reg :: "gostring \<Rightarrow> Type \<Rightarrow> u32 \<Rightarrow> (gostring \<Rightarrow> Type \<Rightarrow> u32 list) \<Rightarrow> gostring \<Rightarrow> Type \<Rightarrow> u32 list" where
  "reg x t v acc = acc(x := (acc x)(t := acc x t @ [v]))"

lemma info_of_put: "t \<in> {Full, Domain} \<Longrightarrow> info_of (reg x t v acc) y =
    (if y = x then (info_of acc x)\<lparr>ri_matchers := (ri_matchers (info_of acc x))[Type_index t := ri_matchers (info_of acc x) ! Type_index t @ [v]]\<rparr> else info_of acc y)"
  by (auto simp: info_of_def reg_def)

lemma mph_addPattern_law:
  assumes "mph_inv acc g" "h = RollingHash 0 suf" "t \<in> {Full, Domain}"
  shows "\<exists>g'. mph_addPattern h suf p t v g = Inr (RollingHash 0 (p @ suf), g') \<and> mph_inv (reg (p @ suf) t v acc) g'
    \<and> length (mp_rules g') \<le> Suc (length (mp_rules g))"
proof -
  let ?x = "p @ suf"
  obtain infos xs where g: "mp_ruleInfos g = Some infos" "mp_rules g = [] # xs" "distinct xs" "length (mp_values g) = Suc (length xs)"
    "\<And>x. Mapping.lookup infos x = (if x \<in> set xs then Some (info_of acc x) else None)"
    "\<And>x. x \<in> set xs \<longleftrightarrow> has_rule acc x"
    using assms(1) unfolding mph_inv_def by blast
  have tn: "Type_index t < 2" using assms(3) by auto
  have lk: "Mapping.lookup (Mapping.update ?x i infos) y = (if y = ?x then Some i else Mapping.lookup infos y)" for i y
    by (simp add: lookup_update')
  have acc': "has_rule (reg ?x t v acc) y \<longleftrightarrow> y = ?x \<or> has_rule acc y" for y
    using assms(3) by (auto simp: reg_def has_rule_def)
  show ?thesis
  proof (cases "?x \<in> set xs")
    case True
    define i where "i = info_of (reg ?x t v acc) ?x"
    have "mph_addPattern h suf p t v g = Inr (RollingHash 0 ?x, g\<lparr>mp_ruleInfos := Some (Mapping.update ?x i infos)\<rparr>)"
      unfolding mph_addPattern_def g(1) by (simp add: g(5) True i_def info_of_put [OF assms(3)] Let_def) (simp add: info_of_def)
    moreover have "mph_inv (reg ?x t v acc) (g\<lparr>mp_ruleInfos := Some (Mapping.update ?x i infos)\<rparr>)"
      unfolding mph_inv_def using g(2-4) True
      by (intro exI [of _ "Mapping.update ?x i infos"] exI [of _ xs]) (auto simp: lk g(5) i_def info_of_put [OF assms(3)] acc' simp flip: g(6))
    ultimately show ?thesis by auto
  next
    case False
    define i where "i = info_of (reg ?x t v acc) ?x"
    have a: "acc ?x Full = []" "acc ?x Domain = []" using g(6) [of ?x] False by (auto simp: has_rule_def)
    have i: "\<lparr>ri_rollingHash = RollingHash h p, ri_matchers = [[], []][Type_index t := [[], []] ! Type_index t @ [v]]\<rparr> = i"
      unfolding i_def info_of_put [OF assms(3)] by (simp add: info_of_def a assms(2) RollingHash_append)
    let ?g = "g\<lparr>mp_rules := [] # xs @ [?x], mp_values := mp_values g @ [[]], mp_ruleInfos := Some (Mapping.update ?x i infos)\<rparr>"
    have "mph_addPattern h suf p t v g = Inr (RollingHash 0 ?x, ?g)"
      unfolding mph_addPattern_def g(1) by (simp add: g(2,5) False i [symmetric] Let_def assms(2) RollingHash_append)
    moreover have "mph_inv (reg ?x t v acc) ?g"
      unfolding mph_inv_def using g(2-4) False
      by (intro exI [of _ "Mapping.update ?x i infos"] exI [of _ "xs @ [?x]"]) (auto simp: lk g(5) i_def info_of_put [OF assms(3)] acc' simp flip: g(6))
    ultimately show ?thesis using g(2) by auto
  qed
qed

fun mph_Add :: "(gostring \<Rightarrow> gostring) \<Rightarrow> Matcher \<times> u32 \<Rightarrow> MphMatcherGroup \<Rightarrow> MphMatcherGroup result" where
  "mph_Add unicode (FullMatcher p, v) g = mph_AddFullMatcher unicode p v g"
| "mph_Add unicode (DomainMatcher p, v) g = mph_AddDomainMatcher unicode p v g"
| "mph_Add unicode (m, v) g = Inr g"

definition mph_add_all :: "(gostring \<Rightarrow> gostring) \<Rightarrow> (Matcher \<times> u32) list \<Rightarrow> MphMatcherGroup result" where
  "mph_add_all unicode ms = foldl (\<lambda>r mv. bind_res r (mph_Add unicode mv)) (Inr NewMphMatcherGroup) ms"

definition mph_build :: "(gostring \<Rightarrow> gostring) \<Rightarrow> (gostring \<Rightarrow> u64 \<Rightarrow> u64) \<Rightarrow> (Matcher \<times> u32) list \<Rightarrow> MphMatcherGroup result option" where
  "mph_build unicode strhash ms = (case mph_add_all unicode ms of Inl e \<Rightarrow> Some (Inl e) | Inr g \<Rightarrow> mph_Build strhash g)"

lemma mph_inv_new: "mph_inv (mph_acc unicode []) NewMphMatcherGroup"
  unfolding mph_inv_def NewMphMatcherGroup_def
  by (intro exI [of _ Mapping.empty] exI [of _ "[]"]) (simp add: lookup_empty mph_acc_def has_rule_def)

lemma mph_acc_snoc:
  "mph_acc unicode (ms @ [(FullMatcher p, v)]) = reg (ToLower unicode p) Full v (mph_acc unicode ms)"
  "mph_acc unicode (ms @ [(DomainMatcher p, v)]) = reg (dot # ToLower unicode p) Domain v (reg (ToLower unicode p) Domain v (mph_acc unicode ms))"
  "Matcher_Type m \<notin> {Full, Domain} \<Longrightarrow> mph_acc unicode (ms @ [(m, v)]) = mph_acc unicode ms"
  by (auto simp: mph_acc_def reg_def fun_eq_iff) (cases m; simp)

lemma mph_add_all_law:
  "\<exists>g. mph_add_all unicode ms = Inr g \<and> mph_inv (mph_acc unicode ms) g \<and> length (mp_rules g) \<le> Suc (2 * length ms)"
proof (induction ms rule: rev_induct)
  case Nil
  show ?case using mph_inv_new [of unicode] by (simp add: mph_add_all_def NewMphMatcherGroup_def)
next
  case (snoc mv ms)
  obtain m v where mv: "mv = (m, v)" by (cases mv)
  obtain g where g: "mph_add_all unicode ms = Inr g" "mph_inv (mph_acc unicode ms) g" "length (mp_rules g) \<le> Suc (2 * length ms)" using snoc by blast
  have step: "mph_add_all unicode (ms @ [mv]) = mph_Add unicode mv g" using g(1) by (simp add: mph_add_all_def)
  have h0: "(0 :: u32) = RollingHash 0 []" by (simp add: RollingHash_def)
  show ?case
  proof (cases m)
    case (FullMatcher p)
    obtain g1 where 1: "mph_addPattern 0 [] (ToLower unicode p) Full v g = Inr (RollingHash 0 (ToLower unicode p), g1)"
      "mph_inv (reg (ToLower unicode p) Full v (mph_acc unicode ms)) g1" "length (mp_rules g1) \<le> Suc (length (mp_rules g))"
      using mph_addPattern_law [OF g(2) h0, of Full "ToLower unicode p" v] by auto
    then show ?thesis using g(3) unfolding step unfolding mv FullMatcher by (simp add: mph_AddFullMatcher_def mph_acc_snoc)
  next
    case (DomainMatcher p)
    obtain g1 where 1: "mph_addPattern 0 [] (ToLower unicode p) Domain v g = Inr (RollingHash 0 (ToLower unicode p), g1)"
      "mph_inv (reg (ToLower unicode p) Domain v (mph_acc unicode ms)) g1" "length (mp_rules g1) \<le> Suc (length (mp_rules g))"
      using mph_addPattern_law [OF g(2) h0, of Domain "ToLower unicode p" v] by auto
    obtain g2 where 2: "mph_addPattern (RollingHash 0 (ToLower unicode p)) (ToLower unicode p) [dot] Domain v g1 = Inr (RollingHash 0 (dot # ToLower unicode p), g2)"
      "mph_inv (reg (dot # ToLower unicode p) Domain v (reg (ToLower unicode p) Domain v (mph_acc unicode ms))) g2" "length (mp_rules g2) \<le> Suc (length (mp_rules g1))"
      using mph_addPattern_law [OF 1(2) refl, of Domain "ToLower unicode p" "[dot]" v] by auto
    from 1 2 show ?thesis using g(3) unfolding step unfolding mv DomainMatcher by (simp add: mph_AddDomainMatcher_def mph_acc_snoc)
  qed (use g step in \<open>simp_all add: mv mph_acc_snoc\<close>)
qed

section \<open>The table that \<^verbatim>\<open>Build\<close> constructs\<close>

lemma fold_update_nth: "i < length xs \<Longrightarrow> fold (\<lambda>m l. l[m := b]) ms xs ! i = (if i \<in> set ms then b else xs ! i)"
  by (induction ms arbitrary: xs) (auto simp: nth_list_update)

lemma length_fold_update [simp]: "length (fold (\<lambda>m l. l[m := b]) ms xs) = length xs"
  by (induction ms arbitrary: xs) auto

text \<open>The table with a bucket placed in it.\<close>

definition marked :: "nat list \<Rightarrow> bool list \<Rightarrow> bool list" where
  "marked ms occ = fold (\<lambda>m l. l[m := True]) ms occ"

definition placed :: "(nat \<times> u32) list \<Rightarrow> u32 list \<Rightarrow> u32 list" where
  "placed ps level1 = fold (\<lambda>(m, r) l. l[m := r]) ps level1"

lemma placed_nth:
  assumes "distinct (map fst ps)" "i < length l"
  shows "placed ps l ! i = (case map_of ps i of None \<Rightarrow> l ! i | Some r \<Rightarrow> r)" "length (placed ps l) = length l"
  using assms
proof (induction ps arbitrary: l)
  case (Cons p ps)
  obtain m r where p: "p = (m, r)" by (cases p)
  have step: "placed (p # ps) l = placed ps (l[m := r])" for l by (simp add: placed_def p)
  { case 1
    then have "map_of ps m = None" by (simp add: p map_of_eq_None_iff)
    then have "placed ps (l[m := r]) ! i = (case map_of (p # ps) i of None \<Rightarrow> l ! i | Some r \<Rightarrow> r)"
      using Cons.IH(1) [of "l[m := r]"] 1 by (auto simp: p nth_list_update split: option.split)
    then show ?case unfolding step . }
  { case 2 then show ?case using Cons.IH(2) [of "l[m := r]"] by (simp add: step) }
qed (simp_all add: placed_def)

definition fits :: "(u32 \<Rightarrow> nat) \<Rightarrow> u32 list \<Rightarrow> bool list \<Rightarrow> bool" where
  "fits slot bucket occ \<longleftrightarrow> distinct (map slot bucket) \<and> (\<forall>r \<in> set bucket. \<not> occ ! slot r)"

definition table_ok :: "bool list \<Rightarrow> u32 list \<Rightarrow> bool" where
  "table_ok occ level1 \<longleftrightarrow> length occ = length level1 \<and> (\<forall>i < length occ. \<not> occ ! i \<longrightarrow> level1 ! i = 0)"

text \<open>A pass either places the whole bucket or leaves the table as it was.\<close>

lemma place_bucket_law:
  assumes "table_ok occ level1" "\<And>r. slot r < length occ" "fits slot dn occ"
  shows "place_bucket slot rest (marked (map slot dn) occ) (placed (map (\<lambda>r. (slot r, r)) dn) level1) (map slot dn) =
    (if fits slot (dn @ rest) occ
     then (False, marked (map slot (dn @ rest)) occ, placed (map (\<lambda>r. (slot r, r)) (dn @ rest)) level1, map slot (dn @ rest))
     else (True, occ, level1, []))"
  using assms(3)
proof (induction rest arbitrary: "dn")
  case (Cons r rest)
  let ?m = "slot r" and ?d = "map slot dn"
  have occ: "marked ?d occ ! i \<longleftrightarrow> i \<in> set ?d \<or> occ ! i" if "i < length occ" for i
    using fold_update_nth [OF that, of True ?d] by (auto simp: marked_def)
  have len: "length (placed (map (\<lambda>r. (slot r, r)) dn) level1) = length level1" "length (marked ?d occ) = length occ"
    by (induction "dn" arbitrary: level1) (simp_all add: placed_def marked_def)
  show ?case
  proof (cases "marked ?d occ ! ?m")
    case True
    then have nf: "\<not> fits slot (dn @ r # rest) occ" using occ [OF assms(2)] by (auto simp: fits_def)
    have 1: "fold (\<lambda>m l. l[m := False]) ?d (marked ?d occ) = occ"
    proof (rule nth_equalityI)
      fix i assume "i < length (fold (\<lambda>m l. l[m := False]) ?d (marked ?d occ))"
      then have i: "i < length occ" using len by simp
      then show "fold (\<lambda>m l. l[m := False]) ?d (marked ?d occ) ! i = occ ! i"
        using occ [OF i] Cons.prems by (auto simp: fold_update_nth len fits_def)
    qed (simp add: len)
    have 2: "fold (\<lambda>m l. l[m := 0]) ?d (placed (map (\<lambda>r. (slot r, r)) dn) level1) = level1"
    proof (rule nth_equalityI)
      fix i assume "i < length (fold (\<lambda>m l. l[m := 0]) ?d (placed (map (\<lambda>r. (slot r, r)) dn) level1))"
      then have i: "i < length level1" using len by simp
      have d: "distinct (map fst (map (\<lambda>r. (slot r, r)) dn))" using Cons.prems by (simp add: fits_def comp_def)
      show "fold (\<lambda>m l. l[m := 0]) ?d (placed (map (\<lambda>r. (slot r, r)) dn) level1) ! i = level1 ! i"
      proof (cases "i \<in> set ?d")
        case True
        then have "level1 ! i = 0" using assms(1) Cons.prems i by (auto simp: table_ok_def fits_def)
        then show ?thesis using i True by (simp add: fold_update_nth len)
      next
        case False
        then have "map_of (map (\<lambda>r. (slot r, r)) dn) i = None" by (auto simp: map_of_eq_None_iff)
        then show ?thesis using i False placed_nth(1) [OF d i] by (simp add: fold_update_nth len)
      qed
    qed (simp add: len)
    show ?thesis using True nf by (simp add: 1 2)
  next
    case False
    then have f: "fits slot (dn @ [r]) occ" using occ [OF assms(2)] Cons.prems by (auto simp: fits_def)
    have m: "(marked ?d occ)[?m := True] = marked (map slot (dn @ [r])) occ" by (simp add: marked_def)
    have p: "(placed (map (\<lambda>r. (slot r, r)) dn) level1)[?m := r] = placed (map (\<lambda>r. (slot r, r)) (dn @ [r])) level1" by (simp add: placed_def)
    have "place_bucket slot (r # rest) (marked ?d occ) (placed (map (\<lambda>r. (slot r, r)) dn) level1) ?d
        = place_bucket slot rest (marked (map slot (dn @ [r])) occ) (placed (map (\<lambda>r. (slot r, r)) (dn @ [r])) level1) (map slot (dn @ [r]))"
      using False by (simp add: m p del: map_append) simp
    also have "\<dots> = (if fits slot ((dn @ [r]) @ rest) occ
     then (False, marked (map slot ((dn @ [r]) @ rest)) occ, placed (map (\<lambda>r. (slot r, r)) ((dn @ [r]) @ rest)) level1, map slot ((dn @ [r]) @ rest))
     else (True, occ, level1, []))" by (rule Cons.IH [OF f])
    finally show ?thesis by simp
  qed
qed simp

lemma place_bucket_start:
  assumes "table_ok occ level1" "\<And>r. slot r < length occ"
  shows "place_bucket slot bucket occ level1 [] =
    (if fits slot bucket occ then (False, marked (map slot bucket) occ, placed (map (\<lambda>r. (slot r, r)) bucket) level1, map slot bucket)
     else (True, occ, level1, []))"
  using place_bucket_law [of occ level1 slot "[]" bucket, OF assms] by (simp add: marked_def placed_def fits_def)

lemma seed_loop_step:
  assumes "table_ok occ level1" "\<And>seed r. slot seed r < length occ" "bucket \<noteq> []"
  shows "seed_loop slot bucket seed occ level1 [] =
    (if fits (slot seed) bucket occ
     then Some (seed, marked (map (slot seed) bucket) occ, placed (map (\<lambda>r. (slot seed r, r)) bucket) level1)
     else seed_loop slot bucket (seed + 1) occ level1 [])"
  using place_bucket_start [OF assms(1), of "slot seed" bucket] assms(2,3)
  by (subst seed_loop.simps) (auto simp: Let_def seed_loop.simps [of slot bucket seed _ _ "map _ _"])

text \<open>The search returns exactly if some seed fits, and then with the first seed that fits.\<close>

definition first_seed :: "(u32 \<Rightarrow> u32 \<Rightarrow> nat) \<Rightarrow> u32 list \<Rightarrow> bool list \<Rightarrow> u32" where
  "first_seed slot bucket occ = of_nat (LEAST n. fits (slot (of_nat n)) bucket occ)"

lemma first_seed_fits: "fits (slot s) bucket occ \<Longrightarrow> fits (slot (first_seed slot bucket occ)) bucket occ"
  unfolding first_seed_def by (rule LeastI [of _ "unat s"]) simp

lemma seed_loop_returns:
  assumes "table_ok occ level1" "\<And>seed r. slot seed r < length occ" "fits (slot s) bucket occ"
  defines "sd \<equiv> first_seed slot bucket occ"
  shows "seed_loop slot bucket 0 occ level1 [] = Some (sd, marked (map (slot sd) bucket) occ, placed (map (\<lambda>r. (slot sd r, r)) bucket) level1)"
proof (cases "bucket = []")
  case True
  then have "sd = 0" by (simp add: sd_def first_seed_def fits_def)
  with True show ?thesis by (subst seed_loop.simps) (simp add: marked_def placed_def)
next
  case False
  define N where "N = (LEAST n. fits (slot (of_nat n)) bucket occ)"
  have N: "fits (slot (of_nat N)) bucket occ" "sd = of_nat N" using first_seed_fits [of slot s bucket occ] assms(3) by (simp_all add: N_def first_seed_def sd_def)
  have "seed_loop slot bucket (of_nat (N - k)) occ level1 [] = Some (sd, marked (map (slot sd) bucket) occ, placed (map (\<lambda>r. (slot sd r, r)) bucket) level1)"
    if "k \<le> N" for k
    using that
  proof (induction k)
    case 0
    then show ?case using seed_loop_step [OF assms(1,2) False, where seed = "of_nat N"] N by simp
  next
    case (Suc k)
    have "\<not> fits (slot (of_nat (N - Suc k))) bucket occ" 
      by (rule not_less_Least [of "N - Suc k" "\<lambda>n. fits (slot (of_nat n)) bucket occ"]) (use Suc(2) in \<open>simp add: N_def [symmetric]\<close>)
    moreover have "(of_nat (N - Suc k) + 1 :: u32) = of_nat (N - k)"
    proof -
      have "N - k = Suc (N - Suc k)" using Suc(2) by simp
      then show ?thesis by (simp only: of_nat_Suc add.commute)
    qed
    ultimately show ?case using seed_loop_step [OF assms(1,2) False, where seed = "of_nat (N - Suc k)"] Suc by simp
  qed
  from this [of N] show ?thesis by simp
qed

lemma seed_loop_diverges:
  assumes "table_ok occ level1" "\<And>seed r. slot seed r < length occ" "\<And>s. \<not> fits (slot s) bucket occ"
  shows "seed_loop slot bucket seed0 occ level1 [] = None"
proof -
  have b: "bucket \<noteq> []" using assms(3) by (auto simp: fits_def)
  have p: "place_bucket (slot s) bucket occ level1 [] = (True, occ, level1, [])" for s
    using place_bucket_start [OF assms(1), of "slot s" bucket] assms(2,3) by auto
  have "\<not> (sl = slot \<and> bk = bucket \<and> oc = occ \<and> l1 = level1 \<and> hb = [])" if "seed_loop sl bk sd oc l1 hb = Some y" for sl bk sd oc l1 hb y
    by (rule seed_loop.raw_induct [OF _ that, of "\<lambda>sl bk sd oc l1 hb y. \<not> (sl = slot \<and> bk = bucket \<and> oc = occ \<and> l1 = level1 \<and> hb = [])"])
      (use b p in \<open>fastforce simp: Let_def split: if_splits\<close>)
  then show ?thesis by (metis not_None_eq)
qed

text \<open>What \<^verbatim>\<open>Build\<close> needs of the hash function: for every bucket in turn, a seed that fits.\<close>

fun seeds_exist :: "(u32 \<Rightarrow> u32 \<Rightarrow> nat) \<Rightarrow> u32 list list \<Rightarrow> bool list \<Rightarrow> bool" where
  "seeds_exist slot [] occ = True"
| "seeds_exist slot (bucket # rest) occ \<longleftrightarrow> (\<exists>seed. fits (slot seed) bucket occ)
     \<and> seeds_exist slot rest (marked (map (slot (first_seed slot bucket occ)) bucket) occ)"

text \<open>Rules that are in the table under the seed of their bucket.\<close>

definition stored :: "(u32 \<Rightarrow> u32 \<Rightarrow> nat) \<Rightarrow> u32 \<Rightarrow> u32 list \<Rightarrow> bool list \<Rightarrow> u32 list \<Rightarrow> bool" where
  "stored slot seed bucket occ level1 \<longleftrightarrow> (\<forall>r \<in> set bucket. occ ! slot seed r \<and> level1 ! slot seed r = r)"

lemma length_placed [simp]: "length (placed ps l) = length l"
  by (induction ps arbitrary: l) (auto simp: placed_def split: prod.splits)

lemma length_marked [simp]: "length (marked ms occ) = length occ"
  by (simp add: marked_def)

lemma marked_nth: "i < length occ \<Longrightarrow> marked ms occ ! i \<longleftrightarrow> i \<in> set ms \<or> occ ! i"
  using fold_update_nth [of i occ True ms] by (auto simp: marked_def)

lemma place_one:
  assumes "table_ok occ level1" "\<And>seed r. slot seed r < length occ" "fits (slot sd) bucket occ"
  defines "occ' \<equiv> marked (map (slot sd) bucket) occ" and "level1' \<equiv> placed (map (\<lambda>r. (slot sd r, r)) bucket) level1"
  shows "table_ok occ' level1'" "stored slot sd bucket occ' level1'" "stored slot seed b occ level1 \<Longrightarrow> stored slot seed b occ' level1'"
    "set level1' \<subseteq> set level1 \<union> set bucket"
proof -
  let ?ps = "map (\<lambda>r. (slot sd r, r)) bucket"
  have d: "distinct (map fst ?ps)" using assms(3) by (simp add: fits_def comp_def)
  have len: "length occ = length level1" using assms(1) by (simp add: table_ok_def)
  have other: "level1' ! i = level1 ! i" if "i < length occ" "i \<notin> set (map (slot sd) bucket)" for i
  proof -
    have "map_of ?ps i = None" using that(2) by (auto simp: map_of_eq_None_iff)
    then show ?thesis using placed_nth(1) [OF d, of i level1] that(1) len by (simp add: level1'_def)
  qed
  have own: "level1' ! slot sd r = r" if "r \<in> set bucket" for r
  proof -
    have "map_of ?ps (slot sd r) = Some r" by (rule map_of_is_SomeI [OF d]) (use that in auto)
    then show ?thesis using placed_nth(1) [OF d, of "slot sd r" level1] assms(2) len by (simp add: level1'_def)
  qed
  show "table_ok occ' level1'" unfolding table_ok_def
  proof (intro conjI allI impI)
    fix i assume i: "i < length occ'" "\<not> occ' ! i"
    then have "i < length occ" "i \<notin> set (map (slot sd) bucket)" "\<not> occ ! i" using marked_nth [of i occ "map (slot sd) bucket"] by (auto simp: occ'_def)
    with other assms(1) show "level1' ! i = 0" by (simp add: table_ok_def)
  qed (simp add: occ'_def level1'_def len)
  show "stored slot sd bucket occ' level1'" using own assms(2) by (auto simp: stored_def occ'_def marked_nth)
  show "stored slot seed b occ' level1'" if s: "stored slot seed b occ level1"
    unfolding stored_def
  proof
    fix r assume "r \<in> set b"
    then have r: "occ ! slot seed r" "level1 ! slot seed r = r" using s by (auto simp: stored_def)
    then have "slot seed r \<notin> set (map (slot sd) bucket)" using assms(3) by (auto simp: fits_def)
    with r other assms(2) show "occ' ! slot seed r \<and> level1' ! slot seed r = r" by (simp add: occ'_def marked_nth)
  qed
  show "set level1' \<subseteq> set level1 \<union> set bucket"
  proof
    fix x assume "x \<in> set level1'"
    then obtain i where i: "i < length occ" "x = level1' ! i" by (auto simp: in_set_conv_nth level1'_def len)
    show "x \<in> set level1 \<union> set bucket"
    proof (cases "i \<in> set (map (slot sd) bucket)")
      case True
      then show ?thesis using own i by auto
    next
      case False
      then have "x = level1 ! i" using other [OF i(1)] i(2) by simp
      then show ?thesis using i(1) len nth_mem [of i level1] by simp
    qed
  qed
qed

lemma place_buckets_law:
  assumes "table_ok occ level1" "\<And>seed r. slot seed r < length occ" "distinct idxs" "\<forall>b \<in> set idxs. b < length level0"
    "seeds_exist slot (map ((!) buckets) idxs) occ"
  shows "\<exists>level0' level1'. place_buckets slot buckets idxs level0 occ level1 = Some (level0', level1')
    \<and> length level0' = length level0 \<and> length level1' = length level1 \<and> set level1' \<subseteq> set level1 \<union> (\<Union>b \<in> set idxs. set (buckets ! b))
    \<and> (\<forall>b \<in> set idxs. \<forall>r \<in> set (buckets ! b). level1' ! slot (level0' ! b) r = r)
    \<and> (\<forall>b. b \<notin> set idxs \<longrightarrow> level0' ! b = level0 ! b)
    \<and> (\<forall>seed b. stored slot seed b occ level1 \<longrightarrow> (\<forall>r \<in> set b. level1' ! slot seed r = r))"
  using assms
proof (induction idxs arbitrary: level0 occ level1)
  case Nil
  then show ?case by (simp add: stored_def)
next
  case (Cons b idxs)
  let ?B = "buckets ! b"
  define sd where "sd = first_seed slot ?B occ"
  obtain s where s: "fits (slot s) ?B occ" using Cons.prems(5) by auto
  have f: "fits (slot sd) ?B occ" unfolding sd_def by (rule first_seed_fits [where slot = slot, OF s])
  define occ' where "occ' = marked (map (slot sd) ?B) occ"
  define l1 where "l1 = placed (map (\<lambda>r. (slot sd r, r)) ?B) level1"
  note one = place_one [where slot = slot, OF Cons.prems(1,2) f, folded occ'_def l1_def]
  have lens: "length occ' = length occ" "length l1 = length level1" by (simp_all add: occ'_def l1_def)
  have step: "place_buckets slot buckets (b # idxs) level0 occ level1 = place_buckets slot buckets idxs (level0[b := sd]) occ' l1"
    using seed_loop_returns [where slot = slot, OF Cons.prems(1,2) s] by (simp add: sd_def occ'_def l1_def)
  have se: "seeds_exist slot (map ((!) buckets) idxs) occ'" using Cons.prems(5) by (simp add: occ'_def sd_def)
  obtain level0' level1' where IH: "place_buckets slot buckets idxs (level0[b := sd]) occ' l1 = Some (level0', level1')"
    "length level0' = length (level0[b := sd])" "length level1' = length l1" "set level1' \<subseteq> set l1 \<union> (\<Union>b \<in> set idxs. set (buckets ! b))"
    "\<forall>b \<in> set idxs. \<forall>r \<in> set (buckets ! b). level1' ! slot (level0' ! b) r = r"
    "\<forall>b'. b' \<notin> set idxs \<longrightarrow> level0' ! b' = level0[b := sd] ! b'"
    "\<forall>seed b. stored slot seed b occ' l1 \<longrightarrow> (\<forall>r \<in> set b. level1' ! slot seed r = r)"
  proof -
    have 1: "slot seed r < length occ'" for seed r using Cons.prems(2) lens(1) by simp
    have 2: "distinct idxs" using Cons.prems(3) by simp
    have 3: "\<forall>b' \<in> set idxs. b' < length (level0[b := sd])" using Cons.prems(4) by simp
    from Cons.IH [OF one(1) 1 2 3 se] show ?thesis by (elim exE conjE) (rule that, assumption+)
  qed
  have b: "b \<notin> set idxs" "b < length level0" using Cons.prems(3,4) by auto
  have l0b: "level0' ! b = sd" using IH(6) b by simp
  have own: "\<forall>r \<in> set ?B. level1' ! slot (level0' ! b) r = r" using IH(7) one(2) unfolding l0b by blast
  show ?case unfolding step
  proof (intro exI conjI)
    show "place_buckets slot buckets idxs (level0[b := sd]) occ' l1 = Some (level0', level1')" by (rule IH(1))
    show "length level0' = length level0" "length level1' = length level1" using IH(2,3) lens by simp_all
    show "set level1' \<subseteq> set level1 \<union> (\<Union>b \<in> set (b # idxs). set (buckets ! b))" using IH(4) one(4) by auto
    show "\<forall>b \<in> set (b # idxs). \<forall>r \<in> set (buckets ! b). level1' ! slot (level0' ! b) r = r" using own IH(5) by simp
    show "\<forall>b'. b' \<notin> set (b # idxs) \<longrightarrow> level0' ! b' = level0 ! b'" using IH(6) by simp
    show "\<forall>seed b. stored slot seed b occ level1 \<longrightarrow> (\<forall>r \<in> set b. level1' ! slot seed r = r)" using IH(7) one(3) by blast
  qed
qed

lemma place_buckets_diverges:
  assumes "table_ok occ level1" "\<And>seed r. slot seed r < length occ" "\<not> seeds_exist slot (map ((!) buckets) idxs) occ"
  shows "place_buckets slot buckets idxs level0 occ level1 = None"
  using assms
proof (induction idxs arbitrary: level0 occ level1)
  case (Cons b idxs)
  show ?case
  proof (cases "\<exists>s. fits (slot s) (buckets ! b) occ")
    case True
    then obtain s where s: "fits (slot s) (buckets ! b) occ" by blast
    note one = place_one [where slot = slot, OF Cons.prems(1,2) first_seed_fits [where slot = slot, OF s]]
    have "\<not> seeds_exist slot (map ((!) buckets) idxs) (marked (map (slot (first_seed slot (buckets ! b) occ)) (buckets ! b)) occ)"
      using Cons.prems(3) s by auto
    then show ?thesis using seed_loop_returns [where slot = slot, OF Cons.prems(1,2) s] Cons.IH [OF one(1)] Cons.prems(2) by simp
  next
    case False
    then show ?thesis using seed_loop_diverges [where slot = slot, OF Cons.prems(1,2), of "buckets ! b"] by simp
  qed
qed simp



text \<open>The buckets and values that \<^verbatim>\<open>Build\<close> computes.\<close>

definition bucket_of :: "gostring list \<Rightarrow> u32 \<Rightarrow> nat \<Rightarrow> nat" where
  "bucket_of rules msk r = unat (RollingHash 0 (rules ! r) AND msk)"

lemma bucket_fold:
  assumes "\<And>r. r \<in> {1..<n} \<Longrightarrow> ruleInfo_at infos (rules ! r) = info_of acc (rules ! r)" "\<And>r. bucket_of rules msk r < length bs" "n \<le> length vs"
  shows "\<exists>bs' vs'. fold (bucket_step infos rules msk) [1..<n] (bs, vs) = (bs', vs') \<and> length bs' = length bs \<and> length vs' = length vs
    \<and> (\<forall>b < length bs. bs' ! b = bs ! b @ map of_nat (filter (\<lambda>r. bucket_of rules msk r = b) [1..<n]))
    \<and> (\<forall>r \<in> {1..<n}. vs' ! r = acc (rules ! r) Full @ acc (rules ! r) Domain)"
  using assms(1,3)
proof (induction n)
  case (Suc n)
  show ?case
  proof (cases "n = 0")
    case False
    then have up: "[1..<Suc n] = [1..<n] @ [n]" by simp
    obtain bs' vs' where IH: "fold (bucket_step infos rules msk) [1..<n] (bs, vs) = (bs', vs')" "length bs' = length bs" "length vs' = length vs"
      "\<forall>b < length bs. bs' ! b = bs ! b @ map of_nat (filter (\<lambda>r. bucket_of rules msk r = b) [1..<n])"
      "\<forall>r \<in> {1..<n}. vs' ! r = acc (rules ! r) Full @ acc (rules ! r) Domain" using Suc by force
    have i: "ruleInfo_at infos (rules ! n) = info_of acc (rules ! n)" using Suc.prems(1) False by simp
    let ?b = "bucket_of rules msk n"
    have step: "fold (bucket_step infos rules msk) [1..<Suc n] (bs, vs) =
        (bs'[?b := bs' ! ?b @ [of_nat n]], vs'[n := acc (rules ! n) Full @ acc (rules ! n) Domain])"
      unfolding up fold_append comp_def IH(1) by (simp add: bucket_step_def i info_of_def bucket_of_def Let_def)
    show ?thesis unfolding step
    proof (intro exI conjI refl allI ballI impI)
      fix b assume b: "b < length bs"
      show "bs'[?b := bs' ! ?b @ [of_nat n]] ! b = bs ! b @ map of_nat (filter (\<lambda>r. bucket_of rules msk r = b) [1..<Suc n])"
        unfolding up using IH(2,4) b by (simp add: nth_list_update)
    next
      fix r assume "r \<in> {1..<Suc n}"
      then show "vs'[n := acc (rules ! n) Full @ acc (rules ! n) Domain] ! r = acc (rules ! r) Full @ acc (rules ! r) Domain"
        using IH(3,5) Suc.prems(2) by (cases "r = n") auto
    qed (use IH(2,3) in simp_all)
  qed simp
qed simp

text \<open>The table after \<^verbatim>\<open>Build\<close>: every rule is found under its rolling hash.\<close>

definition mph_ready :: "(gostring \<Rightarrow> u64 \<Rightarrow> u64) \<Rightarrow> (gostring \<Rightarrow> Type \<Rightarrow> u32 list) \<Rightarrow> MphMatcherGroup \<Rightarrow> bool" where
  "mph_ready strhash acc g \<longleftrightarrow> mp_rules g \<noteq> [] \<and> mp_rules g ! 0 = [] \<and> distinct (tl (mp_rules g))
     \<and> (\<forall>x. x \<in> set (tl (mp_rules g)) \<longleftrightarrow> has_rule acc x)
     \<and> (\<forall>r \<in> {1..<length (mp_rules g)}. mp_values g ! r = acc (mp_rules g ! r) Full @ acc (mp_rules g ! r) Domain
          \<and> mph_Lookup strhash g (RollingHash 0 (mp_rules g ! r)) (mp_rules g ! r) = r)
     \<and> (\<forall>h s. mph_Lookup strhash g h s < length (mp_rules g))"

text \<open>The seeds that \<^verbatim>\<open>Build\<close> looks for, for the rules of a group.\<close>

definition build_buckets :: "MphMatcherGroup \<Rightarrow> u32 list list" where
  "build_buckets g =
     (let n = length (mp_rules g); k = nextPow2 ((n - 1) div 4);
          buckets = map (\<lambda>b. map of_nat (filter (\<lambda>r. bucket_of (mp_rules g) (of_nat (k - 1)) r = b) [1..<n])) [0..<k]
      in map ((!) buckets) (sort_key (\<lambda>b. - int (length (buckets ! b))) [0..<k]))"

definition build_slot :: "(gostring \<Rightarrow> u64 \<Rightarrow> u64) \<Rightarrow> MphMatcherGroup \<Rightarrow> u32 \<Rightarrow> u32 \<Rightarrow> nat" where
  "build_slot strhash g = mem_slot strhash (mp_rules g) (of_nat (nextPow2 (length (mp_rules g) - 1) - 1))"

definition mph_seeds :: "(gostring \<Rightarrow> u64 \<Rightarrow> u64) \<Rightarrow> MphMatcherGroup \<Rightarrow> bool" where
  "mph_seeds strhash g \<longleftrightarrow> seeds_exist (build_slot strhash g) (build_buckets g) (replicate (nextPow2 (length (mp_rules g) - 1)) False)"

lemma mph_Build_law:
  assumes "mph_inv acc g" "length (mp_rules g) < 2 ^ 31"
  shows "\<not> mph_seeds strhash g \<Longrightarrow> mph_Build strhash g = None"
    "mph_seeds strhash g \<Longrightarrow> \<exists>g'. mph_Build strhash g = Some (Inr g') \<and> mph_ready strhash acc g'"
proof -
  obtain infos xs where g: "mp_ruleInfos g = Some infos" "mp_rules g = [] # xs" "distinct xs" "length (mp_values g) = Suc (length xs)"
    "\<And>x. Mapping.lookup infos x = (if x \<in> set xs then Some (info_of acc x) else None)" "\<And>x. x \<in> set xs \<longleftrightarrow> has_rule acc x"
    using assms(1) unfolding mph_inv_def by blast
  let ?n = "length (mp_rules g)" and ?rules = "mp_rules g"
  have n: "?n - 1 = length xs" "?n = Suc (length xs)" using g(2) by simp_all
  have "Mapping.keys infos = set xs" using g(5) by (auto simp: keys_dom_lookup split: if_splits)
  then have size: "Mapping.size infos = length xs" using g(3) by (simp add: Mapping.size_def distinct_card)
  have lx: "length xs < 2 ^ 31" "length xs div 4 < 2 ^ 31" using assms(2) g(2) by auto
  obtain k0 where k0: "k0 \<le> 31" "nextPow2 (length xs div 4) = 2 ^ k0" using nextPow2_law [OF lx(2)] by blast
  obtain k1 where k1: "k1 \<le> 31" "nextPow2 (length xs) = 2 ^ k1" using nextPow2_law [OF lx(1)] by blast
  define mask0 :: u32 where "mask0 = of_nat (2 ^ k0 - 1)"
  define slot where "slot = build_slot strhash g"
  have slot_eq: "slot = mem_slot strhash ?rules (of_nat (2 ^ k1 - 1))" unfolding slot_def build_slot_def n(1) k1(2) ..
  have slot: "slot seed r < 2 ^ k1" for seed r unfolding slot_eq mem_slot_def by (rule and_mask_less [OF k1(1)])
  have bk: "bucket_of ?rules mask0 r < 2 ^ k0" for r unfolding bucket_of_def mask0_def by (rule and_mask_less [OF k0(1)])
  have rx: "?rules ! r \<in> set xs" if "r \<in> {1..<?n}" for r using that g(2) by (cases r) auto
  have ri: "ruleInfo_at infos (?rules ! r) = info_of acc (?rules ! r)" if "r \<in> {1..<?n}" for r using rx [OF that] by (simp add: ruleInfo_at_def g(5))
  obtain bs vs where bf: "fold (bucket_step infos ?rules mask0) [1..<?n] (replicate (2 ^ k0) [], mp_values g) = (bs, vs)"
    "length bs = 2 ^ k0" "length vs = length (mp_values g)"
    "\<forall>b < 2 ^ k0. bs ! b = map of_nat (filter (\<lambda>r. bucket_of ?rules mask0 r = b) [1..<?n])"
    "\<forall>r \<in> {1..<?n}. vs ! r = acc (?rules ! r) Full @ acc (?rules ! r) Domain"
    using bucket_fold [of ?n infos ?rules acc mask0 "replicate (2 ^ k0) []" "mp_values g"] ri bk g(2,4) by auto
  have bs: "bs = map (\<lambda>b. map of_nat (filter (\<lambda>r. bucket_of ?rules mask0 r = b) [1..<?n])) [0..<2 ^ k0]"
    using bf(2,4) by (intro nth_equalityI) simp_all
  define idxs where "idxs = sort_key (\<lambda>b. - int (length (bs ! b))) [0..<2 ^ k0]"
  have idxs: "distinct idxs" "set idxs = {0..<2 ^ k0}" by (simp_all add: idxs_def)
  have bb: "build_buckets g = map ((!) bs) idxs"
    unfolding build_buckets_def n(1) k0(2) Let_def mask0_def [symmetric] bs [symmetric] idxs_def ..
  have T: "table_ok (replicate (2 ^ k1) False) (replicate (2 ^ k1) 0)" by (simp add: table_ok_def)
  have S: "slot seed r < length (replicate (2 ^ k1) False)" for seed r using slot by simp
  have build: "mph_Build strhash g = map_option (\<lambda>(level0, level1). Inr (g\<lparr>mp_values := vs, mp_level0 := level0, mp_level0Mask := mask0,
      mp_level1 := level1, mp_level1Mask := of_nat (2 ^ k1 - 1), mp_ruleInfos := None\<rparr>))
      (place_buckets slot bs idxs (replicate (2 ^ k0) 0) (replicate (2 ^ k1) False) (replicate (2 ^ k1) 0))"
    unfolding mph_Build_def g(1) option.case Let_def size k0(2) k1(2) length_replicate mask0_def [symmetric] bf(1) prod.case bf(2)
      idxs_def [symmetric] slot_eq [symmetric] ..
  have seeds: "mph_seeds strhash g \<longleftrightarrow> seeds_exist slot (map ((!) bs) idxs) (replicate (2 ^ k1) False)"
    unfolding mph_seeds_def n(1) k1(2) bb slot_def ..
  show "mph_Build strhash g = None" if "\<not> mph_seeds strhash g"
    unfolding build using place_buckets_diverges [where slot = slot, OF T S] that seeds by simp
  assume "mph_seeds strhash g"
  then have se: "seeds_exist slot (map ((!) bs) idxs) (replicate (2 ^ k1) False)" using seeds by simp
  have ix: "\<forall>b \<in> set idxs. b < length (replicate (2 ^ k0) (0 :: u32))" using idxs(2) by simp
  obtain level0 level1 where pb: "place_buckets slot bs idxs (replicate (2 ^ k0) 0) (replicate (2 ^ k1) False) (replicate (2 ^ k1) 0) = Some (level0, level1)"
    "length level1 = 2 ^ k1" "set level1 \<subseteq> set (replicate (2 ^ k1) 0) \<union> (\<Union>b \<in> set idxs. set (bs ! b))"
    "\<forall>b \<in> set idxs. \<forall>r \<in> set (bs ! b). level1 ! slot (level0 ! b) r = r"
  proof -
    from place_buckets_law [where slot = slot, OF T S idxs(1) ix se] show ?thesis by (elim exE conjE) (rule that, simp_all)
  qed
  let ?g = "g\<lparr>mp_values := vs, mp_level0 := level0, mp_level0Mask := mask0, mp_level1 := level1, mp_level1Mask := of_nat (2 ^ k1 - 1), mp_ruleInfos := None\<rparr>"
  have small: "unat (of_nat r :: u32) = r" if "r < ?n" for r using that assms(2) by (simp add: unat_u32_of_nat)
  have entry: "unat x < ?n" if x: "x \<in> set level1" for x
  proof -
    from x pb(3) have "x = 0 \<or> (\<exists>b \<in> set idxs. x \<in> set (bs ! b))" by auto
    then show ?thesis using bf(4) idxs(2) small g(2) by auto
  qed
  have "mph_ready strhash acc ?g" unfolding mph_ready_def
  proof (intro conjI allI ballI)
    fix r assume r: "r \<in> {1..<length (mp_rules ?g)}"
    then show "mp_values ?g ! r = acc (mp_rules ?g ! r) Full @ acc (mp_rules ?g ! r) Domain" using bf(5) by simp
    let ?b = "bucket_of ?rules mask0 r"
    have "of_nat r \<in> set (bs ! ?b)" using bf(4) bk [of r] r by auto
    then have "level1 ! slot (level0 ! ?b) (of_nat r) = of_nat r" using pb(4) idxs(2) bk [of r] by simp
    then have "level1 ! unat (MemHash strhash (level0 ! ?b) (?rules ! r) AND of_nat (2 ^ k1 - 1)) = of_nat r"
      unfolding slot_eq mem_slot_def using small [of r] r by simp
    then show "mph_Lookup strhash ?g (RollingHash 0 (mp_rules ?g ! r)) (mp_rules ?g ! r) = r"
      unfolding mph_Lookup_def Let_def using small [of r] r by (simp add: bucket_of_def)
  next
    fix h s
    have "unat (w AND of_nat (2 ^ k1 - 1) :: u32) < length level1" for w using and_mask_less [OF k1(1)] pb(2) by simp
    then have "unat (level1 ! unat (w AND of_nat (2 ^ k1 - 1) :: u32)) < ?n" for w using entry nth_mem by blast
    then show "mph_Lookup strhash ?g h s < length (mp_rules ?g)" using g(2) by (simp add: mph_Lookup_def Let_def)
  qed (use g(2,3,6) in simp_all)
  then show "\<exists>g'. mph_Build strhash g = Some (Inr g') \<and> mph_ready strhash acc g'" unfolding build pb(1) by simp
qed

section \<open>Matching with the table\<close>

lemma mph_Lookup_law:
  assumes "mph_ready strhash acc g"
  shows "mph_Lookup strhash g (RollingHash 0 s) s \<noteq> 0 \<longleftrightarrow> has_rule acc s"
    "has_rule acc s \<Longrightarrow> mp_values g ! mph_Lookup strhash g (RollingHash 0 s) s = acc s Full @ acc s Domain"
proof -
  let ?n = "mph_Lookup strhash g (RollingHash 0 s) s"
  have R: "mp_rules g = mp_rules g ! 0 # tl (mp_rules g)" using assms by (cases "mp_rules g") (auto simp: mph_ready_def)
  have found: "\<exists>r \<in> {1..<length (mp_rules g)}. ?n = r \<and> mp_values g ! r = acc s Full @ acc s Domain" if "has_rule acc s"
  proof -
    have "s \<in> set (tl (mp_rules g))" using assms that by (simp add: mph_ready_def)
    then obtain i where i: "i < length (tl (mp_rules g))" "tl (mp_rules g) ! i = s" by (auto simp: in_set_conv_nth)
    then have r: "Suc i \<in> {1..<length (mp_rules g)}" "mp_rules g ! Suc i = s" by (auto simp: nth_tl)
    then have "?n = Suc i" "mp_values g ! Suc i = acc s Full @ acc s Domain" using assms unfolding mph_ready_def by blast+
    with r(1) show ?thesis by blast
  qed
  then show "has_rule acc s \<Longrightarrow> mp_values g ! ?n = acc s Full @ acc s Domain" by auto
  have "has_rule acc s" if n: "?n \<noteq> 0"
  proof -
    have "mp_rules g ! ?n = s" using n unfolding mph_Lookup_def Let_def by (auto split: if_splits)
    moreover have "?n < length (mp_rules g)" using assms by (simp add: mph_ready_def)
    ultimately have "s \<in> set (tl (mp_rules g))" using n R by (metis Suc_less_eq Suc_pred length_Cons not_gr_zero nth_Cons_pos nth_mem One_nat_def)
    then show ?thesis using assms by (simp add: mph_ready_def)
  qed
  then show "?n \<noteq> 0 \<longleftrightarrow> has_rule acc s" using found by auto
qed

text \<open>The suffixes that the loops look up.\<close>

definition dotted :: "gostring \<Rightarrow> gostring \<Rightarrow> gostring set" where
  "dotted cs suf = {rev (take (Suc k) cs) @ suf |k. k < length cs \<and> cs ! k = dot}"

lemma dotted_Cons: "dotted (c # cs) suf = (if c = dot then {c # suf} else {}) \<union> dotted cs (c # suf)"
proof -
  have "dotted (c # cs) suf = {rev (take (Suc k) (c # cs)) @ suf |k. k < Suc (length cs) \<and> (c # cs) ! k = dot}" by (simp add: dotted_def)
  also have "\<dots> = (if c = dot then {c # suf} else {}) \<union> {rev (take (Suc k) cs) @ c # suf |k. k < length cs \<and> cs ! k = dot}"
    by (auto simp: less_Suc_eq_0_disj)
  finally show ?thesis by (simp add: dotted_def)
qed

lemma mph_Match_loop_law:
  assumes "mph_ready strhash acc g"
  shows "\<exists>A. mph_Match_loop strhash g cs suf (RollingHash 0 suf) matches = (RollingHash 0 (rev cs @ suf), matches @ A)
    \<and> set A = {acc t Full @ acc t Domain |t. t \<in> dotted cs suf \<and> has_rule acc t}"
proof (induction cs arbitrary: suf matches)
  case Nil
  then show ?case by (simp add: dotted_def)
next
  case (Cons c cs)
  let ?t = "c # suf"
  define A1 where "A1 = (if c = dot \<and> has_rule acc ?t then [acc ?t Full @ acc ?t Domain] else [])"
  have step: "mph_Match_loop strhash g (c # cs) suf (RollingHash 0 suf) matches = mph_Match_loop strhash g cs ?t (RollingHash 0 ?t) (matches @ A1)"
    using mph_Lookup_law [OF assms, of ?t] by (auto simp: Let_def RollingHash_Cons A1_def)
  obtain A where A: "mph_Match_loop strhash g cs ?t (RollingHash 0 ?t) (matches @ A1) = (RollingHash 0 (rev cs @ ?t), (matches @ A1) @ A)"
    "set A = {acc t Full @ acc t Domain |t. t \<in> dotted cs ?t \<and> has_rule acc t}" using Cons.IH [of ?t "matches @ A1"] by blast
  have "set (A1 @ A) = {acc t Full @ acc t Domain |t. t \<in> dotted (c # cs) suf \<and> has_rule acc t}"
    unfolding set_append A(2) dotted_Cons by (auto simp: A1_def)
  then show ?case unfolding step A(1) by (intro exI [of _ "A1 @ A"]) simp
qed

lemma mph_MatchAny_loop_law:
  assumes "mph_ready strhash acc g"
  shows "mph_MatchAny_loop strhash g cs suf (RollingHash 0 suf) \<longleftrightarrow> (\<exists>t \<in> dotted cs suf. has_rule acc t) \<or> has_rule acc (rev cs @ suf)"
proof (induction cs arbitrary: suf)
  case Nil
  then show ?case using mph_Lookup_law(1) [OF assms] by (simp add: dotted_def)
next
  case (Cons c cs)
  then show ?case using mph_Lookup_law(1) [OF assms, of "c # suf"] by (auto simp: Let_def RollingHash_Cons dotted_Cons)
qed

lemma dotted_suffix: "t \<in> dotted (rev s) [] \<longleftrightarrow> suffix t s \<and> t \<noteq> [] \<and> hd t = dot"
proof
  assume "t \<in> dotted (rev s) []"
  then obtain k where k: "t = rev (take (Suc k) (rev s))" "k < length s" "rev s ! k = dot" by (auto simp: dotted_def)
  have t: "t = drop (length s - Suc k) s" using k(1) by (simp add: take_rev)
  moreover have "hd t = s ! (length s - Suc k)" unfolding t using k(2) by (simp add: hd_drop_conv_nth)
  ultimately show "suffix t s \<and> t \<noteq> [] \<and> hd t = dot" using k(2,3) by (simp add: rev_nth suffix_drop)
next
  assume a: "suffix t s \<and> t \<noteq> [] \<and> hd t = dot"
  then obtain u t' where s: "s = u @ dot # t'" "t = dot # t'" by (cases t) (auto simp: suffix_def)
  then have "t = rev (take (Suc (length t')) (rev s)) @ [] \<and> length t' < length (rev s) \<and> rev s ! length t' = dot" by (simp add: nth_append)
  then show "t \<in> dotted (rev s) []" unfolding dotted_def by blast
qed

text \<open>The matchers as the table reads them: their patterns in lower case.\<close>

fun low_Match :: "(gostring \<Rightarrow> gostring) \<Rightarrow> Matcher \<Rightarrow> gostring \<Rightarrow> bool" where
  "low_Match unicode (FullMatcher p) s \<longleftrightarrow> ToLower unicode p = s"
| "low_Match unicode (DomainMatcher p) s \<longleftrightarrow> ToLower unicode p = s \<or> suffix (dot # ToLower unicode p) s"
| "low_Match unicode (SubstrMatcher p) s \<longleftrightarrow> False"
| "low_Match unicode (RegexMatcher p f) s \<longleftrightarrow> False"

definition mph_ok :: "(gostring \<Rightarrow> gostring) \<Rightarrow> (Matcher \<times> u32) list \<Rightarrow> bool" where
  "mph_ok unicode ms \<longleftrightarrow> length ms < 2 ^ 29 \<and> list_all (\<lambda>(m, v). Matcher_Type m \<in> {Full, Domain} \<and> take 1 (ToLower unicode (Pattern m)) \<noteq> [dot]) ms"

lemma mph_words_match:
  assumes "Matcher_Type m \<in> {Full, Domain}" "take 1 (ToLower unicode (Pattern m)) \<noteq> [dot]"
  shows "(\<exists>t. (t \<in> dotted (rev s) [] \<or> t = s) \<and> t \<in> set (mph_words unicode m)) \<longleftrightarrow> low_Match unicode m s"
proof (cases m)
  case (FullMatcher p)
  have "\<not> (ToLower unicode p \<noteq> [] \<and> hd (ToLower unicode p) = dot)" using assms(2) FullMatcher by (cases "ToLower unicode p") auto
  then show ?thesis using FullMatcher by (auto simp: dotted_suffix)
next
  case (DomainMatcher p)
  have "\<not> (ToLower unicode p \<noteq> [] \<and> hd (ToLower unicode p) = dot)" using assms(2) DomainMatcher by (cases "ToLower unicode p") auto
  then show ?thesis using DomainMatcher by (auto simp: dotted_suffix)
qed (use assms in simp_all)

lemma mph_has_rule: "has_rule (mph_acc unicode ms) t \<longleftrightarrow> (\<exists>m v. (m, v) \<in> set ms \<and> t \<in> set (mph_words unicode m))"
proof -
  have "t \<in> set (mph_words unicode m) \<Longrightarrow> Matcher_Type m \<in> {Full, Domain}" for m by (cases m) auto
  then show ?thesis unfolding has_rule_def mph_acc_def values_of_nonempty by blast
qed

lemma mph_acc_set: "set (mph_acc unicode ms t Full @ mph_acc unicode ms t Domain) = {v. \<exists>m. (m, v) \<in> set ms \<and> t \<in> set (mph_words unicode m)}"
proof -
  have "t \<in> set (mph_words unicode m) \<Longrightarrow> Matcher_Type m \<in> {Full, Domain}" for m by (cases m) auto
  then show ?thesis unfolding set_append mph_acc_def set_values_of by blast
qed

lemma Union_found:
  assumes "\<And>v t. v \<in> set (F t) \<Longrightarrow> H t"
  shows "\<Union> (set ` ({F t |t. t \<in> D \<and> H t} \<union> {F t |t. t = s \<and> H t})) = {v. \<exists>t. (t \<in> D \<or> t = s) \<and> v \<in> set (F t)}"
proof (intro equalityI subsetI)
  fix v assume "v \<in> {v. \<exists>t. (t \<in> D \<or> t = s) \<and> v \<in> set (F t)}"
  then obtain t where t: "t \<in> D \<or> t = s" "v \<in> set (F t)" by blast
  with assms have "F t \<in> {F t |t. t \<in> D \<and> H t} \<union> {F t |t. t = s \<and> H t}" by blast
  with t(2) show "v \<in> \<Union> (set ` ({F t |t. t \<in> D \<and> H t} \<union> {F t |t. t = s \<and> H t}))" by blast
qed blast

lemma mph_Match_law:
  assumes "mph_ready strhash (mph_acc unicode ms) g" "mph_ok unicode ms"
  shows "set (mph_Match strhash g s) = {v. \<exists>m. (m, v) \<in> set ms \<and> low_Match unicode m s}"
    "mph_MatchAny strhash g s \<longleftrightarrow> (\<exists>m v. (m, v) \<in> set ms \<and> low_Match unicode m s)"
proof -
  let ?acc = "mph_acc unicode ms"
  have h0: "(0 :: u32) = RollingHash 0 []" by (simp add: RollingHash_def)
  have ok: "Matcher_Type m \<in> {Full, Domain}" "take 1 (ToLower unicode (Pattern m)) \<noteq> [dot]" if "(m, v) \<in> set ms" for m v
    using assms(2) that by (auto simp: mph_ok_def list_all_iff)
  have mm: "(\<exists>t. (t \<in> dotted (rev s) [] \<or> t = s) \<and> t \<in> set (mph_words unicode m)) \<longleftrightarrow> low_Match unicode m s" if "(m, v) \<in> set ms" for m v
    by (rule mph_words_match [OF ok [OF that]])
  obtain A where A: "mph_Match_loop strhash g (rev s) [] 0 [] = (RollingHash 0 s, A)"
    "set A = {?acc t Full @ ?acc t Domain |t. t \<in> dotted (rev s) [] \<and> has_rule ?acc t}"
    using mph_Match_loop_law [OF assms(1), of "rev s" "[]" "[]"] by (auto simp flip: h0)
  define B where "B = (if has_rule ?acc s then [?acc s Full @ ?acc s Domain] else [])"
  have M: "mph_Match strhash g s = CompositeMatchesReverse (A @ B)"
    using mph_Lookup_law [OF assms(1), of s] by (simp add: mph_Match_def A(1) B_def)
  have "set (mph_Match strhash g s) = \<Union> (set ` set (A @ B))" unfolding M by auto
  also have "\<dots> = {v. \<exists>t. (t \<in> dotted (rev s) [] \<or> t = s) \<and> v \<in> set (?acc t Full @ ?acc t Domain)}"
  proof -
    have B: "set B = {?acc t Full @ ?acc t Domain |t. t = s \<and> has_rule ?acc t}" by (simp add: B_def)
    have H: "has_rule ?acc t" if "v \<in> set (?acc t Full @ ?acc t Domain)" for v t using that by (auto simp: has_rule_def)
    show ?thesis unfolding set_append [of A] A(2) B by (rule Union_found) (rule H)
  qed
  also have "\<dots> = {v. \<exists>m. (m, v) \<in> set ms \<and> (\<exists>t. (t \<in> dotted (rev s) [] \<or> t = s) \<and> t \<in> set (mph_words unicode m))}"
    unfolding mph_acc_set by blast
  also have "\<dots> = {v. \<exists>m. (m, v) \<in> set ms \<and> low_Match unicode m s}"
    by (intro Collect_cong ex_cong conj_cong refl mm)
  finally show "set (mph_Match strhash g s) = {v. \<exists>m. (m, v) \<in> set ms \<and> low_Match unicode m s}" .
  have "mph_MatchAny strhash g s \<longleftrightarrow> (\<exists>t. (t \<in> dotted (rev s) [] \<or> t = s) \<and> has_rule ?acc t)"
    using mph_MatchAny_loop_law [OF assms(1), of "rev s" "[]"] by (auto simp: mph_MatchAny_def simp flip: h0)
  also have "\<dots> \<longleftrightarrow> (\<exists>m v. (m, v) \<in> set ms \<and> (\<exists>t. (t \<in> dotted (rev s) [] \<or> t = s) \<and> t \<in> set (mph_words unicode m)))"
    unfolding mph_has_rule by blast
  also have "\<dots> \<longleftrightarrow> (\<exists>m v. (m, v) \<in> set ms \<and> low_Match unicode m s)" by (intro iff_exI conj_cong refl mm)
  finally show "mph_MatchAny strhash g s \<longleftrightarrow> (\<exists>m v. (m, v) \<in> set ms \<and> low_Match unicode m s)" .
qed

section \<open>The table as a matcher group\<close>

definition mph_group :: "(gostring \<Rightarrow> gostring) \<Rightarrow> (gostring \<Rightarrow> u64 \<Rightarrow> u64) \<Rightarrow> (Matcher \<times> u32) list \<Rightarrow> MphMatcherGroup option" where
  "mph_group unicode strhash ms = (case mph_build unicode strhash ms of Some (Inr g) \<Rightarrow> Some g | _ \<Rightarrow> None)"

definition mph_seeds_for :: "(gostring \<Rightarrow> gostring) \<Rightarrow> (gostring \<Rightarrow> u64 \<Rightarrow> u64) \<Rightarrow> (Matcher \<times> u32) list \<Rightarrow> bool" where
  "mph_seeds_for unicode strhash ms = (case mph_add_all unicode ms of Inl e \<Rightarrow> False | Inr g \<Rightarrow> mph_seeds strhash g)"

lemma mph_build_law:
  assumes "length ms < 2 ^ 29"
  shows "\<not> mph_seeds_for unicode strhash ms \<Longrightarrow> mph_build unicode strhash ms = None"
    "mph_seeds_for unicode strhash ms \<Longrightarrow> \<exists>g. mph_build unicode strhash ms = Some (Inr g) \<and> mph_ready strhash (mph_acc unicode ms) g"
proof -
  obtain g where g: "mph_add_all unicode ms = Inr g" "mph_inv (mph_acc unicode ms) g" "length (mp_rules g) \<le> Suc (2 * length ms)"
    using mph_add_all_law by blast
  have "length (mp_rules g) < 2 ^ 31" using g(3) assms by simp
  note law = mph_Build_law [OF g(2) this, of strhash]
  show "\<not> mph_seeds_for unicode strhash ms \<Longrightarrow> mph_build unicode strhash ms = None"
    "mph_seeds_for unicode strhash ms \<Longrightarrow> \<exists>g. mph_build unicode strhash ms = Some (Inr g) \<and> mph_ready strhash (mph_acc unicode ms) g"
    using law by (simp_all add: mph_seeds_for_def mph_build_def g(1))
qed

definition mph_only :: "(gostring \<Rightarrow> gostring) \<Rightarrow> (gostring \<Rightarrow> u64 \<Rightarrow> u64) \<Rightarrow> (Matcher \<times> u32) list \<Rightarrow> bool" where
  "mph_only unicode strhash ms \<longleftrightarrow> mph_ok unicode ms \<and> list_all (\<lambda>(m, v). ToLower unicode (Pattern m) = Pattern m) ms \<and> mph_seeds_for unicode strhash ms"

lemma low_Match_lower: "Matcher_Type m \<in> {Full, Domain} \<Longrightarrow> ToLower unicode (Pattern m) = Pattern m \<Longrightarrow> low_Match unicode m s \<longleftrightarrow> Matcher_Match m s"
  by (cases m) (auto simp: Domain_Match_suffix simp del: Matcher_Match.simps(2))

interpretation mph: matcher_group "mph_group unicode strhash" "mph_MatchAny strhash" "\<lambda>g s. Some (mph_Match strhash g s)"
  "mph_only unicode strhash" "\<lambda>s. True" for unicode strhash
proof
  fix ms g s assume ok: "mph_only unicode strhash ms"
  have len: "length ms < 2 ^ 29" and mok: "mph_ok unicode ms" and seeds: "mph_seeds_for unicode strhash ms"
    using ok by (auto simp: mph_only_def mph_ok_def)
  obtain g' where g': "mph_build unicode strhash ms = Some (Inr g')" "mph_ready strhash (mph_acc unicode ms) g'"
    using mph_build_law(2) [OF len seeds] by blast
  then show "\<exists>g. mph_group unicode strhash ms = Some g" by (simp add: mph_group_def)
  assume "mph_group unicode strhash ms = Some g"
  then have g: "g = g'" using g'(1) by (simp add: mph_group_def)
  have same: "low_Match unicode m s \<longleftrightarrow> Matcher_Match m s" if "(m, v) \<in> set ms" for m v
    using ok that by (intro low_Match_lower) (auto simp: mph_only_def mph_ok_def list_all_iff)
  show "mph_MatchAny strhash g s \<longleftrightarrow> (\<exists>m v. (m, v) \<in> set ms \<and> Matcher_Match m s)"
    "\<exists>vs. Some (mph_Match strhash g s) = Some vs \<and> set vs = {v. \<exists>m. (m, v) \<in> set ms \<and> Matcher_Match m s}"
    unfolding g using mph_Match_law [OF g'(2) mok, of s] same by blast+
qed

end
