(* ===== verification/AcAutomaton.thy ===== *)
theory AcAutomaton
  imports StrMatcher
begin

text \<open>
  \<^verbatim>\<open>common/strmatcher/matchergroup_ac_automation.go\<close>: the Aho-Corasick automaton for full, domain and
  substring patterns, its construction and its two matching loops, and the proof that it answers as the matchers themselves do.

  Node and match indices are natural numbers; the conversions to \<^verbatim>\<open>uint32\<close> in \<^verbatim>\<open>addNode\<close> and \<^verbatim>\<open>addMatchEntry\<close> are written
  out. The invariants show that every index that is used is in range.
\<close>

section \<open>The automaton\<close>

datatype acEdge = acTrieEdge | acFailEdge

definition acValidCharCount :: nat where
  "acValidCharCount = 39"

record acNode =
  nd_next :: "nat list"
  nd_edge :: "acEdge list"
  nd_fail :: nat
  nd_match :: nat

definition new_acNode :: acNode where
  "new_acNode = \<lparr>nd_next = replicate acValidCharCount 0, nd_edge = replicate acValidCharCount acFailEdge, nd_fail = 0, nd_match = 0\<rparr>"

type_synonym acValue = "u32 list list"

definition new_acValue :: acValue where
  "new_acValue = [[], [], []]"

record ACAutomaton =
  ac_nodes :: "acNode list"
  ac_values :: "acValue list"

definition acCharset :: "byte \<Rightarrow> nat" where
  "acCharset c =
     (if 65 \<le> c \<and> c \<le> 90 then unat c - 64
      else if 97 \<le> c \<and> c \<le> 122 then unat c - 96
      else if c = 45 then 27
      else if c = dot then 28
      else if 48 \<le> c \<and> c \<le> 57 then unat c - 19
      else 0)"

definition addNode :: "ACAutomaton \<Rightarrow> nat \<times> ACAutomaton" where
  "addNode ac = (length (ac_nodes ac) mod 2 ^ 32, ac\<lparr>ac_nodes := ac_nodes ac @ [new_acNode]\<rparr>)"

definition addMatchEntry :: "ACAutomaton \<Rightarrow> nat \<times> ACAutomaton" where
  "addMatchEntry ac = (length (ac_values ac) mod 2 ^ 32, ac\<lparr>ac_values := ac_values ac @ [new_acValue]\<rparr>)"

definition NewACAutomaton :: ACAutomaton where
  "NewACAutomaton = snd (addMatchEntry (snd (addNode \<lparr>ac_nodes = [], ac_values = []\<rparr>)))"

definition set_trie_edge :: "nat \<Rightarrow> nat \<Rightarrow> acNode \<Rightarrow> acNode" where
  "set_trie_edge edgeIdx nextIdx node = node\<lparr>nd_next := (nd_next node)[edgeIdx := nextIdx], nd_edge := (nd_edge node)[edgeIdx := acTrieEdge]\<rparr>"

text \<open>The loop of \<^verbatim>\<open>addPattern\<close> over the pattern from its last byte on.\<close>

fun addPattern_loop :: "gostring \<Rightarrow> nat \<Rightarrow> ACAutomaton \<Rightarrow> nat \<times> ACAutomaton" where
  "addPattern_loop [] nodeIdx ac = (nodeIdx, ac)"
| "addPattern_loop (c # cs) nodeIdx ac =
     (let edgeIdx = acCharset c; nextIdx = nd_next (ac_nodes ac ! nodeIdx) ! edgeIdx in
      if nextIdx = 0 then
        let (nextIdx, ac) = addNode ac;
            ac = ac\<lparr>ac_nodes := (ac_nodes ac)[nodeIdx := set_trie_edge edgeIdx nextIdx (ac_nodes ac ! nodeIdx)]\<rparr>
        in addPattern_loop cs nextIdx ac
      else addPattern_loop cs nextIdx ac)"

definition addPattern :: "nat \<Rightarrow> gostring \<Rightarrow> Type \<Rightarrow> u32 \<Rightarrow> ACAutomaton \<Rightarrow> nat \<times> ACAutomaton" where
  "addPattern nodeIdx pattern t v ac =
     (let (nodeIdx, ac) = addPattern_loop (rev pattern) nodeIdx ac;
          ac = (if nd_match (ac_nodes ac ! nodeIdx) = 0
                then let (m, ac) = addMatchEntry ac
                     in ac\<lparr>ac_nodes := (ac_nodes ac)[nodeIdx := (ac_nodes ac ! nodeIdx)\<lparr>nd_match := m\<rparr>]\<rparr>
                else ac);
          m = nd_match (ac_nodes ac ! nodeIdx);
          vals = ac_values ac ! m
      in (nodeIdx, ac\<lparr>ac_values := (ac_values ac)[m := vals[Type_index t := vals ! Type_index t @ [v]]]\<rparr>))"

definition ac_AddFullMatcher :: "gostring \<Rightarrow> u32 \<Rightarrow> ACAutomaton \<Rightarrow> ACAutomaton" where
  "ac_AddFullMatcher pattern v ac = snd (addPattern 0 pattern Full v ac)"

definition ac_AddDomainMatcher :: "gostring \<Rightarrow> u32 \<Rightarrow> ACAutomaton \<Rightarrow> ACAutomaton" where
  "ac_AddDomainMatcher pattern v ac =
     (let (node, ac) = addPattern 0 pattern Domain v ac in snd (addPattern node [dot] Domain v ac))"

definition ac_AddSubstrMatcher :: "gostring \<Rightarrow> u32 \<Rightarrow> ACAutomaton \<Rightarrow> ACAutomaton" where
  "ac_AddSubstrMatcher pattern v ac = snd (addPattern 0 pattern Substr v ac)"

text \<open>The inner loop of \<^verbatim>\<open>Build\<close>: one edge of the node \<open>i\<close> whose fail node is \<open>f\<close>.\<close>

definition has_substr :: "acValue list \<Rightarrow> acNode \<Rightarrow> bool" where
  "has_substr vals node \<longleftrightarrow> nd_match node \<noteq> 0 \<and> length (vals ! nd_match node ! Type_index Substr) > 0"

definition build_edge :: "acValue list \<Rightarrow> nat \<Rightarrow> nat \<Rightarrow> nat \<Rightarrow> acNode list \<times> nat list \<times> nat list \<Rightarrow> acNode list \<times> nat list \<times> nat list" where
  "build_edge vals i f edgeIdx st =
     (case st of (nodes, fail, queue) \<Rightarrow>
        let nodeIdx = nd_next (nodes ! i) ! edgeIdx;
            failIdx = nd_next (nodes ! f) ! edgeIdx
        in if nodeIdx \<noteq> 0 then
             (nodes[nodeIdx := (nodes ! nodeIdx)
                \<lparr>nd_fail := (if has_substr vals (nodes ! failIdx) then failIdx else nd_fail (nodes ! failIdx))\<rparr>],
              fail[nodeIdx := failIdx], queue @ [nodeIdx])
           else
             (nodes[i := (nodes ! i)\<lparr>nd_next := (nd_next (nodes ! i))[edgeIdx := failIdx],
                                       nd_edge := (nd_edge (nodes ! i))[edgeIdx := acFailEdge]\<rparr>],
              fail, queue))"

partial_function (option) build_loop :: "acValue list \<Rightarrow> acNode list \<Rightarrow> nat list \<Rightarrow> nat list \<Rightarrow> acNode list option" where
  "build_loop vals nodes fail queue =
     (if queue = [] then Some nodes
      else let i = hd queue;
               st = fold (build_edge vals i (fail ! i)) [0..<acValidCharCount] (nodes, fail, tl queue)
           in build_loop vals (fst st) (fst (snd st)) (snd (snd st)))"

definition ac_Build :: "ACAutomaton \<Rightarrow> ACAutomaton option" where
  "ac_Build ac =
     map_option (\<lambda>nodes. ac\<lparr>ac_nodes := nodes\<rparr>)
       (build_loop (ac_values ac) (ac_nodes ac) (replicate (length (ac_nodes ac)) 0)
          (filter (\<lambda>nextIdx. nextIdx \<noteq> 0) (map (\<lambda>edgeIdx. nd_next (ac_nodes ac ! 0) ! edgeIdx) [0..<acValidCharCount])))"

text \<open>
  The loop over the fail path in \<^verbatim>\<open>Match\<close>. Its post statement assigns \<^verbatim>\<open>failIdx\<close> and \<^verbatim>\<open>failNode\<close> in parallel, so the
  new \<^verbatim>\<open>failNode\<close> is the node of the old \<^verbatim>\<open>failIdx\<close>; \<open>failNode\<close> is its index here.
\<close>

partial_function (option) fail_loop :: "ACAutomaton \<Rightarrow> nat \<Rightarrow> nat \<Rightarrow> u32 list list \<Rightarrow> u32 list list option" where
  "fail_loop ac failIdx failNode substrMatches =
     (if failIdx = 0 then Some substrMatches
      else fail_loop ac (nd_fail (ac_nodes ac ! failNode)) failIdx
             (substrMatches @ [ac_values ac ! nd_match (ac_nodes ac ! failNode) ! Type_index Substr]))"

text \<open>The main loop of \<^verbatim>\<open>Match\<close>, over the input from its last byte on.\<close>

fun ac_Match_loop :: "ACAutomaton \<Rightarrow> gostring \<Rightarrow> bool \<Rightarrow> nat \<Rightarrow> u32 list list \<Rightarrow> u32 list list
    \<Rightarrow> (bool \<times> nat \<times> u32 list list \<times> u32 list list) option" where
  "ac_Match_loop ac [] fullMatch node substrMatches suffixMatches = Some (fullMatch, node, substrMatches, suffixMatches)"
| "ac_Match_loop ac (c # cs) fullMatch node substrMatches suffixMatches =
     (let edge = acCharset c;
          fullMatch = (fullMatch \<and> nd_edge (ac_nodes ac ! node) ! edge = acTrieEdge);
          node = nd_next (ac_nodes ac ! node) ! edge;
          nd = ac_nodes ac ! node
      in case (if nd_fail nd \<noteq> 0 then fail_loop ac (nd_fail nd) (nd_fail nd) substrMatches else Some substrMatches) of
           None \<Rightarrow> None
         | Some substrMatches \<Rightarrow>
             if nd_match nd \<noteq> 0 then
               let vals = ac_values ac ! nd_match nd;
                   substrMatches = (if length (vals ! Type_index Substr) > 0 then substrMatches @ [vals ! Type_index Substr] else substrMatches);
                   suffixMatches = (if fullMatch \<and> c = dot \<and> length (vals ! Type_index Domain) > 0
                                    then suffixMatches @ [vals ! Type_index Domain] else suffixMatches)
               in ac_Match_loop ac cs fullMatch node substrMatches suffixMatches
             else ac_Match_loop ac cs fullMatch node substrMatches suffixMatches)"

definition ac_Match :: "ACAutomaton \<Rightarrow> gostring \<Rightarrow> u32 list option" where
  "ac_Match ac s =
     (case ac_Match_loop ac (rev s) True 0 [] [] of
        None \<Rightarrow> None
      | Some (fullMatch, node, substrMatches, suffixMatches) \<Rightarrow>
          let nd = ac_nodes ac ! node;
              vals = ac_values ac ! nd_match nd;
              suffixMatches =
                (if fullMatch \<and> nd_match nd \<noteq> 0 then
                   let suffixMatches = (if length (vals ! Type_index Domain) > 0 then suffixMatches @ [vals ! Type_index Domain] else suffixMatches)
                   in if length (vals ! Type_index Full) > 0 then suffixMatches @ [vals ! Type_index Full] else suffixMatches
                 else suffixMatches)
          in if length substrMatches = 0 then Some (CompositeMatchesReverse suffixMatches)
             else Some (CompositeMatchesReverse (substrMatches @ suffixMatches)))"

fun ac_MatchAny_loop :: "ACAutomaton \<Rightarrow> gostring \<Rightarrow> bool \<Rightarrow> nat \<Rightarrow> bool" where
  "ac_MatchAny_loop ac [] fullMatch node \<longleftrightarrow> fullMatch \<and> nd_match (ac_nodes ac ! node) \<noteq> 0"
| "ac_MatchAny_loop ac (c # cs) fullMatch node \<longleftrightarrow>
     (let edge = acCharset c;
          fullMatch = (fullMatch \<and> nd_edge (ac_nodes ac ! node) ! edge = acTrieEdge);
          node = nd_next (ac_nodes ac ! node) ! edge;
          nd = ac_nodes ac ! node;
          vals = ac_values ac ! nd_match nd
      in if nd_fail nd \<noteq> 0 then True
         else if nd_match nd \<noteq> 0 \<and> length (vals ! Type_index Substr) > 0 then True
         else if nd_match nd \<noteq> 0 \<and> fullMatch \<and> c = dot \<and> length (vals ! Type_index Domain) > 0 then True
         else ac_MatchAny_loop ac cs fullMatch node)"

definition ac_MatchAny :: "ACAutomaton \<Rightarrow> gostring \<Rightarrow> bool" where
  "ac_MatchAny ac s = ac_MatchAny_loop ac (rev s) True 0"

fun ac_Add :: "Matcher \<times> u32 \<Rightarrow> ACAutomaton \<Rightarrow> ACAutomaton" where
  "ac_Add (FullMatcher p, v) ac = ac_AddFullMatcher p v ac"
| "ac_Add (DomainMatcher p, v) ac = ac_AddDomainMatcher p v ac"
| "ac_Add (SubstrMatcher p, v) ac = ac_AddSubstrMatcher p v ac"
| "ac_Add (RegexMatcher p f, v) ac = ac"

definition ac_build :: "(Matcher \<times> u32) list \<Rightarrow> ACAutomaton option" where
  "ac_build ms = ac_Build (foldl (\<lambda>ac mv. ac_Add mv ac) NewACAutomaton ms)"

section \<open>Longest suffixes\<close>

text \<open>The longest suffix of a word that belongs to a set of words.\<close>

fun longest :: "'a list set \<Rightarrow> 'a list \<Rightarrow> 'a list" where
  "longest T [] = []"
| "longest T (x # xs) = (if x # xs \<in> T then x # xs else longest T xs)"

locale word_set =
  fixes T :: "'a list set"
  assumes Nil_in: "[] \<in> T"
begin

lemma longest_suffix: "suffix (longest T w) w"
  by (induction w) (auto intro: suffix_ConsI)

lemma longest_in: "longest T w \<in> T"
  by (induction w) (auto simp: Nil_in)

lemma longest_id: "w \<in> T \<Longrightarrow> longest T w = w"
  by (cases w) auto

lemma longest_max: "suffix v w \<Longrightarrow> v \<in> T \<Longrightarrow> suffix v (longest T w)"
  by (induction w) (auto simp: suffix_Cons)

lemma longest_unique:
  assumes "suffix u w" "u \<in> T" "\<And>v. suffix v w \<Longrightarrow> v \<in> T \<Longrightarrow> suffix v u"
  shows "longest T w = u"
  using assms longest_suffix longest_in longest_max suffix_order.antisym by metis

lemma suffix_longest_iff: "v \<in> T \<Longrightarrow> suffix v (longest T w) \<longleftrightarrow> suffix v w"
  using longest_suffix longest_max suffix_order.trans by metis

lemma longest_restrict:
  assumes "S \<subseteq> T" "[] \<in> S"
  shows "longest S (longest T w) = longest S w"
proof -
  have S: "word_set S" using assms(2) by unfold_locales
  show ?thesis
  proof (rule word_set.longest_unique [OF S])
    show "suffix (longest S w) (longest T w)"
      using word_set.longest_suffix [OF S] word_set.longest_in [OF S] assms(1) longest_max by blast
    show "longest S w \<in> S" by (rule word_set.longest_in [OF S])
    show "suffix v (longest S w)" if "suffix v (longest T w)" "v \<in> S" for v
      using that longest_suffix suffix_order.trans word_set.longest_max [OF S] by blast
  qed
qed

end

locale trie_words = word_set +
  assumes prefix_closed: "u @ [x] \<in> T \<Longrightarrow> u \<in> T"
begin

lemma longest_snoc: "longest T (longest T w @ [x]) = longest T (w @ [x])"
proof (rule longest_unique)
  have L: "longest T (w @ [x]) \<in> T" "suffix (longest T (w @ [x])) (w @ [x])" by (rule longest_in longest_suffix)+
  have step: "suffix v (longest T w @ [x])" if "suffix v (w @ [x])" "v \<in> T" for v
  proof (cases v rule: rev_cases)
    case (snoc v' y)
    with that(1) have "y = x" "suffix v' w" by auto
    with snoc that(2) longest_max [of v' w] prefix_closed show ?thesis by auto
  qed simp
  show "suffix (longest T (w @ [x])) (longest T w @ [x])" using step L by blast
  show "longest T (w @ [x]) \<in> T" by (rule L)
  show "suffix v (longest T (w @ [x]))" if "suffix v (longest T w @ [x])" "v \<in> T" for v
  proof -
    have "suffix (longest T w @ [x]) (w @ [x])" using longest_suffix [of w] by (auto simp: suffix_def)
    with that longest_max show ?thesis using suffix_order.trans by blast
  qed
qed

text \<open>
  The two recurrences behind the construction: the fail state of \<open>w @ [x]\<close> is where the fail state of \<open>w\<close> goes
  with \<open>x\<close>, and so is the target of a missing edge.
\<close>

lemma fail_step: "w \<noteq> [] \<Longrightarrow> longest T (tl (w @ [x])) = longest T (longest T (tl w) @ [x])"
  by (simp add: longest_snoc)

lemma missing_edge: "w \<noteq> [] \<Longrightarrow> w @ [x] \<notin> T \<Longrightarrow> longest T (w @ [x]) = longest T (longest T (tl w) @ [x])"
  by (cases w) (auto simp: longest_snoc)

lemma prefix_in: "u @ v \<in> T \<Longrightarrow> u \<in> T"
proof (induction v rule: rev_induct)
  case (snoc x v)
  then show ?case using prefix_closed [of "u @ v" x] by simp
qed simp

end

section \<open>The trie\<close>

text \<open>
  \<open>ws\<close> lists the words (of edge indices) that lead from the root to the nodes. Before \<^verbatim>\<open>Build\<close>, the edges of a
  node are those of the trie.
\<close>

definition trie_node :: "nat list list \<Rightarrow> nat list \<Rightarrow> acNode \<Rightarrow> bool" where
  "trie_node ws w node \<longleftrightarrow> length (nd_next node) = 39 \<and> length (nd_edge node) = 39 \<and> nd_fail node = 0
     \<and> (\<forall>e<39. (if nd_next node ! e = 0 then w @ [e] \<notin> set ws else nd_next node ! e < length ws \<and> ws ! (nd_next node ! e) = w @ [e])
              \<and> (nd_edge node ! e = acTrieEdge \<longleftrightarrow> nd_next node ! e \<noteq> 0))"

definition trie_inv :: "nat list list \<Rightarrow> acNode list \<Rightarrow> bool" where
  "trie_inv ws nodes \<longleftrightarrow> length ws = length nodes \<and> ws \<noteq> [] \<and> ws ! 0 = [] \<and> distinct ws
     \<and> (\<forall>i<length nodes. trie_node ws (ws ! i) (nodes ! i))
     \<and> (\<forall>u e. u @ [e] \<in> set ws \<longrightarrow> u \<in> set ws \<and> e < 39)"

text \<open>\<open>acc w t\<close>: the values registered at the node of the word \<open>w\<close> for the type \<open>t\<close>.\<close>

definition val_inv :: "(nat list \<Rightarrow> nat \<Rightarrow> u32 list) \<Rightarrow> nat list list \<Rightarrow> acNode list \<Rightarrow> acValue list \<Rightarrow> bool" where
  "val_inv acc ws nodes vals \<longleftrightarrow> vals \<noteq> [] \<and> vals ! 0 = new_acValue \<and> list_all (\<lambda>vs. length vs = 3) vals
     \<and> (\<forall>i<length nodes. nd_match (nodes ! i) < length vals
          \<and> (\<forall>t<3. vals ! nd_match (nodes ! i) ! t = acc (ws ! i) t)
          \<and> (nd_match (nodes ! i) \<noteq> 0 \<longleftrightarrow> (\<exists>t<3. acc (ws ! i) t \<noteq> [])))
     \<and> (\<forall>i<length nodes. \<forall>j<length nodes. nd_match (nodes ! i) = nd_match (nodes ! j) \<and> nd_match (nodes ! i) \<noteq> 0 \<longrightarrow> i = j)
     \<and> (\<forall>w. w \<notin> set ws \<longrightarrow> acc w = (\<lambda>t. []))"

definition ac_inv :: "(nat list \<Rightarrow> nat \<Rightarrow> u32 list) \<Rightarrow> nat list list \<Rightarrow> ACAutomaton \<Rightarrow> bool" where
  "ac_inv acc ws ac \<longleftrightarrow> trie_inv ws (ac_nodes ac) \<and> val_inv acc ws (ac_nodes ac) (ac_values ac)"

lemma acCharset_less: "acCharset c < 39"
  by (auto simp: acCharset_def word_le_nat_alt)

lemma acc_new_acNode [simp]: "nd_fail new_acNode = 0" "nd_match new_acNode = 0" "length (nd_next new_acNode) = 39" "length (nd_edge new_acNode) = 39"
  "e < 39 \<Longrightarrow> nd_next new_acNode ! e = 0" "e < 39 \<Longrightarrow> nd_edge new_acNode ! e = acFailEdge"
  by (simp_all add: new_acNode_def acValidCharCount_def)

lemma new_acValue_simps [simp]: "length new_acValue = 3" "t < 3 \<Longrightarrow> new_acValue ! t = []"
  by (auto simp: new_acValue_def nth_Cons' less_Suc_eq numeral_3_eq_3)

lemma NewACAutomaton_inv: "ac_inv (\<lambda>w t. []) [[]] NewACAutomaton"
  by (simp add: ac_inv_def trie_inv_def val_inv_def trie_node_def NewACAutomaton_def addNode_def addMatchEntry_def)

lemma trie_invD:
  assumes "trie_inv ws nodes" "i < length nodes"
  shows "length ws = length nodes" "ws ! i \<in> set ws" "distinct ws" "length (nd_next (nodes ! i)) = 39" "length (nd_edge (nodes ! i)) = 39"
    "nd_fail (nodes ! i) = 0"
    "e < 39 \<Longrightarrow> nd_next (nodes ! i) ! e = 0 \<Longrightarrow> ws ! i @ [e] \<notin> set ws"
    "e < 39 \<Longrightarrow> nd_next (nodes ! i) ! e \<noteq> 0 \<Longrightarrow> nd_next (nodes ! i) ! e < length nodes \<and> ws ! (nd_next (nodes ! i) ! e) = ws ! i @ [e]"
    "e < 39 \<Longrightarrow> nd_edge (nodes ! i) ! e = acTrieEdge \<longleftrightarrow> nd_next (nodes ! i) ! e \<noteq> 0"
proof -
  show len: "length ws = length nodes" and "distinct ws" using assms(1) by (simp_all add: trie_inv_def)
  then show "ws ! i \<in> set ws" using assms(2) by simp
  have "trie_node ws (ws ! i) (nodes ! i)" using assms by (simp add: trie_inv_def)
  then show "length (nd_next (nodes ! i)) = 39" "length (nd_edge (nodes ! i)) = 39" "nd_fail (nodes ! i) = 0"
    "e < 39 \<Longrightarrow> nd_next (nodes ! i) ! e = 0 \<Longrightarrow> ws ! i @ [e] \<notin> set ws"
    "e < 39 \<Longrightarrow> nd_next (nodes ! i) ! e \<noteq> 0 \<Longrightarrow> nd_next (nodes ! i) ! e < length nodes \<and> ws ! (nd_next (nodes ! i) ! e) = ws ! i @ [e]"
    "e < 39 \<Longrightarrow> nd_edge (nodes ! i) ! e = acTrieEdge \<longleftrightarrow> nd_next (nodes ! i) ! e \<noteq> 0"
    unfolding trie_node_def len by (metis (no_types, lifting))+
qed

text \<open>A new node below the node \<open>i\<close>.\<close>

lemma trie_inv_grow:
  assumes "trie_inv ws nodes" "i < length nodes" "e < 39" "nd_next (nodes ! i) ! e = 0"
  shows "trie_inv (ws @ [ws ! i @ [e]]) ((nodes @ [new_acNode])[i := set_trie_edge e (length nodes) (nodes ! i)])"
proof -
  let ?w = "ws ! i @ [e]"
  have len: "length ws = length nodes" and node: "trie_node ws (ws ! j) (nodes ! j)" if "j < length nodes" for j
    using assms(1) that by (simp_all add: trie_inv_def)
  have lws: "length ws = length nodes" using assms(1) by (simp add: trie_inv_def)
  have new: "?w \<notin> set ws" using node [OF assms(2)] assms(3,4) by (auto simp: trie_node_def)
  have closed: "u \<in> set ws \<and> e' < 39" if "u @ [e'] \<in> set ws" for u e' using assms(1) that unfolding trie_inv_def by blast
  have dist: "distinct ws" using assms(1) by (simp add: trie_inv_def)
  have old: "trie_node (ws @ [?w]) (ws ! j) (nodes ! j)" if "j < length nodes" "j \<noteq> i" for j
  proof -
    have "ws ! j \<noteq> ws ! i" using that assms(2) lws dist nth_eq_iff_index_eq by metis
    with node [OF that(1)] show ?thesis by (auto simp: trie_node_def nth_append)
  qed
  have upd: "trie_node (ws @ [?w]) (ws ! i) (set_trie_edge e (length nodes) (nodes ! i))"
    using node [OF assms(2)] assms(2,3) lws by (auto simp: trie_node_def set_trie_edge_def nth_list_update nth_append)
  have leaf: "trie_node (ws @ [?w]) ?w new_acNode" using closed new by (auto simp: trie_node_def)
  have "trie_node (ws @ [?w]) ((ws @ [?w]) ! j) ((nodes @ [new_acNode])[i := set_trie_edge e (length nodes) (nodes ! i)] ! j)"
    if "j < Suc (length nodes)" for j
    using that old [of j] upd leaf assms(2) lws by (cases "j = length nodes") (auto simp: nth_append nth_list_update)
  moreover have "ws ! i \<in> set ws" using assms(2) lws by simp
  ultimately show ?thesis using assms(1) new closed assms(3) lws by (auto simp: trie_inv_def nth_append)
qed

lemma val_inv_grow:
  assumes "val_inv acc ws nodes vals" "i < length nodes" "length ws = length nodes" "w \<notin> set ws"
  shows "val_inv acc (ws @ [w]) ((nodes @ [new_acNode])[i := set_trie_edge e n (nodes ! i)]) vals"
proof -
  let ?nodes = "(nodes @ [new_acNode])[i := set_trie_edge e n (nodes ! i)]"
  have m: "nd_match (?nodes ! j) = (if j < length nodes then nd_match (nodes ! j) else 0)" if "j < Suc (length nodes)" for j
    using that assms(2) by (auto simp: nth_list_update nth_append set_trie_edge_def)
  have z: "vals ! 0 = new_acValue" "0 < length vals" "acc w = (\<lambda>t. [])" using assms(1,4) by (auto simp: val_inv_def)
  show ?thesis
    using assms(1,3) z by (auto simp: val_inv_def m nth_append less_Suc_eq simp del: list_update_append)
qed

lemma addPattern_loop_law:
  assumes "ac_inv acc ws ac" "i < length (ac_nodes ac)" "length (ac_nodes ac) + length cs \<le> 2 ^ 32"
  shows "\<exists>j ac' new. addPattern_loop cs i ac = (j, ac') \<and> ac_inv acc (ws @ new) ac' \<and> j < length (ac_nodes ac')
    \<and> (ws @ new) ! j = ws ! i @ map acCharset cs
    \<and> set (ws @ new) = set ws \<union> {ws ! i @ take k (map acCharset cs) |k. k \<le> length cs}
    \<and> length (ac_nodes ac') \<le> length (ac_nodes ac) + length cs \<and> ac_values ac' = ac_values ac"
  using assms
proof (induction cs arbitrary: i ws ac)
  case Nil
  have "ws ! i \<in> set ws" using Nil.prems by (auto simp: ac_inv_def trie_inv_def)
  with Nil.prems show ?case by (intro exI [of _ i] exI [of _ ac] exI [of _ "[]"]) auto
next
  case (Cons c cs)
  let ?e = "acCharset c" and ?n = "length (ac_nodes ac)"
  let ?x = "nd_next (ac_nodes ac ! i) ! ?e"
  have lws: "length ws = ?n" and wi: "ws ! i \<in> set ws" using Cons.prems(1,2) by (auto simp: ac_inv_def trie_inv_def)
  have split: "{u @ take k (map acCharset (c # cs)) |k. k \<le> length (c # cs)}
      = insert u {(u @ [?e]) @ take k (map acCharset cs) |k. k \<le> length cs}" for u
    by (auto simp: le_Suc_eq take_Cons' intro: exI [of _ "Suc _"])
  show ?case
  proof (cases "?x = 0")
    case False
    have x: "?x < ?n" "ws ! ?x = ws ! i @ [?e]"
      using trie_invD(8) [of ws "ac_nodes ac" i ?e] Cons.prems(1,2) False acCharset_less [of c] by (simp_all add: ac_inv_def)
    from Cons.IH [OF Cons.prems(1) x(1)] Cons.prems(3) obtain j ac' new where
      IH: "addPattern_loop cs ?x ac = (j, ac')" "ac_inv acc (ws @ new) ac'" "j < length (ac_nodes ac')"
      "(ws @ new) ! j = (ws ! i @ [?e]) @ map acCharset cs"
      "set (ws @ new) = set ws \<union> {(ws ! i @ [?e]) @ take k (map acCharset cs) |k. k \<le> length cs}"
      "length (ac_nodes ac') \<le> ?n + length cs" "ac_values ac' = ac_values ac" unfolding x(2) by auto
    have "set (ws @ new) = set ws \<union> {ws ! i @ take k (map acCharset (c # cs)) |k. k \<le> length (c # cs)}"
      unfolding split IH(5) using wi by blast
    moreover have "addPattern_loop (c # cs) i ac = (j, ac')" using False IH(1) by (simp add: Let_def)
    ultimately show ?thesis using IH by (intro exI [of _ j] exI [of _ ac'] exI [of _ new]) auto
  next
    case True
    define ac1 where "ac1 = ac\<lparr>ac_nodes := (ac_nodes ac @ [new_acNode])[i := set_trie_edge ?e ?n (ac_nodes ac ! i)]\<rparr>"
    let ?w = "ws ! i @ [?e]"
    have inv: "ac_inv acc (ws @ [?w]) ac1"
    proof -
      have tr: "trie_inv ws (ac_nodes ac)" "val_inv acc ws (ac_nodes ac) (ac_values ac)" using Cons.prems(1) by (auto simp: ac_inv_def)
      have "trie_node ws (ws ! i) (ac_nodes ac ! i)" using tr(1) Cons.prems(2) by (auto simp: trie_inv_def)
      then have "?w \<notin> set ws" using True acCharset_less [of c] by (auto simp: trie_node_def)
      then show ?thesis
        using trie_inv_grow [OF tr(1) Cons.prems(2) acCharset_less True] val_inv_grow [OF tr(2) Cons.prems(2) lws]
        by (simp add: ac_inv_def ac1_def)
    qed
    have n1: "length (ac_nodes ac1) = Suc ?n" "?n < length (ac_nodes ac1)" by (simp_all add: ac1_def)
    have "(ws @ [?w]) ! ?n = ?w" using lws by (simp add: nth_append)
    with Cons.IH [OF inv n1(2)] Cons.prems(3) obtain j ac' new where
      IH: "addPattern_loop cs ?n ac1 = (j, ac')" "ac_inv acc ((ws @ [?w]) @ new) ac'" "j < length (ac_nodes ac')"
      "((ws @ [?w]) @ new) ! j = ?w @ map acCharset cs"
      "set ((ws @ [?w]) @ new) = set (ws @ [?w]) \<union> {?w @ take k (map acCharset cs) |k. k \<le> length cs}"
      "length (ac_nodes ac') \<le> Suc ?n + length cs" "ac_values ac' = ac_values ac1" unfolding n1 by auto
    have "?w \<in> {?w @ take k (map acCharset cs) |k. k \<le> length cs}" by (auto intro: exI [of _ 0])
    then have "set (ws @ ?w # new) = set ws \<union> {ws ! i @ take k (map acCharset (c # cs)) |k. k \<le> length (c # cs)}"
      unfolding split using IH(5) wi by auto
    moreover have "addPattern_loop (c # cs) i ac = (j, ac')"
      using True IH(1) Cons.prems(2,3) by (simp add: Let_def addNode_def ac1_def nth_append)
    ultimately show ?thesis using IH by (intro exI [of _ j] exI [of _ ac'] exI [of _ "?w # new"]) (auto simp: ac1_def)
  qed
qed

definition register :: "nat list \<Rightarrow> nat \<Rightarrow> u32 \<Rightarrow> (nat list \<Rightarrow> nat \<Rightarrow> u32 list) \<Rightarrow> nat list \<Rightarrow> nat \<Rightarrow> u32 list" where
  "register w t v acc = acc(w := (acc w)(t := acc w t @ [v]))"

lemma val_invI:
  assumes "vals \<noteq> []" "vals ! 0 = new_acValue" "list_all (\<lambda>vs. length vs = 3) vals"
    and "\<And>i. i < length nodes \<Longrightarrow> nd_match (nodes ! i) < length vals"
    and "\<And>i t. i < length nodes \<Longrightarrow> t < 3 \<Longrightarrow> vals ! nd_match (nodes ! i) ! t = acc (ws ! i) t"
    and "\<And>i. i < length nodes \<Longrightarrow> nd_match (nodes ! i) \<noteq> 0 \<longleftrightarrow> (\<exists>t<3. acc (ws ! i) t \<noteq> [])"
    and "\<And>i j. i < length nodes \<Longrightarrow> j < length nodes \<Longrightarrow> nd_match (nodes ! i) = nd_match (nodes ! j) \<Longrightarrow> nd_match (nodes ! i) \<noteq> 0 \<Longrightarrow> i = j"
    and "\<And>w. w \<notin> set ws \<Longrightarrow> acc w = (\<lambda>t. [])"
  shows "val_inv acc ws nodes vals"
  using assms unfolding val_inv_def by blast

lemma val_invD:
  assumes "val_inv acc ws nodes vals"
  shows "0 < length vals" "vals ! 0 = new_acValue" "k < length vals \<Longrightarrow> length (vals ! k) = 3"
    "i < length nodes \<Longrightarrow> nd_match (nodes ! i) < length vals"
    "i < length nodes \<Longrightarrow> t < 3 \<Longrightarrow> vals ! nd_match (nodes ! i) ! t = acc (ws ! i) t"
    "i < length nodes \<Longrightarrow> nd_match (nodes ! i) \<noteq> 0 \<longleftrightarrow> (\<exists>t<3. acc (ws ! i) t \<noteq> [])"
    "i < length nodes \<Longrightarrow> j < length nodes \<Longrightarrow> nd_match (nodes ! i) = nd_match (nodes ! j) \<Longrightarrow> nd_match (nodes ! i) \<noteq> 0 \<Longrightarrow> i = j"
    "w \<notin> set ws \<Longrightarrow> acc w = (\<lambda>t. [])"
  using assms unfolding val_inv_def list_all_length by blast+

lemma register_other: "val_inv acc ws nodes vals \<Longrightarrow> j < length ws \<Longrightarrow> w \<notin> set ws \<Longrightarrow> register (ws ! j) t v acc w = (\<lambda>t. [])"
  using val_invD(8) nth_mem by (fastforce simp: register_def)

lemma val_inv_register:
  assumes "val_inv acc ws nodes vals" "j < length nodes" "distinct ws" "length ws = length nodes" "t < 3" "nd_match (nodes ! j) \<noteq> 0"
  shows "val_inv (register (ws ! j) t v acc) ws nodes
    (vals[nd_match (nodes ! j) := (vals ! nd_match (nodes ! j))[t := vals ! nd_match (nodes ! j) ! t @ [v]]])"
proof -
  note v = val_invD [OF assms(1)]
  let ?m = "nd_match (nodes ! j)"
  let ?vals = "vals[?m := (vals ! ?m)[t := vals ! ?m ! t @ [v]]]"
  have ws: "ws ! i = ws ! j \<longleftrightarrow> i = j" if "i < length nodes" for i using that assms(2,3,4) nth_eq_iff_index_eq by metis
  have val: "?vals ! nd_match (nodes ! i) ! t' = register (ws ! j) t v acc (ws ! i) t'" if "i < length nodes" "t' < 3" for i t'
  proof (cases "i = j")
    case True
    then show ?thesis using v(3) [OF v(4) [OF assms(2)]] v(4) [OF assms(2)] v(5) [OF assms(2)] that(2) assms(5)
      by (simp add: register_def nth_list_update)
  next
    case False
    then have "nd_match (nodes ! i) \<noteq> ?m" using v(7) [OF that(1) assms(2)] assms(6) by auto
    then show ?thesis using False ws [OF that(1)] v(5) [OF that] by (simp add: register_def)
  qed
  have nz: "nd_match (nodes ! i) \<noteq> 0 \<longleftrightarrow> (\<exists>t'<3. register (ws ! j) t v acc (ws ! i) t' \<noteq> [])" if "i < length nodes" for i
  proof (cases "i = j")
    case True
    then show ?thesis using assms(5,6) by (auto simp: register_def)
  next
    case False
    then show ?thesis using v(6) [OF that] ws [OF that] by (simp add: register_def)
  qed
  have len: "list_all (\<lambda>vs. length vs = 3) ?vals" using v(3) v(4) [OF assms(2)] by (simp add: list_all_length nth_list_update)
  have z: "?vals ! 0 = new_acValue" and ne: "?vals \<noteq> []" using v(1,2) assms(6) by (auto simp: nth_list_update)
  have lt: "nd_match (nodes ! i) < length ?vals" if "i < length nodes" for i using v(4) [OF that] by simp
  have other: "register (ws ! j) t v acc w = (\<lambda>t. [])" if "w \<notin> set ws" for w
    using register_other [OF assms(1) _ that] assms(2,4) by simp
  show ?thesis by (rule val_invI [OF ne z len lt val nz v(7) other])
qed

lemma val_inv_entry:
  assumes "val_inv acc ws nodes vals" "j < length nodes" "nd_match (nodes ! j) = 0" "distinct ws" "length ws = length nodes" "t < 3"
  shows "val_inv (register (ws ! j) t v acc) ws (nodes[j := (nodes ! j)\<lparr>nd_match := length vals\<rparr>]) (vals @ [new_acValue[t := [v]]])"
proof -
  note v = val_invD [OF assms(1)]
  let ?nodes = "nodes[j := (nodes ! j)\<lparr>nd_match := length vals\<rparr>]" and ?vals = "vals @ [new_acValue[t := [v]]]"
  have m: "nd_match (?nodes ! i) = (if i = j then length vals else nd_match (nodes ! i))" if "i < length nodes" for i
    using that by (simp add: nth_list_update)
  have ws: "ws ! i = ws ! j \<longleftrightarrow> i = j" if "i < length nodes" for i using that assms(2,4,5) nth_eq_iff_index_eq by metis
  have accj: "acc (ws ! j) t' = []" if "t' < 3" for t' using v(6) [OF assms(2)] assms(3) that by blast
  have val: "?vals ! nd_match (?nodes ! i) ! t' = register (ws ! j) t v acc (ws ! i) t'" if "i < length ?nodes" "t' < 3" for i t'
  proof (cases "i = j")
    case True
    then show ?thesis using that accj [of t'] accj [of t] assms(6) by (simp add: m register_def nth_append nth_list_update)
  next
    case False
    then show ?thesis using that v(4,5) [of i] ws [of i] by (simp add: m register_def nth_append)
  qed
  have nz: "nd_match (?nodes ! i) \<noteq> 0 \<longleftrightarrow> (\<exists>t'<3. register (ws ! j) t v acc (ws ! i) t' \<noteq> [])" if "i < length ?nodes" for i
  proof (cases "i = j")
    case True
    then show ?thesis using assms(6) that v(1) by (auto simp: m register_def)
  next
    case False
    then show ?thesis using v(6) [of i] ws [of i] that by (simp add: m register_def)
  qed
  have inj: "i = k" if "i < length ?nodes" "k < length ?nodes" "nd_match (?nodes ! i) = nd_match (?nodes ! k)" "nd_match (?nodes ! i) \<noteq> 0" for i k
    using that v(4) [of i] v(4) [of k] v(7) [of i k] by (auto simp: m split: if_splits)
  have lt: "nd_match (?nodes ! i) < length ?vals" if "i < length ?nodes" for i using v(4) [of i] that by (simp add: m)
  have len: "list_all (\<lambda>vs. length vs = 3) ?vals" using assms(1) by (simp add: val_inv_def)
  have z: "?vals ! 0 = new_acValue" and ne: "?vals \<noteq> []" using v(1,2) by (simp_all add: nth_append)
  have other: "register (ws ! j) t v acc w = (\<lambda>t. [])" if "w \<notin> set ws" for w
    using register_other [OF assms(1) _ that] assms(2,5) by simp
  show ?thesis by (rule val_invI [OF ne z len lt val nz inj other])
qed

lemma trie_inv_match:
  assumes "trie_inv ws nodes"
  shows "trie_inv ws (nodes[j := (nodes ! j)\<lparr>nd_match := m\<rparr>])"
proof -
  have "trie_node ws w (n\<lparr>nd_match := m\<rparr>) \<longleftrightarrow> trie_node ws w n" for w n by (simp add: trie_node_def)
  with assms show ?thesis
    by (cases "j < length nodes") (auto simp: trie_inv_def nth_list_update list_update_beyond)
qed

lemma addPattern_law:
  assumes "ac_inv acc ws ac" "i < length (ac_nodes ac)" "length (ac_nodes ac) + length p \<le> 2 ^ 32"
    "length (ac_values ac) < 2 ^ 32" "Type_index t < 3"
  shows "\<exists>j ac' new. addPattern i p t v ac = (j, ac') \<and> ac_inv (register (ws ! i @ map acCharset (rev p)) (Type_index t) v acc) (ws @ new) ac'
    \<and> j < length (ac_nodes ac') \<and> (ws @ new) ! j = ws ! i @ map acCharset (rev p)
    \<and> set (ws @ new) = set ws \<union> {ws ! i @ take k (map acCharset (rev p)) |k. k \<le> length p}
    \<and> length (ac_nodes ac') \<le> length (ac_nodes ac) + length p \<and> length (ac_values ac') \<le> Suc (length (ac_values ac))"
proof -
  let ?w = "ws ! i @ map acCharset (rev p)" and ?t = "Type_index t"
  from addPattern_loop_law [OF assms(1,2), of "rev p"] assms(3) obtain j ac1 new where
    l: "addPattern_loop (rev p) i ac = (j, ac1)" "ac_inv acc (ws @ new) ac1" "j < length (ac_nodes ac1)" "(ws @ new) ! j = ?w"
    "set (ws @ new) = set ws \<union> {ws ! i @ take k (map acCharset (rev p)) |k. k \<le> length p}"
    "length (ac_nodes ac1) \<le> length (ac_nodes ac) + length p" "ac_values ac1 = ac_values ac" by auto
  have tr: "trie_inv (ws @ new) (ac_nodes ac1)" and vi: "val_inv acc (ws @ new) (ac_nodes ac1) (ac_values ac1)"
    using l(2) by (simp_all add: ac_inv_def)
  note d = trie_invD(1,3) [OF tr l(3)]
  let ?n = "ac_nodes ac1 ! j"
  show ?thesis
  proof (cases "nd_match ?n = 0")
    case False
    let ?m = "nd_match ?n"
    define ac' where "ac' = ac1\<lparr>ac_values := (ac_values ac1)[?m := (ac_values ac1 ! ?m)[?t := ac_values ac1 ! ?m ! ?t @ [v]]]\<rparr>"
    have "addPattern i p t v ac = (j, ac')" using l(1) False by (simp add: addPattern_def Let_def ac'_def)
    moreover have "ac_inv (register ?w ?t v acc) (ws @ new) ac'"
      using val_inv_register [OF vi l(3) d(2,1) assms(5) False, of v] tr l(4) by (simp add: ac_inv_def ac'_def)
    ultimately show ?thesis using l(3-7) by (intro exI [of _ j] exI [of _ ac'] exI [of _ new]) (simp add: ac'_def)
  next
    case True
    let ?nodes = "(ac_nodes ac1)[j := ?n\<lparr>nd_match := length (ac_values ac1)\<rparr>]"
    define ac' where "ac' = ac1\<lparr>ac_nodes := ?nodes, ac_values := ac_values ac1 @ [new_acValue[?t := [v]]]\<rparr>"
    have "new_acValue ! ?t = []" using assms(5) by simp
    then have "addPattern i p t v ac = (j, ac')"
      using l True assms(4) by (simp add: addPattern_def Let_def addMatchEntry_def ac'_def list_update_append nth_append)
    moreover have "trie_inv (ws @ new) ?nodes"
      using tr by (rule trie_inv_match)
    then have "ac_inv (register ?w ?t v acc) (ws @ new) ac'"
      using val_inv_entry [OF vi l(3) True d(2,1) assms(5), of v] l(4) by (simp add: ac_inv_def ac'_def)
    ultimately show ?thesis using l(3-7) by (intro exI [of _ j] exI [of _ ac'] exI [of _ new]) (simp add: ac'_def)
  qed
qed

section \<open>The words of a group\<close>

definition key :: "gostring \<Rightarrow> nat list" where
  "key p = map acCharset (rev p)"

fun ac_words :: "Matcher \<Rightarrow> nat list list" where
  "ac_words (FullMatcher p) = [key p]"
| "ac_words (DomainMatcher p) = [key p, key p @ [28]]"
| "ac_words (SubstrMatcher p) = [key p]"
| "ac_words (RegexMatcher p f) = []"

definition states :: "(Matcher \<times> u32) list \<Rightarrow> nat list set" where
  "states ms = {u. u = [] \<or> (\<exists>m v w. (m, v) \<in> set ms \<and> w \<in> set (ac_words m) \<and> prefix u w)}"

definition acc_of :: "(Matcher \<times> u32) list \<Rightarrow> nat list \<Rightarrow> nat \<Rightarrow> u32 list" where
  "acc_of ms w t = values_of ms (\<lambda>m. Type_index (Matcher_Type m) = t \<and> w \<in> set (ac_words m))"

interpretation ac_states: trie_words "states ms" for ms
  by unfold_locales (auto simp: states_def dest: append_prefixD)

lemma prefixes_take: "{u. prefix u w} = {take k w |k. k \<le> length w}"
  by (auto simp: take_is_prefix) (metis append_eq_conv_conj prefix_def prefix_length_le)

lemma states_snoc: "states (ms @ [(m, v)]) = states ms \<union> (\<Union>w \<in> set (ac_words m). {u. prefix u w})"
  by (auto simp: states_def)

definition ac_cost :: "(Matcher \<times> u32) list \<Rightarrow> nat" where
  "ac_cost ms = sum_list (map (\<lambda>(m, v). Suc (Suc (length (Pattern m)))) ms)"

lemma acCharset_dot [simp]: "acCharset dot = 28"
  by (simp add: acCharset_def dot_def)

lemma acc_of_snoc:
  "Matcher_Type m \<noteq> Domain \<Longrightarrow> ac_words m = [w] \<Longrightarrow> acc_of (ms @ [(m, v)]) = register w (Type_index (Matcher_Type m)) v (acc_of ms)"
  "acc_of (ms @ [(DomainMatcher p, v)]) = register (key p @ [28]) 1 v (register (key p) 1 v (acc_of ms))"
  "acc_of (ms @ [(RegexMatcher p f, v)]) = acc_of ms"
  by (auto simp: acc_of_def register_def fun_eq_iff)

lemma foldl_ac_Add:
  assumes "1 + ac_cost ms < 2 ^ 32"
  shows "\<exists>ws. ac_inv (acc_of ms) ws (foldl (\<lambda>ac mv. ac_Add mv ac) NewACAutomaton ms) \<and> set ws = states ms
    \<and> length (ac_nodes (foldl (\<lambda>ac mv. ac_Add mv ac) NewACAutomaton ms)) \<le> 1 + ac_cost ms
    \<and> length (ac_values (foldl (\<lambda>ac mv. ac_Add mv ac) NewACAutomaton ms)) \<le> 1 + ac_cost ms"
  using assms
proof (induction ms rule: rev_induct)
  case Nil
  have "acc_of [] = (\<lambda>w t. [])" "states [] = {[]}" by (auto simp: acc_of_def states_def fun_eq_iff)
  then show ?case using NewACAutomaton_inv
    by (intro exI [of _ "[[]]"]) (simp add: NewACAutomaton_def addNode_def addMatchEntry_def)
next
  case (snoc x ms)
  obtain m v where x: "x = (m, v)" by fastforce
  let ?ac = "foldl (\<lambda>ac mv. ac_Add mv ac) NewACAutomaton ms"
  have cost: "ac_cost (ms @ [x]) = ac_cost ms + Suc (Suc (length (Pattern m)))" by (simp add: ac_cost_def x)
  obtain ws where IH: "ac_inv (acc_of ms) ws ?ac" "set ws = states ms" "length (ac_nodes ?ac) \<le> 1 + ac_cost ms" "length (ac_values ?ac) \<le> 1 + ac_cost ms"
    using snoc.IH snoc.prems cost by auto
  have root: "0 < length (ac_nodes ?ac)" "ws ! 0 = []" using IH(1) by (auto simp: ac_inv_def trie_inv_def)
  have single: "\<exists>ac' new j. addPattern 0 (Pattern m) t v ?ac = (j, ac') \<and> ac_inv (register (key (Pattern m)) (Type_index t) v (acc_of ms)) (ws @ new) ac'
      \<and> j < length (ac_nodes ac') \<and> (ws @ new) ! j = key (Pattern m) \<and> set (ws @ new) = states ms \<union> {u. prefix u (key (Pattern m))}
      \<and> length (ac_nodes ac') \<le> length (ac_nodes ?ac) + length (Pattern m) \<and> length (ac_values ac') \<le> Suc (length (ac_values ?ac))"
    if "Type_index t < 3" for t
    using addPattern_law [OF IH(1) root(1) _ _ that, of "Pattern m" v] IH(2-4) snoc.prems cost root(2)
    by (auto simp: key_def prefixes_take)
  show ?case
  proof (cases m)
    case (DomainMatcher p)
    from single [of Domain] obtain ac1 new j where
      1: "addPattern 0 p Domain v ?ac = (j, ac1)" "ac_inv (register (key p) 1 v (acc_of ms)) (ws @ new) ac1" "j < length (ac_nodes ac1)"
      "(ws @ new) ! j = key p" "set (ws @ new) = states ms \<union> {u. prefix u (key p)}"
      "length (ac_nodes ac1) \<le> length (ac_nodes ?ac) + length p" "length (ac_values ac1) \<le> Suc (length (ac_values ?ac))"
      using DomainMatcher by auto
    have sz: "length (ac_nodes ac1) + length [dot] \<le> 2 ^ 32" "length (ac_values ac1) < 2 ^ 32" "Type_index Domain < 3"
      using 1(6,7) IH(3,4) snoc.prems cost DomainMatcher by simp_all
    from addPattern_law [OF 1(2,3) sz, of v] 1(4) obtain ac2 new2 j2 where
      2: "addPattern j [dot] Domain v ac1 = (j2, ac2)" "ac_inv (register (key p @ [28]) 1 v (register (key p) 1 v (acc_of ms))) ((ws @ new) @ new2) ac2"
      "set ((ws @ new) @ new2) = set (ws @ new) \<union> {key p @ take k [28] |k. k \<le> 1}"
      "length (ac_nodes ac2) \<le> length (ac_nodes ac1) + 1" "length (ac_values ac2) \<le> Suc (length (ac_values ac1))"
      by auto
    have "{k :: nat. k \<le> 1} = {0, 1}" by auto
    then have "{key p @ take k [28] |k. k \<le> 1} = {key p, key p @ [28]}" by (simp add: setcompr_eq_image)
    then have "set ((ws @ new) @ new2) = states (ms @ [(DomainMatcher p, v)])"
      unfolding states_snoc 2(3) 1(5) by auto
    moreover have "ac_Add (DomainMatcher p, v) ?ac = ac2" using 1(1) 2(1) by (simp add: ac_AddDomainMatcher_def)
    ultimately show ?thesis using 2(2,4,5) 1(6,7) IH(3,4) cost DomainMatcher
      by (intro exI [of _ "(ws @ new) @ new2"]) (simp add: x acc_of_snoc)
  next
    case (FullMatcher p)
    with single [of Full] obtain ac1 new j where
      1: "addPattern 0 p Full v ?ac = (j, ac1)" "ac_inv (register (key p) 0 v (acc_of ms)) (ws @ new) ac1" "set (ws @ new) = states ms \<union> {u. prefix u (key p)}"
      "length (ac_nodes ac1) \<le> length (ac_nodes ?ac) + length p" "length (ac_values ac1) \<le> Suc (length (ac_values ?ac))" by auto
    moreover have "ac_Add (FullMatcher p, v) ?ac = ac1" using 1(1) by (simp add: ac_AddFullMatcher_def)
    ultimately show ?thesis using IH(3,4) cost FullMatcher
      by (intro exI [of _ "ws @ new"]) (simp add: x acc_of_snoc states_snoc)
  next
    case (SubstrMatcher p)
    with single [of Substr] obtain ac1 new j where
      1: "addPattern 0 p Substr v ?ac = (j, ac1)" "ac_inv (register (key p) 2 v (acc_of ms)) (ws @ new) ac1" "set (ws @ new) = states ms \<union> {u. prefix u (key p)}"
      "length (ac_nodes ac1) \<le> length (ac_nodes ?ac) + length p" "length (ac_values ac1) \<le> Suc (length (ac_values ?ac))" by auto
    moreover have "ac_Add (SubstrMatcher p, v) ?ac = ac1" using 1(1) by (simp add: ac_AddSubstrMatcher_def)
    ultimately show ?thesis using IH(3,4) cost SubstrMatcher
      by (intro exI [of _ "ws @ new"]) (simp add: x acc_of_snoc states_snoc)
  next
    case (RegexMatcher p f)
    then show ?thesis using IH cost by (intro exI [of _ ws]) (simp add: x acc_of_snoc states_snoc)
  qed
qed

section \<open>Building the automaton\<close>

text \<open>The fail path of a word, compressed to the words with substring values.\<close>

definition hits :: "nat list set \<Rightarrow> (nat list \<Rightarrow> nat \<Rightarrow> u32 list) \<Rightarrow> nat list set" where
  "hits T acc = {w. w = [] \<or> w \<in> T \<and> acc w 2 \<noteq> []}"

definition cfail :: "nat list set \<Rightarrow> (nat list \<Rightarrow> nat \<Rightarrow> u32 list) \<Rightarrow> nat list \<Rightarrow> nat list" where
  "cfail T acc w = longest (hits T acc) (tl w)"

interpretation hits: word_set "hits T acc" for T acc
  by unfold_locales (simp add: hits_def)

lemma cfail_step:
  assumes "[] \<in> T"
  shows "cfail T acc w = (let f = longest T (tl w) in if acc f 2 \<noteq> [] then f else cfail T acc f)"
proof -
  have T: "word_set T" using assms by unfold_locales
  let ?f = "longest T (tl w)" and ?H = "hits T acc"
  have "cfail T acc w = longest ?H ?f"
  proof -
    have "?H \<subseteq> T" "[] \<in> ?H" using assms by (auto simp: hits_def)
    from word_set.longest_restrict [OF T this, of "tl w"] show ?thesis by (simp add: cfail_def)
  qed
  moreover have "longest ?H ?f = ?f" if "acc ?f 2 \<noteq> []"
    using that word_set.longest_in [OF T] by (intro hits.longest_id) (simp add: hits_def)
  moreover have "longest ?H ?f = cfail T acc ?f" if "acc ?f 2 = []"
    using that by (cases ?f) (auto simp: cfail_def hits_def)
  ultimately show ?thesis by (simp add: Let_def)
qed

lemma has_substr_acc:
  assumes "val_inv acc ws nodes vals" "i < length nodes" "nd_match node = nd_match (nodes ! i)"
  shows "has_substr vals node \<longleftrightarrow> acc (ws ! i) 2 \<noteq> []"
  using val_invD(5) [OF assms(1,2), of 2] val_invD(6) [OF assms(1,2)] assms(3) by (auto simp: has_substr_def)

text \<open>All edges of one node: \<open>c e\<close> are its children, \<open>g e\<close> the nodes its fail node goes to.\<close>

lemma build_edges:
  fixes c :: "nat \<Rightarrow> nat" and g :: "nat \<Rightarrow> nat"
  defines "kids \<equiv> \<lambda>n. filter (\<lambda>j. j \<noteq> 0) (map c [0..<n])"
  assumes i: "i < length nodes" "f < length nodes" "length fail = length nodes" "f \<noteq> i" "nd_next (nodes ! i) = map c [0..<39]" "length (nd_edge (nodes ! i)) = 39"
    and c: "\<And>e. e < 39 \<Longrightarrow> c e \<noteq> 0 \<Longrightarrow> c e < length nodes \<and> c e \<noteq> i \<and> c e \<noteq> f"
      "\<And>e e'. e < 39 \<Longrightarrow> e' < 39 \<Longrightarrow> c e \<noteq> 0 \<Longrightarrow> c e = c e' \<Longrightarrow> e = e'"
      "\<And>e. e < 39 \<Longrightarrow> c e = 0 \<Longrightarrow> nd_edge (nodes ! i) ! e = acFailEdge"
    and g: "\<And>e. e < 39 \<Longrightarrow> nd_next (nodes ! f) ! e = g e \<and> g e < length nodes"
      "\<And>e e'. e < 39 \<Longrightarrow> e' < 39 \<Longrightarrow> c e \<noteq> 0 \<Longrightarrow> c e \<noteq> g e'"
    and n: "n \<le> 39"
  shows "\<exists>nodes' fail'. fold (build_edge vals i f) [0..<n] (nodes, fail, q) = (nodes', fail', q @ kids n)
    \<and> length nodes' = length nodes \<and> length fail' = length nodes
    \<and> (\<forall>j<length nodes. nd_match (nodes' ! j) = nd_match (nodes ! j) \<and> nd_edge (nodes' ! j) = nd_edge (nodes ! j)
        \<and> nd_next (nodes' ! j) = (if j = i then map (\<lambda>e. if e < n \<and> c e = 0 then g e else c e) [0..<39] else nd_next (nodes ! j)))
    \<and> (\<forall>j<length nodes. j \<notin> set (kids n) \<longrightarrow> nd_fail (nodes' ! j) = nd_fail (nodes ! j) \<and> fail' ! j = fail ! j)
    \<and> (\<forall>e<n. c e \<noteq> 0 \<longrightarrow> fail' ! c e = g e
        \<and> nd_fail (nodes' ! c e) = (if has_substr vals (nodes ! g e) then g e else nd_fail (nodes ! g e)))"
  using n
proof (induction n)
  case 0
  show ?case using i(3,5) by (intro exI [of _ nodes] exI [of _ fail]) (simp add: kids_def)
next
  case (Suc n)
  let ?N = "length nodes"
  from Suc obtain nodes' fail' where
    f': "fold (build_edge vals i f) [0..<n] (nodes, fail, q) = (nodes', fail', q @ kids n)" "length nodes' = ?N" "length fail' = ?N"
    and nd: "\<And>j. j < ?N \<Longrightarrow> nd_match (nodes' ! j) = nd_match (nodes ! j)" "\<And>j. j < ?N \<Longrightarrow> nd_edge (nodes' ! j) = nd_edge (nodes ! j)"
      "\<And>j. j < ?N \<Longrightarrow> nd_next (nodes' ! j) = (if j = i then map (\<lambda>e. if e < n \<and> c e = 0 then g e else c e) [0..<39] else nd_next (nodes ! j))"
    and keep: "\<And>j. j < ?N \<Longrightarrow> j \<notin> set (kids n) \<Longrightarrow> nd_fail (nodes' ! j) = nd_fail (nodes ! j) \<and> fail' ! j = fail ! j"
    and new: "\<And>e. e < n \<Longrightarrow> c e \<noteq> 0 \<Longrightarrow> fail' ! c e = g e
        \<and> nd_fail (nodes' ! c e) = (if has_substr vals (nodes ! g e) then g e else nd_fail (nodes ! g e))" by auto
  have n39: "n < 39" using Suc.prems by simp
  have cn: "nd_next (nodes' ! i) ! n = c n" and gn: "nd_next (nodes' ! f) ! n = g n"
    using nd(3) [OF i(1)] nd(3) [OF i(2)] i(4) g(1) [OF n39] n39 by simp_all
  have kids: "kids (Suc n) = kids n @ (if c n \<noteq> 0 then [c n] else [])" by (simp add: kids_def)
  have gk: "g n \<notin> set (kids n)"
  proof
    assume "g n \<in> set (kids n)"
    then obtain e where "e < n" "c e \<noteq> 0" "g n = c e" by (auto simp: kids_def)
    with g(2) [OF _ n39, of e] n39 show False by simp
  qed
  have hs: "has_substr vals (nodes' ! g n) \<longleftrightarrow> has_substr vals (nodes ! g n)"
    using nd(1) g(1) [OF n39] by (simp add: has_substr_def)
  have step: "fold (build_edge vals i f) [0..<Suc n] (nodes, fail, q) = build_edge vals i f n (nodes', fail', q @ kids n)" using f'(1) by simp
  show ?case
  proof (cases "c n = 0")
    case False
    let ?F = "if has_substr vals (nodes ! g n) then g n else nd_fail (nodes ! g n)"
    define nodes2 where "nodes2 = nodes'[c n := (nodes' ! c n)\<lparr>nd_fail := ?F\<rparr>]"
    have c': "c n < ?N" "c n \<noteq> i" using c(1) [OF n39 False] by auto
    have l2: "length nodes2 = ?N" using f'(2) by (simp add: nodes2_def)
    have res: "fold (build_edge vals i f) [0..<Suc n] (nodes, fail, q) = (nodes2, fail'[c n := g n], q @ kids (Suc n))"
      using False keep [OF _ gk] g(1) [OF n39] unfolding step by (simp add: build_edge_def cn gn hs kids nodes2_def Let_def)
    have nd2: "nd_match (nodes2 ! j) = nd_match (nodes' ! j)" "nd_edge (nodes2 ! j) = nd_edge (nodes' ! j)" "nd_next (nodes2 ! j) = nd_next (nodes' ! j)"
      "nd_fail (nodes2 ! j) = (if j = c n then ?F else nd_fail (nodes' ! j))" if "j < ?N" for j
      using that c'(1) f'(2) by (auto simp: nodes2_def nth_list_update)
    have next_eq: "(\<lambda>e. if e < Suc n \<and> c e = 0 then g e else c e) = (\<lambda>e. if e < n \<and> c e = 0 then g e else c e)"
      using False by (auto simp: fun_eq_iff less_Suc_eq)
    have "fail'[c n := g n] ! c e = g e \<and> nd_fail (nodes2 ! c e) = (if has_substr vals (nodes ! g e) then g e else nd_fail (nodes ! g e))"
      if "e < Suc n" "c e \<noteq> 0" for e
    proof (cases "e = n")
      case True
      then show ?thesis using c'(1) f'(3) by (simp add: nd2)
    next
      case ne: False
      then have e: "e < n" using that(1) by simp
      then have "c e \<noteq> c n" "c e < ?N" using c(1,2) [of e] n39 that(2) ne by auto
      then show ?thesis using new [OF e that(2)] by (simp add: nd2)
    qed
    then show ?thesis unfolding res
      using f'(2,3) nd keep l2 False by (intro exI [of _ nodes2] exI [of _ "fail'[c n := g n]"]) (simp add: nd2 next_eq kids)
  next
    case True
    define nodes2 where "nodes2 = nodes'[i := (nodes' ! i)\<lparr>nd_next := (nd_next (nodes' ! i))[n := g n], nd_edge := (nd_edge (nodes' ! i))[n := acFailEdge]\<rparr>]"
    have l2: "length nodes2 = ?N" using f'(2) by (simp add: nodes2_def)
    have res: "fold (build_edge vals i f) [0..<Suc n] (nodes, fail, q) = (nodes2, fail', q @ kids (Suc n))"
      using True unfolding step by (simp add: build_edge_def cn gn kids nodes2_def Let_def)
    have "(nd_edge (nodes' ! i))[n := acFailEdge] = nd_edge (nodes' ! i)"
      using c(3) [OF n39 True] nd(2) [OF i(1)] by (metis list_update_id)
    then have nd2: "nd_match (nodes2 ! j) = nd_match (nodes' ! j)" "nd_edge (nodes2 ! j) = nd_edge (nodes' ! j)" "nd_fail (nodes2 ! j) = nd_fail (nodes' ! j)"
      "nd_next (nodes2 ! j) = (if j = i then (nd_next (nodes' ! i))[n := g n] else nd_next (nodes' ! j))" if "j < ?N" for j
      using that i(1) f'(2) by (auto simp: nodes2_def nth_list_update)
    have next_eq: "(map (\<lambda>e. if e < n \<and> c e = 0 then g e else c e) [0..<39])[n := g n] = map (\<lambda>e. if e < Suc n \<and> c e = 0 then g e else c e) [0..<39]"
      using True n39 by (intro nth_equalityI) (auto simp: nth_list_update less_Suc_eq)
    have "fail' ! c e = g e \<and> nd_fail (nodes2 ! c e) = (if has_substr vals (nodes ! g e) then g e else nd_fail (nodes ! g e))"
      if "e < Suc n" "c e \<noteq> 0" for e
    proof -
      have "e < n" using that True by (auto simp: less_Suc_eq)
      then show ?thesis using new [OF _ that(2)] c(1) [of e] n39 that(2) by (simp add: nd2)
    qed
    then show ?thesis unfolding res
      using f'(2,3) nd keep True l2 by (intro exI [of _ nodes2] exI [of _ fail']) (simp add: nd2 next_eq kids)
  qed
qed

text \<open>
  The invariant of the breadth-first traversal. \<open>N\<close> are the nodes before \<^verbatim>\<open>Build\<close>, \<open>D\<close> the nodes that have been
  processed.
\<close>

definition fails_ok :: "(nat list \<Rightarrow> nat \<Rightarrow> u32 list) \<Rightarrow> nat list list \<Rightarrow> acNode list \<Rightarrow> nat list \<Rightarrow> nat \<Rightarrow> bool" where
  "fails_ok acc ws nodes fail i \<longleftrightarrow> fail ! i < length nodes \<and> ws ! (fail ! i) = longest (set ws) (tl (ws ! i))
     \<and> nd_fail (nodes ! i) < length nodes \<and> ws ! nd_fail (nodes ! i) = cfail (set ws) acc (ws ! i)"

definition next_ok :: "nat list list \<Rightarrow> acNode list \<Rightarrow> nat \<Rightarrow> bool" where
  "next_ok ws nodes i \<longleftrightarrow>
     (\<forall>e<39. nd_next (nodes ! i) ! e < length nodes \<and> ws ! (nd_next (nodes ! i) ! e) = longest (set ws) (ws ! i @ [e]))"

definition bfs_inv :: "(nat list \<Rightarrow> nat \<Rightarrow> u32 list) \<Rightarrow> nat list list \<Rightarrow> acNode list \<Rightarrow> acNode list \<Rightarrow> nat list \<Rightarrow> nat list \<Rightarrow> nat set \<Rightarrow> bool" where
  "bfs_inv acc ws N nodes fail queue D \<longleftrightarrow> length nodes = length N \<and> length fail = length N
     \<and> (\<forall>i<length N. nd_match (nodes ! i) = nd_match (N ! i) \<and> nd_edge (nodes ! i) = nd_edge (N ! i))
     \<and> D \<subseteq> {0<..<length N} \<and> (\<forall>i<length N. i \<notin> D \<longrightarrow> nd_next (nodes ! i) = nd_next (N ! i))
     \<and> (\<forall>i \<in> insert 0 D. next_ok ws nodes i) \<and> (\<forall>i \<in> insert 0 D \<union> set queue. fails_ok acc ws nodes fail i)
     \<and> distinct queue \<and> set queue \<subseteq> {0<..<length N} - D
     \<and> sorted (map (\<lambda>i. length (ws ! i)) queue) \<and> (\<forall>i \<in> set queue. length (ws ! i) \<le> Suc (length (ws ! hd queue)))
     \<and> (\<forall>i<length N. \<forall>j \<in> insert 0 D. \<forall>e. ws ! i = ws ! j @ [e] \<longrightarrow> i \<in> D \<union> set queue)
     \<and> (\<forall>i \<in> D \<union> set queue. \<exists>j \<in> insert 0 D. \<exists>e. ws ! i = ws ! j @ [e])"

lemma bfs_invD:
  assumes "bfs_inv acc ws N nodes fail queue D"
  shows "length nodes = length N" "length fail = length N"
    "\<forall>i<length N. nd_match (nodes ! i) = nd_match (N ! i) \<and> nd_edge (nodes ! i) = nd_edge (N ! i)"
    "D \<subseteq> {0<..<length N}" "\<forall>i<length N. i \<notin> D \<longrightarrow> nd_next (nodes ! i) = nd_next (N ! i)"
    "\<forall>i \<in> insert 0 D. next_ok ws nodes i" "\<forall>i \<in> insert 0 D \<union> set queue. fails_ok acc ws nodes fail i"
    "distinct queue" "set queue \<subseteq> {0<..<length N} - D"
    "sorted (map (\<lambda>i. length (ws ! i)) queue)" "\<forall>i \<in> set queue. length (ws ! i) \<le> Suc (length (ws ! hd queue))"
    "\<forall>i<length N. \<forall>j \<in> insert 0 D. \<forall>e. ws ! i = ws ! j @ [e] \<longrightarrow> i \<in> D \<union> set queue"
    "\<forall>i \<in> D \<union> set queue. \<exists>j \<in> insert 0 D. \<exists>e. ws ! i = ws ! j @ [e]"
  using assms unfolding bfs_inv_def by - (elim conjE, assumption)+

lemma bfs_reached:
  assumes "trie_inv ws N" "bfs_inv acc ws N nodes fail queue D" "k < length N"
    "queue = [] \<or> length (ws ! k) \<le> length (ws ! hd queue)"
  shows "k \<in> insert 0 D \<union> set queue"
  using assms(3,4)
proof (induction "ws ! k" arbitrary: k rule: rev_induct)
  case Nil
  have "0 < length N" "ws ! 0 = []" using assms(1) by (auto simp: trie_inv_def)
  then have "k = 0" using trie_invD(1,3) [OF assms(1)] Nil nth_eq_iff_index_eq by metis
  then show ?case by simp
next
  case (snoc e u)
  have "ws ! k \<in> set ws" using trie_invD(2) [OF assms(1) snoc.prems(1)] .
  then have "u \<in> set ws" using assms(1) snoc(2) unfolding trie_inv_def by metis
  then obtain j where j: "j < length N" "ws ! j = u" using trie_invD(1) [OF assms(1) snoc.prems(1)] by (metis in_set_conv_nth)
  have lk: "length (ws ! k) = Suc (length u)" using snoc(2) [symmetric] by simp
  have "j \<in> insert 0 D \<union> set queue" using snoc(1) [OF j(2) [symmetric] j(1)] snoc.prems(2) lk j(2) by auto
  moreover have "j \<notin> set queue"
  proof
    assume jq: "j \<in> set queue"
    then have "queue \<noteq> []" by auto
    moreover have "sorted (map (\<lambda>i. length (ws ! i)) queue)" using assms(2) by (simp add: bfs_inv_def)
    ultimately have "length (ws ! hd queue) \<le> length (ws ! j)" using jq by (cases queue) auto
    with snoc.prems(2) lk j(2) \<open>queue \<noteq> []\<close> show False by simp
  qed
  ultimately have "j \<in> insert 0 D" by blast
  then show ?case using assms(2) snoc.prems(1) snoc(2) j(2) unfolding bfs_inv_def by (metis Un_iff insertCI)
qed

lemma sorted_const: "(\<And>x. x \<in> set xs \<Longrightarrow> h x = (c :: nat)) \<Longrightarrow> sorted (map h xs)"
  by (induction xs) auto

text \<open>One round of the outer loop.\<close>

lemma bfs_step:
  assumes tr: "trie_inv ws N" and vi: "val_inv acc ws N vals" and inv: "bfs_inv acc ws N nodes fail (i # queue) D"
  obtains nodes' fail' kids where "fold (build_edge vals i (fail ! i)) [0..<acValidCharCount] (nodes, fail, queue) = (nodes', fail', queue @ kids)"
    "bfs_inv acc ws N nodes' fail' (queue @ kids) (insert i D)" "i \<notin> D" "i < length N"
proof -
  let ?n = "length N" and ?T = "set ws" and ?f = "fail ! i"
  note I = bfs_invD [OF inv]
  note len = I(1,2)
  have iD: "0 < i" "i < ?n" "i \<notin> D" and Dn: "D \<subseteq> {0<..<?n}" using I(4,9) by auto
  have same: "nd_match (nodes ! j) = nd_match (N ! j)" "nd_edge (nodes ! j) = nd_edge (N ! j)" "j \<notin> D \<Longrightarrow> nd_next (nodes ! j) = nd_next (N ! j)"
    if "j < ?n" for j using I(3,5) that by auto
  have ws: "length ws = ?n" "distinct ws" using trie_invD(1,3) [OF tr iD(2)] by auto
  have inj: "ws ! j = ws ! k \<longleftrightarrow> j = k" if "j < ?n" "k < ?n" for j k using that ws nth_eq_iff_index_eq by metis
  have root: "ws ! 0 = []" "0 < ?n" using tr iD by (auto simp: trie_inv_def)
  have T: "trie_words ?T"
  proof
    show "[] \<in> ?T" using root ws(1) nth_mem by metis
    show "u \<in> ?T" if "u @ [x] \<in> ?T" for u x using tr that unfolding trie_inv_def by blast
  qed
  note TW = trie_words.axioms(1) [OF T]
  have fi: "?f < ?n" "ws ! ?f = longest ?T (tl (ws ! i))" using I(7) by (auto simp: fails_ok_def len)
  have wi: "ws ! i \<noteq> []" using inj [of i 0] iD root by auto
  have "length (ws ! ?f) \<le> length (tl (ws ! i))" unfolding fi(2) using word_set.longest_suffix [OF TW] by (rule suffix_length_le)
  then have lf: "length (ws ! ?f) < length (ws ! i)" using wi by (cases "ws ! i") auto
  note sorted = I(10)
  have fD: "?f \<in> insert 0 D"
    using bfs_reached [OF tr inv fi(1)] lf sorted by auto
  have nextf: "nd_next (nodes ! ?f) ! e < ?n" "ws ! (nd_next (nodes ! ?f) ! e) = longest ?T (ws ! ?f @ [e])" if "e < 39" for e
    using bspec [OF I(6) fD] that by (simp_all add: next_ok_def len)
  define c where "c = (\<lambda>e. nd_next (N ! i) ! e)"
  define g where "g = (\<lambda>e. nd_next (nodes ! ?f) ! e)"
  define kids where "kids = filter (\<lambda>j. j \<noteq> 0) (map c [0..<39])"
  have ce: "c e < ?n" "ws ! c e = ws ! i @ [e]" if "e < 39" "c e \<noteq> 0" for e using trie_invD(8) [OF tr iD(2)] that by (auto simp: c_def)
  have ge: "g e < ?n" "ws ! g e = longest ?T (ws ! ?f @ [e])" "length (ws ! g e) \<le> length (ws ! i)" if "e < 39" for e
  proof -
    show "g e < ?n" "ws ! g e = longest ?T (ws ! ?f @ [e])" using nextf that by (auto simp: g_def)
    then show "length (ws ! g e) \<le> length (ws ! i)"
      using suffix_length_le [OF word_set.longest_suffix [OF TW, of "ws ! ?f @ [e]"]] lf by simp
  qed
  have lc: "length (ws ! c e) = Suc (length (ws ! i))" if "e < 39" "c e \<noteq> 0" for e using ce(2) [OF that] by simp
  have c1: "c e < length nodes \<and> c e \<noteq> i \<and> c e \<noteq> ?f" if "e < 39" "c e \<noteq> 0" for e using ce(1) [OF that] lc [OF that] lf len by auto
  have c2: "e = e'" if "e < 39" "e' < 39" "c e \<noteq> 0" "c e = c e'" for e e'
  proof -
    have "ws ! i @ [e'] = ws ! c e'" using ce(2) [OF that(2)] that(3,4) by simp
    also have "\<dots> = ws ! i @ [e]" unfolding that(4) [symmetric] using ce(2) [OF that(1,3)] .
    finally show ?thesis by simp
  qed
  have c3: "nd_edge (nodes ! i) ! e = acFailEdge" if "e < 39" "c e = 0" for e
    using trie_invD(9) [OF tr iD(2) that(1)] that(2) same(2) [OF iD(2)] by (cases "nd_edge (nodes ! i) ! e") (auto simp: c_def)
  have g1: "nd_next (nodes ! ?f) ! e = g e \<and> g e < length nodes" if "e < 39" for e using ge(1) [OF that] len by (simp add: g_def)
  have g2: "c e \<noteq> g e'" if "e < 39" "e' < 39" "c e \<noteq> 0" for e e' using lc [OF that(1,3)] ge(3) [OF that(2)] by auto
  have nexti: "nd_next (nodes ! i) = map c [0..<39]"
    using same(3) [OF iD(2,3)] trie_invD(4) [OF tr iD(2)] by (intro nth_equalityI) (auto simp: c_def)
  have edgei: "length (nd_edge (nodes ! i)) = 39" using same(2) [OF iD(2)] trie_invD(5) [OF tr iD(2)] by simp
  have "i < length nodes" "?f < length nodes" "length fail = length nodes" "?f \<noteq> i" using iD(2) fi(1) len lf by auto
  then have R: "\<exists>nodes' fail'. fold (build_edge vals i ?f) [0..<39] (nodes, fail, queue) = (nodes', fail', queue @ filter (\<lambda>j. j \<noteq> 0) (map c [0..<39]))
    \<and> length nodes' = length nodes \<and> length fail' = length nodes
    \<and> (\<forall>j<length nodes. nd_match (nodes' ! j) = nd_match (nodes ! j) \<and> nd_edge (nodes' ! j) = nd_edge (nodes ! j)
        \<and> nd_next (nodes' ! j) = (if j = i then map (\<lambda>e. if e < 39 \<and> c e = 0 then g e else c e) [0..<39] else nd_next (nodes ! j)))
    \<and> (\<forall>j<length nodes. j \<notin> set (filter (\<lambda>j. j \<noteq> 0) (map c [0..<39])) \<longrightarrow> nd_fail (nodes' ! j) = nd_fail (nodes ! j) \<and> fail' ! j = fail ! j)
    \<and> (\<forall>e<39. c e \<noteq> 0 \<longrightarrow> fail' ! c e = g e
        \<and> nd_fail (nodes' ! c e) = (if has_substr vals (nodes ! g e) then g e else nd_fail (nodes ! g e)))"
    (is "\<exists>nodes' fail'. ?P nodes' fail'")
    by (rule build_edges [OF _ _ _ _ nexti edgei c1 c2 c3 g1 g2 order.refl])
  from R obtain nodes' fail' where P: "?P nodes' fail'" by (elim exE)
  note P = P [folded kids_def, unfolded len]
  have r: "fold (build_edge vals i ?f) [0..<39] (nodes, fail, queue) = (nodes', fail', queue @ kids)" "length nodes' = ?n" "length fail' = ?n"
    using P by blast+
  have nd: "nd_match (nodes' ! j) = nd_match (nodes ! j)" "nd_edge (nodes' ! j) = nd_edge (nodes ! j)"
    "nd_next (nodes' ! j) = (if j = i then map (\<lambda>e. if e < 39 \<and> c e = 0 then g e else c e) [0..<39] else nd_next (nodes ! j))" if "j < ?n" for j
    using P that by blast+
  have keep: "nd_fail (nodes' ! j) = nd_fail (nodes ! j) \<and> fail' ! j = fail ! j" if "j < ?n" "j \<notin> set kids" for j
    using P that by blast
  have new: "fail' ! c e = g e \<and> nd_fail (nodes' ! c e) = (if has_substr vals (nodes ! g e) then g e else nd_fail (nodes ! g e))"
    if "e < 39" "c e \<noteq> 0" for e using P that by blast
  have kid: "k \<in> set kids \<longleftrightarrow> (\<exists>e<39. c e \<noteq> 0 \<and> k = c e)" for k by (auto simp: kids_def)
  have fresh: "c e \<notin> D \<union> set (i # queue)" if "e < 39" "c e \<noteq> 0" for e
  proof
    assume "c e \<in> D \<union> set (i # queue)"
    then obtain j e' where j: "j \<in> insert 0 D" "ws ! c e = ws ! j @ [e']" using I(13) by blast
    then have "ws ! j = ws ! i" using ce(2) [OF that] by simp
    then show False using j(1) inj [of j i] iD Dn root(2) by auto
  qed
  have next': "next_ok ws nodes' j" if "j \<in> insert 0 (insert i D)" for j
  proof (cases "j = i")
    case True
    have "nd_next (nodes' ! i) ! e < ?n \<and> ws ! (nd_next (nodes' ! i) ! e) = longest ?T (ws ! i @ [e])" if "e < 39" for e
    proof (cases "c e = 0")
      case True
      then have "ws ! i @ [e] \<notin> ?T" using trie_invD(7) [OF tr iD(2) that] by (simp add: c_def)
      then have "ws ! g e = longest ?T (ws ! i @ [e])" using trie_words.missing_edge [OF T wi] ge(2) [OF that] fi(2) by simp
      then show ?thesis using True that ge(1) [OF that] by (simp add: nd(3) [OF iD(2)])
    next
      case False
      have "ws ! i @ [e] \<in> ?T" using ce [OF that False] ws(1) nth_mem by metis
      then show ?thesis using False that ce [OF that False] word_set.longest_id [OF TW] by (simp add: nd(3) [OF iD(2)])
    qed
    then show ?thesis unfolding True next_ok_def r(2) by blast
  next
    case False
    then have "next_ok ws nodes j" "j < ?n" using that I(6) Dn root(2) by auto
    then show ?thesis using False by (simp add: next_ok_def r(2) len nd(3))
  qed
  have fails': "fails_ok acc ws nodes' fail' j" if "j \<in> insert 0 (insert i D) \<union> set (queue @ kids)" for j
  proof (cases "j \<in> set kids")
    case False
    then have old: "j \<in> insert 0 D \<union> set (i # queue)" using that by auto
    then have "j < ?n" "fails_ok acc ws nodes fail j" using I(7,9) root(2) Dn by auto
    then show ?thesis using keep [OF _ False] by (simp add: fails_ok_def r(2) len)
  next
    case True
    then obtain e where e: "e < 39" "c e \<noteq> 0" "j = c e" unfolding kid by blast
    have wge: "ws ! g e = longest ?T (tl (ws ! c e))"
      using ge(2) [OF e(1)] fi(2) trie_words.fail_step [OF T wi, of e] ce(2) [OF e(1,2)] by simp
    have "g e \<in> insert 0 D \<union> set (i # queue)" using bfs_reached [OF tr inv ge(1) [OF e(1)]] ge(3) [OF e(1)] by simp
    then have gf: "nd_fail (nodes ! g e) < ?n" "ws ! nd_fail (nodes ! g e) = cfail ?T acc (ws ! g e)"
      using I(7) len unfolding fails_ok_def by auto
    have hs: "has_substr vals (nodes ! g e) \<longleftrightarrow> acc (ws ! g e) 2 \<noteq> []"
      using has_substr_acc [OF vi ge(1) [OF e(1)]] same(1) [OF ge(1) [OF e(1)]] by simp
    have "cfail ?T acc (ws ! c e) = (if acc (ws ! g e) 2 \<noteq> [] then ws ! g e else cfail ?T acc (ws ! g e))"
      using cfail_step [OF word_set.Nil_in [OF TW], of acc "ws ! c e"] wge by (simp add: Let_def)
    then show ?thesis using new [OF e(1,2)] hs gf ge(1) [OF e(1)] wge by (simp add: fails_ok_def e(3) r(2))
  qed
  have qlen: "length (ws ! i) \<le> length (ws ! j)" "length (ws ! j) \<le> Suc (length (ws ! i))" if "j \<in> set queue" for j
    using that sorted I(11) by auto
  have klen: "length (ws ! j) = Suc (length (ws ! i))" if "j \<in> set kids" for j using that ce(2) unfolding kid by auto
  have dk: "distinct kids" unfolding kids_def using c2 by (auto simp: distinct_map distinct_filter filter_map comp_def inj_on_def)
  have kn: "k < ?n \<and> k \<noteq> 0 \<and> k \<noteq> i \<and> k \<notin> D \<and> k \<notin> set queue" if "k \<in> set kids" for k
    using that fresh ce(1) unfolding kid by auto
  have disj: "distinct (queue @ kids)" "set (queue @ kids) \<subseteq> {0<..<?n} - insert i D" using I(8,9) dk kn by auto
  have sorted': "sorted (map (\<lambda>i. length (ws ! i)) (queue @ kids))"
  proof -
    have "sorted (map (\<lambda>i. length (ws ! i)) queue)" using sorted by simp
    moreover have "sorted (map (\<lambda>i. length (ws ! i)) kids)"
      using klen by (rule sorted_const)
    ultimately show ?thesis using qlen(2) klen by (auto simp: sorted_append)
  qed
  have level: "\<forall>j \<in> set (queue @ kids). length (ws ! j) \<le> Suc (length (ws ! hd (queue @ kids)))"
  proof (cases queue)
    case Nil
    then show ?thesis using klen by (cases kids) auto
  next
    case (Cons a q)
    then have "length (ws ! i) \<le> length (ws ! hd (queue @ kids))" using qlen(1) [of a] by simp
    then show ?thesis using qlen(2) klen by fastforce
  qed
  have closure: "\<forall>k<?n. \<forall>j \<in> insert 0 (insert i D). \<forall>e. ws ! k = ws ! j @ [e] \<longrightarrow> k \<in> insert i D \<union> set (queue @ kids)"
  proof (intro allI ballI impI)
    fix k j e assume k: "k < ?n" "j \<in> insert 0 (insert i D)" "ws ! k = ws ! j @ [e]"
    show "k \<in> insert i D \<union> set (queue @ kids)"
    proof (cases "j = i")
      case True
      have "ws ! i @ [e] \<in> ?T" using k(1,3) ws(1) True nth_mem by metis
      then have e: "e < 39" using tr unfolding trie_inv_def by blast
      then have "c e \<noteq> 0" using trie_invD(7) [OF tr iD(2) e] \<open>ws ! i @ [e] \<in> ?T\<close> by (auto simp: c_def)
      moreover have "k = c e" using inj [OF k(1) ce(1) [OF e \<open>c e \<noteq> 0\<close>]] ce(2) [OF e \<open>c e \<noteq> 0\<close>] k(3) True by simp
      ultimately show ?thesis using e kid by auto
    next
      case False
      then show ?thesis using I(12) k by auto
    qed
  qed
  have parents: "\<forall>k \<in> insert i D \<union> set (queue @ kids). \<exists>j \<in> insert 0 (insert i D). \<exists>e. ws ! k = ws ! j @ [e]"
  proof
    fix k assume "k \<in> insert i D \<union> set (queue @ kids)"
    then consider "k \<in> set kids" | "k \<in> D \<union> set (i # queue)" by auto
    then show "\<exists>j \<in> insert 0 (insert i D). \<exists>e. ws ! k = ws ! j @ [e]"
    proof cases
      case 1
      then show ?thesis unfolding kid using ce(2) by blast
    next
      case 2
      then show ?thesis using I(13) by blast
    qed
  qed
  have "bfs_inv acc ws N nodes' fail' (queue @ kids) (insert i D)"
    unfolding bfs_inv_def
  proof (intro conjI)
    show "\<forall>j<?n. nd_match (nodes' ! j) = nd_match (N ! j) \<and> nd_edge (nodes' ! j) = nd_edge (N ! j)" using nd(1,2) same(1,2) by simp
    show "\<forall>j<?n. j \<notin> insert i D \<longrightarrow> nd_next (nodes' ! j) = nd_next (N ! j)" using nd(3) same(3) by simp
    show "insert i D \<subseteq> {0<..<?n}" using Dn iD by simp
  qed (use r(2,3) next' fails' disj sorted' level closure parents in blast)+
  then show thesis using that r(1) iD by (simp add: acValidCharCount_def)
qed

text \<open>What the automaton is after \<^verbatim>\<open>Build\<close>.\<close>

definition built :: "(nat list \<Rightarrow> nat \<Rightarrow> u32 list) \<Rightarrow> nat list list \<Rightarrow> acNode list \<Rightarrow> acNode list \<Rightarrow> bool" where
  "built acc ws N nodes \<longleftrightarrow> length nodes = length N \<and> (\<forall>i<length N. next_ok ws nodes i
     \<and> nd_match (nodes ! i) = nd_match (N ! i) \<and> nd_edge (nodes ! i) = nd_edge (N ! i)
     \<and> nd_fail (nodes ! i) < length N \<and> ws ! nd_fail (nodes ! i) = cfail (set ws) acc (ws ! i))"

lemma build_loop_law:
  assumes "trie_inv ws N" "val_inv acc ws N vals" "bfs_inv acc ws N nodes fail queue D"
  shows "\<exists>nodes'. build_loop vals nodes fail queue = Some nodes' \<and> built acc ws N nodes'"
  using assms(3)
proof (induction "length N - card D" arbitrary: nodes fail queue D rule: less_induct)
  case less
  note I = bfs_invD [OF less.prems]
  show ?case
  proof (cases queue)
    case Nil
    have all: "i \<in> insert 0 D" if "i < length N" for i using bfs_reached [OF assms(1) less.prems that] Nil by simp
    have "next_ok ws nodes i" "fails_ok acc ws nodes fail i" if "i < length N" for i using I(6,7) all [OF that] by blast+
    then have "built acc ws N nodes" using I(1,3) unfolding built_def fails_ok_def by simp
    then show ?thesis using Nil by (subst build_loop.simps) simp
  next
    case (Cons i q)
    obtain nodes' fail' kids where st: "fold (build_edge vals i (fail ! i)) [0..<acValidCharCount] (nodes, fail, q) = (nodes', fail', q @ kids)"
      "bfs_inv acc ws N nodes' fail' (q @ kids) (insert i D)" "i \<notin> D" "i < length N"
      using bfs_step [OF assms(1,2) less.prems [unfolded Cons]] .
    have fin: "finite D" using I(4) finite_subset by blast
    have "card (insert i D) \<le> card {0<..<length N}" using bfs_invD(4) [OF st(2)] by (intro card_mono) auto
    then have "length N - card (insert i D) < length N - card D" using st(3,4) fin by simp
    from less.hyps [OF this st(2)] show ?thesis using Cons st(1) by (subst build_loop.simps) (simp add: Let_def)
  qed
qed

lemma bfs_inv_init:
  assumes tr: "trie_inv ws N"
  shows "bfs_inv acc ws N N (replicate (length N) 0) (filter (\<lambda>j. j \<noteq> 0) (map (\<lambda>e. nd_next (N ! 0) ! e) [0..<39])) {}"
proof -
  let ?q = "filter (\<lambda>j. j \<noteq> 0) (map (\<lambda>e. nd_next (N ! 0) ! e) [0..<39])" and ?c = "\<lambda>e. nd_next (N ! 0) ! e"
  have root: "0 < length N" "ws ! 0 = []" using tr by (auto simp: trie_inv_def)
  note d = trie_invD [OF tr root(1)]
  have mem: "k \<in> set ?q \<longleftrightarrow> (\<exists>e<39. ?c e \<noteq> 0 \<and> k = ?c e)" for k by auto
  have ce: "?c e < length N" "ws ! ?c e = [e]" if "e < 39" "?c e \<noteq> 0" for e using d(8) that root(2) by auto
  have word: "\<exists>e. ws ! k = [e]" "k < length N" if "k \<in> set ?q" for k using that ce unfolding mem by auto
  have T: "[] \<in> set ws" using d(2) root(2) by simp
  have nxt: "next_ok ws N 0"
    unfolding next_ok_def
  proof (intro allI impI)
    fix e :: nat assume e: "e < 39"
    show "?c e < length N \<and> ws ! ?c e = longest (set ws) (ws ! 0 @ [e])"
    proof (cases "?c e = 0")
      case True
      then show ?thesis using d(7) [OF e] root by simp
    next
      case False
      have "[e] \<in> set ws" using ce [OF e False] d(1) nth_mem by metis
      then show ?thesis using ce [OF e False] root(2) by simp
    qed
  qed
  have fails: "fails_ok acc ws N (replicate (length N) 0) k" if "k = 0 \<or> k \<in> set ?q" for k
  proof -
    have k: "k < length N" "tl (ws ! k) = []" using that word [of k] root by auto
    show ?thesis using k root trie_invD(6) [OF tr k(1)] by (simp add: fails_ok_def cfail_def)
  qed
  have dq: "distinct ?q"
  proof -
    have "e = e'" if "e < 39" "e' < 39" "?c e \<noteq> 0" "?c e = ?c e'" for e e'
    proof -
      have "[e'] = ws ! ?c e'" using ce(2) [OF that(2)] that(3,4) by simp
      also have "\<dots> = [e]" unfolding that(4) [symmetric] using ce(2) [OF that(1,3)] .
      finally show ?thesis by simp
    qed
    then show ?thesis by (auto simp: distinct_map distinct_filter filter_map comp_def inj_on_def)
  qed
  have l1: "length (ws ! k) = 1" if "k \<in> set ?q" for k using word(1) [OF that] by auto
  have sq: "sorted (map (\<lambda>i. length (ws ! i)) ?q)" using l1 by (rule sorted_const)
  have lev: "\<forall>i \<in> set ?q. length (ws ! i) \<le> Suc (length (ws ! hd ?q))" using l1 by fastforce
  have closure: "\<forall>i<length N. \<forall>j \<in> insert 0 {}. \<forall>e. ws ! i = ws ! j @ [e] \<longrightarrow> i \<in> {} \<union> set ?q"
  proof (intro allI ballI impI)
    fix i j e assume i: "i < length N" "j \<in> insert 0 {}" "ws ! i = ws ! j @ [e]"
    then have wi: "ws ! i = [e]" using root by simp
    have inT: "[e] \<in> set ws" using i(1) wi d(1) nth_mem by metis
    then have e: "e < 39" using tr unfolding trie_inv_def by (metis append_Nil)
    then have ne: "?c e \<noteq> 0" using d(7) [OF e] inT root(2) by auto
    have "i = ?c e" using ce [OF e ne] wi i(1) d(1,3) nth_eq_iff_index_eq by metis
    then show "i \<in> {} \<union> set ?q" using mem e ne by blast
  qed
  have parents: "\<forall>i \<in> {} \<union> set ?q. \<exists>j \<in> insert 0 {}. \<exists>e. ws ! i = ws ! j @ [e]" using word(1) root(2) by simp
  have sub: "set ?q \<subseteq> {0<..<length N} - {}" using word(2) by auto
  show ?thesis unfolding bfs_inv_def
    by (intro conjI; (rule dq sq lev closure parents sub)?) (use nxt fails in auto)
qed

lemma ac_Build_law:
  assumes "ac_inv acc ws ac"
  shows "\<exists>nodes. ac_Build ac = Some (ac\<lparr>ac_nodes := nodes\<rparr>) \<and> built acc ws (ac_nodes ac) nodes"
  using build_loop_law [OF _ _ bfs_inv_init, of ws "ac_nodes ac" acc "ac_values ac"] assms
  by (auto simp: ac_Build_def ac_inv_def acValidCharCount_def)

section \<open>Matching\<close>

text \<open>An automaton that has been built: \<open>ws\<close> are the words of its nodes, \<open>acc\<close> the values registered for them.\<close>

definition ac_ready :: "(nat list \<Rightarrow> nat \<Rightarrow> u32 list) \<Rightarrow> nat list list \<Rightarrow> ACAutomaton \<Rightarrow> bool" where
  "ac_ready acc ws ac \<longleftrightarrow> (\<exists>ac0. ac_inv acc ws ac0 \<and> ac = ac0\<lparr>ac_nodes := ac_nodes ac\<rparr> \<and> built acc ws (ac_nodes ac0) (ac_nodes ac)
     \<and> acc [] = (\<lambda>t. []))"

lemma ac_readyD:
  assumes "ac_ready acc ws ac"
  shows "trie_words (set ws)" "0 < length ws" "ws ! 0 = []" "acc [] = (\<lambda>t. [])" "w \<notin> set ws \<Longrightarrow> acc w = (\<lambda>t. [])"
    "i < length ws \<Longrightarrow> ws ! i = [] \<Longrightarrow> i = 0"
proof -
  from assms obtain ac0 where a: "ac_inv acc ws ac0" "acc [] = (\<lambda>t. [])" unfolding ac_ready_def by blast
  then have t: "trie_inv ws (ac_nodes ac0)" by (simp add: ac_inv_def)
  show w0: "0 < length ws" "ws ! 0 = []" using t by (auto simp: trie_inv_def)
  show "trie_words (set ws)"
  proof
    show "[] \<in> set ws" using w0 nth_mem by metis
    show "u \<in> set ws" if "u @ [x] \<in> set ws" for u x using t that unfolding trie_inv_def by blast
  qed
  show "acc [] = (\<lambda>t. [])" by (rule a)
  show "w \<notin> set ws \<Longrightarrow> acc w = (\<lambda>t. [])" using a(1) val_invD(8) by (auto simp: ac_inv_def)
  show "i < length ws \<Longrightarrow> ws ! i = [] \<Longrightarrow> i = 0" using t w0 nth_eq_iff_index_eq [of ws i 0] by (auto simp: trie_inv_def)
qed

lemma ac_ready_node:
  assumes "ac_ready acc ws ac" "i < length ws"
  shows "e < 39 \<Longrightarrow> nd_next (ac_nodes ac ! i) ! e < length ws" "e < 39 \<Longrightarrow> ws ! (nd_next (ac_nodes ac ! i) ! e) = longest (set ws) (ws ! i @ [e])"
    "e < 39 \<Longrightarrow> nd_edge (ac_nodes ac ! i) ! e = acTrieEdge \<longleftrightarrow> ws ! i @ [e] \<in> set ws"
    "nd_fail (ac_nodes ac ! i) < length ws" "ws ! nd_fail (ac_nodes ac ! i) = cfail (set ws) acc (ws ! i)"
    "t < 3 \<Longrightarrow> ac_values ac ! nd_match (ac_nodes ac ! i) ! t = acc (ws ! i) t"
    "nd_match (ac_nodes ac ! i) \<noteq> 0 \<longleftrightarrow> (\<exists>t<3. acc (ws ! i) t \<noteq> [])"
proof -
  from assms(1) obtain ac0 where a: "ac_inv acc ws ac0" "ac = ac0\<lparr>ac_nodes := ac_nodes ac\<rparr>" "built acc ws (ac_nodes ac0) (ac_nodes ac)"
    unfolding ac_ready_def by blast
  then have tr: "trie_inv ws (ac_nodes ac0)" and vi: "val_inv acc ws (ac_nodes ac0) (ac_values ac0)" by (simp_all add: ac_inv_def)
  have i: "i < length (ac_nodes ac0)" "length ws = length (ac_nodes ac0)" using assms(2) tr by (auto simp: trie_inv_def)
  have vals: "ac_values ac = ac_values ac0" using a(2) by (metis ACAutomaton.select_convs(2) ACAutomaton.surjective ACAutomaton.update_convs(1))
  from a(3) i have b: "next_ok ws (ac_nodes ac) i" "nd_match (ac_nodes ac ! i) = nd_match (ac_nodes ac0 ! i)"
    "nd_edge (ac_nodes ac ! i) = nd_edge (ac_nodes ac0 ! i)" "length (ac_nodes ac) = length ws"
    "nd_fail (ac_nodes ac ! i) < length ws" "ws ! nd_fail (ac_nodes ac ! i) = cfail (set ws) acc (ws ! i)"
    by (auto simp: built_def)
  show "e < 39 \<Longrightarrow> nd_next (ac_nodes ac ! i) ! e < length ws" "e < 39 \<Longrightarrow> ws ! (nd_next (ac_nodes ac ! i) ! e) = longest (set ws) (ws ! i @ [e])"
    using b(1,4) by (auto simp: next_ok_def)
  show "nd_edge (ac_nodes ac ! i) ! e = acTrieEdge \<longleftrightarrow> ws ! i @ [e] \<in> set ws" if "e < 39"
  proof (cases "nd_next (ac_nodes ac0 ! i) ! e = 0")
    case True
    then show ?thesis using trie_invD(7,9) [OF tr i(1) that] b(3) by simp
  next
    case False
    then have "ws ! i @ [e] \<in> set ws" using trie_invD(8) [OF tr i(1) that] i(2) nth_mem by metis
    then show ?thesis using trie_invD(9) [OF tr i(1) that] b(3) False by simp
  qed
  show "nd_fail (ac_nodes ac ! i) < length ws" "ws ! nd_fail (ac_nodes ac ! i) = cfail (set ws) acc (ws ! i)" by (rule b)+
  show "t < 3 \<Longrightarrow> ac_values ac ! nd_match (ac_nodes ac ! i) ! t = acc (ws ! i) t"
    "nd_match (ac_nodes ac ! i) \<noteq> 0 \<longleftrightarrow> (\<exists>t<3. acc (ws ! i) t \<noteq> [])"
    using val_invD(5,6) [OF vi i(1)] vals b(2) by simp_all
qed

text \<open>The substring values found at a word: those of its suffixes.\<close>

definition subs :: "(nat list \<Rightarrow> nat \<Rightarrow> u32 list) \<Rightarrow> nat list \<Rightarrow> u32 list set" where
  "subs acc u = {acc v 2 |v. suffix v u \<and> acc v 2 \<noteq> []}"

lemma cfail_shorter: "w \<noteq> [] \<Longrightarrow> length (cfail T acc w) < length w"
  using suffix_length_le [OF hits.longest_suffix [of T acc "tl w"]] by (cases w) (auto simp: cfail_def)

lemma subs_cfail:
  assumes "ac_ready acc ws ac" "w \<noteq> []"
  shows "subs acc w = (if acc w 2 \<noteq> [] then {acc w 2} else {}) \<union> subs acc (cfail (set ws) acc w)"
proof -
  obtain x xs where w: "w = x # xs" using assms(2) by (cases w) auto
  have H: "v \<in> hits (set ws) acc" if "acc v 2 \<noteq> []" for v
    using that ac_readyD(5) [OF assms(1), of v] by (auto simp: hits_def)
  have "suffix v w \<longleftrightarrow> v = w \<or> suffix v (cfail (set ws) acc w)" if "acc v 2 \<noteq> []" for v
    using hits.suffix_longest_iff [OF H [OF that], of xs] by (auto simp: cfail_def w suffix_Cons)
  then show ?thesis unfolding subs_def by auto
qed

lemma subs_Nil: "ac_ready acc ws ac \<Longrightarrow> subs acc [] = {}"
  using ac_readyD(4) by (simp add: subs_def)

lemma subs_longest: "ac_ready acc ws ac \<Longrightarrow> subs acc (longest (set ws) u) = subs acc u"
proof -
  assume r: "ac_ready acc ws ac"
  have "suffix v (longest (set ws) u) \<longleftrightarrow> suffix v u" if "acc v 2 \<noteq> []" for v
    using word_set.suffix_longest_iff [OF trie_words.axioms(1) [OF ac_readyD(1) [OF r]], of v u] that ac_readyD(5) [OF r, of v] by fastforce
  then show ?thesis unfolding subs_def by auto
qed

text \<open>Because of the parallel assignment, a fail node that is not the last of its path is visited twice.\<close>

lemma fail_loop_repeats:
  assumes "f \<noteq> 0" "nd_fail (ac_nodes ac ! f) \<noteq> 0" "ac_values ac ! nd_match (ac_nodes ac ! f) ! 2 = v"
  shows "fail_loop ac f f res = fail_loop ac (nd_fail (ac_nodes ac ! f)) (nd_fail (ac_nodes ac ! f)) (res @ [v, v])"
  using assms by (subst fail_loop.simps, subst fail_loop.simps) simp

lemma fail_loop_law:
  assumes "ac_ready acc ws ac" "f < length ws" "f \<noteq> 0" "acc (ws ! f) 2 \<noteq> []"
  shows "\<exists>ms. fail_loop ac f f res = Some (res @ ms) \<and> set ms = subs acc (ws ! f)"
  using assms(2-4)
proof (induction "length (ws ! f)" arbitrary: f res rule: less_induct)
  case less
  let ?w = "ws ! f" and ?f = "nd_fail (ac_nodes ac ! f)"
  note n = ac_ready_node [OF assms(1) less.prems(1)]
  have w: "?w \<noteq> []" using ac_readyD(6) [OF assms(1) less.prems(1)] less.prems(2) by auto
  have v: "ac_values ac ! nd_match (ac_nodes ac ! f) ! 2 = acc ?w 2" using n(6) [of 2] by simp
  show ?case
  proof (cases "?f = 0")
    case True
    then have "cfail (set ws) acc ?w = []" using n(5) ac_readyD(3) [OF assms(1)] by simp
    then have "subs acc ?w = {acc ?w 2}" using subs_cfail [OF assms(1) w] subs_Nil [OF assms(1)] less.prems(3) by simp
    moreover have "fail_loop ac f f res = Some (res @ [acc ?w 2])"
      using less.prems(2) v True by (subst fail_loop.simps, subst fail_loop.simps) simp
    ultimately show ?thesis by auto
  next
    case False
    have two: "fail_loop ac f f res = fail_loop ac ?f ?f (res @ [acc ?w 2, acc ?w 2])"
      by (rule fail_loop_repeats [OF less.prems(2) False v])
    have "ws ! ?f \<in> hits (set ws) acc" unfolding n(5) cfail_def by (rule hits.longest_in)
    moreover have "ws ! ?f \<noteq> []" using ac_readyD(6) [OF assms(1) n(4)] False by auto
    ultimately have h: "acc (ws ! ?f) 2 \<noteq> []" by (simp add: hits_def)
    have "length (ws ! ?f) < length ?w" unfolding n(5) using cfail_shorter [OF w] .
    from less.hyps [OF this n(4) False h, of "res @ [acc ?w 2, acc ?w 2]"] obtain ms where
      ms: "fail_loop ac ?f ?f (res @ [acc ?w 2, acc ?w 2]) = Some ((res @ [acc ?w 2, acc ?w 2]) @ ms)" "set ms = subs acc (ws ! ?f)" by blast
    have "set ([acc ?w 2, acc ?w 2] @ ms) = subs acc ?w" using subs_cfail [OF assms(1) w] ms(2) less.prems(3) n(5) by simp
    moreover have "fail_loop ac f f res = Some (res @ [acc ?w 2, acc ?w 2] @ ms)" unfolding two using ms(1) by simp
    ultimately show ?thesis by blast
  qed
qed

text \<open>The substring part of one round of \<^verbatim>\<open>Match\<close>.\<close>

lemma fail_path:
  assumes "ac_ready acc ws ac" "k < length ws"
  shows "\<exists>ms. (if nd_fail (ac_nodes ac ! k) \<noteq> 0 then fail_loop ac (nd_fail (ac_nodes ac ! k)) (nd_fail (ac_nodes ac ! k)) res else Some res) = Some (res @ ms)
    \<and> set ms = subs acc (cfail (set ws) acc (ws ! k))"
proof -
  let ?f = "nd_fail (ac_nodes ac ! k)"
  note n = ac_ready_node [OF assms]
  show ?thesis
  proof (cases "?f = 0")
    case True
    then have "cfail (set ws) acc (ws ! k) = []" using n(5) ac_readyD(3) [OF assms(1)] by simp
    then show ?thesis using True subs_Nil [OF assms(1)] by simp
  next
    case False
    have "ws ! ?f \<in> hits (set ws) acc" unfolding n(5) cfail_def by (rule hits.longest_in)
    moreover have "ws ! ?f \<noteq> []" using ac_readyD(6) [OF assms(1) n(4)] False by auto
    ultimately have h: "acc (ws ! ?f) 2 \<noteq> []" by (simp add: hits_def)
    then show ?thesis using fail_loop_law [OF assms(1) n(4) False h, of res] False n(5) by simp
  qed
qed

text \<open>
  The state of the matching loops after the bytes \<open>x\<close> (from the end of the input): the node of the longest suffix
  that is a word, and whether everything read is a word.
\<close>

definition at :: "nat list list \<Rightarrow> gostring \<Rightarrow> bool \<Rightarrow> nat \<Rightarrow> bool" where
  "at ws x fullMatch node \<longleftrightarrow> node < length ws \<and> ws ! node = longest (set ws) (map acCharset x) \<and> (fullMatch \<longleftrightarrow> map acCharset x \<in> set ws)"

lemma at_step:
  assumes "ac_ready acc ws ac" "at ws x fullMatch node"
  shows "at ws (x @ [c]) (fullMatch \<and> nd_edge (ac_nodes ac ! node) ! acCharset c = acTrieEdge) (nd_next (ac_nodes ac ! node) ! acCharset c)"
proof -
  let ?T = "set ws" and ?u = "map acCharset x" and ?e = "acCharset c"
  note T = ac_readyD(1) [OF assms(1)]
  note TW = trie_words.axioms(1) [OF T]
  have nd: "node < length ws" "ws ! node = longest ?T ?u" "fullMatch \<longleftrightarrow> ?u \<in> ?T" using assms(2) by (auto simp: at_def)
  note n = ac_ready_node(1-3) [OF assms(1) nd(1) acCharset_less [of c]]
  have "ws ! (nd_next (ac_nodes ac ! node) ! ?e) = longest ?T (map acCharset (x @ [c]))"
    using n(2) nd(2) trie_words.longest_snoc [OF T, of ?u ?e] by simp
  moreover have "fullMatch \<and> nd_edge (ac_nodes ac ! node) ! ?e = acTrieEdge \<longleftrightarrow> map acCharset (x @ [c]) \<in> ?T"
    using n(3) nd(2,3) word_set.longest_id [OF TW] trie_words.prefix_closed [OF T] by auto
  ultimately show ?thesis using n(1) by (simp add: at_def)
qed

lemma at_start: "ac_ready acc ws ac \<Longrightarrow> at ws [] True 0"
  using ac_readyD(2,3) nth_mem [of 0 ws] by (simp add: at_def)

definition doms :: "(nat list \<Rightarrow> nat \<Rightarrow> u32 list) \<Rightarrow> gostring \<Rightarrow> u32 list set" where
  "doms acc x = (if x \<noteq> [] \<and> last x = dot \<and> acc (map acCharset x) 1 \<noteq> [] then {acc (map acCharset x) 1} else {})"

lemma subs_at:
  assumes "ac_ready acc ws ac" "at ws x fullMatch node"
  shows "subs acc (map acCharset x) = (if acc (ws ! node) 2 \<noteq> [] then {acc (ws ! node) 2} else {}) \<union> subs acc (cfail (set ws) acc (ws ! node))"
proof (cases "ws ! node = []")
  case True
  then show ?thesis using subs_longest [OF assms(1), of "map acCharset x"] assms(2) ac_readyD(4) [OF assms(1)] subs_Nil [OF assms(1)]
    by (simp add: at_def cfail_def)
next
  case False
  have "subs acc (map acCharset x) = subs acc (ws ! node)"
    using subs_longest [OF assms(1), of "map acCharset x"] assms(2) by (simp add: at_def)
  also have "\<dots> = (if acc (ws ! node) 2 \<noteq> [] then {acc (ws ! node) 2} else {}) \<union> subs acc (cfail (set ws) acc (ws ! node))"
    by (rule subs_cfail [OF assms(1) False])
  finally show ?thesis .
qed

lemma full_word: "ac_ready acc ws ac \<Longrightarrow> at ws x True node \<Longrightarrow> ws ! node = map acCharset x"
  using word_set.longest_id [OF trie_words.axioms(1) [OF ac_readyD(1)]] by (auto simp: at_def)

lemma doms_at:
  assumes "ac_ready acc ws ac" "at ws (x @ [c]) fullMatch node"
  shows "doms acc (x @ [c]) = (if fullMatch \<and> c = dot \<and> acc (ws ! node) 1 \<noteq> [] then {acc (ws ! node) 1} else {})"
proof (cases fullMatch)
  case True
  then show ?thesis using full_word [OF assms(1), of "x @ [c]" node] assms(2) by (auto simp: doms_def)
next
  case False
  then have "map acCharset (x @ [c]) \<notin> set ws" using assms(2) by (simp add: at_def)
  then show ?thesis using False ac_readyD(5) [OF assms(1)] by (simp add: doms_def)
qed

lemma UN_upto: "(\<Union>k \<in> {1..Suc n}. F k) = F 1 \<union> (\<Union>k \<in> {1..n}. F (Suc k))"
proof -
  have "{1..Suc n} = insert 1 (Suc ` {1..n})" by (auto simp: image_iff)
  then show ?thesis by (simp only: image_insert Union_insert image_image)
qed

lemma ac_Match_loop_law:
  assumes "ac_ready acc ws ac" "at ws x fullMatch node"
  shows "\<exists>fullMatch' node' A B. ac_Match_loop ac cs fullMatch node sub suf = Some (fullMatch', node', sub @ A, suf @ B)
    \<and> at ws (x @ cs) fullMatch' node' \<and> set A = (\<Union>k \<in> {1..length cs}. subs acc (map acCharset (x @ take k cs)))
    \<and> set B = (\<Union>k \<in> {1..length cs}. doms acc (x @ take k cs))"
  using assms(2)
proof (induction cs arbitrary: x fullMatch node sub suf)
  case Nil
  then show ?case by simp
next
  case (Cons c cs)
  let ?e = "acCharset c"
  define fm where "fm = (fullMatch \<and> nd_edge (ac_nodes ac ! node) ! ?e = acTrieEdge)"
  define nx where "nx = nd_next (ac_nodes ac ! node) ! ?e"
  have at': "at ws (x @ [c]) fm nx" unfolding fm_def nx_def by (rule at_step [OF assms(1) Cons.prems])
  then have lt: "nx < length ws" by (simp add: at_def)
  note n = ac_ready_node [OF assms(1) lt]
  obtain ms where ms: "(if nd_fail (ac_nodes ac ! nx) \<noteq> 0 then fail_loop ac (nd_fail (ac_nodes ac ! nx)) (nd_fail (ac_nodes ac ! nx)) sub else Some sub) = Some (sub @ ms)"
    "set ms = subs acc (cfail (set ws) acc (ws ! nx))" using fail_path [OF assms(1) lt, of sub] by blast
  define A1 where "A1 = ms @ (if acc (ws ! nx) 2 \<noteq> [] then [acc (ws ! nx) 2] else [])"
  define B1 where "B1 = (if fm \<and> c = dot \<and> acc (ws ! nx) 1 \<noteq> [] then [acc (ws ! nx) 1] else [])"
  have AB: "set A1 = subs acc (map acCharset (x @ [c]))" "set B1 = doms acc (x @ [c])"
    using subs_at [OF assms(1) at'] doms_at [OF assms(1) at'] ms(2) by (auto simp: A1_def B1_def)
  have z: "nd_match (ac_nodes ac ! nx) \<noteq> 0" if "acc (ws ! nx) 2 \<noteq> [] \<or> acc (ws ! nx) 1 \<noteq> []"
  proof -
    have "(2 :: nat) < 3" "(1 :: nat) < 3" by simp_all
    with n(7) that show ?thesis by blast
  qed
  have v: "ac_values ac ! nd_match (ac_nodes ac ! nx) ! 2 = acc (ws ! nx) 2" "ac_values ac ! nd_match (ac_nodes ac ! nx) ! Suc 0 = acc (ws ! nx) 1"
    using n(6) [of 2] n(6) [of 1] by simp_all
  have step: "ac_Match_loop ac (c # cs) fullMatch node sub suf = ac_Match_loop ac cs fm nx (sub @ A1) (suf @ B1)"
    unfolding ac_Match_loop.simps Let_def fm_def [symmetric] nx_def [symmetric] ms(1) option.case Type_index.simps
    using z v by (cases "nd_match (ac_nodes ac ! nx) = 0") (auto simp: A1_def B1_def)
  obtain fullMatch' node' A B where IH: "ac_Match_loop ac cs fm nx (sub @ A1) (suf @ B1) = Some (fullMatch', node', (sub @ A1) @ A, (suf @ B1) @ B)"
    "at ws ((x @ [c]) @ cs) fullMatch' node'" "set A = (\<Union>k \<in> {1..length cs}. subs acc (map acCharset ((x @ [c]) @ take k cs)))"
    "set B = (\<Union>k \<in> {1..length cs}. doms acc ((x @ [c]) @ take k cs))"
    using Cons.IH [OF at', of "sub @ A1" "suf @ B1"] by (elim exE conjE) (rule that, assumption+)
  have "set (A1 @ A) = (\<Union>k \<in> {1..length (c # cs)}. subs acc (map acCharset (x @ take k (c # cs))))"
    "set (B1 @ B) = (\<Union>k \<in> {1..length (c # cs)}. doms acc (x @ take k (c # cs)))"
    using IH(3,4) AB by (simp_all only: UN_upto list.size add_Suc_right add_0_right set_append) simp_all
  with IH(1,2) show ?case unfolding step by (intro exI [of _ fullMatch'] exI [of _ node'] exI [of _ "A1 @ A"] exI [of _ "B1 @ B"]) simp
qed

lemma ex_upto: "(\<exists>k \<in> {1..Suc n}. P k) \<longleftrightarrow> P 1 \<or> (\<exists>k \<in> {1..n}. P (Suc k))"
proof -
  have "{1..Suc n} = insert 1 (Suc ` {1..n})" by (auto simp: image_iff)
  then show ?thesis by (simp only: bex_simps image_iff) 
qed

lemma subs_cfail_empty:
  assumes "ac_ready acc ws ac" "k < length ws"
  shows "nd_fail (ac_nodes ac ! k) \<noteq> 0 \<longleftrightarrow> subs acc (cfail (set ws) acc (ws ! k)) \<noteq> {}"
proof -
  let ?f = "nd_fail (ac_nodes ac ! k)"
  note n = ac_ready_node [OF assms]
  show ?thesis
  proof (cases "?f = 0")
    case True
    then have "cfail (set ws) acc (ws ! k) = []" using n(5) ac_readyD(3) [OF assms(1)] by simp
    then show ?thesis using True subs_Nil [OF assms(1)] by simp
  next
    case False
    have "ws ! ?f \<in> hits (set ws) acc" unfolding n(5) cfail_def by (rule hits.longest_in)
    moreover have "ws ! ?f \<noteq> []" using ac_readyD(6) [OF assms(1) n(4)] False by auto
    ultimately have "acc (ws ! ?f) 2 \<noteq> []" by (simp add: hits_def)
    then have "acc (ws ! ?f) 2 \<in> subs acc (ws ! ?f)" unfolding subs_def by blast
    then show ?thesis using False n(5) by auto
  qed
qed

lemma ac_MatchAny_loop_law:
  assumes "ac_ready acc ws ac" "at ws x fullMatch node"
  shows "ac_MatchAny_loop ac cs fullMatch node \<longleftrightarrow>
    (\<exists>k \<in> {1..length cs}. subs acc (map acCharset (x @ take k cs)) \<noteq> {} \<or> doms acc (x @ take k cs) \<noteq> {})
    \<or> (\<exists>t<3. acc (map acCharset (x @ cs)) t \<noteq> [])"
  using assms(2)
proof (induction cs arbitrary: x fullMatch node)
  case Nil
  then have lt: "node < length ws" by (simp add: at_def)
  show ?case
  proof (cases fullMatch)
    case True
    then show ?thesis using full_word [OF assms(1)] Nil ac_ready_node(7) [OF assms(1) lt] by simp
  next
    case False
    then show ?thesis using Nil ac_readyD(5) [OF assms(1)] by (simp add: at_def)
  qed
next
  case (Cons c cs)
  let ?e = "acCharset c"
  define fm where "fm = (fullMatch \<and> nd_edge (ac_nodes ac ! node) ! ?e = acTrieEdge)"
  define nx where "nx = nd_next (ac_nodes ac ! node) ! ?e"
  have at': "at ws (x @ [c]) fm nx" unfolding fm_def nx_def by (rule at_step [OF assms(1) Cons.prems])
  then have lt: "nx < length ws" by (simp add: at_def)
  note n = ac_ready_node [OF assms(1) lt]
  have z: "nd_match (ac_nodes ac ! nx) \<noteq> 0" if "acc (ws ! nx) 2 \<noteq> [] \<or> acc (ws ! nx) 1 \<noteq> []"
  proof -
    have "(2 :: nat) < 3" "(1 :: nat) < 3" by simp_all
    with n(7) that show ?thesis by blast
  qed
  have v: "ac_values ac ! nd_match (ac_nodes ac ! nx) ! 2 = acc (ws ! nx) 2" "ac_values ac ! nd_match (ac_nodes ac ! nx) ! 1 = acc (ws ! nx) 1"
    using n(6) [of 2] n(6) [of 1] by simp_all
  have "ac_MatchAny_loop ac (c # cs) fullMatch node \<longleftrightarrow>
      nd_fail (ac_nodes ac ! nx) \<noteq> 0 \<or> acc (ws ! nx) 2 \<noteq> [] \<or> fm \<and> c = dot \<and> acc (ws ! nx) 1 \<noteq> [] \<or> ac_MatchAny_loop ac cs fm nx"
    unfolding ac_MatchAny_loop.simps Let_def fm_def [symmetric] nx_def [symmetric] Type_index.simps v length_greater_0_conv
    using z by (cases "nd_match (ac_nodes ac ! nx) = 0") auto
  also have "\<dots> \<longleftrightarrow> subs acc (map acCharset (x @ [c])) \<noteq> {} \<or> doms acc (x @ [c]) \<noteq> {} \<or> ac_MatchAny_loop ac cs fm nx"
    unfolding subs_cfail_empty [OF assms(1) lt] subs_at [OF assms(1) at'] doms_at [OF assms(1) at'] by auto
  finally have loop: "ac_MatchAny_loop ac (c # cs) fullMatch node \<longleftrightarrow>
      subs acc (map acCharset (x @ [c])) \<noteq> {} \<or> doms acc (x @ [c]) \<noteq> {} \<or> ac_MatchAny_loop ac cs fm nx" .
  show ?case unfolding loop Cons.IH [OF at'] list.size add_Suc_right add_0_right ex_upto by auto
qed

text \<open>What the two matching functions report, over the registered values.\<close>

lemma ac_Match_law:
  assumes "ac_ready acc ws ac"
  shows "\<exists>vs. ac_Match ac s = Some vs \<and> set vs = \<Union> (set ` ((\<Union>k \<in> {1..length s}. subs acc (map acCharset (take k (rev s))) \<union> doms acc (take k (rev s)))
    \<union> {acc (key s) 0, acc (key s) 1}))"
proof -
  obtain fm nx A B where L: "ac_Match_loop ac (rev s) True 0 [] [] = Some (fm, nx, [] @ A, [] @ B)" "at ws ([] @ rev s) fm nx"
    "set A = (\<Union>k \<in> {1..length (rev s)}. subs acc (map acCharset ([] @ take k (rev s))))"
    "set B = (\<Union>k \<in> {1..length (rev s)}. doms acc ([] @ take k (rev s)))"
    using ac_Match_loop_law [OF assms at_start [OF assms], of "rev s" "[]" "[]"] by (elim exE conjE) (rule that, assumption+)
  have lt: "nx < length ws" using L(2) by (simp add: at_def)
  note n = ac_ready_node(6,7) [OF assms lt]
  define C where "C = (if fm \<and> nd_match (ac_nodes ac ! nx) \<noteq> 0 then
      (if acc (ws ! nx) 1 \<noteq> [] then [acc (ws ! nx) 1] else []) @ (if acc (ws ! nx) 0 \<noteq> [] then [acc (ws ! nx) 0] else []) else [])"
  have v: "ac_values ac ! nd_match (ac_nodes ac ! nx) ! 1 = acc (ws ! nx) 1" "ac_values ac ! nd_match (ac_nodes ac ! nx) ! 0 = acc (ws ! nx) 0"
    using n(1) [of 1] n(1) [of 0] by simp_all
  have vs: "ac_Match ac s = Some (CompositeMatchesReverse (A @ B @ C))"
    unfolding ac_Match_def L(1) option.case prod.case Let_def Type_index.simps v C_def by (cases "fm \<and> nd_match (ac_nodes ac ! nx) \<noteq> 0") auto
  have C: "\<Union> (set ` set C) = \<Union> (set ` {acc (key s) 0, acc (key s) 1})"
  proof (cases fm)
    case True
    then have w: "ws ! nx = key s" using full_word [OF assms] L(2) by (simp add: key_def)
    have "acc (key s) 0 = [] \<and> acc (key s) 1 = []" if "nd_match (ac_nodes ac ! nx) = 0"
      using n(2) that w by force
    then show ?thesis using True unfolding C_def w by (cases "nd_match (ac_nodes ac ! nx) = 0") auto
  next
    case False
    then have "key s \<notin> set ws" using L(2) by (simp add: at_def key_def)
    then show ?thesis using False ac_readyD(5) [OF assms] by (simp add: C_def)
  qed
  have "set (CompositeMatchesReverse (A @ B @ C)) = \<Union> (set ` set A) \<union> \<Union> (set ` set B) \<union> \<Union> (set ` set C)" by auto
  also have "\<dots> = \<Union> (set ` ((\<Union>k \<in> {1..length s}. subs acc (map acCharset (take k (rev s))) \<union> doms acc (take k (rev s)))
    \<union> {acc (key s) 0, acc (key s) 1}))" unfolding L(3,4) C by (auto simp: UN_Un_distrib)
  finally show ?thesis using vs by blast
qed

lemma ac_MatchAny_law:
  assumes "ac_ready acc ws ac"
  shows "ac_MatchAny ac s \<longleftrightarrow> (\<exists>k \<in> {1..length s}. subs acc (map acCharset (take k (rev s))) \<noteq> {} \<or> doms acc (take k (rev s)) \<noteq> {})
    \<or> (\<exists>t<3. acc (key s) t \<noteq> [])"
  unfolding ac_MatchAny_def ac_MatchAny_loop_law [OF assms at_start [OF assms]] by (simp add: key_def)

section \<open>What the automaton answers\<close>

text \<open>
  The matchers as the automaton reads them: through \<^verbatim>\<open>acCharset\<close>, which does not distinguish upper and lower case
  and maps every byte outside letters, digits, hyphen and dot to one symbol.
\<close>

fun cs_Match :: "Matcher \<Rightarrow> gostring \<Rightarrow> bool" where
  "cs_Match (FullMatcher p) s \<longleftrightarrow> key p = key s"
| "cs_Match (DomainMatcher p) s \<longleftrightarrow> key p = key s \<or> prefix (key p @ [28]) (key s)"
| "cs_Match (SubstrMatcher p) s \<longleftrightarrow> sublist (key p) (key s)"
| "cs_Match (RegexMatcher p f) s \<longleftrightarrow> False"

text \<open>The patterns the automaton is meant for: not empty, no regular expressions, no domain that starts with a dot.\<close>

definition ac_pattern :: "Matcher \<Rightarrow> bool" where
  "ac_pattern m \<longleftrightarrow> Matcher_Type m \<noteq> Regex \<and> Pattern m \<noteq> [] \<and> (Matcher_Type m = Domain \<longrightarrow> hd (Pattern m) \<noteq> dot)"

lemma key_simps [simp]: "length (key p) = length p" "key p = [] \<longleftrightarrow> p = []" "[] = key p \<longleftrightarrow> p = []" "take k (key p) = map acCharset (take k (rev p))"
  by (simp_all add: key_def take_map)

lemma acCharset_eq_dot: "acCharset c = 28 \<longleftrightarrow> c = dot"
  by (auto simp: acCharset_def dot_def word_le_nat_alt unat_arith_simps)

lemma suffix_take_sublist:
  assumes "u \<noteq> []"
  shows "(\<exists>k \<in> {1..length w}. suffix u (take k w)) \<longleftrightarrow> sublist u w"
proof
  assume "\<exists>k \<in> {1..length w}. suffix u (take k w)"
  then show "sublist u w" by (metis prefix_imp_sublist sublist_order.order.trans suffix_imp_sublist take_is_prefix)
next
  assume "sublist u w"
  then obtain a b where w: "w = a @ u @ b" by (auto simp: sublist_def)
  then have "suffix u (take (length (a @ u)) w)" by (simp add: suffix_def)
  moreover have "length (a @ u) \<in> {1..length w}" using assms w by (cases u) auto
  ultimately show "\<exists>k \<in> {1..length w}. suffix u (take k w)" by blast
qed

text \<open>The words at which the domain check of the loop succeeds: the domain followed by a dot.\<close>

lemma dom_word:
  assumes "p \<noteq> []" "hd p \<noteq> dot"
  shows "(\<exists>k \<in> {1..length s}. last (take k (rev s)) = dot \<and> map acCharset (take k (rev s)) \<in> {key p, key p @ [28]}) \<longleftrightarrow> prefix (key p @ [28]) (key s)"
proof
  have lk: "last (key p) \<noteq> 28" using assms acCharset_eq_dot by (cases p) (simp_all add: key_def)
  assume "\<exists>k \<in> {1..length s}. last (take k (rev s)) = dot \<and> map acCharset (take k (rev s)) \<in> {key p, key p @ [28]}"
  then obtain k where k: "1 \<le> k" "k \<le> length s" "last (take k (rev s)) = dot" "map acCharset (take k (rev s)) \<in> {key p, key p @ [28]}" by auto
  have "take k (rev s) \<noteq> []" using k(1,2) by (cases s) auto
  then have "last (map acCharset (take k (rev s))) = 28" using k(3) by (simp add: last_map)
  with k(4) lk have "map acCharset (take k (rev s)) = key p @ [28]" by auto
  then show "prefix (key p @ [28]) (key s)" by (metis key_simps(4) take_is_prefix)
next
  assume pr: "prefix (key p @ [28]) (key s)"
  let ?k = "Suc (length p)"
  have t: "take ?k (key s) = key p @ [28]" using pr by (auto simp: prefix_def simp del: key_simps(4))
  have le: "?k \<le> length s" using prefix_length_le [OF pr] by simp
  then have ne: "take ?k (rev s) \<noteq> []" by (cases s) auto
  have "acCharset (last (take ?k (rev s))) = 28" using t ne by (metis key_simps(4) last_map last_snoc)
  then have "last (take ?k (rev s)) = dot" by (simp add: acCharset_eq_dot)
  with t le show "\<exists>k \<in> {1..length s}. last (take k (rev s)) = dot \<and> map acCharset (take k (rev s)) \<in> {key p, key p @ [28]}"
    by (intro bexI [of _ ?k]) auto
qed

lemma set_acc_of: "set (acc_of ms w t) = {v. \<exists>m. (m, v) \<in> set ms \<and> Type_index (Matcher_Type m) = t \<and> w \<in> set (ac_words m)}"
  by (simp add: acc_of_def set_values_of)

lemma Union_subs: "\<Union> (set ` subs (acc_of ms) u) = {v. \<exists>p. (SubstrMatcher p, v) \<in> set ms \<and> suffix (key p) u}"
proof -
  have "\<Union> (set ` subs (acc_of ms) u) = {v. \<exists>w. suffix w u \<and> v \<in> set (acc_of ms w 2)}" unfolding subs_def by force
  also have "\<dots> = {v. \<exists>p. (SubstrMatcher p, v) \<in> set ms \<and> suffix (key p) u}" unfolding set_acc_of
  proof (intro Collect_cong iffI; elim exE conjE)
    fix v w assume "suffix w u" "v \<in> {v. \<exists>m. (m, v) \<in> set ms \<and> Type_index (Matcher_Type m) = 2 \<and> w \<in> set (ac_words m)}"
    then obtain m where m: "(m, v) \<in> set ms" "Type_index (Matcher_Type m) = 2" "w \<in> set (ac_words m)" "suffix w u" by blast
    then show "\<exists>p. (SubstrMatcher p, v) \<in> set ms \<and> suffix (key p) u" by (cases m) auto
  next
    fix v p assume "(SubstrMatcher p, v) \<in> set ms" "suffix (key p) u"
    then show "\<exists>w. suffix w u \<and> v \<in> {v. \<exists>m. (m, v) \<in> set ms \<and> Type_index (Matcher_Type m) = 2 \<and> w \<in> set (ac_words m)}"
      by (intro exI [of _ "key p"] conjI CollectI exI [of _ "SubstrMatcher p"]) simp_all
  qed
  finally show ?thesis .
qed

lemma Union_doms: "x \<noteq> [] \<Longrightarrow> \<Union> (set ` doms (acc_of ms) x)
    = {v. \<exists>p. (DomainMatcher p, v) \<in> set ms \<and> last x = dot \<and> map acCharset x \<in> {key p, key p @ [28]}}"
proof -
  assume x: "x \<noteq> []"
  have "\<Union> (set ` doms (acc_of ms) x) = {v. last x = dot \<and> v \<in> set (acc_of ms (map acCharset x) 1)}" using x by (auto simp: doms_def)
  also have "\<dots> = {v. \<exists>p. (DomainMatcher p, v) \<in> set ms \<and> last x = dot \<and> map acCharset x \<in> {key p, key p @ [28]}}" unfolding set_acc_of
  proof (intro Collect_cong iffI; elim exE conjE)
    fix v assume "last x = dot" "v \<in> {v. \<exists>m. (m, v) \<in> set ms \<and> Type_index (Matcher_Type m) = 1 \<and> map acCharset x \<in> set (ac_words m)}"
    then obtain m where m: "(m, v) \<in> set ms" "Type_index (Matcher_Type m) = 1" "map acCharset x \<in> set (ac_words m)" "last x = dot" by blast
    then show "\<exists>p. (DomainMatcher p, v) \<in> set ms \<and> last x = dot \<and> map acCharset x \<in> {key p, key p @ [28]}" by (cases m) auto
  next
    fix v p assume "(DomainMatcher p, v) \<in> set ms" "last x = dot" "map acCharset x \<in> {key p, key p @ [28]}"
    then show "last x = dot \<and> v \<in> {v. \<exists>m. (m, v) \<in> set ms \<and> Type_index (Matcher_Type m) = 1 \<and> map acCharset x \<in> set (ac_words m)}"
      by (intro conjI CollectI exI [of _ "DomainMatcher p"]) simp_all
  qed
  finally show ?thesis .
qed

lemma ac_pattern_types:
  "ac_pattern m \<Longrightarrow> (\<exists>p. m = FullMatcher p \<and> p \<noteq> []) \<or> (\<exists>p. m = DomainMatcher p \<and> p \<noteq> [] \<and> hd p \<noteq> dot) \<or> (\<exists>p. m = SubstrMatcher p \<and> p \<noteq> [])"
  by (cases m) (simp_all add: ac_pattern_def)

definition ac_ok :: "(Matcher \<times> u32) list \<Rightarrow> bool" where
  "ac_ok ms \<longleftrightarrow> list_all (\<lambda>(m, v). ac_pattern m) ms \<and> 1 + ac_cost ms < 2 ^ 32"

lemma ac_build_ready:
  assumes "ac_ok ms"
  shows "\<exists>ac ws. ac_build ms = Some ac \<and> ac_ready (acc_of ms) ws ac"
proof -
  let ?ac = "foldl (\<lambda>ac mv. ac_Add mv ac) NewACAutomaton ms"
  obtain ws where ws: "ac_inv (acc_of ms) ws ?ac" using foldl_ac_Add [of ms] assms by (auto simp: ac_ok_def)
  obtain nodes where b: "ac_Build ?ac = Some (?ac\<lparr>ac_nodes := nodes\<rparr>)" "built (acc_of ms) ws (ac_nodes ?ac) nodes"
    using ac_Build_law [OF ws] by blast
  have root: "set (acc_of ms [] t) = {}" for t
  proof -
    have "[] \<notin> set (ac_words m)" if "(m, v) \<in> set ms" for m v
    proof -
      have "ac_pattern m" using that assms by (auto simp: ac_ok_def list_all_iff)
      then show ?thesis using ac_pattern_types [of m] by auto
    qed
    then show ?thesis unfolding set_acc_of by blast
  qed
  then have "ac_ready (acc_of ms) ws (?ac\<lparr>ac_nodes := nodes\<rparr>)"
    unfolding ac_ready_def using ws b(2) by (intro exI [of _ ?ac]) (simp add: fun_eq_iff)
  with b(1) show ?thesis by (auto simp: ac_build_def)
qed

text \<open>The values that the matching functions find, in terms of the matchers.\<close>

lemma found_values:
  assumes "ac_ok ms"
  shows "\<Union> (set ` ((\<Union>k \<in> {1..length s}. subs (acc_of ms) (map acCharset (take k (rev s))) \<union> doms (acc_of ms) (take k (rev s)))
      \<union> {acc_of ms (key s) 0, acc_of ms (key s) 1})) = {v. \<exists>m. (m, v) \<in> set ms \<and> cs_Match m s}" (is "?L = ?R")
proof -
  have pat: "ac_pattern m" if "(m, v) \<in> set ms" for m v using assms that by (auto simp: ac_ok_def list_all_iff)
  let ?sub = "{v. \<exists>p. (SubstrMatcher p, v) \<in> set ms \<and> sublist (key p) (key s)}"
  let ?dom = "{v. \<exists>p. (DomainMatcher p, v) \<in> set ms \<and> prefix (key p @ [28]) (key s)}"
  let ?full = "{v. \<exists>m. (m, v) \<in> set ms \<and> Matcher_Type m \<in> {Full, Domain} \<and> key s \<in> set (ac_words m)}"
  have ne: "take k (rev s) \<noteq> []" if "k \<in> {1..length s}" for k using that by (cases s) auto
  have "(\<Union>k \<in> {1..length s}. \<Union> (set ` subs (acc_of ms) (map acCharset (take k (rev s)))))
      = {v. \<exists>p. (SubstrMatcher p, v) \<in> set ms \<and> (\<exists>k \<in> {1..length (key s)}. suffix (key p) (take k (key s)))}"
    unfolding Union_subs by auto
  also have "\<dots> = ?sub"
  proof (intro Collect_cong ex_cong conj_cong refl)
    fix v p assume "(SubstrMatcher p, v) \<in> set ms"
    then have "key p \<noteq> []" using pat [of "SubstrMatcher p" v] by (simp add: ac_pattern_def)
    then show "(\<exists>k \<in> {1..length (key s)}. suffix (key p) (take k (key s))) \<longleftrightarrow> sublist (key p) (key s)" by (rule suffix_take_sublist)
  qed
  finally have S: "(\<Union>k \<in> {1..length s}. \<Union> (set ` subs (acc_of ms) (map acCharset (take k (rev s))))) = ?sub" .
  have "(\<Union>k \<in> {1..length s}. \<Union> (set ` doms (acc_of ms) (take k (rev s))))
      = {v. \<exists>p. (DomainMatcher p, v) \<in> set ms \<and> (\<exists>k \<in> {1..length s}. last (take k (rev s)) = dot \<and> map acCharset (take k (rev s)) \<in> {key p, key p @ [28]})}"
    (is "_ = ?doms")
  proof -
    have "(\<Union>k \<in> {1..length s}. \<Union> (set ` doms (acc_of ms) (take k (rev s))))
        = (\<Union>k \<in> {1..length s}. {v. \<exists>p. (DomainMatcher p, v) \<in> set ms \<and> last (take k (rev s)) = dot \<and> map acCharset (take k (rev s)) \<in> {key p, key p @ [28]}})"
      by (intro SUP_cong refl Union_doms ne)
    also have "\<dots> = ?doms" by blast
    finally show ?thesis .
  qed
  also have "\<dots> = ?dom"
  proof (intro Collect_cong ex_cong conj_cong refl)
    fix v p assume "(DomainMatcher p, v) \<in> set ms"
    then have "p \<noteq> []" "hd p \<noteq> dot" using pat [of "DomainMatcher p" v] by (simp_all add: ac_pattern_def)
    then show "(\<exists>k \<in> {1..length s}. last (take k (rev s)) = dot \<and> map acCharset (take k (rev s)) \<in> {key p, key p @ [28]}) \<longleftrightarrow> prefix (key p @ [28]) (key s)"
      by (rule dom_word)
  qed
  finally have D: "(\<Union>k \<in> {1..length s}. \<Union> (set ` doms (acc_of ms) (take k (rev s)))) = ?dom" .
  have F: "set (acc_of ms (key s) 0) \<union> set (acc_of ms (key s) 1) = ?full" unfolding set_acc_of Type_index_eq
    by blast
  have "?L = (\<Union>k \<in> {1..length s}. \<Union> (set ` subs (acc_of ms) (map acCharset (take k (rev s)))))
      \<union> (\<Union>k \<in> {1..length s}. \<Union> (set ` doms (acc_of ms) (take k (rev s)))) \<union> (set (acc_of ms (key s) 0) \<union> set (acc_of ms (key s) 1))"
    by auto
  also have "\<dots> = ?sub \<union> ?dom \<union> ?full" unfolding S D F ..
  also have "\<dots> = ?R"
  proof (intro equalityI subsetI)
    fix v assume "v \<in> ?sub \<union> ?dom \<union> ?full"
    then show "v \<in> ?R"
    proof (elim UnE CollectE exE conjE)
      fix p assume "(SubstrMatcher p, v) \<in> set ms" "sublist (key p) (key s)"
      then show ?thesis by (intro CollectI exI [of _ "SubstrMatcher p"]) simp
    next
      fix p assume "(DomainMatcher p, v) \<in> set ms" "prefix (key p @ [28]) (key s)"
      then show ?thesis by (intro CollectI exI [of _ "DomainMatcher p"]) simp
    next
      fix m assume m: "(m, v) \<in> set ms" "Matcher_Type m \<in> {Full, Domain}" "key s \<in> set (ac_words m)"
      then have "cs_Match m s" by (cases m) auto
      with m(1) show ?thesis by blast
    qed
  next
    fix v assume "v \<in> ?R"
    then obtain m where m: "(m, v) \<in> set ms" "cs_Match m s" by blast
    have full: "v \<in> ?full" if "Matcher_Type m \<in> {Full, Domain}" "key s \<in> set (ac_words m)" using m(1) that by blast
    show "v \<in> ?sub \<union> ?dom \<union> ?full"
    proof (cases m)
      case (DomainMatcher p)
      then show ?thesis using m full by auto
    qed (use m full in auto)
  qed
  finally show ?thesis .
qed

lemma ac_reads_MatchAny:
  assumes "ac_ok ms" "ac_ready (acc_of ms) ws ac"
  shows "ac_MatchAny ac s \<longleftrightarrow> (\<exists>m v. (m, v) \<in> set ms \<and> cs_Match m s)"
proof -
  let ?acc = "acc_of ms"
  let ?U = "(\<Union>k \<in> {1..length s}. subs ?acc (map acCharset (take k (rev s))) \<union> doms ?acc (take k (rev s)))"
  have F: "\<Union> (set ` (?U \<union> {?acc (key s) 0, ?acc (key s) 1})) = {v. \<exists>m. (m, v) \<in> set ms \<and> cs_Match m s}"
    by (rule found_values [OF assms(1)])
  have ne: "[] \<notin> ?U" by (auto simp: subs_def doms_def)
  have "?acc (key s) 2 \<noteq> [] \<Longrightarrow> ?U \<noteq> {}"
  proof -
    assume h: "?acc (key s) 2 \<noteq> []"
    then have s: "s \<noteq> []" using ac_readyD(4) [OF assms(2)] by (auto simp: key_def)
    have "?acc (key s) 2 \<in> subs ?acc (map acCharset (take (length s) (rev s)))" using h by (auto simp: subs_def key_def)
    moreover have "length s \<in> {1..length s}" using s by (cases s) auto
    ultimately show ?thesis by blast
  qed
  moreover have "(\<exists>t<3. ?acc (key s) t \<noteq> []) \<longleftrightarrow> ?acc (key s) 0 \<noteq> [] \<or> ?acc (key s) 1 \<noteq> [] \<or> ?acc (key s) 2 \<noteq> []"
    by (simp add: numeral_3_eq_3 numeral_2_eq_2 less_Suc_eq ex_disj_distrib conj_disj_distribR)
  ultimately have "ac_MatchAny ac s \<longleftrightarrow> ?U \<noteq> {} \<or> ?acc (key s) 0 \<noteq> [] \<or> ?acc (key s) 1 \<noteq> []"
    unfolding ac_MatchAny_law [OF assms(2)] by blast
  also have "\<dots> \<longleftrightarrow> \<Union> (set ` (?U \<union> {?acc (key s) 0, ?acc (key s) 1})) \<noteq> {}"
  proof -
    have "?U \<noteq> {} \<longleftrightarrow> \<Union> (set ` ?U) \<noteq> {}" using ne by (metis (no_types, lifting) SUP_bot_conv(1) all_not_in_conv set_empty)
    then show ?thesis by (simp add: image_Un Un_assoc del: UN_simps SUP_bot_conv) blast
  qed
  finally show ?thesis unfolding F by blast
qed

text \<open>
  C22: The Aho-Corasick automaton: for non-empty full, domain and substring patterns (no domain starting with a dot) whose
  total length fits \<^verbatim>\<open>uint32\<close>, \<^verbatim>\<open>Build\<close> and \<^verbatim>\<open>Match\<close> return, \<^verbatim>\<open>MatchAny\<close> holds exactly if one of the patterns matches, and \<^verbatim>\<open>Match\<close>
  reports exactly the values of the patterns that match, all of it up to what \<^verbatim>\<open>acCharset\<close> distinguishes.
\<close>

theorem ac_matcher_correct:
  assumes "ac_ok ms"
  shows "\<exists>ac vs. ac_build ms = Some ac \<and> (ac_MatchAny ac s \<longleftrightarrow> (\<exists>m v. (m, v) \<in> set ms \<and> cs_Match m s))
    \<and> ac_Match ac s = Some vs \<and> set vs = {v. \<exists>m. (m, v) \<in> set ms \<and> cs_Match m s}"
proof -
  obtain ac ws where ac: "ac_build ms = Some ac" "ac_ready (acc_of ms) ws ac" using ac_build_ready [OF assms] by blast
  obtain vs where "ac_Match ac s = Some vs" "set vs = {v. \<exists>m. (m, v) \<in> set ms \<and> cs_Match m s}"
    using ac_Match_law [OF ac(2), of s] unfolding found_values [OF assms] by blast
  with ac_reads_MatchAny [OF assms ac(2)] ac(1) show ?thesis by blast
qed

theorem ac_matcher_correct_witness:
  "\<exists>ac vs. ac_build [(DomainMatcher [97], 1), (SubstrMatcher [98], 2)] = Some ac \<and> ac_MatchAny ac [98, 46, 65]
    \<and> ac_Match ac [98, 46, 65] = Some vs \<and> set vs = {1, 2}"
proof -
  have k: "key [97] = [1]" "key [98] = [2]" "key [98, 46, 65] = [1, 28, 2]" by (simp_all add: key_def acCharset_def dot_def)
  have "sublist [2] [1, 28, 2 :: nat]" by code_simp
  then show ?thesis
  using ac_matcher_correct [of "[(DomainMatcher [97], 1), (SubstrMatcher [98], 2)]" "[98, 46, 65]"]
  by (auto simp: ac_ok_def ac_pattern_def ac_cost_def dot_def k)
qed

text \<open>
  On lower-case letters, digits, hyphen and dot the automaton's reading and the matchers themselves agree, so the
  automaton is a matcher group for patterns and inputs of that form.
\<close>

definition canonical :: "byte \<Rightarrow> bool" where
  "canonical c \<longleftrightarrow> 97 \<le> c \<and> c \<le> 122 \<or> 48 \<le> c \<and> c \<le> 57 \<or> c = 45 \<or> c = dot"

lemma acCharset_canonical: "canonical c \<Longrightarrow> acCharset c =
    (if 97 \<le> unat c \<and> unat c \<le> 122 then unat c - 96 else if 48 \<le> unat c \<and> unat c \<le> 57 then unat c - 19 else unat c - 18)"
  by (auto simp: acCharset_def canonical_def dot_def word_le_nat_alt unat_arith_simps)

lemma canonical_nat: "canonical c \<Longrightarrow> 97 \<le> unat c \<and> unat c \<le> 122 \<or> 48 \<le> unat c \<and> unat c \<le> 57 \<or> unat c = 45 \<or> unat c = 46"
  by (auto simp: canonical_def dot_def word_le_nat_alt unat_arith_simps)

lemma inj_acCharset: "inj_on acCharset {c. canonical c}"
proof (rule inj_onI)
  fix c d assume c: "c \<in> {c. canonical c}" "d \<in> {c. canonical c}" "acCharset c = acCharset d"
  then have "unat c = unat d"
    using canonical_nat [of c] canonical_nat [of d] by (auto simp: acCharset_canonical split: if_splits)
  then show "c = d" by (simp only: word_unat_eq_iff)
qed

lemma key_sublist:
  assumes "list_all canonical p" "list_all canonical s"
  shows "key p = key s \<longleftrightarrow> p = s" "sublist (key p) (key s) \<longleftrightarrow> sublist p s" "prefix (key p @ [28]) (key s) \<longleftrightarrow> suffix (dot # p) s"
proof -
  have inj: "inj_on acCharset (set p \<union> set s \<union> {dot})"
    by (rule inj_on_subset [OF inj_acCharset]) (use assms in \<open>auto simp: list_all_iff canonical_def\<close>)
  have eq: "map acCharset u = map acCharset w \<longleftrightarrow> u = w" if "set u \<subseteq> set p \<union> set s \<union> {dot}" "set w \<subseteq> set p \<union> set s \<union> {dot}" for u w
    using inj_on_map_eq_map [of acCharset u w] inj_on_subset [OF inj] that by (metis Un_least)
  show "key p = key s \<longleftrightarrow> p = s" using eq [of "rev p" "rev s"] by (auto simp: key_def)
  have take: "map acCharset (take n (drop k (rev s))) = map acCharset u \<longleftrightarrow> take n (drop k (rev s)) = u" if "set u \<subseteq> set p \<union> {dot}" for n k u
  proof (rule eq)
    show "set (take n (drop k (rev s))) \<subseteq> set p \<union> set s \<union> {dot}" using set_take_subset [of n "drop k (rev s)"] set_drop_subset [of k "rev s"] by auto
  qed (use that in auto)
  show "sublist (key p) (key s) \<longleftrightarrow> sublist p s"
  proof
    assume "sublist (key p) (key s)"
    then obtain a b where "key s = a @ key p @ b" by (auto simp: sublist_def)
    then have "map acCharset (take (length p) (drop (length a) (rev s))) = map acCharset (rev p)"
      by (simp add: key_def flip: take_map drop_map)
    then have "take (length p) (drop (length a) (rev s)) = rev p" using take [of "rev p"] by auto
    then have "sublist (rev p) (rev s)" by (metis sublist_drop sublist_order.order.trans sublist_take)
    then show "sublist p s" by (simp add: sublist_rev)
  next
    assume "sublist p s"
    then obtain a b where "s = a @ p @ b" by (auto simp: sublist_def)
    then show "sublist (key p) (key s)" by (auto simp: key_def sublist_def)
  qed
  show "prefix (key p @ [28]) (key s) \<longleftrightarrow> suffix (dot # p) s"
  proof
    assume "prefix (key p @ [28]) (key s)"
    then obtain b where "key s = (key p @ [28]) @ b" by (auto simp: prefix_def)
    then have "take (Suc (length p)) (key s) = key p @ [28]" by (simp del: key_simps(4))
    then have "map acCharset (take (Suc (length p)) (drop 0 (rev s))) = map acCharset (rev p @ [dot])" by (simp add: key_def take_map)
    then have "take (Suc (length p)) (rev s) = rev p @ [dot]" using take [of "rev p @ [dot]" "Suc (length p)" 0] by auto
    then have "prefix (rev (dot # p)) (rev s)" by (metis rev.simps(2) take_is_prefix)
    then show "suffix (dot # p) s" by (simp only: suffix_to_prefix)
  next
    assume "suffix (dot # p) s"
    then obtain a where "s = a @ dot # p" by (auto simp: suffix_def)
    then show "prefix (key p @ [28]) (key s)" by (simp add: key_def prefix_def)
  qed
qed

lemma cs_Match_canonical:
  assumes "ac_pattern m" "list_all canonical (Pattern m)" "list_all canonical s"
  shows "cs_Match m s \<longleftrightarrow> Matcher_Match m s"
proof (cases m)
  case (DomainMatcher p)
  then show ?thesis using assms key_sublist [of p s] Domain_Match_suffix [of p s] by simp
qed (use assms key_sublist [of "Pattern m" s] in \<open>auto simp: Contains_sublist ac_pattern_def\<close>)

definition ac_only :: "(Matcher \<times> u32) list \<Rightarrow> bool" where
  "ac_only ms \<longleftrightarrow> ac_ok ms \<and> list_all (\<lambda>(m, v). list_all canonical (Pattern m)) ms"

lemma ac_only_Match:
  assumes "ac_only ms" "list_all canonical s" "(m, v) \<in> set ms"
  shows "cs_Match m s \<longleftrightarrow> Matcher_Match m s"
  using assms by (intro cs_Match_canonical) (auto simp: ac_only_def ac_ok_def list_all_iff)

interpretation ac_group: matcher_group ac_build ac_MatchAny ac_Match ac_only "list_all canonical"
proof
  fix ms g s assume ok: "ac_only ms"
  then have a: "ac_ok ms" by (simp add: ac_only_def)
  obtain ac ws where b: "ac_build ms = Some ac" "ac_ready (acc_of ms) ws ac" using ac_build_ready [OF a] by blast
  then show "\<exists>g. ac_build ms = Some g" by blast
  assume g: "ac_build ms = Some g" and s: "list_all canonical s"
  have r: "ac_ready (acc_of ms) ws g" using b g by simp
  show "ac_MatchAny g s \<longleftrightarrow> (\<exists>m v. (m, v) \<in> set ms \<and> Matcher_Match m s)"
    using ac_reads_MatchAny [OF a r, of s] ac_only_Match [OF ok s] by blast
  have "{v. \<exists>m. (m, v) \<in> set ms \<and> cs_Match m s} = {v. \<exists>m. (m, v) \<in> set ms \<and> Matcher_Match m s}" using ac_only_Match [OF ok s] by blast
  then show "\<exists>vs. ac_Match g s = Some vs \<and> set vs = {v. \<exists>m. (m, v) \<in> set ms \<and> Matcher_Match m s}"
    using ac_Match_law [OF r, of s] found_values [OF a, of s] by auto
qed

end
