(* ===== verification/MphIndex.thy ===== *)
theory MphIndex
  imports Mph AcAutomaton
begin

text \<open>
  \<^verbatim>\<open>common/strmatcher/indexmatcher_mph.go\<close>: the index matcher that the router and the DNS server use by default. Full and
  domain patterns go into the perfect hash table, substring patterns into the automaton, regular expressions into a
  list. It is shown to answer as the linear index matcher does.
\<close>

record MphIndexMatcher =
  mi_count :: u32
  mi_mph :: "MphMatcherGroup option"
  mi_ac :: "ACAutomaton option"
  mi_regex :: "SimpleMatcherGroup option"

definition NewMphIndexMatcher :: MphIndexMatcher where
  "NewMphIndexMatcher = \<lparr>mi_count = 0, mi_mph = None, mi_ac = None, mi_regex = None\<rparr>"

definition mi_Add :: "(gostring \<Rightarrow> gostring) \<Rightarrow> MphIndexMatcher \<Rightarrow> Matcher \<Rightarrow> (u32 \<times> MphIndexMatcher) result" where
  "mi_Add unicode g matcher =
     (let g = g\<lparr>mi_count := mi_count g + 1\<rparr>; index = mi_count g in
      case matcher of
        FullMatcher p \<Rightarrow> bind_res (mph_AddFullMatcher unicode p index (or_new (mi_mph g) NewMphMatcherGroup))
                           (\<lambda>m. Inr (index, g\<lparr>mi_mph := Some m\<rparr>))
      | DomainMatcher p \<Rightarrow> bind_res (mph_AddDomainMatcher unicode p index (or_new (mi_mph g) NewMphMatcherGroup))
                             (\<lambda>m. Inr (index, g\<lparr>mi_mph := Some m\<rparr>))
      | SubstrMatcher p \<Rightarrow> Inr (index, g\<lparr>mi_ac := Some (ac_AddSubstrMatcher p index (or_new (mi_ac g) NewACAutomaton))\<rparr>)
      | _ \<Rightarrow> Inr (index, g\<lparr>mi_regex := Some (simple_AddMatcher (or_new (mi_regex g) []) matcher index)\<rparr>))"

text \<open>\<^verbatim>\<open>Build\<close>; \<open>None\<close> if the search for a seed does not end.\<close>

definition mi_Build :: "(gostring \<Rightarrow> u64 \<Rightarrow> u64) \<Rightarrow> MphIndexMatcher \<Rightarrow> MphIndexMatcher result option" where
  "mi_Build strhash g =
     (case (case mi_mph g of None \<Rightarrow> Some (Inr g) | Some m \<Rightarrow> map_option (\<lambda>r. bind_res r (\<lambda>m. Inr (g\<lparr>mi_mph := Some m\<rparr>))) (mph_Build strhash m)) of
        None \<Rightarrow> None
      | Some (Inl e) \<Rightarrow> Some (Inl e)
      | Some (Inr g) \<Rightarrow>
          (case mi_ac g of None \<Rightarrow> Some (Inr g) | Some a \<Rightarrow> map_option (\<lambda>a. Inr (g\<lparr>mi_ac := Some a\<rparr>)) (ac_Build a)))"

definition mi_Match :: "(gostring \<Rightarrow> u64 \<Rightarrow> u64) \<Rightarrow> MphIndexMatcher \<Rightarrow> gostring \<Rightarrow> u32 list option" where
  "mi_Match strhash g s =
     (let result = (case mi_mph g of None \<Rightarrow> [] | Some m \<Rightarrow> nonempty (mph_Match strhash m s)) in
      case (case mi_ac g of None \<Rightarrow> Some [] | Some a \<Rightarrow> map_option nonempty (ac_Match a s)) of
        None \<Rightarrow> None
      | Some ms \<Rightarrow> Some (CompositeMatches (result @ ms @ (case mi_regex g of None \<Rightarrow> [] | Some r \<Rightarrow> nonempty (simple_Match r s)))))"

definition mi_MatchAny :: "(gostring \<Rightarrow> u64 \<Rightarrow> u64) \<Rightarrow> MphIndexMatcher \<Rightarrow> gostring \<Rightarrow> bool" where
  "mi_MatchAny strhash g s =
     (if (case mi_mph g of None \<Rightarrow> False | Some m \<Rightarrow> mph_MatchAny strhash m s) then True
      else if (case mi_ac g of None \<Rightarrow> False | Some a \<Rightarrow> ac_MatchAny a s) then True
      else (case mi_regex g of None \<Rightarrow> False | Some r \<Rightarrow> simple_MatchAny r s))"

definition mi_Size :: "MphIndexMatcher \<Rightarrow> u32" where
  "mi_Size g = mi_count g"

definition mi_add_all :: "(gostring \<Rightarrow> gostring) \<Rightarrow> Matcher list \<Rightarrow> MphIndexMatcher result" where
  "mi_add_all unicode ms = foldl (\<lambda>r m. bind_res r (\<lambda>g. map_sum id snd (mi_Add unicode g m))) (Inr NewMphIndexMatcher) ms"

definition mi_build :: "(gostring \<Rightarrow> gostring) \<Rightarrow> (gostring \<Rightarrow> u64 \<Rightarrow> u64) \<Rightarrow> Matcher list \<Rightarrow> MphIndexMatcher result option" where
  "mi_build unicode strhash ms = (case mi_add_all unicode ms of Inl e \<Rightarrow> Some (Inl e) | Inr g \<Rightarrow> mi_Build strhash g)"

section \<open>The parts\<close>

text \<open>The matchers that go into the table, with their indices.\<close>

definition table_part :: "Matcher list \<Rightarrow> (Matcher \<times> u32) list" where
  "table_part ms = filter (\<lambda>(m, v). Matcher_Type m \<in> {Full, Domain}) (indexed ms)"

lemma table_part_snoc:
  "table_part (ms @ [m]) = table_part ms @ (if Matcher_Type m \<in> {Full, Domain} then [(m, of_nat (Suc (length ms)))] else [])"
  "table_part [] = []"
  by (simp_all add: table_part_def indexed_snoc) (simp add: indexed_def)

definition ac_add_all :: "(Matcher \<times> u32) list \<Rightarrow> ACAutomaton" where
  "ac_add_all ms = foldl (\<lambda>ac mv. ac_Add mv ac) NewACAutomaton ms"

definition table_of :: "(gostring \<Rightarrow> gostring) \<Rightarrow> (Matcher \<times> u32) list \<Rightarrow> MphMatcherGroup" where
  "table_of unicode ms = projr (mph_add_all unicode ms)"

lemma table_of_law: "mph_add_all unicode ms = Inr (table_of unicode ms)"
  using mph_add_all_law [of unicode ms] by (auto simp: table_of_def)

lemma table_of_snoc: "mph_Add unicode (m, v) (table_of unicode ms) = Inr (table_of unicode (ms @ [(m, v)]))"
  using table_of_law [of unicode "ms @ [(m, v)]"] table_of_law [of unicode ms] by (simp add: mph_add_all_def)

lemma or_new_table: "or_new (group_of (table_of unicode) ms) NewMphMatcherGroup = table_of unicode ms"
  using table_of_law [of unicode "[]"] by (auto simp: or_new_def group_of_def mph_add_all_def)

lemma mi_add_all_law:
  "mi_add_all unicode ms = Inr \<lparr>mi_count = of_nat (length ms), mi_mph = group_of (table_of unicode) (table_part ms),
     mi_ac = group_of ac_add_all (of_type Substr ms), mi_regex = group_of simple_build (of_type Regex ms)\<rparr>"
proof (induction ms rule: rev_induct)
  case Nil
  then show ?case by (simp add: mi_add_all_def NewMphIndexMatcher_def of_type_snoc table_part_snoc group_of_def)
next
  case (snoc m ms)
  have step: "mi_add_all unicode (ms @ [m]) = bind_res (mi_add_all unicode ms) (\<lambda>g. map_sum id snd (mi_Add unicode g m))" by (simp add: mi_add_all_def)
  have c: "(of_nat (length ms) + 1 :: u32) = of_nat (Suc (length ms))" by simp
  have full: "mph_AddFullMatcher unicode p v (table_of unicode xs) = Inr (table_of unicode (xs @ [(FullMatcher p, v)]))" for xs p v
    using table_of_snoc [of unicode "FullMatcher p"] by simp
  have domain: "mph_AddDomainMatcher unicode p v (table_of unicode xs) = Inr (table_of unicode (xs @ [(DomainMatcher p, v)]))" for xs p v
    using table_of_snoc [of unicode "DomainMatcher p"] by simp
  have substr: "Some (ac_AddSubstrMatcher p v (or_new (group_of ac_add_all xs) NewACAutomaton)) = group_of ac_add_all (xs @ [(SubstrMatcher p, v)])" for xs p v
    using or_new_group_of [of ac_add_all "\<lambda>g m v. ac_AddSubstrMatcher (Pattern m) v g" NewACAutomaton xs "SubstrMatcher p" v]
    by (auto simp: ac_add_all_def or_new_def group_of_def)
  have regex: "Some (simple_AddMatcher (or_new (group_of simple_build xs) []) m v) = group_of simple_build (xs @ [(m, v)])" for xs m v
    using or_new_group_of [of simple_build simple_AddMatcher "[]" xs m v] by (simp add: simple_build_def)
  show ?case unfolding step snoc.IH bind_res_simps mi_Add_def Let_def
    by (cases m) (simp_all add: of_type_snoc table_part_snoc c full domain substr regex or_new_table del: of_nat_Suc, simp_all add: group_of_def)
qed

section \<open>The answers\<close>

text \<open>Patterns in the form the matcher is meant for.\<close>

fun index_pattern :: "Matcher \<Rightarrow> bool" where
  "index_pattern (FullMatcher p) \<longleftrightarrow> list_all canonical p \<and> take 1 p \<noteq> [dot]"
| "index_pattern (DomainMatcher p) \<longleftrightarrow> list_all canonical p \<and> p \<noteq> [] \<and> hd p \<noteq> dot"
| "index_pattern (SubstrMatcher p) \<longleftrightarrow> list_all canonical p \<and> p \<noteq> []"
| "index_pattern (RegexMatcher p f) \<longleftrightarrow> True"

definition mi_ok :: "(gostring \<Rightarrow> gostring) \<Rightarrow> (gostring \<Rightarrow> u64 \<Rightarrow> u64) \<Rightarrow> Matcher list \<Rightarrow> bool" where
  "mi_ok unicode strhash ms \<longleftrightarrow> list_all index_pattern ms \<and> length ms < 2 ^ 29 \<and> ac_cost (of_type Substr ms) + 1 < 2 ^ 32
     \<and> mph_seeds_for unicode strhash (table_part ms)"

lemma ToLower_canonical: "list_all canonical p \<Longrightarrow> ToLower unicode p = p"
proof -
  have c: "c < 128" "lower c = c" if "canonical c" for c
    using canonical_nat [OF that] by (auto simp: lower_def word_less_nat_alt word_le_nat_alt)
  assume "list_all canonical p"
  then show ?thesis using c by (auto simp: ToLower_def list_all_iff map_idI)
qed

lemma mi_parts:
  assumes "mi_ok unicode strhash ms"
  shows "mph_only unicode strhash (table_part ms)" "ac_only (of_type Substr ms)"
proof -
  have ok: "index_pattern m" if "(m, v) \<in> set (indexed ms)" for m v
    using that assms indexed_mem by (auto simp: mi_ok_def list_all_iff)
  have t: "Matcher_Type m \<in> {Full, Domain}" "list_all canonical (Pattern m)" "take 1 (Pattern m) \<noteq> [dot]" if "(m, v) \<in> set (table_part ms)" for m v
  proof -
    have m: "Matcher_Type m \<in> {Full, Domain}" "index_pattern m" using that ok by (auto simp: table_part_def)
    then show "Matcher_Type m \<in> {Full, Domain}" "list_all canonical (Pattern m)" by (cases m; auto)+
    show "take 1 (Pattern m) \<noteq> [dot]"
    proof (cases m)
      case (DomainMatcher p)
      with m(2) show ?thesis by (cases p) auto
    qed (use m in auto)
  qed
  have "length (table_part ms) \<le> length ms" unfolding table_part_def using length_filter_le [of _ "indexed ms"] by (simp add: indexed_def)
  then show "mph_only unicode strhash (table_part ms)"
    using t assms by (auto simp: mph_only_def mph_ok_def mi_ok_def list_all_iff ToLower_canonical)
  have s: "ac_pattern m" "list_all canonical (Pattern m)" if "(m, v) \<in> set (of_type Substr ms)" for m v
  proof -
    have "Matcher_Type m = Substr" "index_pattern m" using that ok by (auto simp: of_type_set)
    then show "ac_pattern m" "list_all canonical (Pattern m)" by (cases m; auto simp: ac_pattern_def)+
  qed
  then show "ac_only (of_type Substr ms)" using assms by (auto simp: ac_only_def ac_ok_def mi_ok_def list_all_iff)
qed

lemma matching_table: "{v. \<exists>m. (m, v) \<in> set (table_part ms) \<and> Matcher_Match m s} = matching Full ms s \<union> matching Domain ms s"
  by (auto simp: matching_def table_part_def)

lemma mi_build_answers:
  assumes "mi_ok unicode strhash ms" "list_all canonical s"
  obtains g a u r where "mi_build unicode strhash ms = Some (Inr g)" "mi_Match strhash g s = Some (a @ u @ r)"
    "set a = matching Full ms s \<union> matching Domain ms s" "set u = matching Substr ms s" "set r = matching Regex ms s"
    "mi_MatchAny strhash g s \<longleftrightarrow> a @ u @ r \<noteq> []"
proof -
  note parts = mi_parts [OF assms(1)]
  obtain t where t: "mph_group unicode strhash (table_part ms) = Some t" using mph.build_returns [OF parts(1)] by blast
  obtain ac where ac: "ac_build (of_type Substr ms) = Some ac" using ac_group.build_returns [OF parts(2)] by blast
  have bt: "mph_Build strhash (table_of unicode (table_part ms)) = Some (Inr t)"
    using t by (auto simp: mph_group_def mph_build_def table_of_law split: option.splits sum.splits)
  have ba: "ac_Build (ac_add_all (of_type Substr ms)) = Some ac" using ac by (simp add: ac_build_def ac_add_all_def)
  let ?g = "\<lparr>mi_count = of_nat (length ms), mi_mph = (if table_part ms = [] then None else Some t),
    mi_ac = (if of_type Substr ms = [] then None else Some ac), mi_regex = group_of simple_build (of_type Regex ms)\<rparr>"
  have build: "mi_build unicode strhash ms = Some (Inr ?g)"
    by (simp add: mi_build_def mi_add_all_law mi_Build_def group_of_def bt ba)
  define a where "a = (if table_part ms = [] then [] else mph_Match strhash t s)"
  have a: "set a = matching Full ms s \<union> matching Domain ms s"
    using mph.Match_law [OF parts(1) t] matching_table [of ms s] by (auto simp: a_def)
  obtain u0 where u0: "ac_Match ac s = Some u0" "set u0 = matching Substr ms s"
    using ac_group.Match_law [OF parts(2) ac assms(2)] matching_of_type [of Substr ms s] by auto
  define u where "u = (if of_type Substr ms = [] then [] else u0)"
  have u: "set u = matching Substr ms s" using u0(2) matching_of_type [of Substr ms s] by (auto simp: u_def)
  define r where "r = (if of_type Regex ms = [] then [] else simple_Match (simple_build (of_type Regex ms)) s)"
  have r: "set r = matching Regex ms s"
    using matching_of_type [of Regex ms s] by (auto simp: r_def simple_Match_law simple_build_id set_values_of)
  have match: "mi_Match strhash ?g s = Some (a @ u @ r)"
    using u0(1) by (simp add: mi_Match_def Let_def a_def u_def r_def group_of_def)
  have "mph_MatchAny strhash t s \<longleftrightarrow> set (mph_Match strhash t s) \<noteq> {}"
    using mph.MatchAny_iff_Match [OF parts(1) t] by simp
  moreover have "ac_MatchAny ac s \<longleftrightarrow> u0 \<noteq> []" using ac_group.MatchAny_iff_Match [OF parts(2) ac assms(2)] u0(1) by simp
  moreover have "simple_MatchAny (simple_build (of_type Regex ms)) s \<longleftrightarrow> simple_Match (simple_build (of_type Regex ms)) s \<noteq> []"
    by (simp add: simple_MatchAny_law simple_build_id simple_Match_law values_of_nonempty)
  ultimately have "mi_MatchAny strhash ?g s \<longleftrightarrow> a @ u @ r \<noteq> []"
    by (simp add: mi_MatchAny_def a_def u_def r_def group_of_def)
  with build match a u r show thesis by (rule that)
qed

lemma mi_MatchAny_matchers:
  assumes "mi_ok unicode strhash ms" "list_all canonical s"
  shows "\<exists>g. mi_build unicode strhash ms = Some (Inr g) \<and> (mi_MatchAny strhash g s \<longleftrightarrow> (\<exists>m \<in> set ms. Matcher_Match m s))"
proof -
  obtain g a u r where g: "mi_build unicode strhash ms = Some (Inr g)" "mi_Match strhash g s = Some (a @ u @ r)"
    "set a = matching Full ms s \<union> matching Domain ms s" "set u = matching Substr ms s" "set r = matching Regex ms s"
    "mi_MatchAny strhash g s \<longleftrightarrow> a @ u @ r \<noteq> []" by (rule mi_build_answers [OF assms])
  have "a @ u @ r \<noteq> [] \<longleftrightarrow> set (a @ u @ r) \<noteq> {}" by (simp only: set_empty)
  then have "mi_MatchAny strhash g s \<longleftrightarrow> (\<exists>m \<in> set ms. Matcher_Match m s)" unfolding g(6) set_append g(3-5) Un_assoc matching_all indexed_any .
  with g(1) show ?thesis by blast
qed

section \<open>Properties\<close>

text \<open>
  C23: The index matcher built from the perfect hash table and the automaton is equivalent to the linear one: on lower-case
  domain names, with patterns in that form and a hash function for which \<^verbatim>\<open>Build\<close> finds its seeds, \<^verbatim>\<open>Build\<close> and \<^verbatim>\<open>Match\<close>
  return, \<^verbatim>\<open>MatchAny\<close> gives the same answer as the linear matcher, namely whether some matcher accepts the input, and \<^verbatim>\<open>Match\<close> reports
  the same set of indices.
\<close>

theorem mph_index_equals_linear:
  assumes "mi_ok unicode strhash ms" "length (of_type Substr ms) \<le> 65536" "list_all canonical s"
  shows "\<exists>g vs ws. mi_build unicode strhash ms = Some (Inr g)
    \<and> (mi_MatchAny strhash g s \<longleftrightarrow> lin_MatchAny (lin_build ms) s) \<and> (mi_MatchAny strhash g s \<longleftrightarrow> (\<exists>m \<in> set ms. Matcher_Match m s))
    \<and> mi_Match strhash g s = Some vs \<and> lin_Match (lin_build ms) s = Some ws \<and> set vs = set ws"
proof -
  obtain g a u r where g: "mi_build unicode strhash ms = Some (Inr g)" "mi_Match strhash g s = Some (a @ u @ r)"
    "set a = matching Full ms s \<union> matching Domain ms s" "set u = matching Substr ms s" "set r = matching Regex ms s"
    "mi_MatchAny strhash g s \<longleftrightarrow> a @ u @ r \<noteq> []" by (rule mi_build_answers [OF assms(1,3)])
  have "pattern_ok m" if "index_pattern m" for m using that by (cases m) (auto simp: pattern_ok_def)
  then have lin: "lin_accepts ms" using assms by (auto simp: lin_accepts_def mi_ok_def list_all_iff)
  obtain f d u' r' where l: "lin_Match (lin_build ms) s = Some (f @ d @ u' @ r')" "set f = matching Full ms s"
    "set d = matching Domain ms s" "set u' = matching Substr ms s" "set r' = matching Regex ms s"
    "lin_MatchAny (lin_build ms) s \<longleftrightarrow> f @ d @ u' @ r' \<noteq> []" by (rule lin_Match_parts [OF lin])
  have same: "set (a @ u @ r) = set (f @ d @ u' @ r')" using g(3-5) l(2-5) by auto
  then have any: "mi_MatchAny strhash g s \<longleftrightarrow> lin_MatchAny (lin_build ms) s" using g(6) l(6) by (metis set_empty)
  have "mi_MatchAny strhash g s \<longleftrightarrow> (\<exists>m \<in> set ms. Matcher_Match m s)" unfolding any by (rule lin_MatchAny_matchers [OF lin])
  with any g(1,2) l(1) same show ?thesis by blast
qed

definition demo_matchers :: "Matcher list" where
  "demo_matchers = [DomainMatcher [97], SubstrMatcher [98]]"

definition length_hash :: "gostring \<Rightarrow> u64 \<Rightarrow> u64" where
  "length_hash s seed = of_nat (length s)"

lemma demo_table: "mp_rules (table_of id (table_part demo_matchers)) = [[], [97], [46, 97]]"
proof -
  have l: "ToLower id [97] = [97]" by (simp add: ToLower_def lower_def)
  have "mph_add_all id (table_part demo_matchers) = mph_AddDomainMatcher id [97] 1 NewMphMatcherGroup"
    by (simp add: mph_add_all_def table_part_def demo_matchers_def indexed_def)
  then have "mph_AddDomainMatcher id [97] 1 NewMphMatcherGroup = Inr (table_of id (table_part demo_matchers))" using table_of_law by simp
  then show ?thesis
    by (simp add: mph_AddDomainMatcher_def mph_addPattern_def NewMphMatcherGroup_def l Let_def lookup_empty lookup_update' dot_def)
      (metis MphMatcherGroup.select_convs(1))
qed

lemma demo_seeds: "mph_seeds_for id length_hash (table_part demo_matchers)"
proof -
  let ?g = "table_of id (table_part demo_matchers)"
  have p: "nextPow2 0 = 1" "nextPow2 2 = 4"
    by (simp_all add: nextPow2_def LeadingZeros_def bit_len.simps mask_eq_exp_minus_1)
  have u: "[Suc 0..<3] = [Suc 0, 2]" by (simp add: upt_rec)
  then have p2: "nextPow2 (Suc (Suc 0)) = 4" using p(2) by (simp add: numeral_2_eq_2)
  have b: "build_buckets ?g = [[1, 2]]"
    by (simp add: build_buckets_def demo_table p bucket_of_def u)
  have s: "build_slot length_hash ?g seed 1 = 1" "build_slot length_hash ?g seed 2 = 2" for seed
    by (simp_all add: build_slot_def demo_table p2 mem_slot_def MemHash_def length_hash_def)
  have "fits (build_slot length_hash ?g 0) [1, 2] (replicate 4 False)" by (simp add: fits_def s)
  then have "mph_seeds length_hash ?g" unfolding mph_seeds_def b by (auto simp: demo_table p2)
  then show ?thesis by (simp add: mph_seeds_for_def table_of_law)
qed

theorem mph_index_equals_linear_witness:
  "\<exists>g vs ws. mi_build id length_hash demo_matchers = Some (Inr g) \<and> mi_MatchAny length_hash g [98, 46, 97]
    \<and> mi_Match length_hash g [98, 46, 97] = Some vs \<and> lin_Match (lin_build demo_matchers) [98, 46, 97] = Some ws \<and> set vs = set ws"
proof -
  have ok: "mi_ok id length_hash demo_matchers" "length (of_type Substr demo_matchers) \<le> 65536"
    using demo_seeds by (simp_all add: mi_ok_def demo_matchers_def canonical_def dot_def of_type_def indexed_def ac_cost_def)
  have "list_all canonical [98, 46, 97]" by (simp add: canonical_def dot_def)
  from mph_index_equals_linear [OF ok this] show ?thesis by (auto simp: demo_matchers_def HasSuffix_def dot_def)
qed

text \<open>
  C24: The construction of the perfect hash table returns exactly when, bucket after bucket, one of the \<open>2 ^ 32\<close> seeds
  places the rules of the bucket in free and different slots; when it returns it does not panic, and the table finds every rule.
\<close>

theorem mph_build_returns:
  assumes "length ms < 2 ^ 29"
  shows "(mph_build unicode strhash ms = None \<longleftrightarrow> \<not> mph_seeds_for unicode strhash ms)
    \<and> (mph_seeds_for unicode strhash ms \<longrightarrow> (\<exists>g. mph_build unicode strhash ms = Some (Inr g) \<and>
         (\<forall>s. mph_Lookup strhash g (RollingHash 0 s) s \<noteq> 0 \<longleftrightarrow> (\<exists>m v. (m, v) \<in> set ms \<and> s \<in> set (mph_words unicode m)))))"
proof (cases "mph_seeds_for unicode strhash ms")
  case True
  then obtain g where g: "mph_build unicode strhash ms = Some (Inr g)" "mph_ready strhash (mph_acc unicode ms) g"
    using mph_build_law(2) [OF assms] by blast
  then show ?thesis using True mph_Lookup_law(1) [OF g(2)] mph_has_rule [of unicode ms] by auto
qed (simp add: mph_build_law(1) [OF assms])

theorem mph_build_returns_witness:
  "\<exists>g. mph_build id length_hash (table_part demo_matchers) = Some (Inr g)"
proof -
  have "length (table_part demo_matchers) < 2 ^ 29" by (simp add: table_part_def demo_matchers_def indexed_def)
  from mph_build_returns [OF this, of id length_hash] demo_seeds show ?thesis by auto
qed

end
