(* ===== verification/RouterCond.thy ===== *)
theory RouterCond
  imports MphIndex Net
begin

text \<open>
  The conditions of the router: \<^verbatim>\<open>features/routing/session/context.go\<close> and \<^verbatim>\<open>features/routing/dns/context.go\<close> (what a rule can
  ask about a connection, with and without resolving its domain), \<^verbatim>\<open>app/router/condition.go\<close>, \<^verbatim>\<open>condition_geoip.go\<close> and
  \<^verbatim>\<open>BuildCondition\<close> of \<^verbatim>\<open>config.go\<close>.

  The DNS client is \<open>LookupIP\<close>, a function of a state \<open>'d\<close> of its own, so that its answers may change from call to
  call. The IP sets of \<^verbatim>\<open>go4.org/netipx\<close> are the fields \<open>re_IPSet\<close>, \<open>re_Contains\<close> and \<open>re_FromStdIP\<close> of the environment; the
  regular expressions, Punycode, the runtime's hash and Unicode case mapping are its other fields.
\<close>

type_synonym IP = "byte list"

record 's router_env =
  re_unicode :: "gostring \<Rightarrow> gostring"
  re_strhash :: "gostring \<Rightarrow> u64 \<Rightarrow> u64"
  re_Compile :: "gostring \<Rightarrow> (gostring \<Rightarrow> bool) result"
  re_ToASCII :: "gostring \<Rightarrow> gostring result"
  re_FromStdIP :: "IP \<Rightarrow> IP option"
  re_IPSet :: "(IP \<times> nat) list \<Rightarrow> 's result"
  re_Contains :: "'s \<Rightarrow> IP \<Rightarrow> bool"

section \<open>Routing contexts\<close>

record Inbound =
  in_Source :: Destination
  in_Tag :: gostring
  in_User :: "gostring option"
  in_UID :: "u32 option"
  in_SSID :: gostring
  in_NetworkType :: gostring

record Outbound =
  out_Target :: Destination
  out_RouteTarget :: Destination

record Content =
  ct_Protocol :: gostring
  ct_SkipDNSResolve :: bool

record Context =
  cx_Inbound :: "Inbound option"
  cx_Outbound :: "Outbound option"
  cx_Content :: "Content option"

text \<open>The getters of \<^verbatim>\<open>session.Context\<close>. \<^verbatim>\<open>Family()\<close> of a nil address panics.\<close>

definition GetInboundTag :: "Context \<Rightarrow> gostring" where
  "GetInboundTag ctx = (case cx_Inbound ctx of None \<Rightarrow> [] | Some i \<Rightarrow> in_Tag i)"

definition ips_of :: "Address option \<Rightarrow> IP list result" where
  "ips_of a =
     (case a of
        None \<Rightarrow> Inl Panic
      | Some a \<Rightarrow> if IsDomain (Family a) then Inr [] else map_sum id (\<lambda>ip. [ip]) (Address_IP a))"

definition GetSourceIPs :: "Context \<Rightarrow> IP list result" where
  "GetSourceIPs ctx =
     (case cx_Inbound ctx of
        None \<Rightarrow> Inr []
      | Some i \<Rightarrow> if \<not> Destination_IsValid (in_Source i) then Inr [] else ips_of (dest_Address (in_Source i)))"

definition GetSourcePort :: "Context \<Rightarrow> Port" where
  "GetSourcePort ctx =
     (case cx_Inbound ctx of
        None \<Rightarrow> 0
      | Some i \<Rightarrow> if \<not> Destination_IsValid (in_Source i) then 0 else dest_Port (in_Source i))"

definition session_GetTargetIPs :: "Context \<Rightarrow> IP list result" where
  "session_GetTargetIPs ctx =
     (case cx_Outbound ctx of
        None \<Rightarrow> Inr []
      | Some out \<Rightarrow>
          if \<not> Destination_IsValid (out_Target out) then Inr []
          else (case dest_Address (out_Target out) of
                  None \<Rightarrow> Inl Panic
                | Some a \<Rightarrow> if IsIP (Family a) then map_sum id (\<lambda>ip. [ip]) (Address_IP a) else Inr []))"

definition GetTargetPort :: "Context \<Rightarrow> Port" where
  "GetTargetPort ctx =
     (case cx_Outbound ctx of
        None \<Rightarrow> 0
      | Some out \<Rightarrow> if \<not> Destination_IsValid (out_Target out) then 0 else dest_Port (out_Target out))"

definition GetTargetDomain :: "Context \<Rightarrow> gostring result" where
  "GetTargetDomain ctx =
     (case cx_Outbound ctx of
        None \<Rightarrow> Inr []
      | Some out \<Rightarrow>
          if \<not> Destination_IsValid (out_Target out) then Inr []
          else
            let route = out_RouteTarget out;
                dest = out_Target out;
                target = (case dest_Address dest of
                            None \<Rightarrow> Inl Panic
                          | Some a \<Rightarrow> if \<not> IsDomain (Family a) then Inr [] else Address_Domain a)
            in if Destination_IsValid route then
                 (case dest_Address route of
                    None \<Rightarrow> Inl Panic
                  | Some a \<Rightarrow> if IsDomain (Family a) then Address_Domain a else target)
               else target)"

definition GetNetwork :: "Context \<Rightarrow> Network" where
  "GetNetwork ctx = (case cx_Outbound ctx of None \<Rightarrow> Network_Unknown | Some out \<Rightarrow> dest_Network (out_Target out))"

definition GetProtocol :: "Context \<Rightarrow> gostring" where
  "GetProtocol ctx = (case cx_Content ctx of None \<Rightarrow> [] | Some c \<Rightarrow> ct_Protocol c)"

definition GetUser :: "Context \<Rightarrow> gostring" where
  "GetUser ctx =
     (case cx_Inbound ctx of
        None \<Rightarrow> []
      | Some i \<Rightarrow> (case in_User i of None \<Rightarrow> [] | Some email \<Rightarrow> email))"

definition GetSkipDNSResolve :: "Context \<Rightarrow> bool" where
  "GetSkipDNSResolve ctx = (case cx_Content ctx of None \<Rightarrow> False | Some c \<Rightarrow> ct_SkipDNSResolve c)"

definition GetUid :: "Context \<Rightarrow> u32 option" where
  "GetUid ctx = (case cx_Inbound ctx of None \<Rightarrow> None | Some i \<Rightarrow> in_UID i)"

definition GetSsid :: "Context \<Rightarrow> gostring" where
  "GetSsid ctx = (case cx_Inbound ctx of None \<Rightarrow> [] | Some i \<Rightarrow> in_SSID i)"

definition GetNetworkType :: "Context \<Rightarrow> gostring" where
  "GetNetworkType ctx = (case cx_Inbound ctx of None \<Rightarrow> [] | Some i \<Rightarrow> in_NetworkType i)"

text \<open>
  A \<^verbatim>\<open>ResolvableContext\<close> wraps a context and keeps the addresses it has resolved; all other getters are
  those of the wrapped context.
\<close>

datatype routing_Context = SessionContext Context | ResolvableContext routing_Context "IP list"

fun session_of :: "routing_Context \<Rightarrow> Context" where
  "session_of (SessionContext c) = c"
| "session_of (ResolvableContext c ips) = session_of c"

definition ContextWithDNSClient :: "routing_Context \<Rightarrow> routing_Context" where
  "ContextWithDNSClient ctx = ResolvableContext ctx []"

type_synonym 'd dns_client = "'d \<Rightarrow> gostring \<Rightarrow> IP list result \<times> 'd"

fun GetTargetIPs :: "'d dns_client \<Rightarrow> routing_Context \<Rightarrow> 'd \<Rightarrow> (IP list \<times> routing_Context \<times> 'd) result" where
  "GetTargetIPs LookupIP (SessionContext c) d = map_sum id (\<lambda>ips. (ips, SessionContext c, d)) (session_GetTargetIPs c)"
| "GetTargetIPs LookupIP (ResolvableContext ctx resolvedIPs) d =
     (if length resolvedIPs > 0 then Inr (resolvedIPs, ResolvableContext ctx resolvedIPs, d)
      else
        bind_res (GetTargetDomain (session_of ctx)) (\<lambda>domain.
          let (found, d) = (if length domain \<noteq> 0 then
                              (case LookupIP d domain of (Inr ips, d) \<Rightarrow> (Some ips, d) | (Inl e, d) \<Rightarrow> (None, d))
                            else (None, d))
          in case found of
               Some ips \<Rightarrow> Inr (ips, ResolvableContext ctx ips, d)
             | None \<Rightarrow> map_sum id (\<lambda>(ips, ctx, d). (ips, ResolvableContext ctx resolvedIPs, d)) (GetTargetIPs LookupIP ctx d)))"

text \<open>The type assertion to \<^verbatim>\<open>ContextWithSkipDomain\<close> and the call behind it.\<close>

fun GetTargetIPsSkipDomain :: "'d dns_client \<Rightarrow> routing_Context \<Rightarrow> 'd \<Rightarrow> (IP list \<times> routing_Context \<times> 'd) result" where
  "GetTargetIPsSkipDomain LookupIP (SessionContext c) d = GetTargetIPs LookupIP (SessionContext c) d"
| "GetTargetIPsSkipDomain LookupIP (ResolvableContext ctx resolvedIPs) d =
     map_sum id (\<lambda>(ips, ctx, d). (ips, ResolvableContext ctx resolvedIPs, d)) (GetTargetIPs LookupIP ctx d)"

section \<open>GeoIP matchers\<close>

record CIDR =
  cidr_Ip :: IP
  cidr_Prefix :: u32

record GeoIP =
  geo_CountryCode :: gostring
  geo_Cidr :: "CIDR list"
  geo_InverseMatch :: bool

record 's GeoIPMatcher =
  gm_countryCode :: gostring
  gm_reverseMatch :: bool
  gm_ip4 :: 's
  gm_ip6 :: 's

text \<open>\<^verbatim>\<open>netip.AddrFromSlice\<close> followed by \<^verbatim>\<open>Unmap\<close>.\<close>

definition addr_unmap :: "IP \<Rightarrow> IP option" where
  "addr_unmap ip =
     (if length ip = 4 then Some ip
      else if length ip = 16 then Some (if v4mapped ip then drop 12 ip else ip)
      else None)"

fun Init_prefixes :: "CIDR list \<Rightarrow> (IP \<times> nat) list \<Rightarrow> (IP \<times> nat) list \<Rightarrow> ((IP \<times> nat) list \<times> (IP \<times> nat) list) result" where
  "Init_prefixes [] builder4 builder6 = Inr (builder4, builder6)"
| "Init_prefixes (cidr # cidrs) builder4 builder6 =
     (case addr_unmap (cidr_Ip cidr) of
        None \<Rightarrow> Inl (NewError ''invalid IP address '')
      | Some ip \<Rightarrow>
          if length ip = 4 then Init_prefixes cidrs (builder4 @ [(ip, unat (cidr_Prefix cidr))]) builder6
          else Init_prefixes cidrs builder4 (builder6 @ [(ip, unat (cidr_Prefix cidr))]))"

definition GeoIPMatcher_Init :: "('s, 'z) router_env_scheme \<Rightarrow> gostring \<Rightarrow> bool \<Rightarrow> CIDR list \<Rightarrow> 's GeoIPMatcher result" where
  "GeoIPMatcher_Init env countryCode reverseMatch cidrs =
     bind_res (Init_prefixes cidrs [] []) (\<lambda>(builder4, builder6).
     bind_res (re_IPSet env builder4) (\<lambda>ip4.
     bind_res (re_IPSet env builder6) (\<lambda>ip6.
       Inr \<lparr>gm_countryCode = countryCode, gm_reverseMatch = reverseMatch, gm_ip4 = ip4, gm_ip6 = ip6\<rparr>)))"

definition match4 :: "('s, 'z) router_env_scheme \<Rightarrow> 's GeoIPMatcher \<Rightarrow> IP \<Rightarrow> bool" where
  "match4 env m ip = (case re_FromStdIP env ip of None \<Rightarrow> False | Some nip \<Rightarrow> re_Contains env (gm_ip4 m) nip)"

definition match6 :: "('s, 'z) router_env_scheme \<Rightarrow> 's GeoIPMatcher \<Rightarrow> IP \<Rightarrow> bool" where
  "match6 env m ip = (case re_FromStdIP env ip of None \<Rightarrow> False | Some nip \<Rightarrow> re_Contains env (gm_ip6 m) nip)"

definition GeoIPMatcher_Match :: "('s, 'z) router_env_scheme \<Rightarrow> 's GeoIPMatcher \<Rightarrow> IP \<Rightarrow> bool" where
  "GeoIPMatcher_Match env m ip =
     (let isMatched = (if length ip = 4 then match4 env m ip else if length ip = 16 then match6 env m ip else False)
      in if gm_reverseMatch m then \<not> isMatched else isMatched)"

text \<open>\<^verbatim>\<open>GeoIPMatcherContainer.Add\<close>; the container is the list of its matchers.\<close>

definition container_Add :: "('s, 'z) router_env_scheme \<Rightarrow> 's GeoIPMatcher list \<Rightarrow> GeoIP \<Rightarrow> ('s GeoIPMatcher \<times> 's GeoIPMatcher list) result" where
  "container_Add env matchers geoip =
     (case (if geo_CountryCode geoip \<noteq> []
            then find (\<lambda>m. gm_countryCode m = geo_CountryCode geoip \<and> gm_reverseMatch m = geo_InverseMatch geoip) matchers
            else None) of
        Some m \<Rightarrow> Inr (m, matchers)
      | None \<Rightarrow>
          bind_res (GeoIPMatcher_Init env (geo_CountryCode geoip) (geo_InverseMatch geoip) (geo_Cidr geoip)) (\<lambda>m.
            Inr (m, if geo_CountryCode geoip \<noteq> [] then matchers @ [m] else matchers)))"

section \<open>Conditions\<close>

datatype IndexMatcher = UseMph MphIndexMatcher | UseLinear LinearIndexMatcher

datatype 's Condition =
    DomainCondition IndexMatcher
  | MultiGeoIPMatcher (mg_matchers: "'s GeoIPMatcher list") (mg_onSource: bool) (mg_skipDomain: bool)
  | PortMatcher "MemoryPortRange list" bool
  | NetworkMatcher "bool list"
  | UserMatcher "gostring list"
  | InboundTagMatcher "gostring list"
  | ProtocolMatcher "gostring list"
  | UidMatcher "u32 \<Rightarrow> bool"
  | WifiSSIDMatcher "gostring \<Rightarrow> bool"
  | NetworkTypeMatcher "gostring \<Rightarrow> bool"

type_synonym 's ConditionChan = "'s Condition list"

datatype Domain_Type = Domain_Plain | Domain_Regex | Domain_RootDomain | Domain_Full | Domain_Unrecognized

record router_Domain =
  dm_Type :: Domain_Type
  dm_Value :: gostring

fun matcherTypeMap :: "Domain_Type \<Rightarrow> Type option" where
  "matcherTypeMap Domain_Plain = Some Substr"
| "matcherTypeMap Domain_Regex = Some Regex"
| "matcherTypeMap Domain_RootDomain = Some Domain"
| "matcherTypeMap Domain_Full = Some Full"
| "matcherTypeMap Domain_Unrecognized = None"

definition domainToMatcher :: "('s, 'z) router_env_scheme \<Rightarrow> router_Domain \<Rightarrow> Matcher result option" where
  "domainToMatcher env domain =
     (case matcherTypeMap (dm_Type domain) of
        None \<Rightarrow> Some (Inl (NewError ''unsupported domain type''))
      | Some t \<Rightarrow> map_option (with_base ''failed to create str matcher'') (Type_New (re_Compile env) (re_ToASCII env) t (dm_Value domain)))"

text \<open>The matchers of a list of domains; a domain that has none is logged and skipped.\<close>

fun domain_matchers :: "('s, 'z) router_env_scheme \<Rightarrow> router_Domain list \<Rightarrow> Matcher list option" where
  "domain_matchers env [] = Some []"
| "domain_matchers env (domain # domains) =
     (case domainToMatcher env domain of
        None \<Rightarrow> None
      | Some (Inl err) \<Rightarrow> domain_matchers env domains
      | Some (Inr m) \<Rightarrow> map_option ((#) m) (domain_matchers env domains))"

definition NewDomainMatcher :: "('s, 'z) router_env_scheme \<Rightarrow> gostring \<Rightarrow> router_Domain list \<Rightarrow> IndexMatcher result option" where
  "NewDomainMatcher env matcherType domains =
     (case domain_matchers env domains of
        None \<Rightarrow> None
      | Some ms \<Rightarrow>
          if matcherType = bytes_of ''mph'' \<or> matcherType = bytes_of ''hybrid'' then map_option (map_sum id UseMph) (mi_build (re_unicode env) (re_strhash env) ms)
          else if matcherType = bytes_of ''linear'' then
            (let g = lin_build ms in case lin_Build g of None \<Rightarrow> Some (Inr (UseLinear g)) | Some err \<Rightarrow> Some (Inl err))
          else map_option (map_sum id UseMph) (mi_build (re_unicode env) (re_strhash env) ms))"

definition DomainMatcher_Match :: "('s, 'z) router_env_scheme \<Rightarrow> IndexMatcher \<Rightarrow> gostring \<Rightarrow> bool" where
  "DomainMatcher_Match env m domain =
     (case m of UseMph g \<Rightarrow> mi_MatchAny (re_strhash env) g domain | UseLinear g \<Rightarrow> lin_MatchAny g domain)"

fun NewMultiGeoIPMatcher_loop :: "('s, 'z) router_env_scheme \<Rightarrow> 's GeoIPMatcher list \<Rightarrow> GeoIP list \<Rightarrow> 's GeoIPMatcher list
    \<Rightarrow> ('s GeoIPMatcher list \<times> 's GeoIPMatcher list) result" where
  "NewMultiGeoIPMatcher_loop env container [] matchers = Inr (matchers, container)"
| "NewMultiGeoIPMatcher_loop env container (geoip # geoips) matchers =
     bind_res (container_Add env container geoip) (\<lambda>(matcher, container).
       NewMultiGeoIPMatcher_loop env container geoips (matchers @ [matcher]))"

definition NewMultiGeoIPMatcher :: "('s, 'z) router_env_scheme \<Rightarrow> 's GeoIPMatcher list \<Rightarrow> GeoIP list \<Rightarrow> bool
    \<Rightarrow> ('s Condition \<times> 's GeoIPMatcher list) result" where
  "NewMultiGeoIPMatcher env container geoips onSource =
     bind_res (NewMultiGeoIPMatcher_loop env container geoips []) (\<lambda>(matchers, container).
       Inr (MultiGeoIPMatcher matchers onSource False, container))"

definition NewPortMatcher :: "PortRange list \<Rightarrow> bool \<Rightarrow> 's Condition" where
  "NewPortMatcher list onSource = PortMatcher (PortListFromProto list) onSource"

fun Network_number :: "Network \<Rightarrow> nat" where
  "Network_number Network_Unknown = 0"
| "Network_number Network_TCP = 2"
| "Network_number Network_UDP = 3"
| "Network_number Network_UNIX = 4"

definition NewNetworkMatcher :: "Network list \<Rightarrow> 's Condition" where
  "NewNetworkMatcher network = NetworkMatcher (foldl (\<lambda>list n. list[Network_number n := True]) (replicate 8 False) network)"

definition nonempty_strings :: "gostring list \<Rightarrow> gostring list" where
  "nonempty_strings ss = foldl (\<lambda>copy s. if length s > 0 then copy @ [s] else copy) [] ss"

definition NewUserMatcher :: "gostring list \<Rightarrow> 's Condition" where
  "NewUserMatcher users = UserMatcher (nonempty_strings users)"

definition NewInboundTagMatcher :: "gostring list \<Rightarrow> 's Condition" where
  "NewInboundTagMatcher tags = InboundTagMatcher (nonempty_strings tags)"

definition NewProtocolMatcher :: "gostring list \<Rightarrow> 's Condition" where
  "NewProtocolMatcher protocols = ProtocolMatcher (nonempty_strings protocols)"

definition NewUidMatcher :: "u32 list \<Rightarrow> 's Condition" where
  "NewUidMatcher uidList = UidMatcher (foldl (\<lambda>m uid. m(uid := True)) (\<lambda>uid. False) uidList)"

definition NewWifiSSIDMatcher :: "gostring list \<Rightarrow> 's Condition" where
  "NewWifiSSIDMatcher ssidList = WifiSSIDMatcher (foldl (\<lambda>m ssid. m(ssid := True)) (\<lambda>ssid. False) ssidList)"

definition NewNetworkTypeMatcher :: "gostring list \<Rightarrow> 's Condition" where
  "NewNetworkTypeMatcher networkTypeList = NetworkTypeMatcher (foldl (\<lambda>m t. m(t := True)) (\<lambda>t. False) networkTypeList)"

fun string_in :: "gostring list \<Rightarrow> gostring \<Rightarrow> bool" where
  "string_in [] s = False"
| "string_in (t # ts) s = (if t = s then True else string_in ts s)"

fun has_prefix_in :: "gostring list \<Rightarrow> gostring \<Rightarrow> bool" where
  "has_prefix_in [] s = False"
| "has_prefix_in (p # ps) s = (if HasPrefix s p then True else has_prefix_in ps s)"

fun geoip_any :: "('s, 'z) router_env_scheme \<Rightarrow> 's GeoIPMatcher list \<Rightarrow> IP list \<Rightarrow> bool" where
  "geoip_any env matchers [] = False"
| "geoip_any env matchers (ip # ips) = (if list_ex (\<lambda>m. GeoIPMatcher_Match env m ip) matchers then True else geoip_any env matchers ips)"

text \<open>\<^verbatim>\<open>Apply\<close> of the conditions. The context and the DNS client carry state.\<close>

fun Condition_Apply :: "('s, 'z) router_env_scheme \<Rightarrow> 'd dns_client \<Rightarrow> 's Condition \<Rightarrow> routing_Context \<Rightarrow> 'd \<Rightarrow> (bool \<times> routing_Context \<times> 'd) result" where
  "Condition_Apply env LookupIP (DomainCondition m) ctx d =
     bind_res (GetTargetDomain (session_of ctx)) (\<lambda>domain.
       if length domain = 0 then Inr (False, ctx, d)
       else Inr (DomainMatcher_Match env m (ToLower (re_unicode env) domain), ctx, d))"
| "Condition_Apply env LookupIP (MultiGeoIPMatcher matchers onSource skipDomain) ctx d =
     bind_res (if onSource then map_sum id (\<lambda>ips. (ips, ctx, d)) (GetSourceIPs (session_of ctx))
               else if skipDomain then GetTargetIPsSkipDomain LookupIP ctx d
               else GetTargetIPs LookupIP ctx d) (\<lambda>(ips, ctx, d).
       Inr (geoip_any env matchers ips, ctx, d))"
| "Condition_Apply env LookupIP (PortMatcher port onSource) ctx d =
     Inr (MemoryPortList_Contains port (if onSource then GetSourcePort (session_of ctx) else GetTargetPort (session_of ctx)), ctx, d)"
| "Condition_Apply env LookupIP (NetworkMatcher list) ctx d =
     (let n = Network_number (GetNetwork (session_of ctx)) in if n < length list then Inr (list ! n, ctx, d) else Inl Panic)"
| "Condition_Apply env LookupIP (UserMatcher users) ctx d =
     (let user = GetUser (session_of ctx) in Inr (if length user = 0 then False else string_in users user, ctx, d))"
| "Condition_Apply env LookupIP (InboundTagMatcher tags) ctx d =
     (let tag = GetInboundTag (session_of ctx) in Inr (if length tag = 0 then False else string_in tags tag, ctx, d))"
| "Condition_Apply env LookupIP (ProtocolMatcher protocols) ctx d =
     (let protocol = GetProtocol (session_of ctx) in Inr (if length protocol = 0 then False else has_prefix_in protocols protocol, ctx, d))"
| "Condition_Apply env LookupIP (UidMatcher uidList) ctx d =
     Inr (case GetUid (session_of ctx) of None \<Rightarrow> False | Some uid \<Rightarrow> uidList uid, ctx, d)"
| "Condition_Apply env LookupIP (WifiSSIDMatcher ssidList) ctx d = Inr (ssidList (GetSsid (session_of ctx)), ctx, d)"
| "Condition_Apply env LookupIP (NetworkTypeMatcher networkTypeList) ctx d = Inr (networkTypeList (GetNetworkType (session_of ctx)), ctx, d)"

fun ConditionChan_Apply :: "('s, 'z) router_env_scheme \<Rightarrow> 'd dns_client \<Rightarrow> 's ConditionChan \<Rightarrow> routing_Context \<Rightarrow> 'd \<Rightarrow> (bool \<times> routing_Context \<times> 'd) result" where
  "ConditionChan_Apply env LookupIP [] ctx d = Inr (True, ctx, d)"
| "ConditionChan_Apply env LookupIP (cond # conds) ctx d =
     bind_res (Condition_Apply env LookupIP cond ctx d) (\<lambda>(ok, ctx, d).
       if \<not> ok then Inr (False, ctx, d) else ConditionChan_Apply env LookupIP conds ctx d)"

datatype TargetTag = NoTarget | RoutingRule_Tag gostring | RoutingRule_BalancingTag gostring

record SetAttribute =
  sa_Key :: gostring
  sa_Value :: gostring

record RoutingRule =
  rr_TargetTag :: TargetTag
  rr_SetAttribute :: "SetAttribute option list"
  rr_Attributes :: gostring
  rr_Domain :: "router_Domain list"
  rr_GeoDomain :: "router_Domain list list"
  rr_DomainMatcher :: gostring
  rr_UserEmail :: "gostring list"
  rr_InboundTag :: "gostring list"
  rr_PortList :: "PortRange list option"
  rr_SourcePortList :: "PortRange list option"
  rr_Networks :: "Network list"
  rr_Geoip :: "GeoIP list"
  rr_SkipDomain :: bool
  rr_SourceGeoip :: "GeoIP list"
  rr_Protocol :: "gostring list"
  rr_Uid :: "u32 list"
  rr_Ssid :: "gostring list"
  rr_NetworkType :: "gostring list"

definition bind_ro :: "'a result option \<Rightarrow> ('a \<Rightarrow> 'b result option) \<Rightarrow> 'b result option" where
  "bind_ro r f = (case r of None \<Rightarrow> None | Some (Inl e) \<Rightarrow> Some (Inl e) | Some (Inr x) \<Rightarrow> f x)"

definition domain_part :: "('s, 'z) router_env_scheme \<Rightarrow> string \<Rightarrow> gostring \<Rightarrow> router_Domain list \<Rightarrow> 's ConditionChan result option" where
  "domain_part env msg matcherType domains =
     (if length domains > 0
      then map_option (\<lambda>r. bind_res (with_base msg r) (\<lambda>m. Inr [DomainCondition m])) (NewDomainMatcher env matcherType domains)
      else Some (Inr []))"

definition BuildCondition :: "('s, 'z) router_env_scheme \<Rightarrow> 's GeoIPMatcher list \<Rightarrow> RoutingRule \<Rightarrow> ('s ConditionChan \<times> 's GeoIPMatcher list) result option" where
  "BuildCondition env container rr =
     bind_ro (domain_part env ''failed to build domain condition'' (rr_DomainMatcher rr) (rr_Domain rr)) (\<lambda>conds1.
     let geoDomains = foldl (@) [] (rr_GeoDomain rr) in
     bind_ro (domain_part env ''failed to build geo domain condition'' (rr_DomainMatcher rr) geoDomains) (\<lambda>conds2.
     let conds = conds1 @ conds2;
         conds = conds @ (if length (rr_UserEmail rr) > 0 then [NewUserMatcher (rr_UserEmail rr)] else []);
         conds = conds @ (if length (rr_InboundTag rr) > 0 then [NewInboundTagMatcher (rr_InboundTag rr)] else []);
         conds = conds @ (case rr_PortList rr of None \<Rightarrow> [] | Some l \<Rightarrow> [NewPortMatcher l False]);
         conds = conds @ (case rr_SourcePortList rr of None \<Rightarrow> [] | Some l \<Rightarrow> [NewPortMatcher l True]);
         conds = conds @ (if length (rr_Networks rr) > 0 then [NewNetworkMatcher (rr_Networks rr)] else [])
     in Some
       (bind_res (if length (rr_Geoip rr) > 0
                  then bind_res (NewMultiGeoIPMatcher env container (rr_Geoip rr) False) (\<lambda>(cond, container).
                         Inr (conds @ [MultiGeoIPMatcher (mg_matchers cond) (mg_onSource cond) (rr_SkipDomain rr)], container))
                  else Inr (conds, container)) (\<lambda>(conds, container).
        bind_res (if length (rr_SourceGeoip rr) > 0
                  then bind_res (NewMultiGeoIPMatcher env container (rr_SourceGeoip rr) True) (\<lambda>(cond, container).
                         Inr (conds @ [cond], container))
                  else Inr (conds, container)) (\<lambda>(conds, container).
        let conds = conds @ (if length (rr_Protocol rr) > 0 then [NewProtocolMatcher (rr_Protocol rr)] else []);
            conds = conds @ (if length (rr_Uid rr) > 0 then [NewUidMatcher (rr_Uid rr)] else []);
            conds = conds @ (if length (rr_Ssid rr) > 0 then [NewWifiSSIDMatcher (rr_Ssid rr)] else []);
            conds = conds @ (if length (rr_NetworkType rr) > 0 then [NewNetworkTypeMatcher (rr_NetworkType rr)] else [])
        in if length conds = 0 then Inl (NewError ''this rule has no effective fields'') else Inr (conds, container))))))"

section \<open>What the conditions mean\<close>

text \<open>A context as the dispatcher builds it: a destination that is valid has an address.\<close>

definition dest_ok :: "Destination \<Rightarrow> bool" where
  "dest_ok d \<longleftrightarrow> (Destination_IsValid d \<longrightarrow> dest_Address d \<noteq> None)"

definition ctx_ok :: "Context \<Rightarrow> bool" where
  "ctx_ok c \<longleftrightarrow> (\<forall>i. cx_Inbound c = Some i \<longrightarrow> dest_ok (in_Source i))
     \<and> (\<forall>out. cx_Outbound c = Some out \<longrightarrow> dest_ok (out_Target out) \<and> dest_ok (out_RouteTarget out))"

definition source_ips :: "Context \<Rightarrow> IP list" where "source_ips c = projr (GetSourceIPs c)"
definition base_ips :: "Context \<Rightarrow> IP list" where "base_ips c = projr (session_GetTargetIPs c)"
definition target_domain :: "Context \<Rightarrow> gostring" where "target_domain c = projr (GetTargetDomain c)"

lemma getters:
  assumes "ctx_ok c"
  shows "GetSourceIPs c = Inr (source_ips c)" "session_GetTargetIPs c = Inr (base_ips c)" "GetTargetDomain c = Inr (target_domain c)"
proof -
  have fam: "\<exists>ips. ips_of (Some a) = Inr ips" "IsIP (Family a) \<Longrightarrow> \<exists>ip. Address_IP a = Inr ip" "IsDomain (Family a) \<Longrightarrow> \<exists>d. Address_Domain a = Inr d" for a
    by (cases a; simp add: ips_of_def IsIP_def IsDomain_def family_defs)+
  have "\<exists>ips. GetSourceIPs c = Inr ips"
    using assms fam(1) by (cases "cx_Inbound c") (auto simp: GetSourceIPs_def ctx_ok_def dest_ok_def)
  then show "GetSourceIPs c = Inr (source_ips c)" by (auto simp: source_ips_def)
  have "\<exists>ips. session_GetTargetIPs c = Inr ips"
    using assms by (cases "cx_Outbound c") (auto simp: session_GetTargetIPs_def ctx_ok_def dest_ok_def split: option.splits dest!: fam(2))
  then show "session_GetTargetIPs c = Inr (base_ips c)" by (auto simp: base_ips_def)
  have "\<exists>d. GetTargetDomain c = Inr d"
    using assms fam(3) by (cases "cx_Outbound c") (auto simp: GetTargetDomain_def ctx_ok_def dest_ok_def Let_def split: option.splits)
  then show "GetTargetDomain c = Inr (target_domain c)" by (auto simp: target_domain_def)
qed

text \<open>The addresses that a resolving context reports when the DNS server answers \<open>answer\<close>.\<close>

definition resolved_ips :: "(gostring \<Rightarrow> IP list result) \<Rightarrow> Context \<Rightarrow> IP list" where
  "resolved_ips answer c =
     (if target_domain c = [] then base_ips c
      else case answer (target_domain c) of Inr ips \<Rightarrow> ips | Inl e \<Rightarrow> base_ips c)"

fun cond_holds :: "('s, 'z) router_env_scheme \<Rightarrow> Context \<Rightarrow> IP list \<Rightarrow> 's Condition \<Rightarrow> bool" where
  "cond_holds env c ips (DomainCondition m) \<longleftrightarrow>
     target_domain c \<noteq> [] \<and> DomainMatcher_Match env m (ToLower (re_unicode env) (target_domain c))"
| "cond_holds env c ips (MultiGeoIPMatcher matchers onSource skipDomain) \<longleftrightarrow>
     (\<exists>ip \<in> set (if onSource then source_ips c else if skipDomain then base_ips c else ips). \<exists>m \<in> set matchers. GeoIPMatcher_Match env m ip)"
| "cond_holds env c ips (PortMatcher port onSource) \<longleftrightarrow>
     (\<exists>r \<in> set port. MemoryPortRange_Contains r (if onSource then GetSourcePort c else GetTargetPort c))"
| "cond_holds env c ips (NetworkMatcher list) \<longleftrightarrow> list ! Network_number (GetNetwork c)"
| "cond_holds env c ips (UserMatcher users) \<longleftrightarrow> GetUser c \<noteq> [] \<and> GetUser c \<in> set users"
| "cond_holds env c ips (InboundTagMatcher tags) \<longleftrightarrow> GetInboundTag c \<noteq> [] \<and> GetInboundTag c \<in> set tags"
| "cond_holds env c ips (ProtocolMatcher protocols) \<longleftrightarrow> GetProtocol c \<noteq> [] \<and> (\<exists>p \<in> set protocols. prefix p (GetProtocol c))"
| "cond_holds env c ips (UidMatcher uidList) \<longleftrightarrow> (\<exists>uid. GetUid c = Some uid \<and> uidList uid)"
| "cond_holds env c ips (WifiSSIDMatcher ssidList) \<longleftrightarrow> ssidList (GetSsid c)"
| "cond_holds env c ips (NetworkTypeMatcher networkTypeList) \<longleftrightarrow> networkTypeList (GetNetworkType c)"

fun cond_wf :: "'s Condition \<Rightarrow> bool" where
  "cond_wf (NetworkMatcher list) \<longleftrightarrow> length list = 8"
| "cond_wf cond \<longleftrightarrow> True"

text \<open>During one decision the DNS client gives the same answer to the same question.\<close>

definition stable_dns :: "'d dns_client \<Rightarrow> (gostring \<Rightarrow> IP list result) \<Rightarrow> bool" where
  "stable_dns LookupIP answer \<longleftrightarrow> (\<forall>d domain. fst (LookupIP d domain) = answer domain)"

text \<open>The contexts that occur while a route is picked, and the target addresses they report.\<close>

inductive ctx_for :: "(gostring \<Rightarrow> IP list result) \<Rightarrow> Context \<Rightarrow> routing_Context \<Rightarrow> IP list \<Rightarrow> bool" for answer c where
  plain: "ctx_for answer c (SessionContext c) (base_ips c)"
| resolving: "ctx_for answer c (ResolvableContext (SessionContext c) []) (resolved_ips answer c)"
| resolved: "ctx_for answer c (ResolvableContext (SessionContext c) (resolved_ips answer c)) (resolved_ips answer c)"

lemma session_of_ctx_for: "ctx_for answer c ctx ips \<Longrightarrow> session_of ctx = c"
  by (auto elim: ctx_for.cases)

lemma GetTargetIPs_law:
  assumes "ctx_ok c" "ctx_for answer c ctx ips" "stable_dns LookupIP answer"
  shows "\<exists>ctx' d'. GetTargetIPs LookupIP ctx d = Inr (ips, ctx', d') \<and> ctx_for answer c ctx' ips"
    "\<exists>ctx' d'. GetTargetIPsSkipDomain LookupIP ctx d = Inr (base_ips c, ctx', d') \<and> ctx_for answer c ctx' ips"
proof -
  note g = getters [OF assms(1)]
  obtain d1 where r: "LookupIP d (target_domain c) = (answer (target_domain c), d1)"
    using assms(3) that [of "snd (LookupIP d (target_domain c))"] by (metis prod.collapse stable_dns_def)
  have new: "\<exists>ctx' d'. GetTargetIPs LookupIP (ResolvableContext (SessionContext c) []) d = Inr (resolved_ips answer c, ctx', d') \<and> ctx_for answer c ctx' (resolved_ips answer c)"
  proof (cases "target_domain c = [] \<or> (\<exists>e. answer (target_domain c) = Inl e)")
    case True
    then have "resolved_ips answer c = base_ips c" by (auto simp: resolved_ips_def)
    moreover have "\<exists>d'. GetTargetIPs LookupIP (ResolvableContext (SessionContext c) []) d = Inr (base_ips c, ResolvableContext (SessionContext c) [], d')"
      using True g r by (auto simp: Let_def)
    ultimately show ?thesis using ctx_for.resolving [of answer c] by auto
  next
    case False
    then obtain ips' where a: "target_domain c \<noteq> []" "answer (target_domain c) = Inr ips'" by (cases "answer (target_domain c)") auto
    then have "resolved_ips answer c = ips'" by (simp add: resolved_ips_def)
    moreover have "GetTargetIPs LookupIP (ResolvableContext (SessionContext c) []) d = Inr (ips', ResolvableContext (SessionContext c) ips', d1)"
      using a g r by (simp add: Let_def)
    ultimately show ?thesis using ctx_for.resolved [of answer c] by auto
  qed
  from assms(2) show "\<exists>ctx' d'. GetTargetIPs LookupIP ctx d = Inr (ips, ctx', d') \<and> ctx_for answer c ctx' ips"
  proof cases
    case resolved
    then show ?thesis using new by (cases "resolved_ips answer c = []") (auto intro: ctx_for.intros)
  qed (use g new in \<open>auto intro: ctx_for.intros\<close>)
  from assms(2) show "\<exists>ctx' d'. GetTargetIPsSkipDomain LookupIP ctx d = Inr (base_ips c, ctx', d') \<and> ctx_for answer c ctx' ips"
    by cases (use g in \<open>auto intro: ctx_for.intros\<close>)
qed

lemma string_in_set: "string_in ts s \<longleftrightarrow> s \<in> set ts"
  by (induction ts) auto

lemma has_prefix_in_ex: "has_prefix_in ps s \<longleftrightarrow> (\<exists>p \<in> set ps. prefix p s)"
  by (induction ps) (auto simp: HasPrefix_prefix)

lemma geoip_any_ex: "geoip_any env ms ips \<longleftrightarrow> (\<exists>ip \<in> set ips. \<exists>m \<in> set ms. GeoIPMatcher_Match env m ip)"
  by (induction ips) (auto simp: list_ex_iff)

lemma port_contains_ex: "MemoryPortList_Contains l p \<longleftrightarrow> (\<exists>r \<in> set l. MemoryPortRange_Contains r p)"
  by (induction l) auto

lemma Network_number_less: "Network_number n < 8"
  by (cases n) auto

lemma Condition_Apply_law:
  assumes "ctx_ok c" "ctx_for answer c ctx ips" "stable_dns LookupIP answer" "cond_wf cond"
  shows "\<exists>ctx' d'. Condition_Apply env LookupIP cond ctx d = Inr (cond_holds env c ips cond, ctx', d') \<and> ctx_for answer c ctx' ips"
proof (cases cond)
  case (MultiGeoIPMatcher ms onSource skip)
  obtain ctx1 d1 where 1: "GetTargetIPs LookupIP ctx d = Inr (ips, ctx1, d1)" "ctx_for answer c ctx1 ips"
    using GetTargetIPs_law(1) [OF assms(1-3)] by blast
  obtain ctx2 d2 where 2: "GetTargetIPsSkipDomain LookupIP ctx d = Inr (base_ips c, ctx2, d2)" "ctx_for answer c ctx2 ips"
    using GetTargetIPs_law(2) [OF assms(1-3)] by blast
  show ?thesis using 1 2 getters(1) [OF assms(1)] assms(2) session_of_ctx_for [OF assms(2)] by (auto simp: MultiGeoIPMatcher geoip_any_ex)
qed (use assms(2,4) getters(3) [OF assms(1)] session_of_ctx_for [OF assms(2)] Network_number_less [of "GetNetwork c"] in
    \<open>auto simp: Let_def string_in_set has_prefix_in_ex port_contains_ex split: option.splits\<close>)

lemma ConditionChan_Apply_law:
  assumes "ctx_ok c" "ctx_for answer c ctx ips" "stable_dns LookupIP answer" "list_all cond_wf conds"
  shows "\<exists>ctx' d'. ConditionChan_Apply env LookupIP conds ctx d = Inr (list_all (cond_holds env c ips) conds, ctx', d') \<and> ctx_for answer c ctx' ips"
  using assms(2,4)
proof (induction conds arbitrary: ctx d)
  case (Cons cond conds)
  obtain ctx1 d1 where 1: "Condition_Apply env LookupIP cond ctx d = Inr (cond_holds env c ips cond, ctx1, d1)" "ctx_for answer c ctx1 ips"
    using Condition_Apply_law [OF assms(1) Cons.prems(1) assms(3)] Cons.prems(2) by fastforce
  then show ?case using Cons.IH [OF 1(2)] Cons.prems(2) by auto
qed auto

section \<open>What a rule means\<close>

text \<open>Documented of the configuration: entries with the same country code have the same content, here \<open>G code\<close>.\<close>

definition geo_matcher :: "('s, 'z) router_env_scheme \<Rightarrow> GeoIP \<Rightarrow> 's GeoIPMatcher result" where
  "geo_matcher env g = GeoIPMatcher_Init env (geo_CountryCode g) (geo_InverseMatch g) (geo_Cidr g)"

definition geo_ok :: "('s, 'z) router_env_scheme \<Rightarrow> (gostring \<Rightarrow> CIDR list) \<Rightarrow> GeoIP \<Rightarrow> bool" where
  "geo_ok env G g \<longleftrightarrow> (geo_CountryCode g \<noteq> [] \<longrightarrow> geo_Cidr g = G (geo_CountryCode g)) \<and> (\<exists>m. geo_matcher env g = Inr m)"

definition container_ok :: "('s, 'z) router_env_scheme \<Rightarrow> (gostring \<Rightarrow> CIDR list) \<Rightarrow> 's GeoIPMatcher list \<Rightarrow> bool" where
  "container_ok env G ms \<longleftrightarrow> (\<forall>m \<in> set ms. GeoIPMatcher_Init env (gm_countryCode m) (gm_reverseMatch m) (G (gm_countryCode m)) = Inr m)"

lemma Init_fields: "GeoIPMatcher_Init env code b cidrs = Inr m \<Longrightarrow> gm_countryCode m = code \<and> gm_reverseMatch m = b"
  by (auto simp: GeoIPMatcher_Init_def bind_res_Inr_iff)

text \<open>The matcher that the container returns is the one a fresh construction gives.\<close>

lemma container_Add_law:
  assumes "container_ok env G ms" "geo_ok env G g"
  shows "\<exists>m ms'. container_Add env ms g = Inr (m, ms') \<and> geo_matcher env g = Inr m \<and> container_ok env G ms'"
proof -
  obtain m where m: "geo_matcher env g = Inr m" "geo_CountryCode g \<noteq> [] \<longrightarrow> geo_Cidr g = G (geo_CountryCode g)" using assms(2) by (auto simp: geo_ok_def)
  let ?P = "\<lambda>m. gm_countryCode m = geo_CountryCode g \<and> gm_reverseMatch m = geo_InverseMatch g"
  show ?thesis
  proof (cases "geo_CountryCode g \<noteq> [] \<and> find ?P ms \<noteq> None")
    case True
    then obtain x where x: "find ?P ms = Some x" by blast
    then have "x \<in> set ms" "?P x" by (auto simp: find_Some_iff)
    with assms(1) True m have "geo_matcher env g = Inr x" by (auto simp: container_ok_def geo_matcher_def)
    with x True assms(1) show ?thesis by (auto simp: container_Add_def)
  next
    case False
    then have "container_Add env ms g = Inr (m, if geo_CountryCode g \<noteq> [] then ms @ [m] else ms)"
      using m(1) by (auto simp: container_Add_def geo_matcher_def)
    moreover have "container_ok env G (if geo_CountryCode g \<noteq> [] then ms @ [m] else ms)"
      using assms(1) m Init_fields [of env "geo_CountryCode g" "geo_InverseMatch g" "geo_Cidr g" m] by (auto simp: container_ok_def geo_matcher_def)
    ultimately show ?thesis using m(1) by blast
  qed
qed

lemma NewMultiGeoIPMatcher_loop_law:
  assumes "container_ok env G container" "list_all (geo_ok env G) geoips"
  shows "\<exists>new container'. NewMultiGeoIPMatcher_loop env container geoips acc = Inr (acc @ new, container') \<and> container_ok env G container'
    \<and> map Inr new = map (geo_matcher env) geoips"
  using assms
proof (induction geoips arbitrary: container acc)
  case (Cons g geoips)
  obtain m c1 where 1: "container_Add env container g = Inr (m, c1)" "geo_matcher env g = Inr m" "container_ok env G c1"
    using container_Add_law [OF Cons.prems(1), of g] Cons.prems(2) by auto
  obtain new c2 where 2: "NewMultiGeoIPMatcher_loop env c1 geoips (acc @ [m]) = Inr ((acc @ [m]) @ new, c2)" "container_ok env G c2"
    "map Inr new = map (geo_matcher env) geoips" using Cons.IH [OF 1(3), of "acc @ [m]"] Cons.prems(2) by auto
  show ?case by (intro exI [of _ "m # new"] exI [of _ c2]) (use 1 2 in auto)
qed auto

definition geo_holds :: "('s, 'z) router_env_scheme \<Rightarrow> IP list \<Rightarrow> GeoIP list \<Rightarrow> bool" where
  "geo_holds env ips geoips \<longleftrightarrow> (\<exists>ip \<in> set ips. \<exists>g \<in> set geoips. \<exists>m. geo_matcher env g = Inr m \<and> GeoIPMatcher_Match env m ip)"

lemma geo_holds_matchers:
  assumes "map Inr new = map (geo_matcher env) geoips"
  shows "(\<exists>ip \<in> set ips. \<exists>m \<in> set new. GeoIPMatcher_Match env m ip) \<longleftrightarrow> geo_holds env ips geoips"
proof -
  have im: "Inr ` set new = geo_matcher env ` set geoips" using arg_cong [OF assms, of set] by simp
  have "m \<in> set new \<longleftrightarrow> (\<exists>g \<in> set geoips. geo_matcher env g = Inr m)" for m
  proof -
    have "m \<in> set new \<longleftrightarrow> (Inr m :: go_error + _) \<in> Inr ` set new" by (simp add: inj_image_mem_iff)
    also have "\<dots> \<longleftrightarrow> (\<exists>g \<in> set geoips. geo_matcher env g = Inr m)" unfolding im by (simp only: image_iff eq_commute)
    finally show ?thesis .
  qed
  then show ?thesis unfolding geo_holds_def by blast
qed

text \<open>Domains: some entry of the list has a matcher that accepts the domain in lower case.\<close>

definition domain_holds :: "('s, 'z) router_env_scheme \<Rightarrow> Context \<Rightarrow> router_Domain list \<Rightarrow> bool" where
  "domain_holds env c domains \<longleftrightarrow> target_domain c \<noteq> [] \<and>
     (\<exists>d \<in> set domains. \<exists>m. domainToMatcher env d = Some (Inr m) \<and> Matcher_Match m (ToLower (re_unicode env) (target_domain c)))"

definition domains_ok :: "('s, 'z) router_env_scheme \<Rightarrow> gostring \<Rightarrow> router_Domain list \<Rightarrow> bool" where
  "domains_ok env matcherType domains \<longleftrightarrow> domains = [] \<or> (\<exists>ms. domain_matchers env domains = Some ms
     \<and> (if matcherType = bytes_of ''linear'' then lin_accepts ms else mi_ok (re_unicode env) (re_strhash env) ms))"

lemma set_domain_matchers:
  "domain_matchers env domains = Some ms \<Longrightarrow> m \<in> set ms \<longleftrightarrow> (\<exists>d \<in> set domains. domainToMatcher env d = Some (Inr m))"
  by (induction domains arbitrary: ms) (auto split: option.splits sum.splits)

lemma domain_part_law:
  assumes "domains_ok env matcherType domains" "list_all canonical (ToLower (re_unicode env) (target_domain c))"
  shows "\<exists>conds. domain_part env msg matcherType domains = Some (Inr conds) \<and> list_all cond_wf conds \<and> (conds = [] \<longleftrightarrow> domains = [])
    \<and> (list_all (cond_holds env c ips) conds \<longleftrightarrow> domains = [] \<or> domain_holds env c domains)"
proof (cases "domains = []")
  case False
  let ?s = "ToLower (re_unicode env) (target_domain c)"
  obtain ms where ms: "domain_matchers env domains = Some ms"
    "if matcherType = bytes_of ''linear'' then lin_accepts ms else mi_ok (re_unicode env) (re_strhash env) ms"
    using assms(1) False by (auto simp: domains_ok_def)
  have ml: "bytes_of ''linear'' \<noteq> bytes_of ''mph''" "bytes_of ''linear'' \<noteq> bytes_of ''hybrid''" by (simp_all add: bytes_of_def)
  have "\<exists>m. NewDomainMatcher env matcherType domains = Some (Inr m) \<and> (DomainMatcher_Match env m ?s \<longleftrightarrow> (\<exists>m \<in> set ms. Matcher_Match m ?s))"
  proof (cases "matcherType = bytes_of ''linear''")
    case True
    then have "lin_accepts ms" using ms(2) by simp
    then show ?thesis using True ml lin_MatchAny_matchers [of ms ?s] by (simp add: NewDomainMatcher_def ms(1) DomainMatcher_Match_def lin_Build_def)
  next
    case False
    then have "mi_ok (re_unicode env) (re_strhash env) ms" using ms(2) by simp
    then obtain g where "mi_build (re_unicode env) (re_strhash env) ms = Some (Inr g)" "mi_MatchAny (re_strhash env) g ?s \<longleftrightarrow> (\<exists>m \<in> set ms. Matcher_Match m ?s)"
      using mi_MatchAny_matchers [OF _ assms(2)] by blast
    with False show ?thesis by (simp add: NewDomainMatcher_def ms(1) DomainMatcher_Match_def)
  qed
  then obtain m where m: "NewDomainMatcher env matcherType domains = Some (Inr m)" "DomainMatcher_Match env m ?s \<longleftrightarrow> (\<exists>m \<in> set ms. Matcher_Match m ?s)" by blast
  have "domain_holds env c domains \<longleftrightarrow> target_domain c \<noteq> [] \<and> DomainMatcher_Match env m ?s"
    unfolding domain_holds_def m(2) using set_domain_matchers [OF ms(1)] by blast
  with m(1) False show ?thesis by (simp add: domain_part_def)
qed (simp add: domain_part_def)

text \<open>A rule holds if every field that is set holds.\<close>

definition in_ports :: "PortRange list \<Rightarrow> Port \<Rightarrow> bool" where
  "in_ports l port \<longleftrightarrow> (\<exists>r \<in> set l. PortRange_Contains r port)"

definition rule_holds :: "('s, 'z) router_env_scheme \<Rightarrow> Context \<Rightarrow> IP list \<Rightarrow> RoutingRule \<Rightarrow> bool" where
  "rule_holds env c ips rr \<longleftrightarrow>
     (rr_Domain rr = [] \<or> domain_holds env c (rr_Domain rr))
     \<and> (concat (rr_GeoDomain rr) = [] \<or> domain_holds env c (concat (rr_GeoDomain rr)))
     \<and> (rr_UserEmail rr = [] \<or> GetUser c \<noteq> [] \<and> GetUser c \<in> set (rr_UserEmail rr))
     \<and> (rr_InboundTag rr = [] \<or> GetInboundTag c \<noteq> [] \<and> GetInboundTag c \<in> set (rr_InboundTag rr))
     \<and> (\<forall>l. rr_PortList rr = Some l \<longrightarrow> in_ports l (GetTargetPort c))
     \<and> (\<forall>l. rr_SourcePortList rr = Some l \<longrightarrow> in_ports l (GetSourcePort c))
     \<and> (rr_Networks rr = [] \<or> GetNetwork c \<in> set (rr_Networks rr))
     \<and> (rr_Geoip rr = [] \<or> geo_holds env (if rr_SkipDomain rr then base_ips c else ips) (rr_Geoip rr))
     \<and> (rr_SourceGeoip rr = [] \<or> geo_holds env (source_ips c) (rr_SourceGeoip rr))
     \<and> (rr_Protocol rr = [] \<or> (\<exists>p \<in> set (rr_Protocol rr). p \<noteq> [] \<and> prefix p (GetProtocol c)))
     \<and> (rr_Uid rr = [] \<or> (\<exists>uid \<in> set (rr_Uid rr). GetUid c = Some uid))
     \<and> (rr_Ssid rr = [] \<or> GetSsid c \<in> set (rr_Ssid rr))
     \<and> (rr_NetworkType rr = [] \<or> GetNetworkType c \<in> set (rr_NetworkType rr))"

definition rule_empty :: "RoutingRule \<Rightarrow> bool" where
  "rule_empty rr \<longleftrightarrow> rr_Domain rr = [] \<and> concat (rr_GeoDomain rr) = [] \<and> rr_UserEmail rr = [] \<and> rr_InboundTag rr = []
     \<and> rr_PortList rr = None \<and> rr_SourcePortList rr = None \<and> rr_Networks rr = [] \<and> rr_Geoip rr = [] \<and> rr_SourceGeoip rr = []
     \<and> rr_Protocol rr = [] \<and> rr_Uid rr = [] \<and> rr_Ssid rr = [] \<and> rr_NetworkType rr = []"

lemma nonempty_strings_filter: "nonempty_strings ss = filter (\<lambda>s. s \<noteq> []) ss"
proof -
  have "foldl (\<lambda>copy s. if length s > 0 then copy @ [s] else copy) acc ss = acc @ filter (\<lambda>s. s \<noteq> []) ss" for acc by (induction ss arbitrary: acc) auto
  then show ?thesis by (simp add: nonempty_strings_def)
qed

lemma foldl_set_map: "foldl (\<lambda>m x. m(x := True)) m xs y \<longleftrightarrow> m y \<or> y \<in> set xs"
  by (induction xs arbitrary: m) auto

lemma foldl_networks:
  "length (foldl (\<lambda>l n. l[Network_number n := True]) l ns) = length l"
  "length l = 8 \<Longrightarrow> foldl (\<lambda>l n. l[Network_number n := True]) l ns ! Network_number n \<longleftrightarrow> l ! Network_number n \<or> n \<in> set ns"
proof (induction ns arbitrary: l)
  case (Cons x ns)
  { case 1 show ?case using Cons.IH(1) by simp }
  { case 2
    have "Network_number n = Network_number x \<longleftrightarrow> n = x" by (cases n; cases x; simp)
    then show ?case using Cons.IH(2) [of "l[Network_number x := True]"] 2 Network_number_less [of n] Network_number_less [of x] by (auto simp: nth_list_update) }
qed simp_all

text \<open>The parts of \<^verbatim>\<open>BuildCondition\<close> that cannot fail.\<close>

lemma simple_parts:
  "cond_holds env c ips (NewUserMatcher us) \<longleftrightarrow> GetUser c \<noteq> [] \<and> GetUser c \<in> set us"
  "cond_holds env c ips (NewInboundTagMatcher ts) \<longleftrightarrow> GetInboundTag c \<noteq> [] \<and> GetInboundTag c \<in> set ts"
  "cond_holds env c ips (NewPortMatcher l onSource) \<longleftrightarrow> in_ports l (if onSource then GetSourcePort c else GetTargetPort c)"
  "cond_holds env c ips (NewNetworkMatcher ns) \<longleftrightarrow> GetNetwork c \<in> set ns"
  "cond_holds env c ips (NewProtocolMatcher ps) \<longleftrightarrow> (\<exists>p \<in> set ps. p \<noteq> [] \<and> prefix p (GetProtocol c))"
  "cond_holds env c ips (NewUidMatcher uids) \<longleftrightarrow> (\<exists>uid \<in> set uids. GetUid c = Some uid)"
  "cond_holds env c ips (NewWifiSSIDMatcher ss) \<longleftrightarrow> GetSsid c \<in> set ss"
  "cond_holds env c ips (NewNetworkTypeMatcher nts) \<longleftrightarrow> GetNetworkType c \<in> set nts"
  by (auto simp: NewUserMatcher_def NewInboundTagMatcher_def NewPortMatcher_def NewNetworkMatcher_def NewProtocolMatcher_def NewUidMatcher_def
      NewWifiSSIDMatcher_def NewNetworkTypeMatcher_def nonempty_strings_filter foldl_set_map foldl_networks(2) Network_number_less in_ports_def
      PortListFromProto_def PortRange_Contains_def MemoryPortRange_Contains_def FromPort_def ToPort_def)

lemma simple_parts_wf: "cond_wf (NewUserMatcher us)" "cond_wf (NewInboundTagMatcher us)" "cond_wf (NewPortMatcher l onSource)"
  "cond_wf (NewNetworkMatcher ns)" "cond_wf (NewProtocolMatcher us)" "cond_wf (NewUidMatcher uids)" "cond_wf (NewWifiSSIDMatcher us)" "cond_wf (NewNetworkTypeMatcher us)"
  by (simp_all add: NewUserMatcher_def NewInboundTagMatcher_def NewPortMatcher_def NewNetworkMatcher_def NewProtocolMatcher_def NewUidMatcher_def
      NewWifiSSIDMatcher_def NewNetworkTypeMatcher_def foldl_networks(1))

definition rule_ok :: "('s, 'z) router_env_scheme \<Rightarrow> (gostring \<Rightarrow> CIDR list) \<Rightarrow> RoutingRule \<Rightarrow> bool" where
  "rule_ok env G rr \<longleftrightarrow> domains_ok env (rr_DomainMatcher rr) (rr_Domain rr) \<and> domains_ok env (rr_DomainMatcher rr) (concat (rr_GeoDomain rr))
     \<and> list_all (geo_ok env G) (rr_Geoip rr) \<and> list_all (geo_ok env G) (rr_SourceGeoip rr)"

lemma geo_part_law:
  assumes "container_ok env G container" "list_all (geo_ok env G) geoips"
  obtains ms container' where "NewMultiGeoIPMatcher env container geoips onSource = Inr (MultiGeoIPMatcher ms onSource False, container')"
    "container_ok env G container'" "map Inr ms = map (geo_matcher env) geoips"
  using NewMultiGeoIPMatcher_loop_law [OF assms, of "[]"] by (auto simp: NewMultiGeoIPMatcher_def)

lemma opt_part:
  "list_all P (if xs \<noteq> [] then [x] else []) \<longleftrightarrow> xs = [] \<or> P x"
  "list_all P (case ol of None \<Rightarrow> [] | Some l \<Rightarrow> [f l]) \<longleftrightarrow> (\<forall>l. ol = Some l \<longrightarrow> P (f l))"
  "(if xs \<noteq> [] then [x] else []) = [] \<longleftrightarrow> xs = []"
  "(case ol of None \<Rightarrow> [] | Some l \<Rightarrow> [f l]) = [] \<longleftrightarrow> ol = None"
  by (auto split: option.splits)

lemma BuildCondition_law:
  fixes env :: "('s, 'z) router_env_scheme"
  assumes "container_ok env G container" "rule_ok env G rr" "list_all canonical (ToLower (re_unicode env) (target_domain c))"
  shows "if rule_empty rr then BuildCondition env container rr = Some (Inl (NewError ''this rule has no effective fields''))
    else \<exists>conds container'. BuildCondition env container rr = Some (Inr (conds, container')) \<and> container_ok env G container' \<and> list_all cond_wf conds
      \<and> (list_all (cond_holds env c ips) conds \<longleftrightarrow> rule_holds env c ips rr)"
proof -
  obtain conds1 where d1: "domain_part env ''failed to build domain condition'' (rr_DomainMatcher rr) (rr_Domain rr) = Some (Inr conds1)"
    "list_all cond_wf conds1" "conds1 = [] \<longleftrightarrow> rr_Domain rr = []" "list_all (cond_holds env c ips) conds1 \<longleftrightarrow> rr_Domain rr = [] \<or> domain_holds env c (rr_Domain rr)"
    using domain_part_law [OF _ assms(3)] assms(2) unfolding rule_ok_def by blast
  let ?gd = "concat (rr_GeoDomain rr)"
  obtain conds2 where d2: "domain_part env ''failed to build geo domain condition'' (rr_DomainMatcher rr) ?gd = Some (Inr conds2)"
    "list_all cond_wf conds2" "conds2 = [] \<longleftrightarrow> ?gd = []" "list_all (cond_holds env c ips) conds2 \<longleftrightarrow> ?gd = [] \<or> domain_holds env c ?gd"
    using domain_part_law [OF _ assms(3)] assms(2) unfolding rule_ok_def by blast
  have g: "list_all (geo_ok env G) (rr_Geoip rr)" "list_all (geo_ok env G) (rr_SourceGeoip rr)" using assms(2) by (simp_all add: rule_ok_def)
  obtain ms1 c1 where g1: "NewMultiGeoIPMatcher env container (rr_Geoip rr) False = Inr (MultiGeoIPMatcher ms1 False False, c1)"
    "container_ok env G c1" "map Inr ms1 = map (geo_matcher env) (rr_Geoip rr)" by (rule geo_part_law [OF assms(1) g(1)])
  define c1' where "c1' = (if rr_Geoip rr \<noteq> [] then c1 else container)"
  have c1': "container_ok env G c1'" using g1(2) assms(1) by (simp add: c1'_def)
  obtain ms2 c2 where g2: "NewMultiGeoIPMatcher env c1' (rr_SourceGeoip rr) True = Inr (MultiGeoIPMatcher ms2 True False, c2)"
    "container_ok env G c2" "map Inr ms2 = map (geo_matcher env) (rr_SourceGeoip rr)" by (rule geo_part_law [OF c1' g(2)])
  define c2' where "c2' = (if rr_SourceGeoip rr \<noteq> [] then c2 else c1')"
  have c2': "container_ok env G c2'" using g2(2) c1' by (simp add: c2'_def)
  define A :: "'s Condition list" where "A = conds1 @ conds2 @ (if rr_UserEmail rr \<noteq> [] then [NewUserMatcher (rr_UserEmail rr)] else [])
    @ (if rr_InboundTag rr \<noteq> [] then [NewInboundTagMatcher (rr_InboundTag rr)] else [])
    @ (case rr_PortList rr of None \<Rightarrow> [] | Some l \<Rightarrow> [NewPortMatcher l False]) @ (case rr_SourcePortList rr of None \<Rightarrow> [] | Some l \<Rightarrow> [NewPortMatcher l True])
    @ (if rr_Networks rr \<noteq> [] then [NewNetworkMatcher (rr_Networks rr)] else [])"
  define B :: "'s Condition list" where "B = (if rr_Geoip rr \<noteq> [] then [MultiGeoIPMatcher ms1 False (rr_SkipDomain rr)] else [])
    @ (if rr_SourceGeoip rr \<noteq> [] then [MultiGeoIPMatcher ms2 True False] else [])"
  define C :: "'s Condition list" where "C = (if rr_Protocol rr \<noteq> [] then [NewProtocolMatcher (rr_Protocol rr)] else []) @ (if rr_Uid rr \<noteq> [] then [NewUidMatcher (rr_Uid rr)] else [])
    @ (if rr_Ssid rr \<noteq> [] then [NewWifiSSIDMatcher (rr_Ssid rr)] else []) @ (if rr_NetworkType rr \<noteq> [] then [NewNetworkTypeMatcher (rr_NetworkType rr)] else [])"
  have gd: "foldl (@) [] (rr_GeoDomain rr) = ?gd" by (simp add: foldl_append_concat)
  have s1: "(if length (rr_Geoip rr) > 0 then bind_res (NewMultiGeoIPMatcher env container (rr_Geoip rr) False) (\<lambda>(cond, container).
        Inr (X @ [MultiGeoIPMatcher (mg_matchers cond) (mg_onSource cond) (rr_SkipDomain rr)], container)) else Inr (X, container))
      = Inr (X @ (if rr_Geoip rr \<noteq> [] then [MultiGeoIPMatcher ms1 False (rr_SkipDomain rr)] else []), c1')" for X
    by (simp add: g1(1) c1'_def)
  have s2: "(if length (rr_SourceGeoip rr) > 0 then bind_res (NewMultiGeoIPMatcher env c1' (rr_SourceGeoip rr) True) (\<lambda>(cond, container).
        Inr (X @ [cond], container)) else Inr (X, c1'))
      = Inr (X @ (if rr_SourceGeoip rr \<noteq> [] then [MultiGeoIPMatcher ms2 True False] else []), c2')" for X
    by (simp add: g2(1) c2'_def)
  have build: "BuildCondition env container rr = Some (if length (A @ B @ C) = 0 then Inl (NewError ''this rule has no effective fields'') else Inr (A @ B @ C, c2'))"
    unfolding BuildCondition_def gd d1(1) d2(1) bind_ro_def option.case sum.case Let_def s1 bind_res_simps prod.case s2
    unfolding A_def B_def C_def append_assoc length_greater_0_conv ..
  have empty: "A @ B @ C = [] \<longleftrightarrow> rule_empty rr" unfolding A_def B_def C_def append_is_Nil_conv opt_part d1(3) d2(3) rule_empty_def conj_assoc ..
  have wf: "list_all cond_wf (A @ B @ C)" using d1(2) d2(2) unfolding A_def B_def C_def list_all_append opt_part
    by (simp add: simple_parts_wf)
  have geo: "list_all (cond_holds env c ips) B \<longleftrightarrow> (rr_Geoip rr = [] \<or> geo_holds env (if rr_SkipDomain rr then base_ips c else ips) (rr_Geoip rr))
      \<and> (rr_SourceGeoip rr = [] \<or> geo_holds env (source_ips c) (rr_SourceGeoip rr))"
    unfolding B_def list_all_append opt_part cond_holds.simps if_True if_False geo_holds_matchers [OF g1(3)] geo_holds_matchers [OF g2(3)] ..
  have "list_all (cond_holds env c ips) (A @ B @ C) \<longleftrightarrow> rule_holds env c ips rr"
    unfolding list_all_append geo rule_holds_def unfolding A_def C_def list_all_append opt_part d1(4) d2(4) simple_parts if_True if_False conj_assoc ..
  then show ?thesis using build empty wf c2' by auto
qed

section \<open>Properties\<close>


text \<open>A rule for the connections of one inbound, for the witnesses.\<close>

definition inbound_rule :: "gostring \<Rightarrow> gostring \<Rightarrow> RoutingRule" where
  "inbound_rule inbound tag = \<lparr>rr_TargetTag = RoutingRule_Tag tag, rr_SetAttribute = [], rr_Attributes = [], rr_Domain = [], rr_GeoDomain = [], rr_DomainMatcher = [], rr_UserEmail = [],
     rr_InboundTag = [inbound], rr_PortList = None, rr_SourcePortList = None, rr_Networks = [], rr_Geoip = [], rr_SkipDomain = False, rr_SourceGeoip = [], rr_Protocol = [],
     rr_Uid = [], rr_Ssid = [], rr_NetworkType = []\<rparr>"

definition plain_env :: "unit router_env" where
  "plain_env = \<lparr>re_unicode = (\<lambda>s. s), re_strhash = (\<lambda>s seed. seed), re_Compile = (\<lambda>p. Inr (\<lambda>s. s = p)), re_ToASCII = Inr, re_FromStdIP = (\<lambda>ip. Some ip),
     re_IPSet = (\<lambda>ps. Inr ()), re_Contains = (\<lambda>s ip. False)\<rparr>"

definition inbound_context :: "gostring \<Rightarrow> Context" where
  "inbound_context tag = \<lparr>cx_Inbound = Some \<lparr>in_Source = \<lparr>dest_Address = None, dest_Port = 0, dest_Network = Network_Unknown\<rparr>, in_Tag = tag, in_User = None, in_UID = None, in_SSID = [], in_NetworkType = []\<rparr>,
     cx_Outbound = None, cx_Content = None\<rparr>"

lemma plain_example:
  "rule_ok env G (inbound_rule i t)" "\<not> rule_empty (inbound_rule i t)" "container_ok env G []" "ctx_ok (inbound_context i)" "target_domain (inbound_context i) = []"
  "i \<noteq> [] \<Longrightarrow> rule_holds env (inbound_context i) ips (inbound_rule i t)" "rr_TargetTag (inbound_rule i t) = RoutingRule_Tag t"
  by (simp_all add: rule_ok_def inbound_rule_def domains_ok_def rule_empty_def container_ok_def ctx_ok_def inbound_context_def dest_ok_def Destination_IsValid_def
      target_domain_def GetTargetDomain_def rule_holds_def GetInboundTag_def)


end
