(* ===== verification/Balancing.thy ===== *)
theory Balancing
  imports StrMatcher "HOL-Library.Product_Lexorder" "HOL-Library.List_Lexorder"
begin

text \<open>
  Balancers: \<^verbatim>\<open>app/router/balancing.go\<close>, \<^verbatim>\<open>balancing_override.go\<close>, the four strategies (\<^verbatim>\<open>strategy_random.go\<close>, \<^verbatim>\<open>strategy_fallback.go\<close>,
  \<^verbatim>\<open>strategy_leastping.go\<close>, \<^verbatim>\<open>strategy_leastload.go\<close>), \<^verbatim>\<open>BalancingRule.Build\<close> of \<^verbatim>\<open>config.go\<close>, and the manager of the outbound handlers they select from,
  \<^verbatim>\<open>app/proxyman/outbound/outbound.go\<close>.

  What the observatory reports is an argument. Delays and durations are unbounded integers: the products in \<open>status_node\<close> stay within 64 bits for
  delays below 292 years. \<open>Intn\<close> is \<^verbatim>\<open>rand.Intn\<close>; \<open>cost tag value\<close> is the weighted value of
  \<^verbatim>\<open>WeightManager\<close>, a floating-point computation that is not modelled.
\<close>

section \<open>The outbound manager\<close>

text \<open>A handler is its identity and its tag. \<open>om_started\<close> and \<open>om_closed\<close> record the calls of \<^verbatim>\<open>Start\<close> and \<^verbatim>\<open>Close\<close> on handlers.\<close>

record Handler =
  h_id :: nat
  h_Tag :: gostring

record Manager =
  om_defaultHandler :: "Handler option"
  om_taggedHandler :: "(gostring \<times> Handler) list"
  om_untaggedHandlers :: "Handler list"
  om_running :: bool
  om_started :: "Handler list"
  om_closed :: "Handler list"

definition Manager_New :: Manager where
  "Manager_New = \<lparr>om_defaultHandler = None, om_taggedHandler = [], om_untaggedHandlers = [], om_running = False, om_started = [], om_closed = []\<rparr>"

text \<open>The map of the tagged handlers is a list with distinct keys, in the order in which Go happens to iterate it.\<close>

definition map_put :: "gostring \<Rightarrow> Handler \<Rightarrow> (gostring \<times> Handler) list \<Rightarrow> (gostring \<times> Handler) list" where
  "map_put tag h m = (if tag \<in> fst ` set m then map (\<lambda>(t, x). if t = tag then (t, h) else (t, x)) m else m @ [(tag, h)])"

fun start_all :: "(Handler \<Rightarrow> go_error option) \<Rightarrow> Handler list \<Rightarrow> Handler list \<Rightarrow> go_error option \<times> Handler list" where
  "start_all start [] started = (None, started)"
| "start_all start (h # hs) started = (case start h of Some err \<Rightarrow> (Some err, started @ [h]) | None \<Rightarrow> start_all start hs (started @ [h]))"

definition Manager_Start :: "(Handler \<Rightarrow> go_error option) \<Rightarrow> Manager \<Rightarrow> go_error option \<times> Manager" where
  "Manager_Start start m =
     (let m = m\<lparr>om_running := True\<rparr>;
          (err, started) = start_all start (map snd (om_taggedHandler m) @ om_untaggedHandlers m) (om_started m)
      in (err, m\<lparr>om_started := started\<rparr>))"

text \<open>\<^verbatim>\<open>errors.Combine\<close>: the errors that are not nil; nil if there are none.\<close>

definition Combine :: "go_error option list \<Rightarrow> go_error list" where
  "Combine maybeError = foldl (\<lambda>errs err. case err of Some e \<Rightarrow> errs @ [e] | None \<Rightarrow> errs) [] maybeError"

definition Manager_Close :: "(Handler \<Rightarrow> go_error option) \<Rightarrow> Manager \<Rightarrow> go_error list \<times> Manager" where
  "Manager_Close close m =
     (let hs = map snd (om_taggedHandler m) @ om_untaggedHandlers m
      in (Combine (map close hs), m\<lparr>om_running := False, om_closed := om_closed m @ hs\<rparr>))"

definition GetDefaultHandler :: "Manager \<Rightarrow> Handler option" where
  "GetDefaultHandler m = om_defaultHandler m"

definition GetHandler :: "Manager \<Rightarrow> gostring \<Rightarrow> Handler option" where
  "GetHandler m tag = map_of (om_taggedHandler m) tag"

definition AddHandler :: "(Handler \<Rightarrow> go_error option) \<Rightarrow> Handler \<Rightarrow> Manager \<Rightarrow> go_error option \<times> Manager" where
  "AddHandler start handler m =
     (let tag = h_Tag handler;
          m = (case om_defaultHandler m of
                 None \<Rightarrow> m\<lparr>om_defaultHandler := Some handler\<rparr>
               | Some dh \<Rightarrow> if length tag > 0 \<and> tag = h_Tag dh then m\<lparr>om_defaultHandler := Some handler\<rparr> else m);
          m = (if length tag > 0 then
                 let m = (case map_of (om_taggedHandler m) tag of
                            Some oldHandler \<Rightarrow> m\<lparr>om_closed := om_closed m @ [oldHandler]\<rparr>
                          | None \<Rightarrow> m)
                 in m\<lparr>om_taggedHandler := map_put tag handler (om_taggedHandler m)\<rparr>
               else m\<lparr>om_untaggedHandlers := om_untaggedHandlers m @ [handler]\<rparr>)
      in if om_running m then (start handler, m\<lparr>om_started := om_started m @ [handler]\<rparr>) else (None, m))"

definition ErrNoClue :: go_error where
  "ErrNoClue = NewError ''not enough information for making a decision''"

definition RemoveHandler :: "gostring \<Rightarrow> Manager \<Rightarrow> go_error option \<times> Manager" where
  "RemoveHandler tag m =
     (if tag = [] then (Some ErrNoClue, m)
      else case map_of (om_taggedHandler m) tag of
             Some handler \<Rightarrow>
               (let m = m\<lparr>om_closed := om_closed m @ [handler], om_taggedHandler := filter (\<lambda>(t, x). t \<noteq> tag) (om_taggedHandler m)\<rparr>;
                    m = (case om_defaultHandler m of
                           Some dh \<Rightarrow> if h_Tag dh = tag then m\<lparr>om_defaultHandler := None\<rparr> else m
                         | None \<Rightarrow> m)
                in (None, m))
           | None \<Rightarrow> (Some ErrNoClue, m))"

fun selector_matches :: "gostring list \<Rightarrow> gostring \<Rightarrow> bool" where
  "selector_matches [] tag = False"
| "selector_matches (selector # selectors) tag = (if HasPrefix tag selector then True else selector_matches selectors tag)"

definition Manager_Select :: "Manager \<Rightarrow> gostring list \<Rightarrow> gostring list" where
  "Manager_Select m selectors = foldl (\<lambda>tags (tag, h). if selector_matches selectors tag then tags @ [tag] else tags) [] (om_taggedHandler m)"

section \<open>Strategies\<close>

record HealthPing =
  hp_All :: int
  hp_Fail :: int
  hp_Deviation :: int
  hp_Average :: int

record OutboundStatus =
  os_Alive :: bool
  os_Delay :: int
  os_OutboundTag :: gostring
  os_HealthPing :: "HealthPing option"

text \<open>What a strategy finds when it asks the observatory: none is configured, an error, a report of another kind, or a report.\<close>

datatype Observation = NoObservatory | ObservationError | OtherReport | Report "OutboundStatus list"

fun outboundList_contains :: "gostring list \<Rightarrow> gostring \<Rightarrow> bool" where
  "outboundList_contains [] name = False"
| "outboundList_contains (v # o') name = (if v = name then True else outboundList_contains o' name)"

definition Roll :: "(nat \<Rightarrow> nat) \<Rightarrow> nat \<Rightarrow> nat" where
  "Roll Intn n = (if n = 1 then 0 else Intn n)"

subsection \<open>Least ping\<close>

fun leastPing_loop :: "gostring list \<Rightarrow> OutboundStatus list \<Rightarrow> int \<Rightarrow> gostring \<Rightarrow> gostring" where
  "leastPing_loop outbounds [] leastPing selected = selected"
| "leastPing_loop outbounds (v # status) leastPing selected =
     (if outboundList_contains outbounds (os_OutboundTag v) \<and> os_Alive v \<and> os_Delay v < leastPing
      then leastPing_loop outbounds status (os_Delay v) (os_OutboundTag v)
      else leastPing_loop outbounds status leastPing selected)"

definition LeastPing_PickOutbound :: "bool \<Rightarrow> Observation \<Rightarrow> gostring \<Rightarrow> gostring list \<Rightarrow> (gostring \<times> gostring) result" where
  "LeastPing_PickOutbound stickyChoice obs lastChoice outbounds =
     (case obs of
        NoObservatory \<Rightarrow> Inl Panic
      | ObservationError \<Rightarrow> Inr ([], lastChoice)
      | OtherReport \<Rightarrow> Inr ([], lastChoice)
      | Report status \<Rightarrow>
          let selected = leastPing_loop outbounds status 99999999 [];
              selected = (if selected = [] \<and> stickyChoice then lastChoice else selected)
          in Inr (selected, selected))"

subsection \<open>Fallback\<close>

fun alive_in :: "OutboundStatus list \<Rightarrow> gostring \<Rightarrow> bool" where
  "alive_in [] outbound = False"
| "alive_in (v # status) outbound = (if outbound = os_OutboundTag v \<and> os_Alive v then True else alive_in status outbound)"

fun Fallback_loop :: "OutboundStatus list \<Rightarrow> gostring list \<Rightarrow> gostring" where
  "Fallback_loop status [] = []"
| "Fallback_loop status (outbound # outbounds) = (if alive_in status outbound then outbound else Fallback_loop status outbounds)"

definition Fallback_PickOutbound :: "Observation \<Rightarrow> gostring list \<Rightarrow> gostring result" where
  "Fallback_PickOutbound obs outbounds =
     (case obs of NoObservatory \<Rightarrow> Inl Panic | ObservationError \<Rightarrow> Inr [] | OtherReport \<Rightarrow> Inr [] | Report status \<Rightarrow> Inr (Fallback_loop status outbounds))"

subsection \<open>Random\<close>

text \<open>The status map keeps the last status of a tag; a candidate without a status is taken to be alive.\<close>

definition alive_tags :: "OutboundStatus list \<Rightarrow> gostring list \<Rightarrow> gostring list" where
  "alive_tags status candidates =
     (let statusMap = foldl (\<lambda>m s. m(os_OutboundTag s \<mapsto> s)) Map.empty status
      in foldl (\<lambda>aliveTags c. case statusMap c of Some s \<Rightarrow> if os_Alive s then aliveTags @ [c] else aliveTags | None \<Rightarrow> aliveTags @ [c]) [] candidates)"

definition Random_PickOutbound :: "(nat \<Rightarrow> nat) \<Rightarrow> bool option \<Rightarrow> Observation \<Rightarrow> gostring list \<Rightarrow> gostring result" where
  "Random_PickOutbound Intn aliveOnly obs candidates =
     bind_res (if aliveOnly = Some True then
                 (case obs of NoObservatory \<Rightarrow> Inl Panic | Report status \<Rightarrow> Inr (alive_tags status candidates) | _ \<Rightarrow> Inr candidates)
               else Inr candidates) (\<lambda>candidates.
       let count = length candidates in if count = 0 then Inr [] else Inr (candidates ! Roll Intn count))"

subsection \<open>Least load\<close>

record node =
  nd_Tag :: gostring
  nd_CountAll :: int
  nd_CountFail :: int
  nd_RTTAverage :: int
  nd_RTTDeviation :: int
  nd_RTTDeviationCost :: int

record LeastLoadConfig =
  ll_Baselines :: "int list"
  ll_Expected :: int
  ll_MaxRTT :: int

definition status_node :: "(gostring \<Rightarrow> int \<Rightarrow> int) \<Rightarrow> OutboundStatus \<Rightarrow> node" where
  "status_node cost v =
     (let rtt = os_Delay v * 1000000 in
      case os_HealthPing v of
        None \<Rightarrow> \<lparr>nd_Tag = os_OutboundTag v, nd_CountAll = 1, nd_CountFail = 1, nd_RTTAverage = rtt, nd_RTTDeviation = rtt,
                 nd_RTTDeviationCost = cost (os_OutboundTag v) rtt\<rparr>
      | Some hp \<Rightarrow> \<lparr>nd_Tag = os_OutboundTag v, nd_CountAll = hp_All hp, nd_CountFail = hp_Fail hp, nd_RTTAverage = hp_Average hp,
                 nd_RTTDeviation = hp_Deviation hp, nd_RTTDeviationCost = cost (os_OutboundTag v) (hp_Deviation hp)\<rparr>)"

text \<open>The order of \<^verbatim>\<open>leastloadSort\<close>, as a lexicographic key.\<close>

definition load_key :: "node \<Rightarrow> int \<times> int \<times> int \<times> int \<times> gostring" where
  "load_key n = (nd_RTTDeviationCost n, nd_RTTAverage n, nd_CountFail n, - nd_CountAll n, nd_Tag n)"

definition leastloadSort :: "node list \<Rightarrow> node list" where
  "leastloadSort nodes = sort_key load_key nodes"

text \<open>\<^verbatim>\<open>maxRTT.Milliseconds()\<close> is the division of nanoseconds by a million, rounded towards zero.\<close>

definition milliseconds :: "int \<Rightarrow> int" where
  "milliseconds d = (if d \<ge> 0 then d div 1000000 else - ((- d) div 1000000))"

definition getNodes :: "(gostring \<Rightarrow> int \<Rightarrow> int) \<Rightarrow> int \<Rightarrow> Observation \<Rightarrow> gostring list \<Rightarrow> node list result" where
  "getNodes cost maxRTT obs candidates =
     (case obs of
        NoObservatory \<Rightarrow> Inl Panic
      | ObservationError \<Rightarrow> Inr []
      | OtherReport \<Rightarrow> Inl Panic
      | Report status \<Rightarrow>
          Inr (leastloadSort (foldl (\<lambda>ret v. if os_Alive v \<and> (os_Delay v < milliseconds maxRTT \<or> maxRTT = 0) \<and> outboundList_contains candidates (os_OutboundTag v)
                                              then ret @ [status_node cost v] else ret) [] status)))"

fun baseline_scan :: "int \<Rightarrow> node list \<Rightarrow> nat \<Rightarrow> nat" where
  "baseline_scan baseline [] count = count"
| "baseline_scan baseline (n # nodes) count = (if nd_RTTDeviationCost n \<ge> baseline then count else baseline_scan baseline nodes (count + 1))"

fun baselines_loop :: "node list \<Rightarrow> nat \<Rightarrow> int list \<Rightarrow> nat \<Rightarrow> nat" where
  "baselines_loop nodes expected [] count = count"
| "baselines_loop nodes expected (b # baselines) count =
     (let count = baseline_scan b (drop count nodes) count
      in if count \<ge> expected then count else baselines_loop nodes expected baselines count)"

definition selectLeastLoad :: "LeastLoadConfig \<Rightarrow> node list \<Rightarrow> node list" where
  "selectLeastLoad settings nodes =
     (if length nodes = 0 then []
      else
        let expected = ll_Expected settings; availableCount = length nodes in
        if expected > int availableCount then nodes
        else
          let expected = (if expected \<le> 0 then 1 else nat expected) in
          if length (ll_Baselines settings) = 0 then take expected nodes
          else
            let count = baselines_loop nodes expected (ll_Baselines settings) 0;
                count = (if ll_Expected settings > 0 \<and> count < expected then expected else count)
            in take count nodes)"

definition LeastLoad_PickOutbound :: "(nat \<Rightarrow> nat) \<Rightarrow> (gostring \<Rightarrow> int \<Rightarrow> int) \<Rightarrow> LeastLoadConfig \<Rightarrow> Observation \<Rightarrow> gostring list \<Rightarrow> gostring result" where
  "LeastLoad_PickOutbound Intn cost settings obs candidates =
     bind_res (getNodes cost (ll_MaxRTT settings) obs candidates) (\<lambda>qualified.
       let selects = selectLeastLoad settings qualified; count = length selects
       in if count = 0 then Inr [] else Inr (nd_Tag (selects ! Roll Intn count)))"

section \<open>Balancers\<close>

datatype BalancingStrategy =
    LeastPingStrategy bool gostring
  | FallbackStrategy
  | LeastLoadStrategy LeastLoadConfig
  | RandomStrategy "bool option"

record Balancer =
  b_selectors :: "gostring list"
  b_strategy :: BalancingStrategy
  b_fallbackTag :: gostring
  b_override :: gostring

text \<open>The environment of a decision: the random source, the weights, the report, and the outbound manager (\<open>None\<close> if it is no \<^verbatim>\<open>HandlerSelector\<close>).\<close>

record balancer_env =
  be_Intn :: "nat \<Rightarrow> nat"
  be_cost :: "gostring \<Rightarrow> int \<Rightarrow> int"
  be_obs :: Observation
  be_ohm :: "Manager option"

definition Strategy_PickOutbound :: "balancer_env \<Rightarrow> BalancingStrategy \<Rightarrow> gostring list \<Rightarrow> (gostring \<times> BalancingStrategy) result" where
  "Strategy_PickOutbound env s candidates =
     (case s of
        LeastPingStrategy sticky lastChoice \<Rightarrow> map_sum id (\<lambda>(tag, last). (tag, LeastPingStrategy sticky last)) (LeastPing_PickOutbound sticky (be_obs env) lastChoice candidates)
      | FallbackStrategy \<Rightarrow> map_sum id (\<lambda>tag. (tag, s)) (Fallback_PickOutbound (be_obs env) candidates)
      | LeastLoadStrategy settings \<Rightarrow> map_sum id (\<lambda>tag. (tag, s)) (LeastLoad_PickOutbound (be_Intn env) (be_cost env) settings (be_obs env) candidates)
      | RandomStrategy aliveOnly \<Rightarrow> map_sum id (\<lambda>tag. (tag, s)) (Random_PickOutbound (be_Intn env) aliveOnly (be_obs env) candidates))"

definition SelectOutbounds :: "balancer_env \<Rightarrow> Balancer \<Rightarrow> gostring list result" where
  "SelectOutbounds env b =
     (case be_ohm env of
        None \<Rightarrow> Inl (NewError ''outbound.Manager is not a HandlerSelector'')
      | Some m \<Rightarrow> Inr (Manager_Select m (b_selectors b)))"

definition PickOutbound :: "balancer_env \<Rightarrow> Balancer \<Rightarrow> (gostring result \<times> Balancer) result" where
  "PickOutbound env b =
     (case SelectOutbounds env b of
        Inl err \<Rightarrow> Inr (if b_fallbackTag b \<noteq> [] then Inr (b_fallbackTag b) else Inl err, b)
      | Inr candidates \<Rightarrow>
          bind_res (if b_override b \<noteq> [] then Inr (b_override b, b_strategy b)
                    else Strategy_PickOutbound env (b_strategy b) candidates) (\<lambda>(tag, strategy).
            let b = b\<lparr>b_strategy := strategy\<rparr> in
            Inr (if tag = [] then
                   (if b_fallbackTag b \<noteq> [] then Inr (b_fallbackTag b)
                    else if length candidates = 0 then Inl (NewError ''balancing strategy returns empty tag'')
                    else Inr (candidates ! 0))
                 else Inr tag, b)))"

definition override_Put :: "gostring \<Rightarrow> Balancer \<Rightarrow> Balancer" where
  "override_Put target b = b\<lparr>b_override := target\<rparr>"

definition override_Clear :: "Balancer \<Rightarrow> Balancer" where
  "override_Clear b = b\<lparr>b_override := []\<rparr>"

definition SetOverrideTarget :: "(gostring \<rightharpoonup> Balancer) \<Rightarrow> gostring \<Rightarrow> gostring \<Rightarrow> (gostring \<rightharpoonup> Balancer) result" where
  "SetOverrideTarget balancers tag target =
     (case balancers tag of
        Some b \<Rightarrow> Inr (balancers(tag \<mapsto> override_Put target b))
      | None \<Rightarrow> Inl (NewError ''cannot find tag''))"

definition GetOverrideTarget :: "(gostring \<rightharpoonup> Balancer) \<Rightarrow> gostring \<Rightarrow> gostring result" where
  "GetOverrideTarget balancers tag = (case balancers tag of Some b \<Rightarrow> Inr (b_override b) | None \<Rightarrow> Inl (NewError ''cannot find tag''))"

definition OverrideBalancer :: "(gostring \<rightharpoonup> Balancer) \<Rightarrow> gostring \<Rightarrow> gostring \<Rightarrow> (gostring \<rightharpoonup> Balancer) result" where
  "OverrideBalancer balancers balancer target =
     (case balancers balancer of
        None \<Rightarrow> Inl (NewError ''balancer not found'')
      | Some b \<Rightarrow> Inr (balancers(balancer \<mapsto> override_Put target b)))"

text \<open>The principle target of a strategy; least ping remembers its choice here too.\<close>

definition Strategy_GetPrincipleTarget :: "balancer_env \<Rightarrow> BalancingStrategy \<Rightarrow> gostring list \<Rightarrow> (gostring list \<times> BalancingStrategy) result" where
  "Strategy_GetPrincipleTarget env s strings =
     (case s of
        LeastLoadStrategy settings \<Rightarrow>
          bind_res (getNodes (be_cost env) (ll_MaxRTT settings) (be_obs env) strings) (\<lambda>qualified. Inr (map nd_Tag (selectLeastLoad settings qualified), s))
      | RandomStrategy aliveOnly \<Rightarrow> Inr (strings, s)
      | _ \<Rightarrow> bind_res (Strategy_PickOutbound env s strings) (\<lambda>(t, s). Inr ([t], s)))"

definition GetPrincipleTarget :: "balancer_env \<Rightarrow> (gostring \<rightharpoonup> Balancer) \<Rightarrow> gostring \<Rightarrow> (gostring list \<times> (gostring \<rightharpoonup> Balancer)) result" where
  "GetPrincipleTarget env balancers tag =
     (case balancers tag of
        None \<Rightarrow> Inl (NewError ''cannot find tag'')
      | Some b \<Rightarrow>
          bind_res (with_base ''unable to select outbounds'' (SelectOutbounds env b)) (\<lambda>candidates.
          bind_res (Strategy_GetPrincipleTarget env (b_strategy b) candidates) (\<lambda>(tags, s).
            Inr (tags, balancers(tag \<mapsto> b\<lparr>b_strategy := s\<rparr>)))))"

text \<open>The strategy settings of a balancing rule: none, bytes that do not decode, or one of the four messages.\<close>

datatype StrategySettings = NoSettings | BadSettings | LeastPingConfig bool | FallbackConfig | LeastLoadSettings LeastLoadConfig | RandomConfig bool | OtherSettings

record BalancingRule =
  br_Tag :: gostring
  br_OutboundSelector :: "gostring list"
  br_Strategy :: gostring
  br_StrategySettings :: StrategySettings
  br_FallbackTag :: gostring

definition GetInstanceOf :: "StrategySettings \<Rightarrow> StrategySettings result" where
  "GetInstanceOf v = (case v of NoSettings \<Rightarrow> Inl Panic | BadSettings \<Rightarrow> Inl (NewError ''Serial: Unknown type'') | _ \<Rightarrow> Inr v)"

definition BalancingRule_Build :: "BalancingRule \<Rightarrow> Balancer result" where
  "BalancingRule_Build br =
     (if br_Strategy br = bytes_of ''leastping'' then
        bind_res (GetInstanceOf (br_StrategySettings br)) (\<lambda>i.
          case i of
            LeastPingConfig sticky \<Rightarrow> Inr \<lparr>b_selectors = br_OutboundSelector br, b_strategy = LeastPingStrategy sticky [], b_fallbackTag = br_FallbackTag br, b_override = []\<rparr>
          | _ \<Rightarrow> Inl (NewError ''not a StrategyLeastPingConfig''))
      else if br_Strategy br = bytes_of ''fallback'' then
        bind_res (GetInstanceOf (br_StrategySettings br)) (\<lambda>i.
          case i of
            FallbackConfig \<Rightarrow> Inr \<lparr>b_selectors = br_OutboundSelector br, b_strategy = FallbackStrategy, b_fallbackTag = [], b_override = []\<rparr>
          | _ \<Rightarrow> Inl (NewError ''not a StrategyFallbackConfig''))
      else if br_Strategy br = bytes_of ''leastload'' then
        bind_res (GetInstanceOf (br_StrategySettings br)) (\<lambda>i.
          case i of
            LeastLoadSettings s \<Rightarrow> Inr \<lparr>b_selectors = br_OutboundSelector br, b_strategy = LeastLoadStrategy s, b_fallbackTag = br_FallbackTag br, b_override = []\<rparr>
          | _ \<Rightarrow> Inl (NewError ''not a StrategyLeastLoadConfig''))
      else if br_Strategy br = bytes_of ''random'' \<or> br_Strategy br = [] then
        bind_res (if br_StrategySettings br \<noteq> NoSettings then
                    bind_res (GetInstanceOf (br_StrategySettings br)) (\<lambda>i.
                      case i of RandomConfig aliveOnly \<Rightarrow> Inr (Some aliveOnly) | _ \<Rightarrow> Inl (NewError ''not a StrategyRandomConfig''))
                  else Inr None) (\<lambda>aliveOnly.
          Inr \<lparr>b_selectors = br_OutboundSelector br, b_strategy = RandomStrategy aliveOnly, b_fallbackTag = br_FallbackTag br, b_override = []\<rparr>)
      else Inl (NewError ''unrecognized balancer type''))"

section \<open>The outbound manager keeps its registrations\<close>

text \<open>The handlers that the manager has: under their tags, and those without one.\<close>

definition registered :: "Manager \<Rightarrow> Handler set" where
  "registered m = snd ` set (om_taggedHandler m) \<union> set (om_untaggedHandlers m)"

definition manager_inv :: "Manager \<Rightarrow> bool" where
  "manager_inv m \<longleftrightarrow> distinct (map fst (om_taggedHandler m))
     \<and> (\<forall>(t, h) \<in> set (om_taggedHandler m). h_Tag h = t \<and> t \<noteq> [])
     \<and> (\<forall>h \<in> set (om_untaggedHandlers m). h_Tag h = [])
     \<and> (\<forall>dh. om_defaultHandler m = Some dh \<longrightarrow> dh \<in> registered m)
     \<and> (om_running m \<longrightarrow> registered m \<subseteq> set (om_started m))"

text \<open>The calls that change a manager, when no handler fails to start.\<close>

inductive manager_step :: "(Handler \<Rightarrow> go_error option) \<Rightarrow> Manager \<Rightarrow> Manager \<Rightarrow> bool" for close where
  start: "manager_step close m (snd (Manager_Start (\<lambda>h. None) m))"
| close: "manager_step close m (snd (Manager_Close close m))"
| add: "manager_step close m (snd (AddHandler (\<lambda>h. None) h m))"
| remove: "manager_step close m (snd (RemoveHandler tag m))"

lemma start_all_ok: "start_all (\<lambda>h. None) hs started = (None, started @ hs)"
  by (induction hs arbitrary: started) auto

lemma map_put_keys: "map fst (map (\<lambda>(t, x). if t = tag then (t, h) else (t, x)) m) = map fst m"
  by (induction m) auto

lemma map_put_replace:
  "map_of (map (\<lambda>(t, x). if t = tag then (t, h) else (t, x)) m) t = (if t = tag \<and> tag \<in> fst ` set m then Some h else map_of m t)"
proof (induction m)
  case (Cons a m)
  show ?case using Cons.IH by (cases "fst a = tag"; cases "t = tag") (simp_all add: case_prod_unfold)
qed simp

lemma map_of_map_put: "map_of (map_put tag h m) t = (if t = tag then Some h else map_of m t)"
proof (cases "tag \<in> fst ` set m")
  case False
  then have "map_of m tag = None" by (simp add: map_of_eq_None_iff)
  with False show ?thesis by (simp add: map_put_def map_add_def split: option.splits)
qed (simp add: map_put_def map_put_replace)

lemma distinct_map_put: "distinct (map fst m) \<Longrightarrow> distinct (map fst (map_put tag h m))"
  unfolding map_put_def by (simp add: map_put_keys del: map_map)

lemma map_of_set: "distinct (map fst m) \<Longrightarrow> (t, h) \<in> set m \<longleftrightarrow> map_of m t = Some h"
  using map_of_is_SomeI map_of_SomeD by metis

lemma filter_map_of: "map_of (filter (\<lambda>(t, x). t \<noteq> tag) m) t = (if t = tag then None else map_of m t)"
  by (induction m) auto

lemma distinct_filter_fst: "distinct (map fst m) \<Longrightarrow> distinct (map fst (filter P m))"
  by (induction m) auto

text \<open>The invariant over the abstract registry: a map from tags and a set of untagged handlers.\<close>

lemma registered_map:
  "distinct (map fst (om_taggedHandler m)) \<Longrightarrow> h \<in> registered m \<longleftrightarrow> (\<exists>t. GetHandler m t = Some h) \<or> h \<in> set (om_untaggedHandlers m)"
  unfolding registered_def GetHandler_def map_of_set [symmetric] by force

lemma manager_inv_map:
  "manager_inv m \<longleftrightarrow> distinct (map fst (om_taggedHandler m)) \<and> (\<forall>t h. GetHandler m t = Some h \<longrightarrow> h_Tag h = t \<and> t \<noteq> [])
     \<and> (\<forall>h \<in> set (om_untaggedHandlers m). h_Tag h = [])
     \<and> (\<forall>dh. om_defaultHandler m = Some dh \<longrightarrow> GetHandler m (h_Tag dh) = Some dh \<or> dh \<in> set (om_untaggedHandlers m))
     \<and> (om_running m \<longrightarrow> (\<forall>t h. GetHandler m t = Some h \<longrightarrow> h \<in> set (om_started m)) \<and> set (om_untaggedHandlers m) \<subseteq> set (om_started m))"
    (is "?l \<longleftrightarrow> ?d \<and> ?k \<and> ?u \<and> ?h \<and> ?s")
proof (cases ?d)
  case True
  have k: "(\<forall>(t, h) \<in> set (om_taggedHandler m). h_Tag h = t \<and> t \<noteq> []) \<longleftrightarrow> ?k"
    unfolding GetHandler_def map_of_set [OF True, symmetric] by fast
  show ?thesis
  proof (cases ?k)
    case K: True
    then have r: "h \<in> registered m \<longleftrightarrow> GetHandler m (h_Tag h) = Some h \<or> h \<in> set (om_untaggedHandlers m)" for h
      unfolding registered_map [OF True] by metis
    have s: "registered m \<subseteq> A \<longleftrightarrow> (\<forall>t h. GetHandler m t = Some h \<longrightarrow> h \<in> A) \<and> set (om_untaggedHandlers m) \<subseteq> A" for A
      unfolding subset_eq Ball_def registered_map [OF True] by metis
    show ?thesis unfolding manager_inv_def k r s ..
  next
    case False
    then show ?thesis unfolding manager_inv_def k by blast
  qed
qed (simp add: manager_inv_def)

lemma AddHandler_effect:
  assumes "AddHandler start handler m = (err, m')"
  shows "GetHandler m' t = (if t = h_Tag handler \<and> t \<noteq> [] then Some handler else GetHandler m t)"
    "om_untaggedHandlers m' = om_untaggedHandlers m @ (if h_Tag handler = [] then [handler] else [])"
    "distinct (map fst (om_taggedHandler m)) \<Longrightarrow> distinct (map fst (om_taggedHandler m'))"
    "om_running m' = om_running m" "om_started m' = om_started m @ (if om_running m then [handler] else [])"
    "om_defaultHandler m' = (case om_defaultHandler m of None \<Rightarrow> Some handler
       | Some dh \<Rightarrow> if h_Tag handler \<noteq> [] \<and> h_Tag handler = h_Tag dh then Some handler else Some dh)"
  using assms unfolding AddHandler_def GetHandler_def
  by (auto simp: Let_def map_of_map_put distinct_map_put split: option.splits if_splits)

lemma RemoveHandler_effect:
  assumes "RemoveHandler tag m = (err, m')"
  shows "err = None \<longleftrightarrow> tag \<noteq> [] \<and> GetHandler m tag \<noteq> None" "err \<noteq> None \<Longrightarrow> m' = m"
    "err = None \<Longrightarrow> GetHandler m' t = (if t = tag then None else GetHandler m t)"
    "om_untaggedHandlers m' = om_untaggedHandlers m" "distinct (map fst (om_taggedHandler m)) \<Longrightarrow> distinct (map fst (om_taggedHandler m'))"
    "om_running m' = om_running m" "om_started m' = om_started m"
    "err = None \<Longrightarrow> om_defaultHandler m' = (case om_defaultHandler m of None \<Rightarrow> None | Some dh \<Rightarrow> if h_Tag dh = tag then None else Some dh)"
  using assms unfolding RemoveHandler_def GetHandler_def
  by (auto simp: Let_def filter_map_of distinct_filter_fst split: option.splits if_splits)

lemma AddHandler_inv:
  assumes "manager_inv m"
  shows "manager_inv (snd (AddHandler (\<lambda>h. None) h m))"
proof -
  obtain err m' where e: "AddHandler (\<lambda>h. None) h m = (err, m')" by fastforce
  note eff = AddHandler_effect [OF e]
  have d: "distinct (map fst (om_taggedHandler m))" using assms by (simp add: manager_inv_def)
  note i = assms [unfolded manager_inv_map]
  have "GetHandler m' (h_Tag dh) = Some dh \<or> dh \<in> set (om_untaggedHandlers m')" if "om_defaultHandler m' = Some dh" for dh
    proof (cases "dh = h")
    case False
    then have "om_defaultHandler m = Some dh" "h_Tag h = [] \<or> h_Tag h \<noteq> h_Tag dh" using that unfolding eff(6) by (auto split: option.splits if_splits)
    moreover have "GetHandler m (h_Tag dh) = Some dh \<or> dh \<in> set (om_untaggedHandlers m)" using i \<open>om_defaultHandler m = Some dh\<close> by metis
    ultimately show ?thesis unfolding eff(1,2) using i by auto
  qed (simp add: eff(1,2))
  moreover have "\<forall>t h. GetHandler m' t = Some h \<longrightarrow> h_Tag h = t \<and> t \<noteq> []" "\<forall>h \<in> set (om_untaggedHandlers m'). h_Tag h = []"
    using i unfolding eff(1,2) by (simp, auto)
  moreover have "om_running m' \<longrightarrow> (\<forall>t h. GetHandler m' t = Some h \<longrightarrow> h \<in> set (om_started m')) \<and> set (om_untaggedHandlers m') \<subseteq> set (om_started m')"
    using i unfolding eff(1,2,4,5) by (simp add: subset_iff)
  ultimately have "manager_inv m'" unfolding manager_inv_map using eff(3) [OF d] by blast
  then show ?thesis by (simp add: e)
qed

lemma RemoveHandler_inv:
  assumes "manager_inv m"
  shows "manager_inv (snd (RemoveHandler tag m))"
proof -
  obtain err m' where e: "RemoveHandler tag m = (err, m')" by fastforce
  note eff = RemoveHandler_effect [OF e]
  have d: "distinct (map fst (om_taggedHandler m))" using assms by (simp add: manager_inv_def)
  have "manager_inv m'"
  proof (cases "err = None")
    case True
    then have "tag \<noteq> []" using eff(1) by simp
    then show ?thesis using assms eff(5) [OF d] unfolding manager_inv_map eff(3) [OF True] eff(4,6,7) eff(8) [OF True]
      by (cases "om_defaultHandler m") auto
  qed (use eff(2) assms in simp)
  then show ?thesis by (simp add: e)
qed

lemma manager_step_inv:
  assumes "manager_step close m m'" "manager_inv m"
  shows "manager_inv m'"
  using assms
proof cases
  case start
  then show ?thesis using assms(2) unfolding manager_inv_def registered_def Manager_Start_def Let_def start_all_ok by simp
next
  case close
  then show ?thesis using assms(2) unfolding manager_inv_def registered_def Manager_Close_def Let_def by simp
qed (simp_all add: AddHandler_inv RemoveHandler_inv assms(2))

lemma manager_reachable_inv: "(manager_step close)\<^sup>*\<^sup>* Manager_New m \<Longrightarrow> manager_inv m"
  by (induction rule: rtranclp_induct) (simp_all add: manager_step_inv, simp add: manager_inv_def Manager_New_def registered_def)

section \<open>What the strategies choose\<close>

lemma selector_matches_prefix: "selector_matches selectors tag \<longleftrightarrow> (\<exists>p \<in> set selectors. prefix p tag)"
  by (induction selectors) (auto simp: HasPrefix_prefix)

lemma Manager_Select_filter: "Manager_Select m selectors = filter (selector_matches selectors) (map fst (om_taggedHandler m))"
proof -
  have "foldl (\<lambda>tags (tag, h). if selector_matches selectors tag then tags @ [tag] else tags) acc hs = acc @ filter (selector_matches selectors) (map fst hs)" for acc hs
    by (induction hs arbitrary: acc) auto
  from this [of "[]" "om_taggedHandler m"] show ?thesis unfolding Manager_Select_def by simp
qed

lemma Manager_Select_set:
  assumes "manager_inv m"
  shows "t \<in> set (Manager_Select m selectors) \<longleftrightarrow> GetHandler m t \<noteq> None \<and> (\<exists>p \<in> set selectors. prefix p t)" "[] \<notin> set (Manager_Select m selectors)"
proof -
  show iff: "t \<in> set (Manager_Select m selectors) \<longleftrightarrow> GetHandler m t \<noteq> None \<and> (\<exists>p \<in> set selectors. prefix p t)" for t
    unfolding Manager_Select_filter selector_matches_prefix [abs_def] GetHandler_def map_of_eq_None_iff by auto
  show "[] \<notin> set (Manager_Select m selectors)" unfolding iff using assms unfolding manager_inv_map by blast
qed

lemma outboundList_contains_set [simp]: "outboundList_contains o' name \<longleftrightarrow> name \<in> set o'"
  by (induction o') auto

lemma alive_in_iff [simp]: "alive_in status t \<longleftrightarrow> (\<exists>v \<in> set status. os_OutboundTag v = t \<and> os_Alive v)"
  by (induction status) auto

text \<open>An observed candidate that is alive and answers within the limit of least ping.\<close>

definition pingable :: "gostring list \<Rightarrow> OutboundStatus \<Rightarrow> bool" where
  "pingable outbounds v \<longleftrightarrow> os_OutboundTag v \<in> set outbounds \<and> os_Alive v \<and> os_Delay v < 99999999"

lemma leastPing_loop_least:
  "(\<exists>v \<in> set status. os_OutboundTag v \<in> set outbounds \<and> os_Alive v \<and> os_Delay v < least \<and> leastPing_loop outbounds status least sel = os_OutboundTag v
      \<and> (\<forall>w \<in> set status. os_OutboundTag w \<in> set outbounds \<and> os_Alive w \<longrightarrow> os_Delay v \<le> os_Delay w))
   \<or> (\<forall>v \<in> set status. \<not> (os_OutboundTag v \<in> set outbounds \<and> os_Alive v \<and> os_Delay v < least)) \<and> leastPing_loop outbounds status least sel = sel"
proof (induction status arbitrary: least sel)
  case (Cons v status)
  show ?case
  proof (cases "os_OutboundTag v \<in> set outbounds \<and> os_Alive v \<and> os_Delay v < least")
    case True
    have step: "leastPing_loop outbounds (v # status) least sel = leastPing_loop outbounds status (os_Delay v) (os_OutboundTag v)" using True by simp
    from Cons.IH [of "os_Delay v" "os_OutboundTag v"] show ?thesis
    proof
      assume "\<exists>x \<in> set status. os_OutboundTag x \<in> set outbounds \<and> os_Alive x \<and> os_Delay x < os_Delay v
        \<and> leastPing_loop outbounds status (os_Delay v) (os_OutboundTag v) = os_OutboundTag x
        \<and> (\<forall>w \<in> set status. os_OutboundTag w \<in> set outbounds \<and> os_Alive w \<longrightarrow> os_Delay x \<le> os_Delay w)"
      then obtain x where x: "x \<in> set status" "os_OutboundTag x \<in> set outbounds" "os_Alive x" "os_Delay x < os_Delay v"
        "leastPing_loop outbounds status (os_Delay v) (os_OutboundTag v) = os_OutboundTag x"
        "\<forall>w \<in> set status. os_OutboundTag w \<in> set outbounds \<and> os_Alive w \<longrightarrow> os_Delay x \<le> os_Delay w" by blast
      show ?thesis by (rule disjI1, rule bexI [of _ x]) (use x True in \<open>simp_all add: step\<close>)
    next
      assume "(\<forall>x \<in> set status. \<not> (os_OutboundTag x \<in> set outbounds \<and> os_Alive x \<and> os_Delay x < os_Delay v))
        \<and> leastPing_loop outbounds status (os_Delay v) (os_OutboundTag v) = os_OutboundTag v"
      then show ?thesis using True by (intro disjI1 bexI [of _ v]) (auto simp: step not_less)
    qed
  next
    case False
    from Cons.IH [of least sel] show ?thesis using False by (auto simp: not_less)
  qed
qed simp

lemma Fallback_loop_first: "Fallback_loop status outbounds = (case find (\<lambda>c. \<exists>v \<in> set status. os_OutboundTag v = c \<and> os_Alive v) outbounds of Some t \<Rightarrow> t | None \<Rightarrow> [])"
  by (induction outbounds) auto

text \<open>A candidate counts as alive unless its last status says otherwise.\<close>

definition not_dead :: "OutboundStatus list \<Rightarrow> gostring \<Rightarrow> bool" where
  "not_dead status c \<longleftrightarrow> (case find (\<lambda>s. os_OutboundTag s = c) (rev status) of Some s \<Rightarrow> os_Alive s | None \<Rightarrow> True)"

lemma status_map_last: "foldl (\<lambda>m s. m(os_OutboundTag s \<mapsto> s)) Map.empty status c = find (\<lambda>s. os_OutboundTag s = c) (rev status)"
  by (induction status rule: rev_induct) auto

lemma alive_tags_filter: "alive_tags status candidates = filter (not_dead status) candidates"
proof -
  let ?f = "\<lambda>c. find (\<lambda>s. os_OutboundTag s = c) (rev status)"
  have "foldl (\<lambda>a c. case ?f c of Some s \<Rightarrow> if os_Alive s then a @ [c] else a | None \<Rightarrow> a @ [c]) acc candidates
      = acc @ filter (\<lambda>c. case ?f c of Some s \<Rightarrow> os_Alive s | None \<Rightarrow> True) candidates" for acc
    by (induction candidates arbitrary: acc) (auto split: option.splits)
  from this [of "[]"] show ?thesis unfolding alive_tags_def Let_def status_map_last not_dead_def [abs_def] append_Nil .
qed

subsection \<open>Least load\<close>

text \<open>
  What the comment of \<^verbatim>\<open>selectLeastLoad\<close> describes: all nodes below the first baseline that yields as many nodes as
  expected; if there is none, the expected number if one is configured, and nothing otherwise.
\<close>

definition below :: "node list \<Rightarrow> int \<Rightarrow> node list" where
  "below nodes b = filter (\<lambda>n. nd_RTTDeviationCost n < b) nodes"

definition least_load :: "LeastLoadConfig \<Rightarrow> node list \<Rightarrow> node list" where
  "least_load settings nodes =
     (let expected = nat (max 1 (ll_Expected settings)) in
      if ll_Baselines settings = [] \<or> ll_Expected settings > int (length nodes) then take expected nodes
      else case find (\<lambda>b. length (below nodes b) \<ge> expected) (ll_Baselines settings) of
             Some b \<Rightarrow> below nodes b
           | None \<Rightarrow> if ll_Expected settings > 0 then take expected nodes else [])"

lemma baseline_scan_takeWhile: "baseline_scan b nodes count = count + length (takeWhile (\<lambda>n. nd_RTTDeviationCost n < b) nodes)"
  by (induction nodes arbitrary: count) auto

lemma below_takeWhile:
  "sorted (map nd_RTTDeviationCost nodes) \<Longrightarrow> below nodes b = takeWhile (\<lambda>n. nd_RTTDeviationCost n < b) nodes"
proof (induction nodes)
  case (Cons n nodes)
  have "below nodes b = []" if "b \<le> nd_RTTDeviationCost n" using that Cons.prems by (force simp: below_def filter_empty_conv)
  then show ?case using Cons by (auto simp: below_def)
qed (simp add: below_def)

lemma scan_from:
  assumes "sorted (map nd_RTTDeviationCost nodes)" "count \<le> length nodes"
  shows "baseline_scan b (drop count nodes) count = max count (length (below nodes b))"
  using assms
proof (induction nodes arbitrary: count)
  case (Cons n nodes)
  show ?case
  proof (cases count)
    case 0
    then show ?thesis by (simp only: drop_0 baseline_scan_takeWhile below_takeWhile [OF Cons.prems(1)] add_0 max_0L)
  next
    case (Suc c)
    have s: "sorted (map nd_RTTDeviationCost nodes)" "c \<le> length nodes" using Cons.prems Suc by auto
    have ge: "\<forall>x \<in> set nodes. nd_RTTDeviationCost n \<le> nd_RTTDeviationCost x" using Cons.prems(1) by simp
    have "below nodes b = []" if "b \<le> nd_RTTDeviationCost n" using that ge by (force simp: below_def filter_empty_conv)
    then show ?thesis using Cons.IH [OF s] Suc by (auto simp: baseline_scan_takeWhile below_def)
  qed
qed (simp add: below_def)

lemma baselines_loop_find:
  assumes "sorted (map nd_RTTDeviationCost nodes)" "count < expected" "count \<le> length nodes"
  shows "case find (\<lambda>b. length (below nodes b) \<ge> expected) baselines of
      Some b \<Rightarrow> baselines_loop nodes expected baselines count = length (below nodes b)
    | None \<Rightarrow> baselines_loop nodes expected baselines count < expected"
  using assms(2,3)
proof (induction baselines arbitrary: count)
  case (Cons b baselines)
  note scan = scan_from [OF assms(1) Cons.prems(2), of b]
  have "length (below nodes b) \<le> length nodes" by (simp add: below_def)
  moreover have "baselines_loop nodes expected (b # baselines) count =
      (if max count (length (below nodes b)) \<ge> expected then max count (length (below nodes b)) else baselines_loop nodes expected baselines (max count (length (below nodes b))))"
    by (simp add: scan Let_def)
  ultimately show ?case using Cons.IH [of "max count (length (below nodes b))"] Cons.prems by (auto split: option.splits)
qed simp

lemma selectLeastLoad_spec:
  assumes "sorted (map nd_RTTDeviationCost nodes)"
  shows "selectLeastLoad settings nodes = least_load settings nodes"
proof (cases "nodes = [] \<or> ll_Expected settings > int (length nodes) \<or> ll_Baselines settings = []")
  case True
  have "find (\<lambda>b. Suc 0 \<le> length (below [] b)) bs = None" for bs by (induction bs) (auto simp: below_def)
  with True show ?thesis by (auto simp: selectLeastLoad_def least_load_def Let_def max_def split: option.splits)
next
  case False
  define e where "e = nat (max 1 (ll_Expected settings))"
  have e: "(if ll_Expected settings \<le> 0 then 1 else nat (ll_Expected settings)) = e" "0 < e" by (auto simp: e_def max_def)
  note loop = baselines_loop_find [OF assms e(2) le0, of "ll_Baselines settings"]
  have t: "take (length (below nodes b)) nodes = below nodes b" for b
    by (simp add: below_takeWhile [OF assms] takeWhile_eq_take [symmetric])
  have zero: "baselines_loop nodes e bs 0 = 0" if "find (\<lambda>b. e \<le> length (below nodes b)) bs = None" "\<not> ll_Expected settings > 0" for bs
    using baselines_loop_find [OF assms e(2) le0, of bs] that by (simp add: e_def max_def)
  have ge: "\<not> length (below nodes b) < e" if "find (\<lambda>b. e \<le> length (below nodes b)) bs = Some b" for b bs
    using that by (auto simp: find_Some_iff)
  show ?thesis using False loop zero ge unfolding selectLeastLoad_def least_load_def e_def [symmetric] Let_def e(1)
    by (auto simp: t split: option.splits)
qed

lemma getNodes_report:
  "\<exists>nodes. getNodes cost maxRTT (Report status) candidates = Inr nodes \<and> sorted (map nd_RTTDeviationCost nodes)
     \<and> set nodes = status_node cost ` {v \<in> set status. os_Alive v \<and> (os_Delay v < milliseconds maxRTT \<or> maxRTT = 0) \<and> os_OutboundTag v \<in> set candidates}"
proof -
  let ?P = "\<lambda>v. os_Alive v \<and> (os_Delay v < milliseconds maxRTT \<or> maxRTT = 0) \<and> os_OutboundTag v \<in> set candidates"
  have "foldl (\<lambda>ret v. if ?P v then ret @ [status_node cost v] else ret) acc status = acc @ map (status_node cost) (filter ?P status)" for acc
    by (induction status arbitrary: acc) auto
  from this [of "[]"] have g: "getNodes cost maxRTT (Report status) candidates = Inr (sort_key load_key (map (status_node cost) (filter ?P status)))"
    by (simp add: getNodes_def leastloadSort_def)
  have "sorted (map nd_RTTDeviationCost (sort_key load_key ns))" for ns
  proof -
    have "sorted (map load_key (sort_key load_key ns))" by (rule sorted_sort_key)
    then have "sorted (map fst (map load_key (sort_key load_key ns)))" by (rule sorted_map_mono) (auto simp: mono_on_def less_eq_prod_def)
    then show ?thesis by (simp add: load_key_def comp_def)
  qed
  then show ?thesis unfolding g by simp
qed

lemma status_node_Tag: "nd_Tag (status_node cost v) = os_OutboundTag v"
  by (simp add: status_node_def Let_def split: option.splits)

lemma least_load_subset: "set (least_load settings nodes) \<subseteq> set nodes"
  unfolding least_load_def Let_def below_def by (auto dest: in_set_takeD split: option.splits)

section \<open>What a balancer picks\<close>

text \<open>The choices that the strategies may make from the candidates under a report; the empty tag is no choice.\<close>

fun strategy_choice :: "balancer_env \<Rightarrow> OutboundStatus list \<Rightarrow> BalancingStrategy \<Rightarrow> gostring list \<Rightarrow> gostring \<Rightarrow> bool" where
  "strategy_choice env status (LeastPingStrategy sticky lastChoice) candidates t \<longleftrightarrow>
     (if \<exists>v \<in> set status. pingable candidates v
      then \<exists>v \<in> set status. pingable candidates v \<and> t = os_OutboundTag v \<and> (\<forall>w \<in> set status. pingable candidates w \<longrightarrow> os_Delay v \<le> os_Delay w)
      else t = (if sticky then lastChoice else []))"
| "strategy_choice env status FallbackStrategy candidates t \<longleftrightarrow>
     (case find (\<lambda>c. \<exists>v \<in> set status. os_OutboundTag v = c \<and> os_Alive v) candidates of Some c \<Rightarrow> t = c | None \<Rightarrow> t = [])"
| "strategy_choice env status (LeastLoadStrategy settings) candidates t \<longleftrightarrow>
     (\<exists>nodes. getNodes (be_cost env) (ll_MaxRTT settings) (Report status) candidates = Inr nodes \<and>
        (if least_load settings nodes = [] then t = [] else t \<in> nd_Tag ` set (least_load settings nodes)))"
| "strategy_choice env status (RandomStrategy aliveOnly) candidates t \<longleftrightarrow>
     (let cs = (if aliveOnly = Some True then filter (not_dead status) candidates else candidates) in if cs = [] then t = [] else t \<in> set cs)"

lemma Roll_less: "\<forall>n > 0. Intn n < n \<Longrightarrow> n > 0 \<Longrightarrow> Roll Intn n < n"
  by (simp add: Roll_def)

lemma LeastPing_choice:
  assumes "[] \<notin> set candidates"
  shows "\<exists>t. LeastPing_PickOutbound sticky (Report status) lastChoice candidates = Inr (t, t) \<and> strategy_choice env status (LeastPingStrategy sticky lastChoice) candidates t"
  using leastPing_loop_least [of status candidates 99999999 "[]"]
proof
  assume "\<exists>v \<in> set status. os_OutboundTag v \<in> set candidates \<and> os_Alive v \<and> os_Delay v < 99999999 \<and> leastPing_loop candidates status 99999999 [] = os_OutboundTag v
      \<and> (\<forall>w \<in> set status. os_OutboundTag w \<in> set candidates \<and> os_Alive w \<longrightarrow> os_Delay v \<le> os_Delay w)"
  then obtain v where v: "v \<in> set status" "pingable candidates v" "leastPing_loop candidates status 99999999 [] = os_OutboundTag v"
    "\<forall>w \<in> set status. pingable candidates w \<longrightarrow> os_Delay v \<le> os_Delay w" unfolding pingable_def by blast
  then have "os_OutboundTag v \<noteq> []" using assms by (auto simp: pingable_def)
  then have "LeastPing_PickOutbound sticky (Report status) lastChoice candidates = Inr (os_OutboundTag v, os_OutboundTag v)"
    by (simp add: LeastPing_PickOutbound_def v(3) Let_def)
  then show ?thesis using v(1,2,4) by auto
next
  assume "(\<forall>v \<in> set status. \<not> (os_OutboundTag v \<in> set candidates \<and> os_Alive v \<and> os_Delay v < 99999999)) \<and> leastPing_loop candidates status 99999999 [] = []"
  then show ?thesis by (auto simp: LeastPing_PickOutbound_def pingable_def Let_def)
qed

lemma Strategy_choice:
  assumes "\<forall>n > 0. be_Intn env n < n" "be_obs env = Report status" "[] \<notin> set candidates"
  shows "\<exists>t s'. Strategy_PickOutbound env s candidates = Inr (t, s') \<and> strategy_choice env status s candidates t"
proof (cases s)
  case (LeastPingStrategy sticky last)
  then show ?thesis using LeastPing_choice [OF assms(3), of sticky status last env] assms(2) by (auto simp: Strategy_PickOutbound_def simp del: strategy_choice.simps)
next
  case FallbackStrategy
  then show ?thesis using assms(2) by (auto simp: Strategy_PickOutbound_def Fallback_PickOutbound_def Fallback_loop_first split: option.splits)
next
  case (LeastLoadStrategy settings)
  obtain nodes where n: "getNodes (be_cost env) (ll_MaxRTT settings) (Report status) candidates = Inr nodes" "sorted (map nd_RTTDeviationCost nodes)"
    using getNodes_report by blast
  let ?l = "least_load settings nodes"
  have "?l ! Roll (be_Intn env) (length ?l) \<in> set ?l" if "?l \<noteq> []" using Roll_less [OF assms(1)] that by simp
  then show ?thesis using LeastLoadStrategy n assms(2)
    by (simp add: Strategy_PickOutbound_def LeastLoad_PickOutbound_def selectLeastLoad_spec Let_def)
next
  case (RandomStrategy aliveOnly)
  have "cs ! Roll (be_Intn env) (length cs) \<in> set cs" if "cs \<noteq> []" for cs :: "gostring list" using Roll_less [OF assms(1)] that by simp
  then show ?thesis using RandomStrategy assms(2)
    by (auto simp: Strategy_PickOutbound_def Random_PickOutbound_def alive_tags_filter Let_def simp del: set_filter)
qed

lemma strategy_choice_candidate:
  assumes "strategy_choice env status s candidates t" "t \<noteq> []"
  shows "t \<in> set candidates \<or> s = LeastPingStrategy True t"
proof (cases s)
  case (LeastLoadStrategy settings)
  then obtain nodes where n: "getNodes (be_cost env) (ll_MaxRTT settings) (Report status) candidates = Inr nodes" "t \<in> nd_Tag ` set nodes"
    using assms least_load_subset by (fastforce split: if_splits)
  then show ?thesis using getNodes_report [of "be_cost env" "ll_MaxRTT settings" status candidates] by (auto simp: status_node_Tag)
qed (use assms in \<open>auto simp: pingable_def find_Some_iff Let_def split: if_splits option.splits\<close>)

section \<open>Properties\<close>

text \<open>
  C26: Every manager that calls of \<^verbatim>\<open>Start\<close>, \<^verbatim>\<open>Close\<close>, \<^verbatim>\<open>AddHandler\<close> and \<^verbatim>\<open>RemoveHandler\<close> can reach files each tagged handler under
  its own tag and no other, its default handler (if any) is one of its registered handlers, and while it runs every registered handler has been
  started. On such a manager \<^verbatim>\<open>AddHandler\<close> makes a tagged handler the one that \<^verbatim>\<open>GetHandler\<close> finds and changes no other tag;
  \<^verbatim>\<open>RemoveHandler\<close> succeeds exactly for the tags that are present, and then that tag and no other is gone.
\<close>

theorem outbound_manager_registry:
  assumes "(manager_step close)\<^sup>*\<^sup>* Manager_New m"
  shows "(\<forall>t h. GetHandler m t = Some h \<longrightarrow> h_Tag h = t \<and> t \<noteq> [])
    \<and> (\<forall>dh. GetDefaultHandler m = Some dh \<longrightarrow> dh \<in> registered m) \<and> (om_running m \<longrightarrow> registered m \<subseteq> set (om_started m))
    \<and> (\<forall>h t. GetHandler (snd (AddHandler start h m)) t = (if t = h_Tag h \<and> t \<noteq> [] then Some h else GetHandler m t))
    \<and> (\<forall>tag. (fst (RemoveHandler tag m) = None \<longleftrightarrow> GetHandler m tag \<noteq> None)
        \<and> (\<forall>t. GetHandler (snd (RemoveHandler tag m)) t = (if t = tag then None else GetHandler m t)))"
proof -
  have i: "manager_inv m" by (rule manager_reachable_inv [OF assms])
  have g: "\<forall>t h. GetHandler m t = Some h \<longrightarrow> h_Tag h = t \<and> t \<noteq> []" using i by (simp add: manager_inv_map)
  have rm: "(fst (RemoveHandler tag m) = None \<longleftrightarrow> GetHandler m tag \<noteq> None) \<and> (\<forall>t. GetHandler (snd (RemoveHandler tag m)) t = (if t = tag then None else GetHandler m t))" for tag
  proof -
    obtain err m' where e: "RemoveHandler tag m = (err, m')" by fastforce
    note eff = RemoveHandler_effect [OF e]
    have "GetHandler m [] = None" using g by (cases "GetHandler m []") auto
    then show ?thesis using eff(1-3) unfolding e by (cases "err = None") auto
  qed
  have "\<forall>h t. GetHandler (snd (AddHandler start h m)) t = (if t = h_Tag h \<and> t \<noteq> [] then Some h else GetHandler m t)"
    using AddHandler_effect(1) by (metis prod.collapse)
  then show ?thesis using i g rm unfolding manager_inv_def GetDefaultHandler_def by blast
qed

theorem outbound_manager_registry_witness:
  "GetHandler (snd (AddHandler (\<lambda>h. None) \<lparr>h_id = 1, h_Tag = [1]\<rparr> (snd (Manager_Start (\<lambda>h. None) Manager_New)))) [1] = Some \<lparr>h_id = 1, h_Tag = [1]\<rparr>"
proof -
  have "(manager_step (\<lambda>h. None))\<^sup>*\<^sup>* Manager_New (snd (Manager_Start (\<lambda>h. None) Manager_New))" using manager_step.start by blast
  from outbound_manager_registry [OF this, of "\<lambda>h. None"] show ?thesis by simp
qed

text \<open>
  C8: When the observatory reports, a balancer always comes to a decision. An override wins. Otherwise the strategy decides: least ping
  takes an observed candidate with the least delay, fallback the first candidate that is alive, least load one of the least loaded nodes, random
  one of the candidates (of those not known to be dead). If it makes no choice, the fallback tag is taken, and without one the first candidate. The
  tag is never empty, and unless it is the override, the fallback tag or least ping's sticky last choice, it is the tag of a registered handler that
  one of the selectors selects. The balancer fails only if it has no override and no fallback tag and no handler is selected.
\<close>

theorem balancer_picks:
  assumes "\<forall>n > 0. be_Intn env n < n" "be_ohm env = Some m" "manager_inv m" "be_obs env = Report status"
  shows "\<exists>r s'. PickOutbound env b = Inr (r, b\<lparr>b_strategy := s'\<rparr>) \<and>
    (case r of
       Inl e \<Rightarrow> b_override b = [] \<and> b_fallbackTag b = [] \<and> (\<forall>t. GetHandler m t \<noteq> None \<longrightarrow> \<not> (\<exists>p \<in> set (b_selectors b). prefix p t))
     | Inr t \<Rightarrow> t \<noteq> [] \<and>
         (if b_override b \<noteq> [] then t = b_override b
          else \<exists>c. strategy_choice env status (b_strategy b) (Manager_Select m (b_selectors b)) c
             \<and> t = (if c \<noteq> [] then c else if b_fallbackTag b \<noteq> [] then b_fallbackTag b else hd (Manager_Select m (b_selectors b))))
         \<and> (t = b_override b \<or> t = b_fallbackTag b \<or> b_strategy b = LeastPingStrategy True t
            \<or> GetHandler m t \<noteq> None \<and> (\<exists>p \<in> set (b_selectors b). prefix p t)))"
proof (cases "b_override b = []")
  case False
  then show ?thesis using assms(2)
    by (intro exI [of _ "Inr (b_override b)"] exI [of _ "b_strategy b"]) (simp add: PickOutbound_def SelectOutbounds_def Let_def)
next
  case True
  let ?cs = "Manager_Select m (b_selectors b)"
  note sel = Manager_Select_set [OF assms(3), where selectors = "b_selectors b"]
  obtain c s' where c: "Strategy_PickOutbound env (b_strategy b) ?cs = Inr (c, s')" "strategy_choice env status (b_strategy b) ?cs c"
    using Strategy_choice [OF assms(1,4) sel(2)] by blast
  have pick: "PickOutbound env b = Inr (if c = [] then if b_fallbackTag b \<noteq> [] then Inr (b_fallbackTag b)
      else if ?cs = [] then Inl (NewError ''balancing strategy returns empty tag'') else Inr (?cs ! 0) else Inr c, b\<lparr>b_strategy := s'\<rparr>)"
    by (simp add: PickOutbound_def SelectOutbounds_def assms(2) True c(1) Let_def)
  have hd: "hd ?cs \<in> set ?cs" if "?cs \<noteq> []" using that by simp
  have none: "?cs = [] \<Longrightarrow> GetHandler m t \<noteq> None \<Longrightarrow> \<not> (\<exists>p \<in> set (b_selectors b). prefix p t)" for t using sel(1) [of t] by auto
  have cand: "c \<noteq> [] \<Longrightarrow> c \<in> set ?cs \<or> b_strategy b = LeastPingStrategy True c" by (rule strategy_choice_candidate [OF c(2)])
  consider "c \<noteq> []" | "c = []" "b_fallbackTag b \<noteq> []" | "c = []" "b_fallbackTag b = []" "?cs = []" | "c = []" "b_fallbackTag b = []" "?cs \<noteq> []" by blast
  then show ?thesis
  proof cases
    case 1
    then show ?thesis unfolding pick using True c(2) cand sel(1) [of c] by (intro exI [of _ "Inr c"] exI [of _ s']) auto
  next
    case 2
    then show ?thesis unfolding pick using True c(2) by (intro exI [of _ "Inr (b_fallbackTag b)"] exI [of _ s']) auto
  next
    case 3
    then show ?thesis unfolding pick using True none by (intro exI [of _ "Inl _"] exI [of _ s']) auto
  next
    case 4
    have "hd ?cs \<noteq> []" using hd [OF 4(3)] sel(2) by metis
    then show ?thesis unfolding pick using 4 True c(2) sel(1) [of "hd ?cs"] hd [OF 4(3)]
      by (intro exI [of _ "Inr (hd ?cs)"] exI [of _ s']) (auto simp: hd_conv_nth)
  qed
qed

theorem balancer_picks_witness:
  "\<exists>t b'. PickOutbound \<lparr>be_Intn = \<lambda>n. 0, be_cost = \<lambda>tag v. v, be_obs = Report [],
        be_ohm = Some (snd (AddHandler (\<lambda>h. None) \<lparr>h_id = 1, h_Tag = [1]\<rparr> Manager_New))\<rparr>
      \<lparr>b_selectors = [[1]], b_strategy = LeastPingStrategy False [], b_fallbackTag = [2], b_override = []\<rparr> = Inr (Inr t, b') \<and> t \<noteq> []"
proof -
  let ?m = "snd (AddHandler (\<lambda>h. None) \<lparr>h_id = 1, h_Tag = [1]\<rparr> Manager_New)"
  let ?env = "\<lparr>be_Intn = \<lambda>n. 0, be_cost = \<lambda>tag v. v, be_obs = Report [], be_ohm = Some ?m\<rparr>"
  let ?b = "\<lparr>b_selectors = [[1]], b_strategy = LeastPingStrategy False [], b_fallbackTag = [2], b_override = []\<rparr>"
  have "manager_inv Manager_New" by (simp add: manager_inv_def Manager_New_def registered_def)
  then have inv: "manager_inv ?m" by (rule AddHandler_inv)
  show ?thesis using balancer_picks [of ?env ?m "[]" ?b] inv unfolding split_sum_ex by auto
qed

text \<open>
  C25: \<^verbatim>\<open>selectLeastLoad\<close> selects what its comment says. The qualified nodes are the observed candidates that are alive and within the
  maximal round trip, in the order of their weighted deviation. Without baselines the first \<^verbatim>\<open>Expected\<close> of them are taken (at least one); with baselines, all
  nodes below the first baseline that has the expected number of nodes below it, and if there is none the expected number, or no node if none is expected.
\<close>

theorem least_load_selects:
  "\<exists>nodes. getNodes cost (ll_MaxRTT settings) (Report status) candidates = Inr nodes
     \<and> set nodes = status_node cost ` {v \<in> set status. os_Alive v \<and> (os_Delay v < milliseconds (ll_MaxRTT settings) \<or> ll_MaxRTT settings = 0) \<and> os_OutboundTag v \<in> set candidates}
     \<and> sorted (map nd_RTTDeviationCost nodes) \<and> selectLeastLoad settings nodes = least_load settings nodes"
  using getNodes_report [of cost "ll_MaxRTT settings" status candidates] selectLeastLoad_spec by blast

end
