(* ===== verification/Router.thy ===== *)
theory Router
  imports RouterCond Balancing "HOL-Library.AList"
begin

text \<open>
  The router, \<^verbatim>\<open>app/router/router.go\<close> with \<^verbatim>\<open>Rule\<close> of \<^verbatim>\<open>config.go\<close>: its construction from a configuration, the choice of
  a route, and its shutdown. The rules of a router refer to its balancers by tag, as they share the balancers of \<^verbatim>\<open>r.balancers\<close>.
\<close>

section \<open>Construction\<close>

datatype DomainStrategy = AsIs | UseIp | IpIfNonMatch | IpOnDemand

record 's Rule =
  ru_Tag :: gostring
  ru_Balancer :: "gostring option"
  ru_Condition :: "'s ConditionChan"
  ru_SetAttributes :: "SetAttribute option list"

record 's Router =
  r_domainStrategy :: DomainStrategy
  r_rules :: "'s Rule list"
  r_balancers :: "gostring \<rightharpoonup> Balancer"
  r_closed :: bool

record router_Config =
  cf_DomainStrategy :: DomainStrategy
  cf_Rule :: "RoutingRule list"
  cf_BalancingRule :: "BalancingRule list"

fun RoutingRule_GetTag :: "TargetTag \<Rightarrow> gostring" where
  "RoutingRule_GetTag (RoutingRule_Tag t) = t"
| "RoutingRule_GetTag _ = []"

fun RoutingRule_GetBalancingTag :: "TargetTag \<Rightarrow> gostring" where
  "RoutingRule_GetBalancingTag (RoutingRule_BalancingTag t) = t"
| "RoutingRule_GetBalancingTag _ = []"

fun Init_balancers :: "BalancingRule list \<Rightarrow> (gostring \<rightharpoonup> Balancer) \<Rightarrow> (gostring \<rightharpoonup> Balancer) result" where
  "Init_balancers [] balancers = Inr balancers"
| "Init_balancers (rule # rules) balancers = bind_res (BalancingRule_Build rule) (\<lambda>balancer. Init_balancers rules (balancers(br_Tag rule \<mapsto> balancer)))"

fun Init_rules :: "('s, 'z) router_env_scheme \<Rightarrow> (gostring \<rightharpoonup> Balancer) \<Rightarrow> 's GeoIPMatcher list \<Rightarrow> RoutingRule list \<Rightarrow> 's Rule list
    \<Rightarrow> ('s Rule list \<times> 's GeoIPMatcher list) result option" where
  "Init_rules env balancers container [] rules = Some (Inr (rules, container))"
| "Init_rules env balancers container (rule # rest) rules =
     bind_ro (BuildCondition env container rule) (\<lambda>(cond, container).
       let rr = \<lparr>ru_Tag = RoutingRule_GetTag (rr_TargetTag rule), ru_Balancer = None, ru_Condition = cond, ru_SetAttributes = rr_SetAttribute rule\<rparr>;
           btag = RoutingRule_GetBalancingTag (rr_TargetTag rule)
       in if length btag > 0 then
            (if balancers btag = None then Some (Inl (NewError ''balancer not found''))
             else Init_rules env balancers container rest (rules @ [rr\<lparr>ru_Balancer := Some btag\<rparr>]))
          else Init_rules env balancers container rest (rules @ [rr]))"

definition Router_Init :: "('s, 'z) router_env_scheme \<Rightarrow> 's GeoIPMatcher list \<Rightarrow> router_Config \<Rightarrow> ('s Router \<times> 's GeoIPMatcher list) result option" where
  "Router_Init env container config =
     bind_ro (Some (Init_balancers (cf_BalancingRule config) Map.empty)) (\<lambda>balancers.
     bind_ro (Init_rules env balancers container (cf_Rule config) []) (\<lambda>(rules, container).
       Some (Inr (\<lparr>r_domainStrategy = cf_DomainStrategy config, r_rules = rules, r_balancers = balancers, r_closed = False\<rparr>, container))))"

section \<open>Picking a route\<close>

definition ErrNoRuleMatched :: go_error where
  "ErrNoRuleMatched = NewError ''no rule matched''"

definition Rule_Apply :: "('s, 'z) router_env_scheme \<Rightarrow> 'd dns_client \<Rightarrow> 's Rule \<Rightarrow> routing_Context \<Rightarrow> 'd \<Rightarrow> (bool \<times> routing_Context \<times> 'd) result" where
  "Rule_Apply env LookupIP r ctx d = ConditionChan_Apply env LookupIP (ru_Condition r) ctx d"

text \<open>The loop over the rules: the first rule that applies.\<close>

fun apply_rules :: "('s, 'z) router_env_scheme \<Rightarrow> 'd dns_client \<Rightarrow> 's Rule list \<Rightarrow> routing_Context \<Rightarrow> 'd \<Rightarrow> ('s Rule option \<times> routing_Context \<times> 'd) result" where
  "apply_rules env LookupIP [] ctx d = Inr (None, ctx, d)"
| "apply_rules env LookupIP (rule # rules) ctx d =
     bind_res (Rule_Apply env LookupIP rule ctx d) (\<lambda>(ok, ctx, d).
       if ok then Inr (Some rule, ctx, d) else apply_rules env LookupIP rules ctx d)"

text \<open>The outer result is a panic; the inner one is what the function returns. The bookkeeping of the tasks is the subject of the last section.\<close>

definition pickRouteInternal :: "('s, 'z) router_env_scheme \<Rightarrow> 'd dns_client \<Rightarrow> 's Router \<Rightarrow> routing_Context \<Rightarrow> 'd
    \<Rightarrow> (('s Rule \<times> routing_Context) result \<times> 'd) result" where
  "pickRouteInternal env LookupIP r ctx d =
     (if r_closed r then Inr (Inl (NewError ''router closed''), d)
      else
        let skipDNSResolve = GetSkipDNSResolve (session_of ctx);
            ctx = (if r_domainStrategy r = IpOnDemand \<and> \<not> skipDNSResolve then ContextWithDNSClient ctx else ctx)
        in bind_res (apply_rules env LookupIP (r_rules r) ctx d) (\<lambda>(rule, ctx, d).
             case rule of
               Some rule \<Rightarrow> Inr (Inr (rule, ctx), d)
             | None \<Rightarrow>
                 if r_domainStrategy r \<noteq> IpIfNonMatch then Inr (Inl ErrNoRuleMatched, d)
                 else bind_res (GetTargetDomain (session_of ctx)) (\<lambda>domain.
                   if length domain = 0 \<or> skipDNSResolve then Inr (Inl ErrNoRuleMatched, d)
                   else bind_res (apply_rules env LookupIP (r_rules r) (ContextWithDNSClient ctx) d) (\<lambda>(rule, ctx, d).
                     case rule of
                       Some rule \<Rightarrow> Inr (Inr (rule, ctx), d)
                     | None \<Rightarrow> Inr (Inl ErrNoRuleMatched, d)))))"

text \<open>A rule with a balancer asks it for a tag; the balancer may change its state.\<close>

definition Rule_GetTag :: "balancer_env \<Rightarrow> 's Rule \<Rightarrow> (gostring \<rightharpoonup> Balancer) \<Rightarrow> (gostring result \<times> (gostring \<rightharpoonup> Balancer)) result" where
  "Rule_GetTag benv r balancers =
     (case ru_Balancer r of
        None \<Rightarrow> Inr (Inr (ru_Tag r), balancers)
      | Some btag \<Rightarrow>
          (case balancers btag of
             None \<Rightarrow> Inl Panic
           | Some b \<Rightarrow> bind_res (PickOutbound benv b) (\<lambda>(tag, b). Inr (tag, balancers(btag \<mapsto> b)))))"

record Route =
  rt_Context :: routing_Context
  rt_outboundTag :: gostring
  rt_sessionAttributes :: "(gostring \<times> gostring) list option"

text \<open>\<^verbatim>\<open>m[key] = value\<close> on a map kept as a list with distinct keys.\<close>

definition attr_put :: "(gostring \<times> gostring) list \<Rightarrow> SetAttribute option \<Rightarrow> (gostring \<times> gostring) list" where
  "attr_put m attr = (case attr of None \<Rightarrow> m | Some a \<Rightarrow> if sa_Key a = [] then m else AList.update (sa_Key a) (sa_Value a) m)"

definition PickRoute :: "('s, 'z) router_env_scheme \<Rightarrow> 'd dns_client \<Rightarrow> balancer_env \<Rightarrow> 's Router \<Rightarrow> routing_Context \<Rightarrow> 'd
    \<Rightarrow> (Route result \<times> 's Router \<times> 'd) result" where
  "PickRoute env LookupIP benv r ctx d =
     bind_res (pickRouteInternal env LookupIP r ctx d) (\<lambda>(picked, d).
     case picked of
       Inl err \<Rightarrow> Inr (Inl err, r, d)
     | Inr (rule, ctx) \<Rightarrow>
         bind_res (Rule_GetTag benv rule (r_balancers r)) (\<lambda>(tag, balancers).
         let r = r\<lparr>r_balancers := balancers\<rparr> in
         case tag of
           Inl err \<Rightarrow> Inr (Inl err, r, d)
         | Inr tag \<Rightarrow>
             let route = \<lparr>rt_Context = ctx, rt_outboundTag = tag, rt_sessionAttributes = None\<rparr>;
                 route = (if length (ru_SetAttributes rule) > 0 then
                            let attrs = foldl attr_put [] (ru_SetAttributes rule)
                            in route\<lparr>rt_sessionAttributes := if length attrs = 0 then None else Some attrs\<rparr>
                          else route)
             in Inr (Inr route, r, d)))"

definition GetOutboundTag :: "Route \<Rightarrow> gostring" where
  "GetOutboundTag r = rt_outboundTag r"

definition GetSessionAttributes :: "Route option \<Rightarrow> (gostring \<times> gostring) list option" where
  "GetSessionAttributes r =
     (case r of
        None \<Rightarrow> None
      | Some r \<Rightarrow> (case rt_sessionAttributes r of
                     None \<Rightarrow> None
                   | Some m \<Rightarrow> if length m = 0 then None else Some (foldl (\<lambda>out (key, value). AList.update key value out) [] m)))"

section \<open>The first rule that holds\<close>

text \<open>
  What a configuration asks for: the first rule that holds. With \<open>IpOnDemand\<close> a rule sees the resolved addresses; with
  \<open>IpIfNonMatch\<close> the rules are tried a second time with them.
\<close>

definition first_rule :: "DomainStrategy \<Rightarrow> (gostring \<Rightarrow> IP list result) \<Rightarrow> Context \<Rightarrow> (IP list \<Rightarrow> 'r \<Rightarrow> bool) \<Rightarrow> 'r list \<Rightarrow> 'r option" where
  "first_rule strategy answer c holds rules =
     (let ips = (if strategy = IpOnDemand \<and> \<not> GetSkipDNSResolve c then resolved_ips answer c else base_ips c) in
      case find (holds ips) rules of
        Some r \<Rightarrow> Some r
      | None \<Rightarrow>
          if strategy = IpIfNonMatch \<and> target_domain c \<noteq> [] \<and> \<not> GetSkipDNSResolve c then find (holds (resolved_ips answer c)) rules
          else None)"

lemma apply_rules_law:
  assumes "ctx_ok c" "ctx_for answer c ctx ips" "stable_dns LookupIP answer" "list_all (\<lambda>r. list_all cond_wf (ru_Condition r)) rules"
  shows "\<exists>ctx' d'. apply_rules env LookupIP rules ctx d = Inr (find (\<lambda>r. list_all (cond_holds env c ips) (ru_Condition r)) rules, ctx', d') \<and> ctx_for answer c ctx' ips"
  using assms(2,4)
proof (induction rules arbitrary: ctx d)
  case (Cons r rules)
  obtain ctx1 d1 where 1: "ConditionChan_Apply env LookupIP (ru_Condition r) ctx d = Inr (list_all (cond_holds env c ips) (ru_Condition r), ctx1, d1)" "ctx_for answer c ctx1 ips"
    using ConditionChan_Apply_law [OF assms(1) Cons.prems(1) assms(3)] Cons.prems(2) by fastforce
  then show ?case using Cons.IH [OF 1(2), of d1] Cons.prems(2) by (auto simp: Rule_Apply_def)
qed auto

text \<open>A context without a DNS client stays as it is.\<close>

lemma map_sum_Inr: "map_sum id f r = Inr y \<Longrightarrow> \<exists>x. r = Inr x \<and> y = f x"
  by (cases r) auto

lemma Condition_Apply_session: "Condition_Apply env LookupIP cond (SessionContext c) d = Inr (x, ctx', d') \<Longrightarrow> ctx' = SessionContext c"
  by (cases cond) (auto simp: bind_res_def Let_def split: sum.splits if_splits dest!: map_sum_Inr)

lemma ConditionChan_Apply_session: "ConditionChan_Apply env LookupIP conds (SessionContext c) d = Inr (x, ctx', d') \<Longrightarrow> ctx' = SessionContext c"
proof (induction conds arbitrary: d)
  case (Cons cond conds)
  then obtain ok ctx1 d1 where 1: "Condition_Apply env LookupIP cond (SessionContext c) d = Inr (ok, ctx1, d1)" by (auto simp: bind_res_def split: sum.splits)
  with Condition_Apply_session [OF 1] Cons show ?case by (auto split: if_splits)
qed simp

lemma apply_rules_session: "apply_rules env LookupIP rules (SessionContext c) d = Inr (x, ctx', d') \<Longrightarrow> ctx' = SessionContext c"
proof (induction rules arbitrary: d)
  case (Cons rule rules)
  then obtain ok ctx1 d1 where 1: "ConditionChan_Apply env LookupIP (ru_Condition rule) (SessionContext c) d = Inr (ok, ctx1, d1)"
    by (auto simp: bind_res_def Rule_Apply_def split: sum.splits)
  with ConditionChan_Apply_session [OF 1] Cons show ?case by (auto simp: Rule_Apply_def split: if_splits)
qed simp

lemma pickRouteInternal_law:
  assumes "ctx_ok c" "stable_dns LookupIP answer" "list_all (\<lambda>r. list_all cond_wf (ru_Condition r)) (r_rules r)" "\<not> r_closed r"
  shows "\<exists>ctx' d'. pickRouteInternal env LookupIP r (SessionContext c) d =
    Inr (case first_rule (r_domainStrategy r) answer c (\<lambda>ips rule. list_all (cond_holds env c ips) (ru_Condition rule)) (r_rules r) of
           Some rule \<Rightarrow> Inr (rule, ctx') | None \<Rightarrow> Inl ErrNoRuleMatched, d')"
proof -
  let ?on = "r_domainStrategy r = IpOnDemand \<and> \<not> GetSkipDNSResolve c"
  let ?ctx = "if ?on then ContextWithDNSClient (SessionContext c) else SessionContext c"
  let ?ips = "if ?on then resolved_ips answer c else base_ips c"
  let ?P = "\<lambda>ips rule. list_all (cond_holds env c ips) (ru_Condition rule)"
  have "ctx_for answer c ?ctx ?ips" using ctx_for.intros [of answer c] by (simp add: ContextWithDNSClient_def)
  from apply_rules_law [OF assms(1) this assms(2,3)] obtain ctx1 d1 where
    1: "apply_rules env LookupIP (r_rules r) ?ctx d = Inr (find (?P ?ips) (r_rules r), ctx1, d1)" "ctx_for answer c ctx1 ?ips" by blast
  note s1 = session_of_ctx_for [OF 1(2)]
  show ?thesis
  proof (cases "find (?P ?ips) (r_rules r)")
    case (Some rule)
    then show ?thesis using 1 assms(4) by (auto simp: pickRouteInternal_def first_rule_def Let_def)
  next
    case None
    show ?thesis
    proof (cases "r_domainStrategy r = IpIfNonMatch \<and> target_domain c \<noteq> [] \<and> \<not> GetSkipDNSResolve c")
      case False
      then show ?thesis using 1 None assms(4) s1 getters(3) [OF assms(1)] by (auto simp: pickRouteInternal_def first_rule_def Let_def)
    next
      case True
      then have "ctx1 = SessionContext c" using 1(1) apply_rules_session by simp
      moreover obtain ctx2 d2 where
        "apply_rules env LookupIP (r_rules r) (ResolvableContext (SessionContext c) []) d1 = Inr (find (?P (resolved_ips answer c)) (r_rules r), ctx2, d2)"
        using apply_rules_law [OF assms(1) ctx_for.resolving assms(2,3)] by blast
      ultimately show ?thesis using True 1 None assms(4) getters(3) [OF assms(1)]
        by (auto simp: pickRouteInternal_def first_rule_def Let_def ContextWithDNSClient_def split: option.splits)
    qed
  qed
qed

section \<open>A configured router\<close>

definition rule_built :: "('s, 'z) router_env_scheme \<Rightarrow> RoutingRule \<Rightarrow> 's Rule \<Rightarrow> bool" where
  "rule_built env rr rule \<longleftrightarrow>
     ru_Tag rule = RoutingRule_GetTag (rr_TargetTag rr) \<and> ru_SetAttributes rule = rr_SetAttribute rr
     \<and> ru_Balancer rule = (let btag = RoutingRule_GetBalancingTag (rr_TargetTag rr) in if btag = [] then None else Some btag)
     \<and> list_all cond_wf (ru_Condition rule)
     \<and> (\<forall>c ips. list_all canonical (ToLower (re_unicode env) (target_domain c)) \<longrightarrow> (list_all (cond_holds env c ips) (ru_Condition rule) \<longleftrightarrow> rule_holds env c ips rr))"

definition rules_ok :: "('s, 'z) router_env_scheme \<Rightarrow> (gostring \<Rightarrow> CIDR list) \<Rightarrow> (gostring \<rightharpoonup> Balancer) \<Rightarrow> RoutingRule list \<Rightarrow> bool" where
  "rules_ok env G balancers rules \<longleftrightarrow>
     list_all (\<lambda>rr. rule_ok env G rr \<and> \<not> rule_empty rr \<and> (RoutingRule_GetBalancingTag (rr_TargetTag rr) = [] \<or> balancers (RoutingRule_GetBalancingTag (rr_TargetTag rr)) \<noteq> None)) rules"

definition no_context :: Context where
  "no_context = \<lparr>cx_Inbound = None, cx_Outbound = None, cx_Content = None\<rparr>"

lemma BuildCondition_built:
  assumes "container_ok env G container" "rule_ok env G rr" "\<not> rule_empty rr"
  shows "\<exists>conds container'. BuildCondition env container rr = Some (Inr (conds, container')) \<and> container_ok env G container' \<and> list_all cond_wf conds
    \<and> (\<forall>c ips. list_all canonical (ToLower (re_unicode env) (target_domain c)) \<longrightarrow> (list_all (cond_holds env c ips) conds \<longleftrightarrow> rule_holds env c ips rr))"
proof -
  have "list_all canonical (ToLower (re_unicode env) (target_domain no_context))"
    by (simp add: target_domain_def GetTargetDomain_def no_context_def ToLower_def)
  with BuildCondition_law [OF assms(1,2), of no_context "[]"] assms(3) obtain conds container' where
    b: "BuildCondition env container rr = Some (Inr (conds, container'))" "container_ok env G container'" "list_all cond_wf conds" by auto
  have "list_all (cond_holds env c ips) conds \<longleftrightarrow> rule_holds env c ips rr" if "list_all canonical (ToLower (re_unicode env) (target_domain c))" for c ips
    using BuildCondition_law [OF assms(1,2) that, of ips] assms(3) b(1) by simp
  with b show ?thesis by blast
qed

lemma Init_rules_law:
  assumes "container_ok env G container" "rules_ok env G balancers rules"
  shows "\<exists>brules container'. Init_rules env balancers container rules acc = Some (Inr (acc @ brules, container')) \<and> container_ok env G container'
    \<and> list_all2 (rule_built env) rules brules"
  using assms
proof (induction rules arbitrary: container acc)
  case (Cons rr rules)
  then have ok: "rule_ok env G rr" "\<not> rule_empty rr" "RoutingRule_GetBalancingTag (rr_TargetTag rr) = [] \<or> balancers (RoutingRule_GetBalancingTag (rr_TargetTag rr)) \<noteq> None" "rules_ok env G balancers rules"
    by (simp_all add: rules_ok_def)
  obtain conds container' where b: "BuildCondition env container rr = Some (Inr (conds, container'))" "container_ok env G container'" "list_all cond_wf conds"
    "\<forall>c ips. list_all canonical (ToLower (re_unicode env) (target_domain c)) \<longrightarrow> (list_all (cond_holds env c ips) conds \<longleftrightarrow> rule_holds env c ips rr)"
    using BuildCondition_built [OF Cons.prems(1) ok(1,2)] by blast
  let ?btag = "RoutingRule_GetBalancingTag (rr_TargetTag rr)"
  let ?rule = "\<lparr>ru_Tag = RoutingRule_GetTag (rr_TargetTag rr), ru_Balancer = (if ?btag = [] then None else Some ?btag), ru_Condition = conds, ru_SetAttributes = rr_SetAttribute rr\<rparr>"
  obtain brules c2 where i: "Init_rules env balancers container' rules (acc @ [?rule]) = Some (Inr ((acc @ [?rule]) @ brules, c2))" "container_ok env G c2" "list_all2 (rule_built env) rules brules"
    using Cons.IH [OF b(2) ok(4), of "acc @ [?rule]"] by blast
  have "Init_rules env balancers container (rr # rules) acc = Init_rules env balancers container' rules (acc @ [?rule])"
    using b(1) ok(3) by (auto simp: bind_ro_def Let_def)
  moreover have "rule_built env rr ?rule" using b(3,4) by (simp add: rule_built_def Let_def)
  ultimately show ?case using i by (intro exI [of _ "?rule # brules"] exI [of _ c2]) simp
qed simp

lemma find_list_all2:
  assumes "list_all2 R xs ys" "\<And>x y. R x y \<Longrightarrow> P x \<longleftrightarrow> Q y"
  shows "rel_option R (find P xs) (find Q ys)"
  using assms(1) by (induction rule: list_all2_induct) (use assms(2) in auto)

lemma first_rule_built:
  assumes "list_all2 (rule_built env) rules brules" "list_all canonical (ToLower (re_unicode env) (target_domain c))"
  shows "rel_option (rule_built env) (first_rule strategy answer c (rule_holds env c) rules)
    (first_rule strategy answer c (\<lambda>ips rule. list_all (cond_holds env c ips) (ru_Condition rule)) brules)"
proof -
  have f: "rel_option (rule_built env) (find (rule_holds env c ips) rules) (find (\<lambda>rule. list_all (cond_holds env c ips) (ru_Condition rule)) brules)" for ips
    by (rule find_list_all2 [OF assms(1)]) (use assms(2) in \<open>simp add: rule_built_def\<close>)
  show ?thesis unfolding first_rule_def Let_def
    using f [of "if strategy = IpOnDemand \<and> \<not> GetSkipDNSResolve c then resolved_ips answer c else base_ips c"] f [of "resolved_ips answer c"]
    by (cases "find (rule_holds env c (if strategy = IpOnDemand \<and> \<not> GetSkipDNSResolve c then resolved_ips answer c else base_ips c)) rules")
       (auto simp: option_rel_Some1)
qed

lemma rules_wf: "list_all2 (rule_built env) rules brules \<Longrightarrow> list_all (\<lambda>r. list_all cond_wf (ru_Condition r)) brules"
  by (induction rule: list_all2_induct) (auto simp: rule_built_def)

text \<open>The tag that a rule stands for: its own, or what its balancer picks.\<close>

definition target_of :: "balancer_env \<Rightarrow> (gostring \<rightharpoonup> Balancer) \<Rightarrow> RoutingRule \<Rightarrow> gostring result result" where
  "target_of benv balancers rr =
     (case rr_TargetTag rr of
        RoutingRule_BalancingTag btag \<Rightarrow> if btag = [] then Inr (Inr []) else map_sum id fst (PickOutbound benv (the (balancers btag)))
      | RoutingRule_Tag t \<Rightarrow> Inr (Inr t)
      | NoTarget \<Rightarrow> Inr (Inr []))"

text \<open>The attributes that a rule sets: the last value given for each key, of the entries that are present and have one.\<close>

definition attributes_of :: "SetAttribute option list \<Rightarrow> gostring \<rightharpoonup> gostring" where
  "attributes_of attrs = map_of (rev (map (\<lambda>a. (sa_Key a, sa_Value a)) (filter (\<lambda>a. sa_Key a \<noteq> []) (List.map_filter id attrs))))"

definition attribute_map :: "(gostring \<times> gostring) list option \<Rightarrow> gostring \<rightharpoonup> gostring" where
  "attribute_map m = (case m of None \<Rightarrow> Map.empty | Some m \<Rightarrow> map_of m)"

lemma attributes_of_Cons: "attributes_of (a # attrs) = map_of (attr_put [] a) ++ attributes_of attrs"
  by (auto simp: attributes_of_def attr_put_def split: option.splits)

lemma map_of_attr_put: "map_of (attr_put m a) = map_of m ++ map_of (attr_put [] a)"
  by (auto simp: attr_put_def update_conv' split: option.splits)

lemma attr_puts: "map_of (foldl attr_put m attrs) = map_of m ++ attributes_of attrs"
proof (induction attrs arbitrary: m)
  case (Cons a attrs)
  show ?case unfolding foldl_Cons Cons.IH attributes_of_Cons map_of_attr_put [of m] by simp
qed (simp add: attributes_of_def)

lemma distinct_attr_puts: "distinct (map fst m) \<Longrightarrow> distinct (map fst (foldl attr_put m attrs))"
proof (induction attrs arbitrary: m)
  case (Cons a attrs)
  have "distinct (map fst (attr_put m a))" using Cons.prems distinct_update [of m] by (auto simp: attr_put_def split: option.splits)
  then show ?case using Cons.IH by simp
qed simp

text \<open>The copy that \<^verbatim>\<open>GetSessionAttributes\<close> makes.\<close>

lemma copy_attributes:
  assumes "distinct (map fst m)"
  shows "map_of (foldl (\<lambda>out (key, value). AList.update key value out) [] m) = map_of m"
proof -
  have "map_of (foldl (\<lambda>out (key, value). AList.update key value out) acc m) = map_of acc ++ map_of m" if "distinct (map fst m)" for acc
    using that
  proof (induction m arbitrary: acc)
    case (Cons kv m)
    obtain k v where kv: "kv = (k, v)" by fastforce
    have "map_of m k = None" using Cons.prems by (simp add: kv map_of_eq_None_iff)
    then show ?case using Cons by (auto simp: kv update_conv' fun_eq_iff map_add_def split: option.splits)
  qed simp
  with assms show ?thesis by simp
qed

lemma route_attributes:
  assumes "distinct (map fst attrs)"
  shows "attribute_map (GetSessionAttributes (Some \<lparr>rt_Context = ctx, rt_outboundTag = t, rt_sessionAttributes = if attrs = [] then None else Some attrs\<rparr>)) = map_of attrs"
  using copy_attributes [OF assms] by (simp add: GetSessionAttributes_def attribute_map_def)

text \<open>What the chosen rule makes of the route.\<close>

lemma PickRoute_rule:
  assumes "pickRouteInternal env LookupIP r ctx d = Inr (Inr (rule, ctx'), d')" "rule_built env rr rule"
    "RoutingRule_GetBalancingTag (rr_TargetTag rr) = [] \<or> r_balancers r (RoutingRule_GetBalancingTag (rr_TargetTag rr)) \<noteq> None"
  shows "case target_of benv (r_balancers r) rr of
      Inl e \<Rightarrow> PickRoute env LookupIP benv r ctx d = Inl e
    | Inr (Inl e) \<Rightarrow> \<exists>r' d'. PickRoute env LookupIP benv r ctx d = Inr (Inl e, r', d')
    | Inr (Inr t) \<Rightarrow> \<exists>route r' d'. PickRoute env LookupIP benv r ctx d = Inr (Inr route, r', d') \<and> GetOutboundTag route = t
        \<and> attribute_map (GetSessionAttributes (Some route)) = attributes_of (rr_SetAttribute rr)"
proof -
  have rb: "ru_Tag rule = RoutingRule_GetTag (rr_TargetTag rr)" "ru_SetAttributes rule = rr_SetAttribute rr"
    "ru_Balancer rule = (if RoutingRule_GetBalancingTag (rr_TargetTag rr) = [] then None else Some (RoutingRule_GetBalancingTag (rr_TargetTag rr)))"
    using assms(2) by (simp_all add: rule_built_def Let_def)
  let ?attrs = "foldl attr_put [] (rr_SetAttribute rr)"
  have attrs: "map_of ?attrs = attributes_of (rr_SetAttribute rr)" "distinct (map fst ?attrs)" using attr_puts [of "[]"] distinct_attr_puts [of "[]"] by simp_all
  obtain bs where tag: "Rule_GetTag benv rule (r_balancers r) = (case target_of benv (r_balancers r) rr of Inl e \<Rightarrow> Inl e | Inr t \<Rightarrow> Inr (t, bs))"
  proof (cases "ru_Balancer rule")
    case None
    then have "Rule_GetTag benv rule (r_balancers r) = (case target_of benv (r_balancers r) rr of Inl e \<Rightarrow> Inl e | Inr t \<Rightarrow> Inr (t, r_balancers r))"
      by (cases "rr_TargetTag rr") (auto simp: Rule_GetTag_def target_of_def rb split: if_splits)
    then show ?thesis by (rule that)
  next
    case (Some btag)
    then obtain b where b: "rr_TargetTag rr = RoutingRule_BalancingTag btag" "btag \<noteq> []" "r_balancers r btag = Some b"
      using assms(3) by (cases "rr_TargetTag rr") (auto simp: rb split: if_splits)
    show ?thesis
      by (cases "PickOutbound benv b") (use Some b that [of "(r_balancers r)(btag \<mapsto> b')" for b'] in \<open>auto simp: Rule_GetTag_def target_of_def\<close>)
  qed
  have pick: "PickRoute env LookupIP benv r ctx d = (case target_of benv (r_balancers r) rr of
      Inl e \<Rightarrow> Inl e
    | Inr (Inl e) \<Rightarrow> Inr (Inl e, r\<lparr>r_balancers := bs\<rparr>, d')
    | Inr (Inr t) \<Rightarrow> Inr (Inr \<lparr>rt_Context = ctx', rt_outboundTag = t, rt_sessionAttributes = if ?attrs = [] then None else Some ?attrs\<rparr>, r\<lparr>r_balancers := bs\<rparr>, d'))"
    unfolding PickRoute_def assms(1) by (auto simp: tag rb Let_def split: sum.splits)
  show ?thesis unfolding pick using route_attributes [OF attrs(2)] attrs(1) by (auto simp: GetOutboundTag_def split: sum.splits)
qed

section \<open>Shutting down\<close>

text \<open>
  The bookkeeping of \<^verbatim>\<open>pickRouteInternal\<close> and \<^verbatim>\<open>Close\<close>, step by step. A call of \<^verbatim>\<open>pickRouteInternal\<close> reads \<^verbatim>\<open>r.closed\<close>
  without the lock, then enters the task list, and leaves it in the deferred function; \<open>sd_checked\<close> counts the calls between the first two steps,
  \<open>sd_tasks\<close> those in the list. \<^verbatim>\<open>Close\<close> sets \<^verbatim>\<open>r.closed\<close> without the lock, then looks at the list; its goroutine frees the rules once \<^verbatim>\<open>r.done\<close>
  is closed. Closing a closed channel panics. One call of \<^verbatim>\<open>Close\<close> is made.
\<close>

datatype close_pc = NotCalled | ClosedSet | Waiting | Freed

record shutdown =
  sd_closed :: bool
  sd_checked :: nat
  sd_tasks :: nat
  sd_done :: bool
  sd_panic :: bool
  sd_pc :: close_pc

definition shutdown_init :: shutdown where
  "shutdown_init = \<lparr>sd_closed = False, sd_checked = 0, sd_tasks = 0, sd_done = False, sd_panic = False, sd_pc = NotCalled\<rparr>"

definition close_done :: "shutdown \<Rightarrow> shutdown" where
  "close_done s = (if sd_done s then s\<lparr>sd_panic := True\<rparr> else s\<lparr>sd_done := True\<rparr>)"

definition pick_check :: "shutdown \<Rightarrow> shutdown" where
  "pick_check s = (if sd_closed s then s else s\<lparr>sd_checked := sd_checked s + 1\<rparr>)"

definition pick_push :: "shutdown \<Rightarrow> shutdown" where
  "pick_push s = s\<lparr>sd_checked := sd_checked s - 1, sd_tasks := sd_tasks s + 1\<rparr>"

definition pick_finish :: "shutdown \<Rightarrow> shutdown" where
  "pick_finish s =
     (let s = s\<lparr>sd_tasks := sd_tasks s - 1\<rparr> in if sd_tasks s = 0 \<and> sd_closed s then close_done s else s)"

definition close_set :: "shutdown \<Rightarrow> shutdown" where
  "close_set s = s\<lparr>sd_closed := True, sd_pc := ClosedSet\<rparr>"

definition close_locked :: "shutdown \<Rightarrow> shutdown" where
  "close_locked s = (let s = s\<lparr>sd_pc := Waiting\<rparr> in if sd_tasks s = 0 then close_done s else s)"

definition close_free :: "shutdown \<Rightarrow> shutdown" where
  "close_free s = s\<lparr>sd_pc := Freed\<rparr>"

inductive shutdown_step :: "shutdown \<Rightarrow> shutdown \<Rightarrow> bool" where
  check: "shutdown_step s (pick_check s)"
| push: "sd_checked s > 0 \<Longrightarrow> shutdown_step s (pick_push s)"
| finish: "sd_tasks s > 0 \<Longrightarrow> shutdown_step s (pick_finish s)"
| set: "sd_pc s = NotCalled \<Longrightarrow> shutdown_step s (close_set s)"
| locked: "sd_pc s = ClosedSet \<Longrightarrow> shutdown_step s (close_locked s)"
| free: "sd_pc s = Waiting \<Longrightarrow> sd_done s \<Longrightarrow> shutdown_step s (close_free s)"

lemmas shutdown_defs = close_done_def pick_check_def pick_push_def pick_finish_def close_set_def close_locked_def close_free_def Let_def

lemma shutdown_run:
  "shutdown_step\<^sup>*\<^sup>* a s \<Longrightarrow> shutdown_step\<^sup>*\<^sup>* a (pick_check s)"
  "shutdown_step\<^sup>*\<^sup>* a s \<Longrightarrow> sd_checked s > 0 \<Longrightarrow> shutdown_step\<^sup>*\<^sup>* a (pick_push s)"
  "shutdown_step\<^sup>*\<^sup>* a s \<Longrightarrow> sd_tasks s > 0 \<Longrightarrow> shutdown_step\<^sup>*\<^sup>* a (pick_finish s)"
  "shutdown_step\<^sup>*\<^sup>* a s \<Longrightarrow> sd_pc s = NotCalled \<Longrightarrow> shutdown_step\<^sup>*\<^sup>* a (close_set s)"
  "shutdown_step\<^sup>*\<^sup>* a s \<Longrightarrow> sd_pc s = ClosedSet \<Longrightarrow> shutdown_step\<^sup>*\<^sup>* a (close_locked s)"
  "shutdown_step\<^sup>*\<^sup>* a s \<Longrightarrow> sd_pc s = Waiting \<Longrightarrow> sd_done s \<Longrightarrow> shutdown_step\<^sup>*\<^sup>* a (close_free s)"
  by (blast intro: rtranclp.rtrancl_into_rtrancl shutdown_step.intros)+

text \<open>Before \<^verbatim>\<open>Close\<close> is called nothing is closed.\<close>

lemma shutdown_before:
  "shutdown_step\<^sup>*\<^sup>* shutdown_init s \<Longrightarrow> (sd_closed s \<longleftrightarrow> sd_pc s \<noteq> NotCalled) \<and> (sd_pc s = NotCalled \<longrightarrow> \<not> sd_done s \<and> \<not> sd_panic s)"
  by (induction rule: rtranclp_induct) (auto simp: shutdown_init_def shutdown_defs elim!: shutdown_step.cases split: if_splits)

text \<open>A run in which \<^verbatim>\<open>Close\<close> finds no call under way.\<close>

lemma shutdown_idle:
  assumes "shutdown_step\<^sup>*\<^sup>* (close_set s) s'" "sd_checked s = 0" "sd_tasks s = 0" "\<not> sd_done s" "\<not> sd_panic s"
  shows "sd_closed s' \<and> sd_checked s' = 0 \<and> sd_tasks s' = 0 \<and> \<not> sd_panic s' \<and> sd_pc s' \<noteq> NotCalled \<and> (sd_done s' \<longleftrightarrow> sd_pc s' \<noteq> ClosedSet)"
  using assms(1) by (induction rule: rtranclp_induct) (use assms(2-) in \<open>auto elim!: shutdown_step.cases simp: shutdown_defs split: if_splits\<close>)

section \<open>Properties\<close>



text \<open>
  C27: If \<^verbatim>\<open>Close\<close> is called while no \<^verbatim>\<open>PickRoute\<close> is under way, no later step panics, the rules are freed only when nothing uses them, and the
  goroutine that frees them is never left waiting: as soon as \<^verbatim>\<open>Close\<close> has returned \<^verbatim>\<open>r.done\<close> is closed.
\<close>

theorem router_close_idle:
  assumes "shutdown_step\<^sup>*\<^sup>* shutdown_init s" "sd_pc s = NotCalled" "sd_checked s = 0" "sd_tasks s = 0" "shutdown_step\<^sup>*\<^sup>* (close_set s) s'"
  shows "\<not> sd_panic s' \<and> (sd_pc s' = Freed \<longrightarrow> sd_checked s' = 0 \<and> sd_tasks s' = 0) \<and> (sd_pc s' = Waiting \<longrightarrow> sd_done s')"
  using shutdown_idle [OF assms(5,3,4)] shutdown_before [OF assms(1)] assms(2) by simp

theorem router_close_idle_witness: "\<not> sd_panic (close_free (close_locked (close_set shutdown_init)))"
proof -
  have "shutdown_step\<^sup>*\<^sup>* (close_set shutdown_init) (close_free (close_locked (close_set shutdown_init)))"
    by (rule shutdown_run(6), rule shutdown_run(5)) (simp_all add: shutdown_defs shutdown_init_def)
  from router_close_idle [OF rtranclp.rtrancl_refl _ _ _ this] show ?thesis by (simp add: shutdown_init_def)
qed

text \<open>
  C28: If one \<^verbatim>\<open>PickRoute\<close> is under way when \<^verbatim>\<open>Close\<close> is called, the router may panic by closing \<^verbatim>\<open>r.done\<close> twice: both when the call ends
  between the write of \<^verbatim>\<open>r.closed\<close> and the locked section of \<^verbatim>\<open>Close\<close>, and when it has passed the check of \<^verbatim>\<open>r.closed\<close> and enters the task list after that section.
\<close>

theorem router_close_race:
  "shutdown_step\<^sup>*\<^sup>* shutdown_init (close_locked (pick_finish (close_set (pick_push (pick_check shutdown_init)))))
   \<and> sd_panic (close_locked (pick_finish (close_set (pick_push (pick_check shutdown_init)))))
   \<and> shutdown_step\<^sup>*\<^sup>* shutdown_init (pick_finish (pick_push (close_locked (close_set (pick_check shutdown_init)))))
   \<and> sd_panic (pick_finish (pick_push (close_locked (close_set (pick_check shutdown_init)))))"
proof (intro conjI)
  show "shutdown_step\<^sup>*\<^sup>* shutdown_init (close_locked (pick_finish (close_set (pick_push (pick_check shutdown_init)))))"
    by (rule shutdown_run(5), rule shutdown_run(3), rule shutdown_run(4), rule shutdown_run(2), rule shutdown_run(1)) (simp_all add: shutdown_defs shutdown_init_def)
  show "shutdown_step\<^sup>*\<^sup>* shutdown_init (pick_finish (pick_push (close_locked (close_set (pick_check shutdown_init)))))"
    by (rule shutdown_run(3), rule shutdown_run(2), rule shutdown_run(5), rule shutdown_run(4), rule shutdown_run(1)) (simp_all add: shutdown_defs shutdown_init_def)
qed (simp_all add: shutdown_defs shutdown_init_def)

end
